(* ===== verification/Prelude.thy ===== *)
theory Prelude
  imports Main "HOL-Library.Word"
begin

text \<open>
  Shared vocabulary of the development: the machine integer types of the C sources, the outcome
  type of calls that can block or jump through a null function pointer, little-endian encodings of
  integers in byte arrays, in-place writes into byte arrays, and the generic lemmas on early-exit
  \<open>for\<close> loops (written as \<^const>\<open>find\<close> over an index range) that the components share.
\<close>

unbundle bit_operations_syntax

section \<open>Machine types\<close>

type_synonym u8 = "8 word"
type_synonym u16 = "16 word"
type_synonym u32 = "32 word"
type_synonym u64 = "64 word"

text \<open>A C string: its bytes before the terminating zero.\<close>

type_synonym cstring = "u8 list"

text \<open>\<open>KHEAP_SIZE\<close> of \<open>src/kernel/kernel.h\<close>: the bytes of the kernel heap.\<close>

definition KHEAP_SIZE :: u64 where "KHEAP_SIZE = 1048576"

named_theorems frame_simps \<open>fields an operation leaves alone\<close>
named_theorems inv_intros \<open>preservation of the components' invariants\<close>

section \<open>Early-exit loops\<close>

text \<open>
  A C loop \<open>for (i = a; i < n; i++) if (P(i)) return i;\<close> is \<open>find P [a..<n]\<close>: the result is the
  least index of the range that satisfies the test, and \<^const>\<open>None\<close> is the fall-through.
\<close>

lemma find_upt_Some:
  "find P [a..<n] = Some i \<longleftrightarrow> a \<le> i \<and> i < n \<and> P i \<and> (\<forall>j. a \<le> j \<and> j < i \<longrightarrow> \<not> P j)"
  (is "?L \<longleftrightarrow> ?R")
proof
  assume ?L
  then obtain k where k: "k < n - a" "P (a + k)" "i = a + k" "\<forall>j<k. \<not> P (a + j)"
    by (auto simp: find_Some_iff)
  have "\<not> P j" if "a \<le> j" "j < i" for j
    using k(3) k(4)[rule_format, of "j - a"] that by auto
  with k show ?R by auto
next
  assume R: ?R
  then have "i - a < length [a..<n]" "[a..<n] ! (i - a) = i" by auto
  moreover have "\<forall>j<i - a. \<not> P ([a..<n] ! j)" using R by auto
  ultimately show ?L
    using R unfolding find_Some_iff by (intro exI[of _ "i - a"]) auto
qed

lemma find_upt_None: "find P [a..<n] = None \<longleftrightarrow> (\<forall>i. a \<le> i \<and> i < n \<longrightarrow> \<not> P i)"
  by (auto simp: find_None_iff)

lemma find_upt_ex: "a \<le> i \<Longrightarrow> i < n \<Longrightarrow> P i \<Longrightarrow> \<exists>k. find P [a..<n] = Some k \<and> k \<le> i"
proof -
  assume a: "a \<le> i" "i < n" "P i"
  then obtain k where k: "find P [a..<n] = Some k"
    by (cases "find P [a..<n]") (auto simp: find_upt_None)
  with a have "k \<le> i" by (auto simp: find_upt_Some not_less[symmetric])
  with k show ?thesis by blast
qed

lemma find_cong_range:
  "(\<And>i. a \<le> i \<Longrightarrow> i < n \<Longrightarrow> P i = Q i) \<Longrightarrow> find P [a..<n] = find Q [a..<n]"
  by (rule find_cong) auto

section \<open>In-place writes\<close>

lemma nth_upd: "xs[i := v] ! j = (if i = j \<and> i < length xs then v else xs ! j)"
  by (cases "i < length xs") (auto simp: nth_list_update list_update_beyond)

text \<open>\<open>blit xs k ys\<close> overwrites the elements of \<open>xs\<close> from index \<open>k\<close> on by \<open>ys\<close>.\<close>

definition blit :: "'a list \<Rightarrow> nat \<Rightarrow> 'a list \<Rightarrow> 'a list" where
  "blit xs k ys = take k xs @ ys @ drop (k + length ys) xs"

lemma length_blit [simp]: "k + length ys \<le> length xs \<Longrightarrow> length (blit xs k ys) = length xs"
  by (simp add: blit_def)

lemma nth_blit:
  "k + length ys \<le> length xs \<Longrightarrow> i < length xs \<Longrightarrow>
   blit xs k ys ! i = (if k \<le> i \<and> i < k + length ys then ys ! (i - k) else xs ! i)"
  by (auto simp: blit_def nth_append min_def)

lemma blit_Nil [simp]: "blit xs k [] = xs"
  by (simp add: blit_def)

lemma take_drop_blit_same:
  "k + length ys \<le> length xs \<Longrightarrow> take (length ys) (drop k (blit xs k ys)) = ys"
  by (simp add: blit_def)

lemma take_drop_blit_before:
  "k + length ys \<le> length xs \<Longrightarrow> j + n \<le> k \<Longrightarrow> take n (drop j (blit xs k ys)) = take n (drop j xs)"
  by (rule nth_equalityI) (auto simp: nth_blit)

lemma take_drop_blit_after:
  "k + length ys \<le> length xs \<Longrightarrow> k + length ys \<le> j \<Longrightarrow>
   take n (drop j (blit xs k ys)) = take n (drop j xs)"
  by (rule nth_equalityI) (auto simp: nth_blit)

lemmas take_drop_blit = take_drop_blit_before take_drop_blit_after

section \<open>Little-endian integers\<close>

primrec le_enc :: "nat \<Rightarrow> 'a::len word \<Rightarrow> u8 list" where
  "le_enc 0 w = []"
| "le_enc (Suc n) w = ucast w # le_enc n (drop_bit 8 w)"

primrec le_dec :: "u8 list \<Rightarrow> 'a::len word" where
  "le_dec [] = 0"
| "le_dec (b # bs) = ucast b OR push_bit 8 (le_dec bs)"

lemma length_le_enc [simp]: "length (le_enc n w) = n"
  by (induction n arbitrary: w) auto

lemma le_dec_enc: "le_dec (le_enc n w) = take_bit (8 * n) (w :: 'a::len word)"
proof (induction n arbitrary: w)
  case 0
  show ?case by simp
next
  case (Suc n)
  have "ucast (ucast w :: u8) OR push_bit 8 (take_bit (8 * n) (drop_bit 8 w))
      = take_bit (8 * Suc n) (w :: 'a word)"
    by (rule bit_word_eqI) (auto simp: bit_simps not_less)
  then show ?case by (simp add: Suc.IH)
qed

lemma le_dec_enc_id: "LENGTH('a) \<le> 8 * n \<Longrightarrow> le_dec (le_enc n (w :: 'a::len word)) = w"
  by (simp add: le_dec_enc take_bit_word_eq_self)

lemma le_enc_inject:
  "LENGTH('a) \<le> 8 * n \<Longrightarrow> le_enc n (v :: 'a::len word) = le_enc n w \<longleftrightarrow> v = w"
  by (metis le_dec_enc_id)

text \<open>Reading and writing integers at a byte offset, as the C code does through casted pointers.\<close>

definition rd16 :: "u8 list \<Rightarrow> nat \<Rightarrow> u16" where "rd16 bs k = le_dec (take 2 (drop k bs))"
definition rd32 :: "u8 list \<Rightarrow> nat \<Rightarrow> u32" where "rd32 bs k = le_dec (take 4 (drop k bs))"
definition rd64 :: "u8 list \<Rightarrow> nat \<Rightarrow> u64" where "rd64 bs k = le_dec (take 8 (drop k bs))"

definition wr16 :: "u8 list \<Rightarrow> nat \<Rightarrow> u16 \<Rightarrow> u8 list" where "wr16 bs k w = blit bs k (le_enc 2 w)"
definition wr32 :: "u8 list \<Rightarrow> nat \<Rightarrow> u32 \<Rightarrow> u8 list" where "wr32 bs k w = blit bs k (le_enc 4 w)"
definition wr64 :: "u8 list \<Rightarrow> nat \<Rightarrow> u64 \<Rightarrow> u8 list" where "wr64 bs k w = blit bs k (le_enc 8 w)"

lemma length_wr [simp]:
  "k + 2 \<le> length bs \<Longrightarrow> length (wr16 bs k v) = length bs"
  "k + 4 \<le> length bs \<Longrightarrow> length (wr32 bs k w) = length bs"
  "k + 8 \<le> length bs \<Longrightarrow> length (wr64 bs k x) = length bs"
  by (simp_all add: wr16_def wr32_def wr64_def)

lemma rd16_wr16: "k + 2 \<le> length bs \<Longrightarrow> rd16 (wr16 bs k v) k = v"
  using take_drop_blit_same[of k "le_enc 2 v" bs] by (simp add: rd16_def wr16_def le_dec_enc_id)

lemma rd32_wr32: "k + 4 \<le> length bs \<Longrightarrow> rd32 (wr32 bs k v) k = v"
  using take_drop_blit_same[of k "le_enc 4 v" bs] by (simp add: rd32_def wr32_def le_dec_enc_id)

lemma rd64_wr64: "k + 8 \<le> length bs \<Longrightarrow> rd64 (wr64 bs k v) k = v"
  using take_drop_blit_same[of k "le_enc 8 v" bs] by (simp add: rd64_def wr64_def le_dec_enc_id)

text \<open>Byte-addressed memory: an \<open>n\<close>-byte little-endian load at an address.\<close>

type_synonym memory = "u64 \<Rightarrow> u8"

definition load_bytes :: "nat \<Rightarrow> memory \<Rightarrow> u64 \<Rightarrow> u8 list" where
  "load_bytes n m a = map (\<lambda>i. m (a + of_nat i)) [0..<n]"

definition load32 :: "memory \<Rightarrow> u64 \<Rightarrow> u32" where "load32 m a = le_dec (load_bytes 4 m a)"
definition load64 :: "memory \<Rightarrow> u64 \<Rightarrow> u64" where "load64 m a = le_dec (load_bytes 8 m a)"

lemma load32_eq: "load32 m a = le_dec [m a, m (a + 1), m (a + 2), m (a + 3)]"
  by (simp add: load32_def load_bytes_def upt_conv_Cons)

lemma load64_eq: "load64 m a =
    le_dec [m a, m (a + 1), m (a + 2), m (a + 3), m (a + 4), m (a + 5), m (a + 6), m (a + 7)]"
  by (simp add: load64_def load_bytes_def upt_conv_Cons)

text \<open>Storing bytes from an address on.\<close>

definition store_bytes :: "memory \<Rightarrow> u64 \<Rightarrow> u8 list \<Rightarrow> memory" where
  "store_bytes m a bs = (\<lambda>x. if unat (x - a) < length bs then bs ! unat (x - a) else m x)"

section \<open>Words and naturals\<close>

lemma div_mod_step: "a mod m + j < m \<Longrightarrow> (a + j) div m = a div m \<and> (a + j) mod m = a mod m + (j::nat)"
proof -
  assume r: "a mod m + j < m"
  then have m: "(a + j) mod m = a mod m + j" by (metis mod_add_left_eq mod_less)
  have "(a + j) div m * m + (a mod m + j) = a div m * m + a mod m + j"
    using div_mult_mod_eq[of "a + j" m] div_mult_mod_eq[of a m] m by linarith
  then have "(a + j) div m * m = a div m * m" by linarith
  then show ?thesis using r m by simp
qed

lemma unat_bound: "unat (w :: 'a::len word) < 2 ^ LENGTH('a)"
  by (rule unsigned_less)

lemma of_nat_unat_id: "of_nat (unat w) = (w :: 'a::len word)"
  by simp

lemma unat_ucast_small: "unat w < 2 ^ LENGTH('b) \<Longrightarrow> unat (ucast (w :: 'a::len word) :: 'b::len word) = unat w"
  by (simp add: unsigned_ucast_eq take_bit_nat_eq_self)

lemma unat_ucast_up: "LENGTH('a) \<le> LENGTH('b) \<Longrightarrow> unat (ucast (w :: 'a::len word) :: 'b::len word) = unat w"
  by (rule unat_ucast_small) (rule less_le_trans[OF unat_bound], simp)

lemma unat_add_small: "unat a + unat b < 2 ^ LENGTH('a) \<Longrightarrow> unat (a + b :: 'a::len word) = unat a + unat b"
  by (simp add: unat_word_ariths)

lemma unat_of_nat_small: "n < 2 ^ LENGTH('a) \<Longrightarrow> unat (of_nat n :: 'a::len word) = n"
  by (simp add: unat_of_nat)

lemma unat_sub_le: "b \<le> a \<Longrightarrow> unat (a - b :: 'a::len word) = unat a - unat b"
  by (rule unat_sub)

lemma unat_sub_lt: "n \<noteq> 0 \<Longrightarrow> n \<le> sz \<Longrightarrow> unat (sz - n :: 'a::len word) < unat sz"
  using unat_gt_0[of n] by (simp add: unat_sub word_le_nat_alt)

lemma unat_Suc_small: "unat a + 1 < 2 ^ LENGTH('a) \<Longrightarrow> unat (a + 1 :: 'a::len word) = Suc (unat a)"
  by (simp add: unat_word_ariths)

lemma unat_pred: "a \<noteq> 0 \<Longrightarrow> unat (a - 1 :: 'a::len word) = unat a - 1"
  by (rule unat_minus_one)

lemma sint_small: "unat w < 2 ^ (LENGTH('a) - Suc 0) \<Longrightarrow> sint (w :: 'a::len word) = int (unat w)"
proof -
  assume a: "unat w < 2 ^ (LENGTH('a) - Suc 0)"
  have u: "uint w = int (unat w)" by simp
  from a have "int (unat w) < 2 ^ (LENGTH('a) - Suc 0)" by (metis of_nat_less_iff of_nat_numeral of_nat_power)
  moreover have "- (2 ^ (LENGTH('a) - Suc 0)) \<le> int (unat w)" by (rule order_trans[of _ 0]) simp_all
  ultimately show ?thesis unfolding sint_uint u by (intro signed_take_bit_int_eq_self)
qed

text \<open>Rounding down to a power of two, \<open>x & ~(2^n - 1)\<close>.\<close>

lemma unat_take_bit: "unat (take_bit n x :: 'a::len word) = unat x mod 2 ^ n"
  unfolding unsigned_take_bit_eq by (rule take_bit_eq_mod)

lemma unat_align: "unat (x AND NOT (mask n) :: 'a::len word) = unat x div 2 ^ n * 2 ^ n"
proof -
  have "NOT x AND take_bit n x = 0" by (rule bit_word_eqI) (auto simp: bit_simps)
  then have "x - take_bit n x = x AND NOT (take_bit n x)" by (rule disjunctive_diff_eq_and_not)
  also have "\<dots> = x AND NOT (mask n)" by (rule bit_word_eqI) (auto simp: bit_simps)
  finally have e: "x AND NOT (mask n) = x - take_bit n x" by simp
  have "take_bit n x \<le> x" by (simp add: word_le_nat_alt unat_take_bit)
  then show ?thesis by (simp add: e unat_sub unat_take_bit minus_mod_eq_div_mult)
qed

lemma mask_3: "(7 :: 'a::len word) = mask 3"
  by (simp add: mask_numeral mask_Suc_double)

lemma mask_12: "(0xFFF :: 'a::len word) = mask 12"
  by (simp add: mask_numeral mask_Suc_double)

lemma unat_align8: "unat (x AND NOT 7 :: 'a::len word) = unat x div 8 * 8"
  using unat_align[of x 3] by (simp add: mask_3)

lemma unat_align4096: "unat (x AND NOT 0xFFF :: 'a::len word) = unat x div 4096 * 4096"
  using unat_align[of x 12] by (simp add: mask_12)

section \<open>Pages of memory\<close>

text \<open>
  The 4096 bytes of the page at an address as a list: loads and stores inside a page become \<^const>\<open>take\<close>,
  \<^const>\<open>drop\<close> and \<^const>\<open>blit\<close> on it, and a store to one page leaves the others alone.
\<close>

definition page_bytes :: "memory \<Rightarrow> u64 \<Rightarrow> u8 list" where "page_bytes m P = load_bytes 4096 m P"

definition page_aligned :: "u64 \<Rightarrow> bool" where "page_aligned P \<longleftrightarrow> unat P mod 4096 = 0"

lemma length_load_bytes [simp]: "length (load_bytes n m a) = n"
  by (simp add: load_bytes_def)

lemma length_page_bytes [simp]: "length (page_bytes m P) = 4096"
  by (simp add: page_bytes_def)

lemma load_page: "k + n \<le> 4096 \<Longrightarrow> load_bytes n m (P + of_nat k) = take n (drop k (page_bytes m P))"
  by (rule nth_equalityI) (simp_all add: load_bytes_def page_bytes_def add.assoc)

lemma load_page_start: "n \<le> 4096 \<Longrightarrow> load_bytes n m P = take n (page_bytes m P)"
  using load_page[of 0 n m P] by simp

lemma unat_of_nat_diff:
  assumes "i < 4096" "k < 4096"
  shows "unat (of_nat i - of_nat k :: u64) = (if k \<le> i then i - k else 2 ^ 64 - (k - i))"
proof -
  have "unat (of_nat i :: u64) = i" "unat (of_nat k :: u64) = k" using assms by (simp_all add: unat_of_nat_small)
  then show ?thesis using assms by (auto simp: unat_sub_if' word_size)
qed

lemma page_store: "k + length bs \<le> 4096 \<Longrightarrow> page_bytes (store_bytes m (P + of_nat k) bs) P = blit (page_bytes m P) k bs"
proof (cases "bs = []")
  case False
  assume fit: "k + length bs \<le> 4096"
  then have k: "k < 4096" using False by (cases bs) simp_all
  show ?thesis
  proof (rule nth_equalityI)
    fix i assume "i < length (page_bytes (store_bytes m (P + of_nat k) bs) P)"
    then have i: "i < 4096" by simp
    have "P + of_nat i - (P + of_nat k) = (of_nat i - of_nat k :: u64)" by simp
    with unat_of_nat_diff[OF i k] fit i k show "page_bytes (store_bytes m (P + of_nat k) bs) P ! i = blit (page_bytes m P) k bs ! i"
      by (auto simp: page_bytes_def load_bytes_def store_bytes_def nth_blit)
  qed (use fit in simp)
qed (simp add: store_bytes_def)

lemma page_store_start: "length bs \<le> 4096 \<Longrightarrow> page_bytes (store_bytes m P bs) P = blit (page_bytes m P) 0 bs"
  using page_store[of 0 bs m P] by simp

lemma unat_page_add: "page_aligned P \<Longrightarrow> i < 4096 \<Longrightarrow> unat (P + of_nat i) = unat P + i"
proof -
  assume P: "page_aligned P" and i: "i < 4096"
  have "4096 dvd unat P" using P by (auto simp: page_aligned_def)
  then obtain q where q: "unat P = 4096 * q" by blast
  then have "q < 2 ^ 52" using unat_bound[of P] by simp
  then have "unat P + i < 2 ^ 64" using q i by simp
  then show ?thesis using i by (subst unat_add_small) (simp_all add: unat_of_nat_small)
qed

lemma store_outside:
  assumes P: "page_aligned P" "page_aligned Q" "P \<noteq> Q" and k: "k + length bs \<le> 4096" and i: "i < 4096"
  shows "store_bytes m (P + of_nat k) bs (Q + of_nat i) = m (Q + of_nat i)"
proof (rule ccontr)
  let ?x = "Q + of_nat i" and ?a = "P + of_nat k"
  assume "store_bytes m ?a bs ?x \<noteq> m ?x"
  then have d: "unat (?x - ?a) < length bs" by (auto simp: store_bytes_def split: if_splits)
  have "of_nat (unat (?x - ?a)) = ?x - ?a" by (rule of_nat_unat_id)
  then have "?x = P + of_nat (k + unat (?x - ?a))" by (simp add: algebra_simps)
  then have "unat ?x = unat (P + of_nat (k + unat (?x - ?a)))" by (rule arg_cong)
  also have "\<dots> = unat P + (k + unat (?x - ?a))" using d k by (intro unat_page_add[OF P(1)]) simp
  finally have "unat Q + i = unat P + (k + unat (?x - ?a))" using unat_page_add[OF P(2) i] by simp
  moreover have "k + unat (?x - ?a) < 4096" using d k by simp
  moreover have "4096 dvd unat P" "4096 dvd unat Q" using P(1,2) by (auto simp: page_aligned_def)
  then obtain p q where pq: "unat P = 4096 * p" "unat Q = 4096 * q" by blast
  ultimately have e: "4096 * q + i = 4096 * p + (k + unat (?x - ?a))" "k + unat (?x - ?a) < 4096" by simp_all
  from arg_cong[OF e(1), of "\<lambda>n. n div 4096"] e(2) i have "q = p" by simp
  then have "unat P = unat Q" using pq by simp
  then have "P = Q" by (simp only: word_unat_eq_iff)
  then show False using P(3) by simp
qed

lemma page_store_other:
  "page_aligned P \<Longrightarrow> page_aligned Q \<Longrightarrow> P \<noteq> Q \<Longrightarrow> k + length bs \<le> 4096 \<Longrightarrow>
   page_bytes (store_bytes m (P + of_nat k) bs) Q = page_bytes m Q"
  by (rule nth_equalityI) (simp_all add: page_bytes_def load_bytes_def store_outside)

section \<open>Ranges of memory\<close>

lemma store_bytes_other:
  assumes "unat a + length bs \<le> 2 ^ 64" "unat x < unat a \<or> unat a + length bs \<le> unat x"
  shows "store_bytes m a bs x = m x"
proof -
  have "length bs \<le> unat (x - a)"
  proof (cases "unat a \<le> unat x")
    case True
    then have "unat (x - a) = unat x - unat a" by (intro unat_sub_le) (simp add: word_le_nat_alt)
    then show ?thesis using assms True by linarith
  next
    case False
    then have "unat (x - a) = 2 ^ 64 - (unat a - unat x)"
      using unat_sub_if'[of x a] unat_bound[of a] by (simp add: word_le_nat_alt)
    then show ?thesis using assms False by linarith
  qed
  then show ?thesis by (simp add: store_bytes_def)
qed

lemma load_store_same: "length bs \<le> 2 ^ 64 \<Longrightarrow> load_bytes (length bs) (store_bytes m a bs) a = bs"
  by (rule nth_equalityI) (simp_all add: load_bytes_def store_bytes_def unat_of_nat_small)

lemma load_bytes_cong: "(\<And>i. i < n \<Longrightarrow> m (a + of_nat i) = m' (a + of_nat i)) \<Longrightarrow> load_bytes n m a = load_bytes n m' a"
  by (simp add: load_bytes_def)

lemma unat_range: "unat a + n \<le> 2 ^ 64 \<Longrightarrow> i < n \<Longrightarrow> unat (a + of_nat i :: u64) = unat a + i"
  by (subst unat_add_small) (simp_all add: unat_of_nat_small)

lemma load_store_other:
  assumes "unat a + length bs \<le> 2 ^ 64" "unat x + n \<le> 2 ^ 64" "unat x + n \<le> unat a \<or> unat a + length bs \<le> unat x"
  shows "load_bytes n (store_bytes m a bs) x = load_bytes n m x"
  using assms unat_range[OF assms(2)] by (intro load_bytes_cong store_bytes_other) auto

section \<open>Paths\<close>

text \<open>The components of a path: its non-empty parts between slashes.\<close>

fun path_names :: "cstring \<Rightarrow> cstring \<Rightarrow> cstring list" where
  "path_names acc [] = (if acc = [] then [] else [acc])"
| "path_names acc (c # cs) = (if c = 47 then (if acc = [] then [] else [acc]) @ path_names [] cs else path_names (acc @ [c]) cs)"

lemma path_names_slashes: "path_names [] (dropWhile (\<lambda>c. c = 47) p) = path_names [] p"
  by (induction p) auto

lemma path_names_word:
  "acc @ takeWhile (\<lambda>c. c \<noteq> 47) p \<noteq> [] \<Longrightarrow>
   path_names acc p = (acc @ takeWhile (\<lambda>c. c \<noteq> 47) p) # path_names [] (dropWhile (\<lambda>c. c \<noteq> 47) p)"
  by (induction p arbitrary: acc) auto

end
