(* ===== verification/SwiftfsFormat.thy ===== *)
theory SwiftfsFormat
  imports Prelude
begin

text \<open>
  The on-disk structures of \<open>src/kernel/fs/swiftfs2.h\<close> with their packed little-endian layout: the
  superblock (one 4096-byte block), the group descriptors (32 bytes) and the inodes (106 bytes, kept in
  slots of 128). Directory entries are read and written in place, by offset. For every structure the
  decoder inverts the encoder.
\<close>

section \<open>Structures\<close>

record swiftfs2_super =
  sb_magic :: u64
  sb_block_size :: u64
  sb_num_blocks :: u64
  sb_inode_count :: u64
  sb_free_blocks :: u64
  sb_free_inodes :: u64
  sb_blocks_per_group :: u32
  sb_inodes_per_group :: u32
  sb_group_desc_count :: u32
  sb_inode_size :: u32
  sb_journal_block :: u64
  sb_journal_size :: u64
  sb_journal_last :: u64
  sb_uuid :: "u8 list"
  sb_volume_name :: "u8 list"
  sb_pad :: "u8 list"

record swiftfs2_gd =
  gd_block_bitmap_block :: u32
  gd_inode_table_block :: u32
  gd_free_blocks_count :: u32
  gd_free_inodes_count :: u32
  gd_pad :: "u32 list"

record swiftfs2_inode =
  in_mode :: u16
  in_uid :: u16
  in_gid :: u16
  in_size :: u64
  in_atime :: u32
  in_mtime :: u32
  in_ctime :: u32
  in_block_count :: u32
  in_direct :: "u32 list"
  in_indirect :: u32
  in_double_indirect :: u32
  in_pad :: "u8 list"

section \<open>Arrays of 32-bit words\<close>

definition enc32s :: "u32 list \<Rightarrow> u8 list" where "enc32s ws = concat (map (le_enc 4) ws)"
definition dec32s :: "nat \<Rightarrow> u8 list \<Rightarrow> nat \<Rightarrow> u32 list" where "dec32s n bs k = map (\<lambda>i. rd32 bs (k + 4 * i)) [0..<n]"

lemma length_enc32s [simp]: "length (enc32s ws) = 4 * length ws"
  by (induction ws) (simp_all add: enc32s_def)

lemma length_dec32s [simp]: "length (dec32s n bs k) = n"
  by (simp add: dec32s_def)

lemma enc32s_nth: "i < length ws \<Longrightarrow> take 4 (drop (4 * i) (enc32s ws)) = le_enc 4 (ws ! i)"
proof (induction ws arbitrary: i)
  case (Cons w ws)
  then show ?case by (cases i) (simp_all add: enc32s_def)
qed simp

lemma dec32s_append: "length pre = k \<Longrightarrow> dec32s (length ws) (pre @ enc32s ws @ xs) k = ws"
  by (rule nth_equalityI) (simp_all add: dec32s_def rd32_def enc32s_nth le_dec_enc_id)

section \<open>Encoders and decoders\<close>

definition enc_super :: "swiftfs2_super \<Rightarrow> u8 list" where
  "enc_super s = le_enc 8 (sb_magic s) @ le_enc 8 (sb_block_size s) @ le_enc 8 (sb_num_blocks s) @
     le_enc 8 (sb_inode_count s) @ le_enc 8 (sb_free_blocks s) @ le_enc 8 (sb_free_inodes s) @
     le_enc 4 (sb_blocks_per_group s) @ le_enc 4 (sb_inodes_per_group s) @ le_enc 4 (sb_group_desc_count s) @
     le_enc 4 (sb_inode_size s) @ le_enc 8 (sb_journal_block s) @ le_enc 8 (sb_journal_size s) @
     le_enc 8 (sb_journal_last s) @ sb_uuid s @ sb_volume_name s @ sb_pad s"

definition dec_super :: "u8 list \<Rightarrow> swiftfs2_super" where
  "dec_super bs = \<lparr>sb_magic = rd64 bs 0, sb_block_size = rd64 bs 8, sb_num_blocks = rd64 bs 16,
     sb_inode_count = rd64 bs 24, sb_free_blocks = rd64 bs 32, sb_free_inodes = rd64 bs 40,
     sb_blocks_per_group = rd32 bs 48, sb_inodes_per_group = rd32 bs 52, sb_group_desc_count = rd32 bs 56,
     sb_inode_size = rd32 bs 60, sb_journal_block = rd64 bs 64, sb_journal_size = rd64 bs 72,
     sb_journal_last = rd64 bs 80, sb_uuid = take 16 (drop 88 bs), sb_volume_name = take 32 (drop 104 bs),
     sb_pad = take 3960 (drop 136 bs)\<rparr>"

definition enc_gd :: "swiftfs2_gd \<Rightarrow> u8 list" where
  "enc_gd g = le_enc 4 (gd_block_bitmap_block g) @ le_enc 4 (gd_inode_table_block g) @
     le_enc 4 (gd_free_blocks_count g) @ le_enc 4 (gd_free_inodes_count g) @ enc32s (gd_pad g)"

definition dec_gd :: "u8 list \<Rightarrow> nat \<Rightarrow> swiftfs2_gd" where
  "dec_gd bs k = \<lparr>gd_block_bitmap_block = rd32 bs k, gd_inode_table_block = rd32 bs (k + 4),
     gd_free_blocks_count = rd32 bs (k + 8), gd_free_inodes_count = rd32 bs (k + 12),
     gd_pad = dec32s 4 bs (k + 16)\<rparr>"

definition enc_inode :: "swiftfs2_inode \<Rightarrow> u8 list" where
  "enc_inode i = le_enc 2 (in_mode i) @ le_enc 2 (in_uid i) @ le_enc 2 (in_gid i) @ le_enc 8 (in_size i) @
     le_enc 4 (in_atime i) @ le_enc 4 (in_mtime i) @ le_enc 4 (in_ctime i) @ le_enc 4 (in_block_count i) @
     enc32s (in_direct i) @ le_enc 4 (in_indirect i) @ le_enc 4 (in_double_indirect i) @ in_pad i"

definition dec_inode :: "u8 list \<Rightarrow> swiftfs2_inode" where
  "dec_inode bs = \<lparr>in_mode = rd16 bs 0, in_uid = rd16 bs 2, in_gid = rd16 bs 4, in_size = rd64 bs 6,
     in_atime = rd32 bs 14, in_mtime = rd32 bs 18, in_ctime = rd32 bs 22, in_block_count = rd32 bs 26,
     in_direct = dec32s 12 bs 30, in_indirect = rd32 bs 78, in_double_indirect = rd32 bs 82,
     in_pad = take 20 (drop 86 bs)\<rparr>"

text \<open>\<open>sizeof(swiftfs2_inode_t)\<close> of the packed structure.\<close>

definition INODE_BYTES :: nat where "INODE_BYTES = 106"

definition inode_wf :: "swiftfs2_inode \<Rightarrow> bool" where
  "inode_wf i \<longleftrightarrow> length (in_direct i) = 12 \<and> length (in_pad i) = 20"

definition super_wf :: "swiftfs2_super \<Rightarrow> bool" where
  "super_wf s \<longleftrightarrow> length (sb_uuid s) = 16 \<and> length (sb_volume_name s) = 32 \<and> length (sb_pad s) = 3960"

text \<open>The structure after \<open>memset(&in, 0, sizeof(in))\<close>.\<close>

definition inode_zero :: swiftfs2_inode where
  "inode_zero = \<lparr>in_mode = 0, in_uid = 0, in_gid = 0, in_size = 0, in_atime = 0, in_mtime = 0, in_ctime = 0,
     in_block_count = 0, in_direct = replicate 12 0, in_indirect = 0, in_double_indirect = 0,
     in_pad = replicate 20 0\<rparr>"

lemma inode_zero_wf [simp]: "inode_wf inode_zero"
  by (simp add: inode_wf_def inode_zero_def)

lemma dec_inode_wf [simp]: "106 \<le> length bs \<Longrightarrow> inode_wf (dec_inode bs)"
  by (simp add: inode_wf_def dec_inode_def)

lemma length_enc_inode: "inode_wf i \<Longrightarrow> length (enc_inode i) = INODE_BYTES"
  by (simp add: enc_inode_def inode_wf_def INODE_BYTES_def)

lemma length_enc_super: "super_wf s \<Longrightarrow> length (enc_super s) = 4096"
  by (simp add: enc_super_def super_wf_def)

lemma length_enc_gd: "length (gd_pad g) = 4 \<Longrightarrow> length (enc_gd g) = 32"
  by (simp add: enc_gd_def)

lemmas rd_defs = rd16_def rd32_def rd64_def

lemma dec_enc_inode:
  assumes "inode_wf i"
  shows "dec_inode (enc_inode i @ xs) = i"
proof -
  let ?pre = "le_enc 2 (in_mode i) @ le_enc 2 (in_uid i) @ le_enc 2 (in_gid i) @ le_enc 8 (in_size i) @
     le_enc 4 (in_atime i) @ le_enc 4 (in_mtime i) @ le_enc 4 (in_ctime i) @ le_enc 4 (in_block_count i)"
  have "dec32s (length (in_direct i)) (?pre @ enc32s (in_direct i) @
      le_enc 4 (in_indirect i) @ le_enc 4 (in_double_indirect i) @ in_pad i @ xs) 30 = in_direct i"
    by (rule dec32s_append) simp
  then have "dec32s 12 (enc_inode i @ xs) 30 = in_direct i"
    using assms by (simp add: enc_inode_def inode_wf_def)
  with assms show ?thesis
    by (simp add: dec_inode_def inode_wf_def) (simp add: enc_inode_def rd_defs le_dec_enc_id)
qed

lemma dec_enc_super: "super_wf s \<Longrightarrow> dec_super (enc_super s) = s"
  by (simp add: dec_super_def enc_super_def super_wf_def rd_defs le_dec_enc_id)

lemma dec_enc_gd:
  assumes "length (gd_pad g) = 4" "length pre = k"
  shows "dec_gd (pre @ enc_gd g @ xs) k = g"
proof -
  have "dec32s (length (gd_pad g)) ((pre @ le_enc 4 (gd_block_bitmap_block g) @ le_enc 4 (gd_inode_table_block g) @
     le_enc 4 (gd_free_blocks_count g) @ le_enc 4 (gd_free_inodes_count g)) @ enc32s (gd_pad g) @ xs) (k + 16) = gd_pad g"
    by (rule dec32s_append) (simp add: assms)
  then have "dec32s 4 (pre @ enc_gd g @ xs) (k + 16) = gd_pad g" using assms by (simp add: enc_gd_def)
  with assms show ?thesis by (simp add: dec_gd_def) (simp add: enc_gd_def rd_defs le_dec_enc_id)
qed

section \<open>Directory entries in a block\<close>

definition de_inode :: "u8 list \<Rightarrow> nat \<Rightarrow> u32" where "de_inode data pos = rd32 data pos"
definition de_rec_len :: "u8 list \<Rightarrow> nat \<Rightarrow> u16" where "de_rec_len data pos = rd16 data (pos + 4)"
definition de_name_len :: "u8 list \<Rightarrow> nat \<Rightarrow> u8" where "de_name_len data pos = data ! (pos + 6)"
definition de_name :: "u8 list \<Rightarrow> nat \<Rightarrow> nat \<Rightarrow> u8 list" where "de_name data pos n = take n (drop (pos + 8) data)"

text \<open>\<open>sizeof(swiftfs2_dirent_t)\<close>: the name is a flexible array member.\<close>

definition DIRENT_BYTES :: nat where "DIRENT_BYTES = 8"

end
