(* ===== verification/Allocator.thy ===== *)
theory Allocator
  imports Prelude
begin

text \<open>
  The contract of an allocator of addressed resources, met by the page allocator (\<open>pmm.c\<close>), the
  kernel heap (\<open>kheap.c\<close>) and the block allocator of the file system (\<open>swiftfs2.c\<close>): an allocation
  returns either the null value or a resource that nobody holds, and a release gives back exactly
  the resource it names. Repeated allocations are then pairwise distinct.
\<close>

primrec alloc_many :: "('s \<Rightarrow> 'a \<times> 's) \<Rightarrow> nat \<Rightarrow> 's \<Rightarrow> 'a list \<times> 's" where
  "alloc_many f 0 s = ([], s)"
| "alloc_many f (Suc n) s = (let (a, s1) = f s; (as, s2) = alloc_many f n s1 in (a # as, s2))"

locale allocator =
  fixes alloc :: "'s \<Rightarrow> 'a \<times> 's"
    and release :: "'a \<Rightarrow> 's \<Rightarrow> 's"
    and live :: "'s \<Rightarrow> 'a set"
    and inv :: "'s \<Rightarrow> bool"
    and null :: 'a
  assumes alloc_inv: "inv s \<Longrightarrow> inv (snd (alloc s))"
    and alloc_fresh: "inv s \<Longrightarrow> fst (alloc s) \<noteq> null \<Longrightarrow> fst (alloc s) \<notin> live s"
    and alloc_live: "inv s \<Longrightarrow> live (snd (alloc s)) =
          (if fst (alloc s) = null then live s else insert (fst (alloc s)) (live s))"
    and release_inv: "inv s \<Longrightarrow> a \<in> live s \<Longrightarrow> inv (release a s)"
    and release_live: "inv s \<Longrightarrow> a \<in> live s \<Longrightarrow> live (release a s) = live s - {a}"
begin

lemma alloc_many_inv: "inv s \<Longrightarrow> inv (snd (alloc_many alloc n s))"
  by (induction n arbitrary: s) (auto simp: Let_def case_prod_beta alloc_inv)

lemma alloc_many_live:
  "inv s \<Longrightarrow> live (snd (alloc_many alloc n s)) = live s \<union> (set (fst (alloc_many alloc n s)) - {null})"
  by (induction n arbitrary: s) (auto simp: Let_def case_prod_beta alloc_inv alloc_live)

lemma alloc_live_mono: "inv s \<Longrightarrow> a \<in> live s \<Longrightarrow> a \<in> live (snd (alloc s))"
  by (simp add: alloc_live)

lemma alloc_many_fresh:
  "inv s \<Longrightarrow> a \<in> set (fst (alloc_many alloc n s)) \<Longrightarrow> a \<noteq> null \<Longrightarrow> a \<notin> live s"
  by (induction n arbitrary: s)
     (auto simp: Let_def case_prod_beta alloc_fresh dest: alloc_inv alloc_live_mono)

lemma alloc_many_distinct:
  "inv s \<Longrightarrow> distinct (filter (\<lambda>a. a \<noteq> null) (fst (alloc_many alloc n s)))"
proof (induction n arbitrary: s)
  case 0
  then show ?case by simp
next
  case (Suc n)
  let ?s = "snd (alloc s)"
  have "fst (alloc s) \<notin> set (fst (alloc_many alloc n ?s))" if "fst (alloc s) \<noteq> null"
    using alloc_many_fresh[of ?s "fst (alloc s)" n] Suc.prems that by (auto simp: alloc_inv alloc_live)
  with Suc.IH[of ?s] Suc.prems show ?case by (auto simp: Let_def case_prod_beta alloc_inv)
qed

lemma release_alloc_live:
  "inv s \<Longrightarrow> fst (alloc s) \<noteq> null \<Longrightarrow> live (release (fst (alloc s)) (snd (alloc s))) = live s"
  using release_live[of "snd (alloc s)" "fst (alloc s)"] by (auto simp: alloc_inv alloc_live alloc_fresh)

end

end
