(* ===== verification/Kheap.thy ===== *)
theory Kheap
  imports Allocator
begin

text \<open>
  The kernel heap, \<open>src/kernel/mm/kheap.c\<close>: a first-fit allocator over a fixed pool. The block
  headers form a linked list in address order; the model keeps that list, each header with its
  address. Sizes are 64-bit words, so the rounding of \<open>kmalloc\<close> wraps around as the C code does.
  A \<open>kfree\<close> of an address that is not the payload of a listed block writes to memory outside the
  model and leaves the list as it is.
\<close>

section \<open>State\<close>

record heap_block =
  hb_addr :: u64
  hb_size :: u64
  hb_free :: bool

type_synonym kheap = "heap_block list"

text \<open>\<open>sizeof(struct heap_block)\<close>: a size, an int padded to 8 bytes and a pointer.\<close>

definition HB_SIZE :: u64 where "HB_SIZE = 24"

section \<open>Operations\<close>

definition kheap_init :: "u64 \<Rightarrow> kheap" where
  "kheap_init heap_pool =
     [\<lparr>hb_addr = heap_pool, hb_size = KHEAP_SIZE - HB_SIZE, hb_free = True\<rparr>]"

fun kmalloc_scan :: "u64 \<Rightarrow> kheap \<Rightarrow> (u64 \<times> kheap) option" where
  "kmalloc_scan sz [] = None"
| "kmalloc_scan sz (b # bs) =
     (if hb_free b \<and> hb_size b \<ge> sz then
        (if hb_size b > sz + HB_SIZE then
           Some (hb_addr b + HB_SIZE,
                 b\<lparr>hb_size := sz, hb_free := False\<rparr> #
                 \<lparr>hb_addr = hb_addr b + HB_SIZE + sz, hb_size = hb_size b - sz - HB_SIZE,
                  hb_free = True\<rparr> # bs)
         else Some (hb_addr b + HB_SIZE, b\<lparr>hb_free := False\<rparr> # bs))
      else map_option (\<lambda>(p, bs'). (p, b # bs')) (kmalloc_scan sz bs))"

definition kmalloc_round :: "u64 \<Rightarrow> u64" where
  "kmalloc_round sz = (sz + 8 - 1) AND NOT (8 - 1)"

definition kmalloc :: "u64 \<Rightarrow> kheap \<Rightarrow> u64 \<times> kheap" where
  "kmalloc sz h = (case kmalloc_scan (kmalloc_round sz) h of Some r \<Rightarrow> r | None \<Rightarrow> (0, h))"

text \<open>
  One pass over the list: a free block absorbs its successor if that is free too, and the walk then
  moves on to the block after the absorbed one.
\<close>

fun kfree_merge :: "kheap \<Rightarrow> kheap" where
  "kfree_merge (a # b # bs) =
     (if hb_free a \<and> hb_free b
      then a\<lparr>hb_size := hb_size a + (HB_SIZE + hb_size b)\<rparr> # kfree_merge bs
      else a # kfree_merge (b # bs))"
| "kfree_merge bs = bs"

definition kfree :: "u64 \<Rightarrow> kheap \<Rightarrow> kheap" where
  "kfree ptr h =
     (if ptr = 0 then h
      else kfree_merge (map (\<lambda>b. if hb_addr b = ptr - HB_SIZE then b\<lparr>hb_free := True\<rparr> else b) h))"

section \<open>Tiling invariant\<close>

text \<open>
  The blocks tile the pool: each header sits where the previous block ends, the last block ends at
  the end of the pool, and every sz is a multiple of the alignment.
\<close>

fun tiles :: "nat \<Rightarrow> kheap \<Rightarrow> nat \<Rightarrow> bool" where
  "tiles a [] e \<longleftrightarrow> a = e"
| "tiles a (b # bs) e \<longleftrightarrow>
     unat (hb_addr b) = a \<and> 8 dvd unat (hb_size b) \<and> tiles (a + 24 + unat (hb_size b)) bs e"

definition kheap_inv :: "u64 \<Rightarrow> kheap \<Rightarrow> bool" where
  "kheap_inv pool h \<longleftrightarrow> 0 < unat pool \<and> unat pool + 1048576 < 2 ^ 64 \<and>
     tiles (unat pool) h (unat pool + 1048576)"

text \<open>The payload regions \<open>[p, p + n)\<close> of the blocks in use.\<close>

definition live_regions :: "kheap \<Rightarrow> (nat \<times> nat) set" where
  "live_regions h = set (map (\<lambda>b. (unat (hb_addr b) + 24, unat (hb_size b))) (filter (\<lambda>b. \<not> hb_free b) h))"

definition live_ptrs :: "kheap \<Rightarrow> u64 set" where
  "live_ptrs h = set (map (\<lambda>b. hb_addr b + HB_SIZE) (filter (\<lambda>b. \<not> hb_free b) h))"

lemma tiles_le: "tiles a h e \<Longrightarrow> a \<le> e"
  by (induction a h e rule: tiles.induct) auto

lemma tiles_block:
  "tiles a h e \<Longrightarrow> b \<in> set h \<Longrightarrow> a \<le> unat (hb_addr b) \<and> unat (hb_addr b) + 24 + unat (hb_size b) \<le> e"
  by (induction a h e rule: tiles.induct) (auto dest: tiles_le)

lemma tiles_append: "tiles a (xs @ ys) e \<longleftrightarrow> (\<exists>m. tiles a xs m \<and> tiles m ys e)"
  by (induction xs arbitrary: a) auto

lemma tiles_addr_inj:
  "tiles a h e \<Longrightarrow> b \<in> set h \<Longrightarrow> c \<in> set h \<Longrightarrow> hb_addr b = hb_addr c \<Longrightarrow> b = c"
  by (induction a h e rule: tiles.induct) (auto dest: tiles_block)

text \<open>Distinct blocks of a tiling do not overlap, headers included.\<close>

lemma tiles_disjoint:
  assumes "tiles a h e" "b \<in> set h" "c \<in> set h" "b \<noteq> c"
  shows "unat (hb_addr b) + 24 + unat (hb_size b) \<le> unat (hb_addr c) \<or>
         unat (hb_addr c) + 24 + unat (hb_size c) \<le> unat (hb_addr b)"
  using assms by (induction a h e rule: tiles.induct) (auto dest: tiles_block)

section \<open>Allocation\<close>

text \<open>What \<open>kmalloc_scan\<close> puts in place of the chosen block \<open>b\<close>.\<close>

definition placed :: "u64 \<Rightarrow> heap_block \<Rightarrow> kheap" where
  "placed sz b = (if hb_size b > sz + HB_SIZE
     then [b\<lparr>hb_size := sz, hb_free := False\<rparr>,
           \<lparr>hb_addr = hb_addr b + HB_SIZE + sz, hb_size = hb_size b - sz - HB_SIZE, hb_free = True\<rparr>]
     else [b\<lparr>hb_free := False\<rparr>])"

lemma kmalloc_scan_Some:
  "kmalloc_scan sz h = Some (p, h') \<Longrightarrow>
   \<exists>xs b ys. h = xs @ b # ys \<and> hb_free b \<and> sz \<le> hb_size b \<and> p = hb_addr b + HB_SIZE \<and>
     h' = xs @ placed sz b @ ys \<and> (\<forall>x\<in>set xs. \<not> (hb_free x \<and> sz \<le> hb_size x))"
proof (induction sz h arbitrary: p h' rule: kmalloc_scan.induct)
  case (2 sz b bs)
  show ?case
  proof (cases "hb_free b \<and> sz \<le> hb_size b")
    case True
    with "2.prems" show ?thesis
      by (intro exI[of _ "[]"] exI[of _ b] exI[of _ bs]) (auto simp: placed_def split: if_splits)
  next
    case False
    with "2.prems" obtain h1 where h1: "kmalloc_scan sz bs = Some (p, h1)" "h' = b # h1"
      by (auto simp: split: if_splits)
    from "2.IH"[OF False h1(1)] obtain xs c ys where "bs = xs @ c # ys" "hb_free c" "sz \<le> hb_size c"
      "p = hb_addr c + HB_SIZE" "h1 = xs @ placed sz c @ ys"
      "\<forall>x\<in>set xs. \<not> (hb_free x \<and> sz \<le> hb_size x)" by blast
    with False h1(2) show ?thesis by (intro exI[of _ "b # xs"] exI[of _ c] exI[of _ ys]) auto
  qed
qed simp

lemma kmalloc_scan_None: "kmalloc_scan sz h = None \<longleftrightarrow> (\<forall>b\<in>set h. \<not> (hb_free b \<and> sz \<le> hb_size b))"
  by (induction sz h rule: kmalloc_scan.induct) auto

lemma unat_place:
  assumes "unat (hb_addr b) + 24 + unat (hb_size b) < 2 ^ 64" "sz + HB_SIZE < hb_size b" "sz \<le> hb_size b"
  shows "unat (hb_addr b + HB_SIZE + sz) = unat (hb_addr b) + 24 + unat sz"
    and "unat (hb_size b - sz - HB_SIZE) = unat (hb_size b) - unat sz - 24"
    and "unat sz + 24 < unat (hb_size b)"
proof -
  have sz: "unat (sz + HB_SIZE) = unat sz + 24"
    using assms(1,3) by (intro trans[OF unat_add_small]) (auto simp: HB_SIZE_def word_le_nat_alt)
  with assms(2) show lt: "unat sz + 24 < unat (hb_size b)" by (simp add: word_less_nat_alt)
  have "unat (hb_addr b + HB_SIZE) = unat (hb_addr b) + 24"
    using assms(1) by (intro trans[OF unat_add_small]) (auto simp: HB_SIZE_def)
  then show "unat (hb_addr b + HB_SIZE + sz) = unat (hb_addr b) + 24 + unat sz"
    using assms(1) lt by (intro trans[OF unat_add_small]) auto
  have eq: "hb_size b - sz - HB_SIZE = hb_size b - (sz + HB_SIZE)" by simp
  show "unat (hb_size b - sz - HB_SIZE) = unat (hb_size b) - unat sz - 24"
    unfolding eq using assms(2) sz unat_sub_le[of "sz + HB_SIZE" "hb_size b"] by simp
qed

lemma placed_tiles:
  assumes "tiles a [b] m" "m < 2 ^ 64" "8 dvd unat sz" "sz \<le> hb_size b"
  shows "tiles a (placed sz b) m"
proof (cases "hb_size b > sz + HB_SIZE")
  case True
  have "unat (hb_addr b) + 24 + unat (hb_size b) < 2 ^ 64" using assms(1,2) by simp
  from unat_place[OF this True assms(4)] True assms show ?thesis
    by (auto simp: placed_def intro!: dvd_diff_nat)
qed (use assms in \<open>simp add: placed_def\<close>)

lemma placed_regions:
  assumes "unat (hb_addr b) + 24 + unat (hb_size b) < 2 ^ 64" "hb_free b" "sz \<le> hb_size b"
  shows "\<exists>n\<ge>unat sz. live_regions (xs @ placed sz b @ ys) =
           insert (unat (hb_addr b + HB_SIZE), n) (live_regions (xs @ b # ys))"
    and "live_ptrs (xs @ placed sz b @ ys) = insert (hb_addr b + HB_SIZE) (live_ptrs (xs @ b # ys))"
proof -
  have "unat (hb_addr b + HB_SIZE) = unat (hb_addr b) + 24"
    using assms(1) by (intro trans[OF unat_add_small]) (auto simp: HB_SIZE_def)
  then have "live_regions (xs @ placed sz b @ ys) =
      insert (unat (hb_addr b + HB_SIZE), if hb_size b > sz + HB_SIZE then unat sz else unat (hb_size b))
        (live_regions (xs @ b # ys))"
    using assms(2) unfolding live_regions_def by (simp add: placed_def del: set_filter)
  with assms(3) show "\<exists>n\<ge>unat sz. live_regions (xs @ placed sz b @ ys) =
           insert (unat (hb_addr b + HB_SIZE), n) (live_regions (xs @ b # ys))"
    by (auto simp: word_le_nat_alt)
  show "live_ptrs (xs @ placed sz b @ ys) = insert (hb_addr b + HB_SIZE) (live_ptrs (xs @ b # ys))"
    using assms(2) unfolding live_ptrs_def by (simp add: placed_def del: set_filter)
qed

lemma kmalloc_round_unat: "unat (kmalloc_round sz) = unat (sz + 7) div 8 * 8"
proof -
  have "kmalloc_round sz = (sz + 7) AND NOT 7" by (simp add: kmalloc_round_def add.commute)
  then show ?thesis by (simp only: unat_align8)
qed

lemma kmalloc_round_ge: "unat sz + 7 < 2 ^ 64 \<Longrightarrow> unat sz \<le> unat (kmalloc_round sz)"
  using unat_add_small[of sz 7] by (simp add: kmalloc_round_unat)

text \<open>Everything a successful \<open>kmalloc\<close> does to a well-formed heap.\<close>

lemma kmalloc_success:
  assumes "kheap_inv pool h" "kmalloc_scan (kmalloc_round sz) h = Some (p, h')"
  shows "kheap_inv pool h'" "p \<noteq> 0" "p \<notin> live_ptrs h" "live_ptrs h' = insert p (live_ptrs h)"
    and "\<exists>n\<ge>unat (kmalloc_round sz). live_regions h' = insert (unat p, n) (live_regions h)"
proof -
  let ?e = "unat pool + 1048576"
  from kmalloc_scan_Some[OF assms(2)] obtain xs b ys where h: "h = xs @ b # ys" "hb_free b"
    "kmalloc_round sz \<le> hb_size b" "p = hb_addr b + HB_SIZE" "h' = xs @ placed (kmalloc_round sz) b @ ys"
    by blast
  have t: "tiles (unat pool) h ?e" and e: "?e < 2 ^ 64" using assms(1) by (simp_all add: kheap_inv_def)
  have bd: "unat (hb_addr b) + 24 + unat (hb_size b) < 2 ^ 64" using tiles_block[OF t, of b] e h(1) by simp
  from t h(1) obtain m m' where m: "tiles (unat pool) xs m" "tiles m [b] m'" "tiles m' ys ?e"
    by (auto simp: tiles_append)
  have "m' < 2 ^ 64" using tiles_le[OF m(3)] e by simp
  then have "tiles m (placed (kmalloc_round sz) b) m'"
    using h(3) by (intro placed_tiles[OF m(2)]) (simp_all add: kmalloc_round_unat)
  with m have "tiles (unat pool) h' ?e" unfolding h(5) tiles_append by blast
  then show "kheap_inv pool h'" using assms(1) by (simp add: kheap_inv_def)
  have "unat p = unat (hb_addr b) + 24"
    using bd by (simp only: h(4)) (intro trans[OF unat_add_small], auto simp: HB_SIZE_def)
  then show "p \<noteq> 0" by auto
  have "hb_free c" if "c \<in> set h" "hb_addr c + HB_SIZE = p" for c
    using tiles_addr_inj[OF t that(1), of b] that(2) h(1,2,4) by simp
  then show "p \<notin> live_ptrs h" by (auto simp: live_ptrs_def)
  show "live_ptrs h' = insert p (live_ptrs h)"
    unfolding h(1,4,5) by (rule placed_regions(2)[OF bd h(2,3)])
  show "\<exists>n\<ge>unat (kmalloc_round sz). live_regions h' = insert (unat p, n) (live_regions h)"
    unfolding h(1,4,5) by (rule placed_regions(1)[OF bd h(2,3)])
qed

section \<open>Release\<close>

lemma kfree_merge_tiles:
  "tiles a h e \<Longrightarrow> e < 2 ^ 64 \<Longrightarrow> tiles a (kfree_merge h) e"
proof (induction h arbitrary: a rule: kfree_merge.induct)
  case (1 x y bs)
  let ?n = "hb_size x + (HB_SIZE + hb_size y)"
  have le: "a + 24 + unat (hb_size x) + 24 + unat (hb_size y) \<le> e"
    using "1.prems"(1) by (auto dest: tiles_le)
  then have "unat (HB_SIZE + hb_size y) = 24 + unat (hb_size y)"
    using "1.prems"(2) by (intro trans[OF unat_add_small]) (auto simp: HB_SIZE_def)
  then have n: "unat ?n = unat (hb_size x) + 24 + unat (hb_size y)"
    using "1.prems"(2) le by (intro trans[OF unat_add_small]) auto
  show ?case
    using "1.IH" "1.prems" by (auto simp: n add.assoc)
qed auto

lemma kfree_merge_used: "filter (\<lambda>b. \<not> hb_free b) (kfree_merge h) = filter (\<lambda>b. \<not> hb_free b) h"
  by (induction h rule: kfree_merge.induct) auto

lemma kfree_merge_live:
  "live_regions (kfree_merge h) = live_regions h" "live_ptrs (kfree_merge h) = live_ptrs h"
  by (simp_all only: live_regions_def live_ptrs_def kfree_merge_used)

lemma tiles_mark:
  "tiles a (map (\<lambda>b. if P b then b\<lparr>hb_free := True\<rparr> else b) h) e = tiles a h e"
  by (induction a h e rule: tiles.induct) auto

lemma live_ptrs_mark:
  "live_ptrs (map (\<lambda>b. if hb_addr b = p - HB_SIZE then b\<lparr>hb_free := True\<rparr> else b) h) = live_ptrs h - {p}"
  by (induction h) (auto simp: live_ptrs_def)

lemma kfree_inv: "kheap_inv pool h \<Longrightarrow> kheap_inv pool (kfree p h)"
  by (simp add: kheap_inv_def kfree_def tiles_mark kfree_merge_tiles)

lemma kfree_live: "p \<noteq> 0 \<Longrightarrow> live_ptrs (kfree p h) = live_ptrs h - {p}"
  by (simp add: kfree_def kfree_merge_live live_ptrs_mark)

lemma live_nonnull: "kheap_inv pool h \<Longrightarrow> p \<in> live_ptrs h \<Longrightarrow> p \<noteq> 0"
proof -
  assume inv: "kheap_inv pool h" "p \<in> live_ptrs h"
  then obtain b where "b \<in> set h" "p = hb_addr b + HB_SIZE" by (auto simp: live_ptrs_def)
  moreover from this inv have "unat (hb_addr b) + 24 < 2 ^ 64"
    using tiles_block[of "unat pool" h "unat pool + 1048576" b] by (simp add: kheap_inv_def)
  ultimately have "unat p = unat (hb_addr b) + 24"
    using unat_add_small[of "hb_addr b" HB_SIZE] by (simp add: HB_SIZE_def)
  then show "p \<noteq> 0" by auto
qed

lemma kmalloc_cases:
  assumes "kheap_inv pool h"
  shows "kmalloc sz h = (0, h) \<and> kmalloc_scan (kmalloc_round sz) h = None \<or>
    (\<exists>p h'. kmalloc sz h = (p, h') \<and> kmalloc_scan (kmalloc_round sz) h = Some (p, h') \<and> p \<noteq> 0)"
  using kmalloc_success(2)[OF assms]
  by (cases "kmalloc_scan (kmalloc_round sz) h") (auto simp: kmalloc_def)

interpretation kh: allocator "kmalloc n" kfree live_ptrs "kheap_inv pool" "0 :: u64" for n pool
proof (unfold_locales, goal_cases)
  case (1 h)
  then show ?case using kmalloc_cases[OF 1, of n] kmalloc_success(1)[OF 1] by fastforce
next
  case (2 h)
  then show ?case using kmalloc_cases[OF 2(1), of n] kmalloc_success(3)[OF 2(1)] by fastforce
next
  case (3 h)
  then show ?case using kmalloc_cases[OF 3, of n] kmalloc_success(4)[OF 3] by fastforce
next
  case (4 h a)
  then show ?case by (simp add: kfree_inv)
next
  case (5 h a)
  then show ?case using live_nonnull[OF 5] by (simp add: kfree_live)
qed

section \<open>Properties\<close>

lemma live_regions_block:
  "(q, m) \<in> live_regions h \<longleftrightarrow> (\<exists>b\<in>set h. \<not> hb_free b \<and> q = unat (hb_addr b) + 24 \<and> m = unat (hb_size b))"
  by (auto simp: live_regions_def)

lemma live_regions_disjoint:
  assumes "kheap_inv pool h" "(p, n) \<in> live_regions h" "(q, m) \<in> live_regions h" "p \<noteq> q"
  shows "p + n \<le> q \<or> q + m \<le> p"
proof -
  from assms(2,3) obtain b c where
    b: "b \<in> set h" "p = unat (hb_addr b) + 24" "n = unat (hb_size b)" and
    c: "c \<in> set h" "q = unat (hb_addr c) + 24" "m = unat (hb_size c)"
    by (auto simp: live_regions_block)
  have "tiles (unat pool) h (unat pool + 1048576)" using assms(1) by (simp add: kheap_inv_def)
  moreover have "b \<noteq> c" using assms(4) b(2) c(2) by auto
  ultimately show ?thesis using tiles_disjoint b c by fastforce
qed

lemma live_regions_ptr:
  "(unat p, m) \<in> live_regions h \<Longrightarrow> kheap_inv pool h \<Longrightarrow> p \<in> live_ptrs h"
proof -
  assume inv: "kheap_inv pool h" and "(unat p, m) \<in> live_regions h"
  then obtain b where b: "b \<in> set h" "\<not> hb_free b" "unat p = unat (hb_addr b) + 24"
    by (auto simp: live_regions_block)
  then have "unat (hb_addr b + HB_SIZE) = unat p"
    using unat_bound[of p] by (intro trans[OF unat_add_small]) (auto simp: HB_SIZE_def)
  then have "p = hb_addr b + HB_SIZE" by (simp add: word_unat_eq_iff)
  then show "p \<in> live_ptrs h" using b(1,2) by (simp add: live_ptrs_def)
qed


text \<open>
  Releasing a region in use removes exactly that region from the set of regions in use and keeps
  the heap well-formed.
\<close>

theorem kfree_correct:
  assumes "kheap_inv pool h" "p \<in> live_ptrs h"
  shows "kheap_inv pool (kfree p h) \<and> live_ptrs (kfree p h) = live_ptrs h - {p} \<and>
    live_regions (kfree p h) = {(q, m) \<in> live_regions h. q \<noteq> unat p}"
proof -
  have p0: "p \<noteq> 0" using live_nonnull assms by blast
  have t: "tiles (unat pool) h (unat pool + 1048576)" and e: "unat pool + 1048576 < 2 ^ 64"
    using assms(1) by (simp_all add: kheap_inv_def)
  have ad: "hb_addr b = p - HB_SIZE \<longleftrightarrow> unat (hb_addr b) + 24 = unat p" if "b \<in> set h" for b
  proof -
    have "unat (hb_addr b + HB_SIZE) = unat (hb_addr b) + 24"
      using tiles_block[OF t that] e by (intro trans[OF unat_add_small]) (auto simp: HB_SIZE_def)
    then show ?thesis by (metis diff_add_cancel add_diff_cancel word_unat_eq_iff)
  qed
  have "live_regions (kfree p h) = {(q, m) \<in> live_regions h. q \<noteq> unat p}"
    unfolding kfree_def kfree_merge_live if_not_P[OF p0] set_eq_iff split_paired_All
    by (auto simp: live_regions_block ad)
  then show ?thesis using assms p0 by (simp add: kfree_inv kfree_live)
qed

text \<open>
  A request within 7 bytes of the top of the 64-bit range wraps to a zero-byte request: on a
  fresh heap it succeeds and returns a region of size 0.
\<close>

theorem kmalloc_huge_wraps:
  assumes "2 ^ 64 \<le> unat sz + 7"
  shows "fst (kmalloc sz (kheap_init pool)) = pool + 24 \<and>
    live_regions (snd (kmalloc sz (kheap_init pool))) = {(unat pool + 24, 0)}"
proof -
  have "unat (sz + 7) = unat sz + 7 - 2 ^ 64"
    using assms unat_bound[of sz] by (simp add: unat_word_ariths mod_if)
  then have "unat (kmalloc_round sz) = 0"
    using unat_bound[of sz] by (simp add: kmalloc_round_unat)
  then have "kmalloc_round sz = 0" by (simp add: unat_eq_0)
  then show ?thesis
    by (simp add: kmalloc_def kheap_init_def KHEAP_SIZE_def HB_SIZE_def live_regions_def)
qed

text \<open>
  Any number of successive allocations on a well-formed heap return pairwise distinct pointers,
  none of which was in use before.
\<close>

theorem kmalloc_many_distinct:
  assumes "kheap_inv pool h" and "alloc_many (kmalloc sz) n h = (ps, h')"
  shows "distinct (filter (\<lambda>p. p \<noteq> 0) ps) \<and> set (filter (\<lambda>p. p \<noteq> 0) ps) \<inter> live_ptrs h = {} \<and>
    live_ptrs h' = live_ptrs h \<union> set (filter (\<lambda>p. p \<noteq> 0) ps)"
  using kh.alloc_many_distinct[OF assms(1), of sz n] kh.alloc_many_fresh[OF assms(1), of _ sz n]
    kh.alloc_many_live[OF assms(1), of sz n] assms(2)
  by auto

section \<open>Concrete instances\<close>

lemma kheap_init_inv: "0 < unat pool \<Longrightarrow> unat pool + 1048576 < 2 ^ 64 \<Longrightarrow> kheap_inv pool (kheap_init pool)"
  by (simp add: kheap_inv_def kheap_init_def KHEAP_SIZE_def HB_SIZE_def)


theorem kfree_correct_witness:
  "live_ptrs (kfree 0x400018 (snd (kmalloc 100 (kheap_init 0x400000)))) = {}"
proof -
  let ?h = "snd (kmalloc 100 (kheap_init 0x400000))"
  have "kheap_inv 0x400000 (kheap_init 0x400000)" by (rule kheap_init_inv) simp_all
  then have "kheap_inv 0x400000 ?h" by (rule kh.alloc_inv)
  moreover have "live_ptrs ?h = {0x400018}"
    by (simp add: kmalloc_def kheap_init_def kmalloc_round_def KHEAP_SIZE_def HB_SIZE_def live_ptrs_def)
  ultimately show ?thesis using kfree_correct[of "0x400000" ?h "0x400018"] by simp
qed

theorem kmalloc_huge_wraps_witness:
  "fst (kmalloc 0xFFFFFFFFFFFFFFFF (kheap_init 0x400000)) = 0x400018"
  using kmalloc_huge_wraps[of "0xFFFFFFFFFFFFFFFF" "0x400000"] by simp

theorem kmalloc_many_distinct_witness:
  "distinct (filter (\<lambda>p. p \<noteq> 0) (fst (alloc_many (kmalloc 4096) 3 (kheap_init 0x400000))))"
proof -
  have inv: "kheap_inv 0x400000 (kheap_init 0x400000)" by (rule kheap_init_inv) simp_all
  show ?thesis
    using kmalloc_many_distinct[OF inv, of 4096 3 "fst (alloc_many (kmalloc 4096) 3 (kheap_init 0x400000))"
      "snd (alloc_many (kmalloc 4096) 3 (kheap_init 0x400000))"] by simp
qed

end
