(* ===== verification/SwiftfsCache.thy ===== *)
theory SwiftfsCache
  imports SwiftfsFormat Kheap
begin

text \<open>
  The state of the filesystem, \<open>src/kernel/fs/swiftfs2.c\<close>, its access to the disk and its block cache
  of 64 entries with round-robin replacement and write-back. The disk driver
  (\<open>ahci_read\<close>, \<open>ahci_write\<close>) is an interface \<open>blkdev\<close> of two operations on the device state, with the
  laws a working disk obeys as the locale \<open>block_device\<close>.

  A pointer into a cache entry's data is the index of the entry: it keeps pointing to the entry when
  the entry is reused for another block, as it does in C.
\<close>

section \<open>The disk driver as the filesystem sees it\<close>

text \<open>
  \<open>bd_read port lba count\<close> gives the return value, the bytes stored at the start of the buffer (fewer
  than asked for when the transfer fails) and the new device state.
\<close>

record 'd blkdev =
  bd_read :: "int \<Rightarrow> u64 \<Rightarrow> int \<Rightarrow> 'd \<Rightarrow> int \<times> u8 list \<times> 'd"
  bd_write :: "int \<Rightarrow> u64 \<Rightarrow> u8 list \<Rightarrow> int \<Rightarrow> 'd \<Rightarrow> int \<times> 'd"

section \<open>State\<close>

record cache_entry =
  ce_block :: u32
  ce_group :: int
  ce_data :: "u8 list"
  ce_dirty :: bool
  ce_valid :: bool

record swiftfs2_fd =
  fd_inode :: u32
  fd_pos :: u32
  fd_flags :: u32
  fd_dirty :: bool

text \<open>
  The static variables. \<open>g_gd\<close> and \<open>g_bitmaps\<close> point into the kernel heap, so their addresses are kept
  beside their contents, as are those of the bitmap blocks; \<open>s_heap\<close> is the kernel heap and \<open>s_dev\<close>
  the device.
\<close>

record 'd swiftfs =
  sb :: swiftfs2_super
  g_port :: int
  g_mounted :: bool
  g_nr_groups :: int
  g_gd :: "swiftfs2_gd list"
  g_gd_ptr :: u64
  g_bitmaps :: "(u64 \<times> u8 list) option list"
  g_bitmaps_ptr :: u64
  g_curr_group :: int
  s_fds :: "swiftfs2_fd list"
  g_cache :: "cache_entry list"
  g_cache_next :: nat
  s_heap :: kheap
  s_dev :: 'd

definition SWIFTFS2_CACHE_SIZE :: nat where "SWIFTFS2_CACHE_SIZE = 64"

section \<open>Operations\<close>

definition fs_block_to_sector :: "u64 \<Rightarrow> u64" where
  "fs_block_to_sector fs_block = fs_block * 8"

definition read_block :: "'d blkdev \<Rightarrow> u64 \<Rightarrow> 'd swiftfs \<Rightarrow> int \<times> u8 list \<times> 'd swiftfs" where
  "read_block D block s =
     (let (r, bytes, d) = bd_read D (g_port s) (fs_block_to_sector block) 8 (s_dev s)
      in (r, bytes, s\<lparr>s_dev := d\<rparr>))"

definition write_block :: "'d blkdev \<Rightarrow> u64 \<Rightarrow> u8 list \<Rightarrow> 'd swiftfs \<Rightarrow> int \<times> 'd swiftfs" where
  "write_block D block buf s =
     (let (r, d) = bd_write D (g_port s) (fs_block_to_sector block) buf 8 (s_dev s)
      in (r, s\<lparr>s_dev := d\<rparr>))"

definition cache_hit :: "u32 \<Rightarrow> int \<Rightarrow> cache_entry \<Rightarrow> bool" where
  "cache_hit block grp e \<longleftrightarrow> ce_valid e \<and> ce_block e = block \<and> ce_group e = grp"

definition cache_lookup :: "u32 \<Rightarrow> int \<Rightarrow> 'd swiftfs \<Rightarrow> int" where
  "cache_lookup block grp s =
     (case find (\<lambda>i. cache_hit block grp (g_cache s ! i)) [0..<SWIFTFS2_CACHE_SIZE] of
        Some i \<Rightarrow> int i | None \<Rightarrow> -1)"

definition cache_get :: "'d blkdev \<Rightarrow> u32 \<Rightarrow> int \<Rightarrow> 'd swiftfs \<Rightarrow> nat \<times> 'd swiftfs" where
  "cache_get D block grp s =
     (let idx = cache_lookup block grp s in
      if idx \<ge> 0 then (nat idx, s)
      else
        let i = g_cache_next s;
            s1 = s\<lparr>g_cache_next := (g_cache_next s + 1) mod SWIFTFS2_CACHE_SIZE\<rparr>;
            e = g_cache s1 ! i;
            s2 = (if ce_dirty e then snd (write_block D (ucast (ce_block e)) (ce_data e) s1) else s1);
            (r, bytes, s3) = read_block D (ucast block) s2
        in (i, s3\<lparr>g_cache := (g_cache s3)[i := \<lparr>ce_block = block, ce_group = grp,
                  ce_data = blit (ce_data e) 0 bytes, ce_dirty = False, ce_valid = True\<rparr>]\<rparr>))"

definition cache_mark_dirty :: "u32 \<Rightarrow> int \<Rightarrow> 'd swiftfs \<Rightarrow> 'd swiftfs" where
  "cache_mark_dirty block grp s =
     (case find (\<lambda>i. cache_hit block grp (g_cache s ! i)) [0..<SWIFTFS2_CACHE_SIZE] of
        Some i \<Rightarrow> s\<lparr>g_cache := (g_cache s)[i := (g_cache s ! i)\<lparr>ce_dirty := True\<rparr>]\<rparr>
      | None \<Rightarrow> s)"

text \<open>The flush loop over the entries \<open>is\<close>.\<close>

primrec cache_flush_loop :: "'d blkdev \<Rightarrow> nat list \<Rightarrow> 'd swiftfs \<Rightarrow> 'd swiftfs" where
  "cache_flush_loop D [] s = s"
| "cache_flush_loop D (i # is) s =
     (let e = g_cache s ! i in
      if ce_valid e \<and> ce_dirty e then
        let s1 = snd (write_block D (ucast (ce_block e)) (ce_data e) s)
        in cache_flush_loop D is (s1\<lparr>g_cache := (g_cache s1)[i := e\<lparr>ce_dirty := False\<rparr>]\<rparr>)
      else cache_flush_loop D is s)"

definition cache_flush_all :: "'d blkdev \<Rightarrow> 'd swiftfs \<Rightarrow> 'd swiftfs" where
  "cache_flush_all D s = cache_flush_loop D [0..<SWIFTFS2_CACHE_SIZE] s"

text \<open>Reading and storing through a pointer that \<open>cache_get\<close> returned.\<close>

definition cache_data :: "nat \<Rightarrow> 'd swiftfs \<Rightarrow> u8 list" where
  "cache_data i s = ce_data (g_cache s ! i)"

definition cache_store :: "nat \<Rightarrow> u8 list \<Rightarrow> 'd swiftfs \<Rightarrow> 'd swiftfs" where
  "cache_store i bs s = s\<lparr>g_cache := (g_cache s)[i := (g_cache s ! i)\<lparr>ce_data := bs\<rparr>]\<rparr>"

section \<open>The contract of a working disk\<close>

text \<open>
  \<open>disk p d b\<close> is the block \<open>b\<close> stored on port \<open>p\<close>, \<open>works p d\<close> that the device answers every command.
\<close>

locale block_device =
  fixes D :: "'d blkdev"
    and disk :: "int \<Rightarrow> 'd \<Rightarrow> u32 \<Rightarrow> u8 list"
    and works :: "int \<Rightarrow> 'd \<Rightarrow> bool"
  assumes disk_length: "works p d \<Longrightarrow> length (disk p d b) = 4096"
    and disk_read: "works p d \<Longrightarrow> \<exists>d'. bd_read D p (ucast b * 8) 8 d = (4096, disk p d b, d') \<and>
      works p d' \<and> disk p d' = disk p d"
    and disk_write: "works p d \<Longrightarrow> length buf = 4096 \<Longrightarrow> \<exists>d'. bd_write D p (ucast b * 8) buf 8 d = (4096, d') \<and>
      works p d' \<and> disk p d' = (disk p d)(b := buf)"
begin

lemma read_block_ok:
  assumes "works (g_port s) (s_dev s)"
  shows "\<exists>d. read_block D (ucast b) s = (4096, disk (g_port s) (s_dev s) b, s\<lparr>s_dev := d\<rparr>) \<and>
    works (g_port s) d \<and> disk (g_port s) d = disk (g_port s) (s_dev s)"
  using disk_read[OF assms, of b] by (auto simp: read_block_def fs_block_to_sector_def)

lemma write_block_ok:
  assumes "works (g_port s) (s_dev s)" "length buf = 4096"
  shows "\<exists>d. write_block D (ucast b) buf s = (4096, s\<lparr>s_dev := d\<rparr>) \<and> works (g_port s) d \<and>
    disk (g_port s) d = (disk (g_port s) (s_dev s))(b := buf)"
  using disk_write[OF assms, of b] by (auto simp: write_block_def fs_block_to_sector_def)

end

section \<open>The view through the cache\<close>

text \<open>
  What the filesystem sees at a block: the cached copy if there is one, the disk otherwise. The
  invariant: 64 entries of 4096 bytes, no block cached twice, dirty entries are valid and the clean
  ones agree with the disk.
\<close>

definition cview :: "(int \<Rightarrow> 'd \<Rightarrow> u32 \<Rightarrow> u8 list) \<Rightarrow> 'd swiftfs \<Rightarrow> u32 \<Rightarrow> u8 list" where
  "cview disk s b =
     (case find (\<lambda>i. cache_hit b 0 (g_cache s ! i)) [0..<SWIFTFS2_CACHE_SIZE] of
        Some i \<Rightarrow> ce_data (g_cache s ! i) | None \<Rightarrow> disk (g_port s) (s_dev s) b)"

definition cache_inv :: "(int \<Rightarrow> 'd \<Rightarrow> u32 \<Rightarrow> u8 list) \<Rightarrow> (int \<Rightarrow> 'd \<Rightarrow> bool) \<Rightarrow> 'd swiftfs \<Rightarrow> bool" where
  "cache_inv disk works s \<longleftrightarrow>
     works (g_port s) (s_dev s) \<and> length (g_cache s) = SWIFTFS2_CACHE_SIZE \<and> g_cache_next s < SWIFTFS2_CACHE_SIZE \<and>
     (\<forall>i<SWIFTFS2_CACHE_SIZE. let e = g_cache s ! i in
        length (ce_data e) = 4096 \<and> (ce_dirty e \<longrightarrow> ce_valid e) \<and> (ce_valid e \<longrightarrow> ce_group e = 0) \<and>
        (ce_valid e \<and> \<not> ce_dirty e \<longrightarrow> ce_data e = disk (g_port s) (s_dev s) (ce_block e)) \<and>
        (\<forall>j<SWIFTFS2_CACHE_SIZE. ce_valid e \<and> ce_valid (g_cache s ! j) \<and> ce_block (g_cache s ! j) = ce_block e \<longrightarrow> i = j))"

lemma cache_invD:
  assumes "cache_inv disk works s"
  shows "works (g_port s) (s_dev s)" "length (g_cache s) = SWIFTFS2_CACHE_SIZE" "g_cache_next s < SWIFTFS2_CACHE_SIZE"
    and "i < SWIFTFS2_CACHE_SIZE \<Longrightarrow> length (ce_data (g_cache s ! i)) = 4096"
    and "i < SWIFTFS2_CACHE_SIZE \<Longrightarrow> ce_dirty (g_cache s ! i) \<Longrightarrow> ce_valid (g_cache s ! i)"
    and "i < SWIFTFS2_CACHE_SIZE \<Longrightarrow> ce_valid (g_cache s ! i) \<Longrightarrow> ce_group (g_cache s ! i) = 0"
    and "i < SWIFTFS2_CACHE_SIZE \<Longrightarrow> ce_valid (g_cache s ! i) \<Longrightarrow> \<not> ce_dirty (g_cache s ! i) \<Longrightarrow>
      ce_data (g_cache s ! i) = disk (g_port s) (s_dev s) (ce_block (g_cache s ! i))"
    and "i < SWIFTFS2_CACHE_SIZE \<Longrightarrow> j < SWIFTFS2_CACHE_SIZE \<Longrightarrow> ce_valid (g_cache s ! i) \<Longrightarrow>
      ce_valid (g_cache s ! j) \<Longrightarrow> ce_block (g_cache s ! j) = ce_block (g_cache s ! i) \<Longrightarrow> i = j"
  using assms unfolding cache_inv_def Let_def by blast+

lemma cache_hit_iff:
  "cache_inv disk works s \<Longrightarrow> i < SWIFTFS2_CACHE_SIZE \<Longrightarrow>
   cache_hit b 0 (g_cache s ! i) \<longleftrightarrow> ce_valid (g_cache s ! i) \<and> ce_block (g_cache s ! i) = b"
  using cache_invD(6) by (auto simp: cache_hit_def)

lemma find_hit:
  assumes "cache_inv disk works s" "i < SWIFTFS2_CACHE_SIZE" "cache_hit b 0 (g_cache s ! i)"
  shows "find (\<lambda>i. cache_hit b 0 (g_cache s ! i)) [0..<SWIFTFS2_CACHE_SIZE] = Some i"
  unfolding find_upt_Some using assms cache_invD(8)[OF assms(1)]
  by (auto simp: cache_hit_def) (metis less_trans nat_neq_iff)

lemma cview_hit:
  "cache_inv disk works s \<Longrightarrow> i < SWIFTFS2_CACHE_SIZE \<Longrightarrow> ce_valid (g_cache s ! i) \<Longrightarrow>
   cview disk s (ce_block (g_cache s ! i)) = ce_data (g_cache s ! i)"
  using find_hit[of disk works s i] by (simp add: cview_def cache_hit_iff)

lemma cview_miss:
  "cache_inv disk works s \<Longrightarrow> (\<And>i. i < SWIFTFS2_CACHE_SIZE \<Longrightarrow> ce_valid (g_cache s ! i) \<Longrightarrow> ce_block (g_cache s ! i) \<noteq> b) \<Longrightarrow>
   cview disk s b = disk (g_port s) (s_dev s) b"
proof -
  assume a: "cache_inv disk works s" and m: "\<And>i. i < SWIFTFS2_CACHE_SIZE \<Longrightarrow> ce_valid (g_cache s ! i) \<Longrightarrow> ce_block (g_cache s ! i) \<noteq> b"
  have "find (\<lambda>i. cache_hit b 0 (g_cache s ! i)) [0..<SWIFTFS2_CACHE_SIZE] = None"
    unfolding find_upt_None using m by (auto simp: cache_hit_def)
  then show ?thesis by (simp add: cview_def)
qed

text \<open>The two cases of a lookup.\<close>

lemma cache_cases:
  assumes "cache_inv disk works s"
  obtains (hit) i where "i < SWIFTFS2_CACHE_SIZE" "ce_valid (g_cache s ! i)" "ce_block (g_cache s ! i) = b"
      "cache_lookup b 0 s = int i"
  | (miss) "\<And>i. i < SWIFTFS2_CACHE_SIZE \<Longrightarrow> ce_valid (g_cache s ! i) \<Longrightarrow> ce_block (g_cache s ! i) \<noteq> b"
      "cache_lookup b 0 s = -1"
proof (cases "find (\<lambda>i. cache_hit b 0 (g_cache s ! i)) [0..<SWIFTFS2_CACHE_SIZE]")
  case None
  then have "cache_lookup b 0 s = -1" by (simp add: cache_lookup_def)
  with None[unfolded find_upt_None] cache_hit_iff[OF assms] miss show ?thesis by auto
next
  case (Some i)
  then have "cache_lookup b 0 s = int i" by (simp add: cache_lookup_def)
  with Some[unfolded find_upt_Some] cache_hit_iff[OF assms] hit show ?thesis by auto
qed

section \<open>What the cache operations leave alone\<close>

definition same_core :: "'d swiftfs \<Rightarrow> 'd swiftfs \<Rightarrow> bool" where
  "same_core s s' \<longleftrightarrow> s' = s\<lparr>g_cache := g_cache s', g_cache_next := g_cache_next s', s_dev := s_dev s'\<rparr>"

lemma same_core_refl [simp]: "same_core s s"
  by (simp add: same_core_def)

lemma same_core_trans: "same_core s s' \<Longrightarrow> same_core s' s'' \<Longrightarrow> same_core s s''"
  by (cases s; cases s'; cases s'') (simp add: same_core_def)

lemma same_coreD:
  assumes "same_core s s'"
  shows "sb s' = sb s" "g_port s' = g_port s" "g_mounted s' = g_mounted s" "g_nr_groups s' = g_nr_groups s"
    "g_gd s' = g_gd s" "g_gd_ptr s' = g_gd_ptr s" "g_bitmaps s' = g_bitmaps s" "g_bitmaps_ptr s' = g_bitmaps_ptr s"
    "g_curr_group s' = g_curr_group s" "s_fds s' = s_fds s" "s_heap s' = s_heap s"
  using assms by (cases s; cases s'; simp add: same_core_def)+

lemma write_block_core: "same_core s (snd (write_block D b buf s))"
  by (simp add: write_block_def same_core_def case_prod_beta)

lemma read_block_core: "same_core s (snd (snd (read_block D b s)))"
  by (simp add: read_block_def same_core_def case_prod_beta)

lemma cache_store_core: "same_core s (cache_store i bs s)"
  by (simp add: cache_store_def same_core_def)

lemma cache_mark_dirty_core: "same_core s (cache_mark_dirty b g s)"
  by (simp add: cache_mark_dirty_def same_core_def split: option.split)

text \<open>A miss: write back the victim if it is dirty, then fill its entry.\<close>

definition cache_evict :: "'d blkdev \<Rightarrow> 'd swiftfs \<Rightarrow> 'd swiftfs" where
  "cache_evict D s =
     (let s1 = s\<lparr>g_cache_next := (g_cache_next s + 1) mod SWIFTFS2_CACHE_SIZE\<rparr>; e = g_cache s ! g_cache_next s
      in if ce_dirty e then snd (write_block D (ucast (ce_block e)) (ce_data e) s1) else s1)"

lemma cache_get_miss:
  assumes "cache_lookup b g s = -1"
  shows "cache_get D b g s = (g_cache_next s,
    (snd (snd (read_block D (ucast b) (cache_evict D s))))\<lparr>g_cache :=
       (g_cache s)[g_cache_next s := \<lparr>ce_block = b, ce_group = g,
          ce_data = blit (ce_data (g_cache s ! g_cache_next s)) 0 (fst (snd (read_block D (ucast b) (cache_evict D s)))),
          ce_dirty = False, ce_valid = True\<rparr>]\<rparr>)"
  using assms unfolding cache_get_def cache_evict_def Let_def
  by (cases "ce_dirty (g_cache s ! g_cache_next s)") (simp_all add: case_prod_beta read_block_def write_block_def)

lemma cache_evict_core: "same_core s (cache_evict D s)"
proof -
  let ?s = "s\<lparr>g_cache_next := (g_cache_next s + 1) mod SWIFTFS2_CACHE_SIZE\<rparr>"
  have "same_core s ?s" by (simp add: same_core_def)
  then show ?thesis
    using same_core_trans[OF _ write_block_core] by (auto simp: cache_evict_def Let_def)
qed

lemma cache_get_core: "same_core s (snd (cache_get D b g s))"
proof (cases "cache_lookup b g s \<ge> 0")
  case True
  then show ?thesis by (simp add: cache_get_def)
next
  case False
  then have m: "cache_lookup b g s = -1" by (auto simp: cache_lookup_def split: option.splits)
  let ?s = "snd (snd (read_block D (ucast b) (cache_evict D s)))"
  have "same_core s ?s" by (rule same_core_trans[OF cache_evict_core read_block_core])
  moreover have "same_core ?s (?s\<lparr>g_cache := c\<rparr>)" for c by (simp add: same_core_def)
  ultimately show ?thesis using same_core_trans by (simp add: cache_get_miss[OF m]) blast
qed

lemmas cache_core = write_block_core read_block_core cache_store_core cache_mark_dirty_core cache_get_core

section \<open>The cache is transparent\<close>

lemma cview_put:
  assumes inv: "cache_inv disk works s" and i: "i < SWIFTFS2_CACHE_SIZE"
    and miss: "\<And>j. j < SWIFTFS2_CACHE_SIZE \<Longrightarrow> ce_valid (g_cache s ! j) \<Longrightarrow> ce_block (g_cache s ! j) \<noteq> b"
    and s': "g_port s' = g_port s" "works (g_port s) (s_dev s')" "g_cache_next s' < SWIFTFS2_CACHE_SIZE"
      "g_cache s' = (g_cache s)[i := \<lparr>ce_block = b, ce_group = 0, ce_data = disk (g_port s) (s_dev s) b,
         ce_dirty = False, ce_valid = True\<rparr>]"
    and len: "length (disk (g_port s) (s_dev s) b) = 4096"
    and d: "disk (g_port s) (s_dev s') = (if ce_dirty (g_cache s ! i)
      then (disk (g_port s) (s_dev s))(ce_block (g_cache s ! i) := ce_data (g_cache s ! i))
      else disk (g_port s) (s_dev s))"
  shows "cache_inv disk works s'" "cview disk s' = cview disk s"
proof -
  note I = cache_invD[OF inv]
  have at: "g_cache s' ! j = (if j = i then \<lparr>ce_block = b, ce_group = 0, ce_data = disk (g_port s) (s_dev s) b,
      ce_dirty = False, ce_valid = True\<rparr> else g_cache s ! j)" for j
    using s'(4) i I(2) by (simp add: nth_upd)
  have db: "disk (g_port s) (s_dev s') c = disk (g_port s) (s_dev s) c"
    if "\<not> (ce_valid (g_cache s ! i) \<and> ce_block (g_cache s ! i) = c)" for c
    using that d I(5)[OF i] by auto
  have keep: "disk (g_port s) (s_dev s') (ce_block (g_cache s ! j)) = disk (g_port s) (s_dev s) (ce_block (g_cache s ! j))"
    if "j < SWIFTFS2_CACHE_SIZE" "j \<noteq> i" "ce_valid (g_cache s ! j)" for j
    using that I(8)[OF i that(1)] by (intro db) auto
  have bb: "disk (g_port s) (s_dev s') b = disk (g_port s) (s_dev s) b" using miss[OF i] by (intro db) auto
  show inv': "cache_inv disk works s'"
    unfolding cache_inv_def Let_def
  proof (intro conjI allI impI, goal_cases)
    case (4 j) then show ?case using I(4) len by (simp add: at)
  next
    case (7 j) then show ?case using I(7) keep bb s'(1) by (auto simp: at)
  next
    case (8 j k) then show ?case using I(8) miss by (auto simp: at split: if_splits)
  qed (use s' I at in \<open>auto split: if_splits\<close>)
  show "cview disk s' = cview disk s"
  proof
    fix c
    show "cview disk s' c = cview disk s c"
    proof (cases "\<exists>j<SWIFTFS2_CACHE_SIZE. ce_valid (g_cache s' ! j) \<and> ce_block (g_cache s' ! j) = c")
      case True
      then obtain j where j: "j < SWIFTFS2_CACHE_SIZE" "ce_valid (g_cache s' ! j)" "ce_block (g_cache s' ! j) = c" by blast
      have "cview disk s' c = ce_data (g_cache s' ! j)" using cview_hit[OF inv' j(1,2)] j(3) by simp
      also have "\<dots> = cview disk s c"
        using j cview_hit[OF inv j(1)] cview_miss[OF inv, of b] miss by (auto simp: at split: if_splits)
      finally show ?thesis .
    next
      case False
      then have "cview disk s' c = disk (g_port s) (s_dev s') c" using cview_miss[OF inv', of c] s'(1) by auto
      also have "\<dots> = cview disk s c"
      proof (cases "ce_valid (g_cache s ! i) \<and> ce_block (g_cache s ! i) = c")
        case v: True
        then show ?thesis using cview_hit[OF inv i] I(7)[OF i] d by auto
      next
        case n: False
        with False i have "ce_block (g_cache s ! j) \<noteq> c" if "j < SWIFTFS2_CACHE_SIZE" "ce_valid (g_cache s ! j)" for j
          using that by (metis at)
        then show ?thesis using cview_miss[OF inv, of c] db[OF n] by auto
      qed
      finally show ?thesis .
    qed
  qed
qed

context block_device
begin

lemma cache_get_ok:
  assumes inv: "cache_inv disk works s"
  obtains i s' where "cache_get D b 0 s = (i, s')" "i < SWIFTFS2_CACHE_SIZE" "cache_inv disk works s'"
    "ce_valid (g_cache s' ! i)" "ce_block (g_cache s' ! i) = b" "cache_data i s' = cview disk s b"
    "cview disk s' = cview disk s" "same_core s s'"
proof (cases rule: cache_cases[OF inv, of b])
  case (1 i)
  then have "cache_get D b 0 s = (i, s)" by (simp add: cache_get_def)
  with 1 inv cview_hit[OF inv 1(1,2)] show thesis by (intro that[of i s]) (simp_all add: cache_data_def)
next
  case 2
  note I = cache_invD[OF inv]
  let ?i = "g_cache_next s"
  let ?e = "g_cache s ! ?i"
  let ?p = "g_port s"
  let ?s1 = "s\<lparr>g_cache_next := (g_cache_next s + 1) mod SWIFTFS2_CACHE_SIZE\<rparr>"
  have "works ?p (s_dev s)" "length (ce_data ?e) = 4096" using I(1,3,4) by auto
  then have "\<exists>d. cache_evict D s = ?s1\<lparr>s_dev := d\<rparr> \<and> works ?p d \<and> disk ?p d = (if ce_dirty ?e
      then (disk ?p (s_dev s))(ce_block ?e := ce_data ?e) else disk ?p (s_dev s))"
    using write_block_ok[of ?s1 "ce_data ?e" "ce_block ?e"]
    by (cases "ce_dirty ?e") (auto simp: cache_evict_def Let_def intro: exI[of _ "s_dev s"])
  then obtain d where d: "cache_evict D s = ?s1\<lparr>s_dev := d\<rparr>" "works ?p d" "disk ?p d = (if ce_dirty ?e
      then (disk ?p (s_dev s))(ce_block ?e := ce_data ?e) else disk ?p (s_dev s))" by blast
  have db: "disk ?p d b = disk ?p (s_dev s) b" using d(3) 2(1)[OF I(3)] I(5)[OF I(3)] by auto
  obtain d' where d': "read_block D (ucast b) (cache_evict D s) = (4096, disk ?p d b, ?s1\<lparr>s_dev := d'\<rparr>)"
      "works ?p d'" "disk ?p d' = disk ?p d"
  proof -
    have "works (g_port (cache_evict D s)) (s_dev (cache_evict D s))" using d(2) by (simp add: d(1))
    from read_block_ok[OF this, of b] that show ?thesis by (simp add: d(1)) blast
  qed
  let ?new = "\<lparr>ce_block = b, ce_group = 0, ce_data = disk ?p (s_dev s) b, ce_dirty = False, ce_valid = True\<rparr>"
  let ?s = "?s1\<lparr>s_dev := d', g_cache := (g_cache s)[?i := ?new]\<rparr>"
  have len: "length (disk ?p (s_dev s) b) = 4096" using I(1) by (rule disk_length)
  have bl: "blit (ce_data ?e) 0 (disk ?p (s_dev s) b) = disk ?p (s_dev s) b"
    using len I(4)[OF I(3)] by (simp add: blit_def)
  have get: "cache_get D b 0 s = (?i, ?s)"
    using d'(1) db bl by (simp add: cache_get_miss[OF 2(2)])
  have n: "g_port ?s = ?p" "works ?p (s_dev ?s)" "g_cache_next ?s < SWIFTFS2_CACHE_SIZE"
    "g_cache ?s = (g_cache s)[?i := ?new]" "disk ?p (s_dev ?s) = (if ce_dirty ?e
      then (disk ?p (s_dev s))(ce_block ?e := ce_data ?e) else disk ?p (s_dev s))"
    using d'(2,3) d(3) by (simp_all add: SWIFTFS2_CACHE_SIZE_def)
  note put = cview_put[OF inv I(3) 2(1) n(1-4) len n(5)]
  have "same_core s ?s" using cache_get_core[of s D b 0] get by simp
  moreover have "g_cache ?s ! ?i = ?new" using I(2,3) by simp
  ultimately show thesis
    using put(2) cview_miss[OF inv 2(1)] by (intro that[OF get I(3) put(1)]) (simp_all add: cache_data_def)
qed
end

section \<open>Storing into a block\<close>

text \<open>The pattern of every modification: store through the pointer, then mark the block dirty.\<close>

lemma cache_write_ok:
  assumes inv: "cache_inv disk works s" and i: "i < SWIFTFS2_CACHE_SIZE" "ce_valid (g_cache s ! i)" "ce_block (g_cache s ! i) = b"
    and bs: "length bs = 4096"
  defines "s' \<equiv> cache_mark_dirty b 0 (cache_store i bs s)"
  shows "cache_inv disk works s'" "cview disk s' = (cview disk s)(b := bs)" "same_core s s'"
    "g_cache s' = (g_cache s)[i := (g_cache s ! i)\<lparr>ce_data := bs, ce_dirty := True\<rparr>]" "s_dev s' = s_dev s"
proof -
  note I = cache_invD[OF inv]
  let ?t = "cache_store i bs s"
  have t: "g_cache ?t = (g_cache s)[i := (g_cache s ! i)\<lparr>ce_data := bs\<rparr>]" by (simp add: cache_store_def)
  have hit: "cache_hit b 0 (g_cache ?t ! j) = cache_hit b 0 (g_cache s ! j)" if "j < SWIFTFS2_CACHE_SIZE" for j
    using i I(2) by (simp add: t nth_upd cache_hit_def)
  have "cache_hit b 0 (g_cache s ! i)" using i I(6) by (simp add: cache_hit_def)
  from find_hit[OF inv i(1) this] hit
  have "find (\<lambda>j. cache_hit b 0 (g_cache ?t ! j)) [0..<SWIFTFS2_CACHE_SIZE] = Some i"
    by (subst find_cong_range[where Q = "\<lambda>j. cache_hit b 0 (g_cache s ! j)"]) auto
  then have s': "s' = s\<lparr>g_cache := (g_cache s)[i := (g_cache s ! i)\<lparr>ce_data := bs, ce_dirty := True\<rparr>]\<rparr>"
    using i(1) I(2) by (simp add: s'_def cache_mark_dirty_def cache_store_def)
  then show "g_cache s' = (g_cache s)[i := (g_cache s ! i)\<lparr>ce_data := bs, ce_dirty := True\<rparr>]" "s_dev s' = s_dev s" by simp_all
  show "same_core s s'" by (simp add: s' same_core_def)
  have pd: "g_port s' = g_port s" "s_dev s' = s_dev s" "g_cache_next s' = g_cache_next s" "length (g_cache s') = length (g_cache s)"
    by (simp_all add: s')
  have at: "g_cache s' ! j = (if j = i then (g_cache s ! i)\<lparr>ce_data := bs, ce_dirty := True\<rparr> else g_cache s ! j)" for j
    using i(1) I(2) by (simp add: s' nth_upd)
  show inv': "cache_inv disk works s'"
    unfolding cache_inv_def Let_def
  proof (intro conjI allI impI, goal_cases)
    case (4 j) then show ?case using I(4) bs by (simp add: at)
  next
    case (7 j) then show ?case using I(7) by (auto simp: at pd split: if_splits)
  next
    case (8 j k) then show ?case using I(8) i(1) by (auto simp: at split: if_splits)
  qed (use I i at in \<open>auto simp: pd split: if_splits\<close>)
  show "cview disk s' = (cview disk s)(b := bs)"
  proof
    fix c
    show "cview disk s' c = ((cview disk s)(b := bs)) c"
    proof (cases "\<exists>j<SWIFTFS2_CACHE_SIZE. ce_valid (g_cache s ! j) \<and> ce_block (g_cache s ! j) = c")
      case True
      then obtain j where j: "j < SWIFTFS2_CACHE_SIZE" "ce_valid (g_cache s ! j)" "ce_block (g_cache s ! j) = c" by blast
      have v: "ce_valid (g_cache s' ! j)" "ce_block (g_cache s' ! j) = c" using j i by (auto simp: at)
      have "cview disk s' c = ce_data (g_cache s' ! j)" using cview_hit[OF inv' j(1) v(1)] v(2) by simp
      moreover have "c = b \<longleftrightarrow> j = i" using I(8)[OF i(1) j(1)] i j by auto
      ultimately show ?thesis using cview_hit[OF inv j(1,2)] j(3) by (auto simp: at)
    next
      case False
      have "c \<noteq> b" using False i by blast
      moreover from this have "\<And>j. j < SWIFTFS2_CACHE_SIZE \<Longrightarrow> ce_valid (g_cache s' ! j) \<Longrightarrow> ce_block (g_cache s' ! j) \<noteq> c"
        using False by (auto simp: at i split: if_splits)
      ultimately show ?thesis using cview_miss[OF inv', of c] False cview_miss[OF inv, of c] by (auto simp: pd)
    qed
  qed
qed

section \<open>Flushing\<close>

context block_device
begin

lemma flush_step:
  assumes inv: "cache_inv disk works s" and i: "i < SWIFTFS2_CACHE_SIZE"
  shows "\<exists>s'. cache_flush_loop D (i # is) s = cache_flush_loop D is s' \<and> cache_inv disk works s' \<and>
    cview disk s' = cview disk s \<and> same_core s s' \<and> \<not> ce_dirty (g_cache s' ! i) \<and>
    (\<forall>j<SWIFTFS2_CACHE_SIZE. \<not> ce_dirty (g_cache s ! j) \<longrightarrow> \<not> ce_dirty (g_cache s' ! j))"
proof (cases "ce_dirty (g_cache s ! i)")
  case False
  with inv show ?thesis by (intro exI[of _ s]) simp
next
  case True
  note I = cache_invD[OF inv]
  let ?e = "g_cache s ! i" and ?p = "g_port s"
  have v: "ce_valid ?e" using I(5)[OF i] True by simp
  obtain d where d: "write_block D (ucast (ce_block ?e)) (ce_data ?e) s = (4096, s\<lparr>s_dev := d\<rparr>)" "works ?p d"
    "disk ?p d = (disk ?p (s_dev s))(ce_block ?e := ce_data ?e)"
    using write_block_ok[OF I(1) I(4)[OF i], of "ce_block ?e"] by blast
  define t where "t = s\<lparr>s_dev := d, g_cache := (g_cache s)[i := ?e\<lparr>ce_dirty := False\<rparr>]\<rparr>"
  have pd: "g_port t = ?p" "s_dev t = d" "g_cache_next t = g_cache_next s" "length (g_cache t) = length (g_cache s)"
    by (simp_all add: t_def)
  have at: "g_cache t ! j = (if j = i then ?e\<lparr>ce_dirty := False\<rparr> else g_cache s ! j)" for j
    using i I(2) by (simp add: t_def nth_upd)
  have same: "ce_block (g_cache t ! j) = ce_block (g_cache s ! j) \<and> ce_valid (g_cache t ! j) = ce_valid (g_cache s ! j) \<and>
      ce_data (g_cache t ! j) = ce_data (g_cache s ! j)" for j by (simp add: at)
  have inv': "cache_inv disk works t"
    unfolding cache_inv_def Let_def
  proof (intro conjI allI impI, goal_cases)
    case (4 j) then show ?case using I(4) same by simp
  next
    case (7 j) then show ?case using I(7) I(8)[OF i] v d(3) by (auto simp: at pd split: if_splits)
  next
    case (8 j k) then show ?case using I(8) same by metis
  qed (use d(2) I at v in \<open>auto simp: pd split: if_splits\<close>)
  have "cview disk t = cview disk s"
  proof
    fix c
    show "cview disk t c = cview disk s c"
    proof (cases "\<exists>j<SWIFTFS2_CACHE_SIZE. ce_valid (g_cache s ! j) \<and> ce_block (g_cache s ! j) = c")
      case True
      then show ?thesis using cview_hit[OF inv] cview_hit[OF inv'] same by metis
    next
      case False
      then show ?thesis using cview_miss[OF inv, of c] cview_miss[OF inv', of c] same d(3) i v by (auto simp: pd)
    qed
  qed
  moreover have "cache_flush_loop D (i # is) s = cache_flush_loop D is t"
    using d(1) True v by (simp add: Let_def t_def)
  moreover have "same_core s t" by (simp add: same_core_def t_def)
  ultimately show ?thesis using inv' at by (intro exI[of _ t]) auto
qed

lemma flush_loop:
  "cache_inv disk works s \<Longrightarrow> set is \<subseteq> {..<SWIFTFS2_CACHE_SIZE} \<Longrightarrow>
   cache_inv disk works (cache_flush_loop D is s) \<and> cview disk (cache_flush_loop D is s) = cview disk s \<and>
   same_core s (cache_flush_loop D is s) \<and>
   (\<forall>j<SWIFTFS2_CACHE_SIZE. j \<in> set is \<or> \<not> ce_dirty (g_cache s ! j) \<longrightarrow>
      \<not> ce_dirty (g_cache (cache_flush_loop D is s) ! j))"
proof (induction "is" arbitrary: s)
  case (Cons i "is")
  then obtain s' where s': "cache_flush_loop D (i # is) s = cache_flush_loop D is s'" "cache_inv disk works s'"
    "cview disk s' = cview disk s" "same_core s s'" "\<not> ce_dirty (g_cache s' ! i)"
    "\<forall>j<SWIFTFS2_CACHE_SIZE. \<not> ce_dirty (g_cache s ! j) \<longrightarrow> \<not> ce_dirty (g_cache s' ! j)"
    using flush_step[of s i "is"] by auto
  from Cons.IH[OF s'(2)] Cons.prems(2) s' show ?case
    by (auto simp del: cache_flush_loop.simps intro: same_core_trans)
qed simp

lemma cache_flush_ok:
  assumes "cache_inv disk works s"
  shows "cache_inv disk works (cache_flush_all D s)" "cview disk (cache_flush_all D s) = cview disk s"
    "same_core s (cache_flush_all D s)" "disk (g_port s) (s_dev (cache_flush_all D s)) = cview disk s"
proof -
  let ?s = "cache_flush_all D s"
  have f: "cache_inv disk works ?s" "cview disk ?s = cview disk s" "same_core s ?s"
    "\<forall>j<SWIFTFS2_CACHE_SIZE. \<not> ce_dirty (g_cache ?s ! j)"
    using flush_loop[OF assms, of "[0..<SWIFTFS2_CACHE_SIZE]"] by (auto simp: cache_flush_all_def atLeast0LessThan)
  then show "cache_inv disk works ?s" "cview disk ?s = cview disk s" "same_core s ?s" by blast+
  have "disk (g_port ?s) (s_dev ?s) c = cview disk ?s c" for c
  proof (cases "\<exists>j<SWIFTFS2_CACHE_SIZE. ce_valid (g_cache ?s ! j) \<and> ce_block (g_cache ?s ! j) = c")
    case True
    then show ?thesis using cview_hit[OF f(1)] cache_invD(7)[OF f(1)] f(4) by metis
  next
    case False
    then show ?thesis using cview_miss[OF f(1), of c] by auto
  qed
  then show "disk (g_port s) (s_dev ?s) = cview disk s" using f(2) same_coreD(2)[OF f(3)] by (auto simp: fun_eq_iff)
qed

end

end
