(* ===== verification/Bitmap.thy ===== *)
theory Bitmap
  imports Prelude
begin

text \<open>
  The interface of an allocation bitmap, as used by the physical page allocator
  (\<open>src/kernel/mm/pmm.c\<close>) and by the block allocator of the file system
  (\<open>src/kernel/fs/swiftfs2.c\<close>): a test, a set and a clear operation on bit numbers below a
  capacity. The locale proves once what both allocators rely on: how setting or clearing one bit
  changes the number of free bits, and that the first-fit scan finds a free bit and takes exactly it.
\<close>

section \<open>Counting free bits\<close>

definition zeros :: "(nat \<Rightarrow> bool) \<Rightarrow> nat \<Rightarrow> nat" where
  "zeros used n = length (filter (\<lambda>i. \<not> used i) [0..<n])"

lemma zeros_card: "zeros used n = card {i. i < n \<and> \<not> used i}"
proof -
  have "set (filter (\<lambda>i. \<not> used i) [0..<n]) = {i. i < n \<and> \<not> used i}" by auto
  then show ?thesis
    unfolding zeros_def by (metis distinct_card distinct_filter distinct_upt)
qed

lemma zeros_cong: "(\<And>i. i < n \<Longrightarrow> p i = q i) \<Longrightarrow> zeros p n = zeros q n"
  unfolding zeros_def by (rule arg_cong[where f = length], rule filter_cong) auto

lemma zeros_le: "zeros p n \<le> n"
  unfolding zeros_def by (metis diff_zero length_filter_le length_upt)

lemma zeros_eq_0: "zeros p n = 0 \<longleftrightarrow> (\<forall>i<n. p i)"
  by (auto simp: zeros_def filter_empty_conv)

lemma zeros_pos: "i < n \<Longrightarrow> \<not> p i \<Longrightarrow> 0 < zeros p n"
  using zeros_eq_0[of p n] by auto

lemma zeros_take: "i < n \<Longrightarrow> \<not> p i \<Longrightarrow> zeros (p(i := True)) n = zeros p n - 1"
proof -
  assume i: "i < n" "\<not> p i"
  have "{j. j < n \<and> \<not> (p(i := True)) j} = {j. j < n \<and> \<not> p j} - {i}" using i by auto
  with i show ?thesis by (simp add: zeros_card card_Diff_singleton)
qed

lemma zeros_release: "i < n \<Longrightarrow> p i \<Longrightarrow> zeros (p(i := False)) n = Suc (zeros p n)"
proof -
  assume i: "i < n" "p i"
  have "{j. j < n \<and> \<not> (p(i := False)) j} = insert i {j. j < n \<and> \<not> p j}" using i by auto
  with i show ?thesis by (simp add: zeros_card)
qed

section \<open>The bitmap contract\<close>

locale alloc_bitmap =
  fixes test :: "'b \<Rightarrow> nat \<Rightarrow> bool"
    and mark :: "'b \<Rightarrow> nat \<Rightarrow> 'b"
    and unmark :: "'b \<Rightarrow> nat \<Rightarrow> 'b"
    and cap :: "'b \<Rightarrow> nat"
  assumes test_mark: "i < cap b \<Longrightarrow> j < cap b \<Longrightarrow> test (mark b i) j = (j = i \<or> test b j)"
    and test_unmark: "i < cap b \<Longrightarrow> j < cap b \<Longrightarrow> test (unmark b i) j = (j \<noteq> i \<and> test b j)"
    and cap_mark [simp]: "cap (mark b i) = cap b"
    and cap_unmark [simp]: "cap (unmark b i) = cap b"
begin

lemma zeros_mark:
  "i < n \<Longrightarrow> n \<le> cap b \<Longrightarrow> \<not> test b i \<Longrightarrow> zeros (test (mark b i)) n = zeros (test b) n - 1"
  using zeros_cong[of n "test (mark b i)" "(test b)(i := True)"] zeros_take[of i n "test b"]
  by (simp add: test_mark)

lemma zeros_unmark:
  "i < n \<Longrightarrow> n \<le> cap b \<Longrightarrow> test b i \<Longrightarrow> zeros (test (unmark b i)) n = Suc (zeros (test b) n)"
  using zeros_cong[of n "test (unmark b i)" "(test b)(i := False)"] zeros_release[of i n "test b"]
  by (simp add: test_unmark)

text \<open>The first-fit scan takes the least free bit and no other.\<close>

lemma scan_takes_one:
  assumes "find (\<lambda>i. \<not> test b i) [0..<n] = Some k" and "n \<le> cap b"
  shows "k < n" "\<not> test b k" "\<forall>j<k. test b j"
    and "\<forall>j<cap b. test (mark b k) j = (j = k \<or> test b j)"
    and "zeros (test (mark b k)) n = zeros (test b) n - 1" "0 < zeros (test b) n"
  using assms by (auto simp: find_upt_Some test_mark zeros_mark intro: zeros_pos)

lemma scan_fails:
  "find (\<lambda>i. \<not> test b i) [0..<n] = None \<longleftrightarrow> zeros (test b) n = 0"
  by (auto simp: find_upt_None zeros_eq_0)

lemma unmark_mark_test:
  "i < cap b \<Longrightarrow> \<not> test b i \<Longrightarrow> j < cap b \<Longrightarrow> test (unmark (mark b i) i) j = test b j"
  by (auto simp: test_mark test_unmark)

end

section \<open>Bits of a byte array\<close>

lemma bit_byte_or: "m < 8 \<Longrightarrow> bit (w OR 2 ^ k :: u8) m = (m = k \<or> bit w m)"
  by (auto simp: bit_simps)

lemma bit_byte_andnot: "m < 8 \<Longrightarrow> bit (w AND NOT (2 ^ k) :: u8) m = (m \<noteq> k \<and> bit w m)"
  by (auto simp: bit_simps)

lemma bit_byte_shift: "drop_bit k (w :: u8) AND 1 = 1 \<longleftrightarrow> bit w k"
  by (simp add: bit_iff_and_drop_bit_eq_1)

lemma same_bit: "(i::nat) div 8 = j div 8 \<Longrightarrow> i mod 8 = j mod 8 \<Longrightarrow> i = j"
  by (metis div_mult_mod_eq)

lemma nth_bit_or:
  "i < 8 * length bm \<Longrightarrow> bit (bm[i div 8 := bm ! (i div 8) OR 2 ^ (i mod 8)] ! (j div 8)) (j mod 8)
     = (j = i \<or> bit (bm ! (j div 8) :: u8) (j mod 8))"
  by (cases "i div 8 = j div 8") (auto simp: bit_byte_or dest: same_bit)

lemma nth_bit_andnot:
  "i < 8 * length bm \<Longrightarrow> bit (bm[i div 8 := bm ! (i div 8) AND NOT (2 ^ (i mod 8))] ! (j div 8)) (j mod 8)
     = (j \<noteq> i \<and> bit (bm ! (j div 8) :: u8) (j mod 8))"
  by (cases "i div 8 = j div 8") (auto simp: bit_byte_andnot dest: same_bit)

lemma or_andnot_byte: "\<not> bit w k \<Longrightarrow> (w OR 2 ^ k) AND NOT (2 ^ k) = (w :: u8)"
  by (rule bit_word_eqI) (auto simp: bit_simps)

end
