(* ===== verification/SwiftfsAlloc.thy ===== *)
theory SwiftfsAlloc
  imports SwiftfsCache Bitmap Allocator "HOL-Library.Signed_Division"
begin

text \<open>
  The block allocator of \<open>src/kernel/fs/swiftfs2.c\<close>: one bitmap block per group of 32768 blocks, loaded
  into the kernel heap on first use, a next-fit search over the groups and a first-fit search inside
  one, and the loading of the group descriptors.
\<close>

section \<open>Operations\<close>

definition SWIFTFS2_BLOCKS_PER_GROUP :: nat where "SWIFTFS2_BLOCKS_PER_GROUP = 32768"

definition group_of_block :: "u32 \<Rightarrow> int" where
  "group_of_block block = int (unat block div SWIFTFS2_BLOCKS_PER_GROUP)"

definition block_in_group :: "u32 \<Rightarrow> nat" where
  "block_in_group block = unat block mod SWIFTFS2_BLOCKS_PER_GROUP"

definition group_start_block :: "int \<Rightarrow> u32" where
  "group_start_block g = of_int (g * int SWIFTFS2_BLOCKS_PER_GROUP)"

text \<open>\<open>bitmap_for_group\<close>: whether it returned a bitmap; the bitmap is then in \<open>g_bitmaps\<close>.\<close>

definition bitmap_for_group :: "'d blkdev \<Rightarrow> int \<Rightarrow> 'd swiftfs \<Rightarrow> bool \<times> 'd swiftfs" where
  "bitmap_for_group D g s =
     (if g < 0 \<or> g \<ge> g_nr_groups s then (False, s)
      else if Option.is_none (g_bitmaps s ! nat g) then
        let (p, h) = kmalloc 4096 (s_heap s); s1 = s\<lparr>s_heap := h\<rparr> in
        if p = 0 then (False, s1)
        else
          let (r, bytes, s2) = read_block D (ucast (gd_block_bitmap_block (g_gd s1 ! nat g))) s1
          in (True, s2\<lparr>g_bitmaps := (g_bitmaps s2)[nat g := Some (p, blit (replicate 4096 0) 0 bytes)]\<rparr>)
      else (True, s))"

definition bitmap_bits :: "int \<Rightarrow> 'd swiftfs \<Rightarrow> u8 list" where
  "bitmap_bits g s = snd (the (g_bitmaps s ! nat g))"

definition bitmap_sync :: "'d blkdev \<Rightarrow> int \<Rightarrow> 'd swiftfs \<Rightarrow> 'd swiftfs" where
  "bitmap_sync D g s =
     (case g_bitmaps s ! nat g of None \<Rightarrow> s
      | Some (p, bm) \<Rightarrow> snd (write_block D (ucast (gd_block_bitmap_block (g_gd s ! nat g))) bm s))"

definition bit_set :: "u8 list \<Rightarrow> nat \<Rightarrow> u8 list" where
  "bit_set bm n = bm[n div 8 := bm ! (n div 8) OR 2 ^ (n mod 8)]"

definition bit_test :: "u8 list \<Rightarrow> nat \<Rightarrow> bool" where
  "bit_test bm n = (drop_bit (n mod 8) (bm ! (n div 8)) AND 1 = 1)"

definition bit_clear :: "u8 list \<Rightarrow> nat \<Rightarrow> u8 list" where
  "bit_clear bm n = bm[n div 8 := bm ! (n div 8) AND NOT (2 ^ (n mod 8))]"

text \<open>Replacing the bits of a loaded bitmap, and adjusting the two counters of free blocks.\<close>

definition bitmap_put :: "int \<Rightarrow> u8 list \<Rightarrow> 'd swiftfs \<Rightarrow> 'd swiftfs" where
  "bitmap_put g bm s = s\<lparr>g_bitmaps := (g_bitmaps s)[nat g := map_option (\<lambda>(p, _). (p, bm)) (g_bitmaps s ! nat g)]\<rparr>"

definition free_blocks_add :: "int \<Rightarrow> int \<Rightarrow> 'd swiftfs \<Rightarrow> 'd swiftfs" where
  "free_blocks_add g k s =
     s\<lparr>g_gd := (g_gd s)[nat g := (g_gd s ! nat g)\<lparr>gd_free_blocks_count := gd_free_blocks_count (g_gd s ! nat g) + of_int k\<rparr>],
       sb := (sb s)\<lparr>sb_free_blocks := sb_free_blocks (sb s) + of_int k\<rparr>\<rparr>"

primrec block_alloc_loop :: "'d blkdev \<Rightarrow> int \<Rightarrow> nat list \<Rightarrow> 'd swiftfs \<Rightarrow> u32 \<times> 'd swiftfs" where
  "block_alloc_loop D start [] s = (0, s)"
| "block_alloc_loop D start (gi # gis) s =
     (let g = (start + int gi) mod g_nr_groups s in
      if gd_free_blocks_count (g_gd s ! nat g) = 0 then block_alloc_loop D start gis s
      else
        let (ok, s1) = bitmap_for_group D g s in
        if \<not> ok then block_alloc_loop D start gis s1
        else case find (\<lambda>b. \<not> bit_test (bitmap_bits g s1) b) [0..<SWIFTFS2_BLOCKS_PER_GROUP] of
            Some b \<Rightarrow>
              let s2 = bitmap_put g (bit_set (bitmap_bits g s1) b) s1;
                  s3 = (free_blocks_add g (-1) s2)\<lparr>g_curr_group := g\<rparr>
              in (group_start_block g + of_nat b, cache_mark_dirty (gd_block_bitmap_block (g_gd s3 ! nat g)) 0 s3)
          | None \<Rightarrow> block_alloc_loop D start gis s1)"

definition block_alloc :: "'d blkdev \<Rightarrow> 'd swiftfs \<Rightarrow> u32 \<times> 'd swiftfs" where
  "block_alloc D s = block_alloc_loop D (g_curr_group s) [0..<nat (g_nr_groups s)] s"

definition block_free :: "'d blkdev \<Rightarrow> u32 \<Rightarrow> 'd swiftfs \<Rightarrow> 'd swiftfs" where
  "block_free D block s =
     (if block = 0 then s
      else
        let g = group_of_block block; b = block_in_group block; (ok, s1) = bitmap_for_group D g s in
        if \<not> ok then s1
        else if \<not> bit_test (bitmap_bits g s1) b then s1
        else
          let s2 = free_blocks_add g 1 (bitmap_put g (bit_clear (bitmap_bits g s1) b) s1)
          in cache_mark_dirty (gd_block_bitmap_block (g_gd s2 ! nat g)) 0 s2)"

text \<open>
  Loading the descriptors; \<open>garbage\<close> is what the fresh heap memory holds before the blocks are read
  over it. A C \<open>int\<close> that receives a wider value keeps its low 32 bits.
\<close>

definition to_int :: "u64 \<Rightarrow> int" where "to_int x = sint (ucast x :: u32)"

primrec read_blocks :: "'d blkdev \<Rightarrow> nat list \<Rightarrow> u8 list \<Rightarrow> 'd swiftfs \<Rightarrow> u8 list \<times> 'd swiftfs" where
  "read_blocks D [] raw s = (raw, s)"
| "read_blocks D (i # is) raw s =
     (let (r, bytes, s1) = read_block D (1 + of_nat i) s in read_blocks D is (blit raw (i * 4096) bytes) s1)"

definition load_group_descriptors :: "'d blkdev \<Rightarrow> u8 list \<Rightarrow> 'd swiftfs \<Rightarrow> int \<times> 'd swiftfs" where
  "load_group_descriptors D garbage s =
     (let nr = to_int ((sb_num_blocks (sb s) + 32768 - 1) div 32768);
          s0 = s\<lparr>g_nr_groups := nr\<rparr>;
          desc_blocks = (to_int (of_int nr * 32) + 4096 - 1) sdiv 4096
      in if desc_blocks \<noteq> sint (sb_group_desc_count (sb s)) then (-1, s0)
         else
           let (raw, h) = kmalloc (of_int (desc_blocks * 4096)) (s_heap s0); s1 = s0\<lparr>s_heap := h\<rparr> in
           if raw = 0 then (-1, s1)
           else
             let (bytes, s2) = read_blocks D [0..<nat desc_blocks] (take (nat desc_blocks * 4096) garbage) s1;
                 s3 = s2\<lparr>g_gd := map (\<lambda>k. dec_gd bytes (32 * k)) [0..<nat desc_blocks * 128], g_gd_ptr := raw\<rparr>;
                 (bp, h') = kmalloc (8 * of_int nr) (s_heap s3)
             in if bp = 0 then (-1, s3\<lparr>s_heap := kfree raw h', g_bitmaps_ptr := 0\<rparr>)
                else (0, s3\<lparr>s_heap := h', g_bitmaps_ptr := bp, g_bitmaps := replicate (nat nr) None\<rparr>))"

interpretation bm: alloc_bitmap bit_test bit_set bit_clear "\<lambda>bm. 8 * length bm"
  by unfold_locales (simp_all add: bit_set_def bit_test_def bit_clear_def bit_byte_shift nth_bit_or nth_bit_andnot)

section \<open>The allocation state\<close>

text \<open>The bitmap of a group, loaded or still on the disk, and whether a block is in use.\<close>

definition group_bits :: "(int \<Rightarrow> 'd \<Rightarrow> u32 \<Rightarrow> u8 list) \<Rightarrow> 'd swiftfs \<Rightarrow> nat \<Rightarrow> u8 list" where
  "group_bits disk s g =
     (case g_bitmaps s ! g of Some (p, bm) \<Rightarrow> bm
      | None \<Rightarrow> disk (g_port s) (s_dev s) (gd_block_bitmap_block (g_gd s ! g)))"

definition block_used :: "(int \<Rightarrow> 'd \<Rightarrow> u32 \<Rightarrow> u8 list) \<Rightarrow> 'd swiftfs \<Rightarrow> u32 \<Rightarrow> bool" where
  "block_used disk s b \<longleftrightarrow> unat b div 32768 < nat (g_nr_groups s) \<and>
     bit_test (group_bits disk s (unat b div 32768)) (unat b mod 32768)"

definition alloc_inv :: "(int \<Rightarrow> 'd \<Rightarrow> u32 \<Rightarrow> u8 list) \<Rightarrow> (int \<Rightarrow> 'd \<Rightarrow> bool) \<Rightarrow> 'd swiftfs \<Rightarrow> bool" where
  "alloc_inv disk works s \<longleftrightarrow> works (g_port s) (s_dev s) \<and> 0 < g_nr_groups s \<and> g_nr_groups s \<le> 131072 \<and>
     length (g_bitmaps s) = nat (g_nr_groups s) \<and> nat (g_nr_groups s) \<le> length (g_gd s) \<and> 0 \<le> g_curr_group s \<and>
     (\<forall>g<nat (g_nr_groups s). length (group_bits disk s g) = 4096 \<and>
        unat (gd_free_blocks_count (g_gd s ! g)) = zeros (bit_test (group_bits disk s g)) 32768) \<and>
     bit_test (group_bits disk s 0) 0"

text \<open>All bitmaps loaded: from then on no operation can fail for want of kernel heap.\<close>

definition all_loaded :: "'d swiftfs \<Rightarrow> bool" where
  "all_loaded s \<longleftrightarrow> (\<forall>g<nat (g_nr_groups s). g_bitmaps s ! g \<noteq> None)"

text \<open>What allocation and release leave alone.\<close>

definition meta_same :: "(int \<Rightarrow> 'd \<Rightarrow> u32 \<Rightarrow> u8 list) \<Rightarrow> 'd swiftfs \<Rightarrow> 'd swiftfs \<Rightarrow> bool" where
  "meta_same disk s s' \<longleftrightarrow> g_port s' = g_port s \<and> g_mounted s' = g_mounted s \<and> g_nr_groups s' = g_nr_groups s \<and>
     s_fds s' = s_fds s \<and> length (g_gd s') = length (g_gd s) \<and>
     (\<forall>g. gd_inode_table_block (g_gd s' ! g) = gd_inode_table_block (g_gd s ! g) \<and>
          gd_free_inodes_count (g_gd s' ! g) = gd_free_inodes_count (g_gd s ! g) \<and>
          gd_block_bitmap_block (g_gd s' ! g) = gd_block_bitmap_block (g_gd s ! g)) \<and>
     disk (g_port s) (s_dev s') = disk (g_port s) (s_dev s) \<and> cview disk s' = cview disk s"

lemma meta_same_refl [simp]: "meta_same disk s s"
  by (simp add: meta_same_def)

lemma meta_same_trans: "meta_same disk s s' \<Longrightarrow> meta_same disk s' s'' \<Longrightarrow> meta_same disk s s''"
  unfolding meta_same_def by metis

lemma cview_cong:
  "g_cache s' = g_cache s \<Longrightarrow> disk (g_port s') (s_dev s') = disk (g_port s) (s_dev s) \<Longrightarrow> cview disk s' = cview disk s"
  by (auto simp: cview_def fun_eq_iff split: option.split)

lemma cache_inv_cong:
  "g_cache s' = g_cache s \<Longrightarrow> disk (g_port s') (s_dev s') = disk (g_port s) (s_dev s) \<Longrightarrow>
   g_cache_next s' = g_cache_next s \<Longrightarrow> works (g_port s') (s_dev s') \<Longrightarrow>
   cache_inv disk works s \<Longrightarrow> cache_inv disk works s'"
  by (simp add: cache_inv_def)

lemma mark_dirty_cache:
  "g_cache (cache_mark_dirty b g s) ! i = (g_cache s ! i)\<lparr>ce_dirty := ce_dirty (g_cache (cache_mark_dirty b g s) ! i)\<rparr>"
  by (simp add: cache_mark_dirty_def nth_upd split: option.split)

lemma mark_dirty_fields [simp]:
  "g_port (cache_mark_dirty b g s) = g_port s" "s_dev (cache_mark_dirty b g s) = s_dev s"
  "g_nr_groups (cache_mark_dirty b g s) = g_nr_groups s" "g_gd (cache_mark_dirty b g s) = g_gd s"
  "g_bitmaps (cache_mark_dirty b g s) = g_bitmaps s" "g_curr_group (cache_mark_dirty b g s) = g_curr_group s"
  "s_fds (cache_mark_dirty b g s) = s_fds s" "s_heap (cache_mark_dirty b g s) = s_heap s"
  "sb (cache_mark_dirty b g s) = sb s" "g_mounted (cache_mark_dirty b g s) = g_mounted s"
  "g_cache_next (cache_mark_dirty b g s) = g_cache_next s" "length (g_cache (cache_mark_dirty b g s)) = length (g_cache s)"
  by (simp_all add: cache_mark_dirty_def split: option.split)

lemma mark_dirty_entry:
  "ce_block (g_cache (cache_mark_dirty b g s) ! i) = ce_block (g_cache s ! i)"
  "ce_group (g_cache (cache_mark_dirty b g s) ! i) = ce_group (g_cache s ! i)"
  "ce_data (g_cache (cache_mark_dirty b g s) ! i) = ce_data (g_cache s ! i)"
  "ce_valid (g_cache (cache_mark_dirty b g s) ! i) = ce_valid (g_cache s ! i)"
  by (subst mark_dirty_cache, simp)+

lemma mark_dirty_cview [simp]: "cview disk (cache_mark_dirty b g s) = cview disk s"
  by (simp add: cview_def cache_hit_def mark_dirty_entry fun_eq_iff cong: option.case_cong)

lemma mark_dirty_only_valid:
  "ce_dirty (g_cache (cache_mark_dirty b g s) ! i) \<Longrightarrow> ce_dirty (g_cache s ! i) \<or> ce_valid (g_cache s ! i)"
  by (auto simp: cache_mark_dirty_def nth_upd find_upt_Some cache_hit_def split: option.splits if_splits)

lemma mark_dirty_keeps: "ce_dirty (g_cache s ! i) \<Longrightarrow> ce_dirty (g_cache (cache_mark_dirty b g s) ! i)"
  by (auto simp: cache_mark_dirty_def nth_upd split: option.splits if_splits)

lemma mark_dirty_inv: "cache_inv disk works s \<Longrightarrow> cache_inv disk works (cache_mark_dirty b g s)"
  unfolding cache_inv_def Let_def mark_dirty_entry mark_dirty_fields
  using mark_dirty_only_valid[of b g s] mark_dirty_keeps[of s _ b g] by blast

lemma group_bits_cong:
  "g_bitmaps s' = g_bitmaps s \<Longrightarrow> g_gd s' = g_gd s \<Longrightarrow> disk (g_port s') (s_dev s') = disk (g_port s) (s_dev s) \<Longrightarrow>
   group_bits disk s' = group_bits disk s"
  by (auto simp: group_bits_def fun_eq_iff split: option.split)

lemma group_bits_simps [simp]:
  "group_bits disk (cache_mark_dirty b g s) = group_bits disk s"
  "group_bits disk (s\<lparr>g_curr_group := c\<rparr>) = group_bits disk s"
  by (rule group_bits_cong; simp)+

lemma alloc_invD:
  assumes "alloc_inv disk works s"
  shows "works (g_port s) (s_dev s)" "0 < g_nr_groups s" "g_nr_groups s \<le> 131072"
    "length (g_bitmaps s) = nat (g_nr_groups s)" "nat (g_nr_groups s) \<le> length (g_gd s)" "0 \<le> g_curr_group s"
    "g < nat (g_nr_groups s) \<Longrightarrow> length (group_bits disk s g) = 4096"
    "g < nat (g_nr_groups s) \<Longrightarrow> unat (gd_free_blocks_count (g_gd s ! g)) = zeros (bit_test (group_bits disk s g)) 32768"
    "bit_test (group_bits disk s 0) 0"
  using assms unfolding alloc_inv_def by blast+

lemma alloc_inv_cong:
  assumes "alloc_inv disk works s" "works (g_port s) (s_dev s')" "g_port s' = g_port s" "g_nr_groups s' = g_nr_groups s"
    "length (g_bitmaps s') = length (g_bitmaps s)" "g_gd s' = g_gd s" "g_curr_group s' = g_curr_group s"
    "group_bits disk s' = group_bits disk s"
  shows "alloc_inv disk works s'"
  using assms by (simp add: alloc_inv_def)

context block_device
begin

lemma bitmap_for_group_ok:
  assumes inv: "alloc_inv disk works s" and g: "g < nat (g_nr_groups s)"
  obtains ok s' where "bitmap_for_group D (int g) s = (ok, s')" "alloc_inv disk works s'"
    "group_bits disk s' = group_bits disk s" "meta_same disk s s'" "g_gd s' = g_gd s" "sb s' = sb s"
    "g_cache s' = g_cache s" "g_cache_next s' = g_cache_next s"
    "ok \<Longrightarrow> \<exists>p. g_bitmaps s' ! g = Some (p, group_bits disk s g)"
    "\<And>k. g_bitmaps s ! k \<noteq> None \<Longrightarrow> g_bitmaps s' ! k = g_bitmaps s ! k"
    "g_bitmaps s ! g \<noteq> None \<Longrightarrow> ok"
proof (cases "g_bitmaps s ! g")
  case (Some b)
  have "bitmap_for_group D (int g) s = (True, s)" using g Some by (simp add: bitmap_for_group_def)
  with inv Some show thesis by (intro that[of True s]) (auto simp: group_bits_def split: prod.splits)
next
  case None
  note I = alloc_invD[OF inv]
  obtain p h where k: "kmalloc 4096 (s_heap s) = (p, h)" by force
  show thesis
  proof (cases "p = 0")
    case True
    let ?s = "s\<lparr>s_heap := h\<rparr>"
    have b: "bitmap_for_group D (int g) s = (False, ?s)"
      using g None k True by (simp add: bitmap_for_group_def)
    have gb: "group_bits disk ?s = group_bits disk s" by (simp add: group_bits_def fun_eq_iff split: option.split)
    from b gb show thesis
      by (intro that[of False ?s] alloc_inv_cong[OF inv]) (use I None in \<open>simp_all add: meta_same_def cview_def fun_eq_iff split: option.split\<close>)
  next
    case False
    let ?b = "gd_block_bitmap_block (g_gd s ! g)" and ?d = "disk (g_port s) (s_dev s)"
    let ?s1 = "s\<lparr>s_heap := h\<rparr>"
    have "works (g_port ?s1) (s_dev ?s1)" using I(1) by simp
    from read_block_ok[OF this, of ?b] obtain d where
      d: "read_block D (ucast ?b) ?s1 = (4096, ?d ?b, ?s1\<lparr>s_dev := d\<rparr>)" "works (g_port s) d" "disk (g_port s) d = ?d"
      by auto
    have bl: "blit (replicate 4096 0) 0 (?d ?b) = ?d ?b"
      using disk_length[OF I(1), of ?b] by (simp add: blit_def)
    let ?s = "?s1\<lparr>s_dev := d, g_bitmaps := (g_bitmaps s)[g := Some (p, ?d ?b)]\<rparr>"
    have b: "bitmap_for_group D (int g) s = (True, ?s)"
      using g None k False d(1) bl by (simp add: bitmap_for_group_def)
    have gb: "group_bits disk ?s = group_bits disk s"
      using None d(3) by (auto simp: group_bits_def fun_eq_iff nth_upd split: option.split)
    have at: "g_bitmaps ?s ! g = Some (p, group_bits disk s g)"
      using g I(4) None by (simp add: group_bits_def)
    from b gb at show thesis
      by (intro that[of True ?s] alloc_inv_cong[OF inv])
         (use I d None in \<open>auto simp: meta_same_def cview_def fun_eq_iff nth_upd split: option.split\<close>)
  qed
qed
end

lemma group_bits_put:
  assumes "g_bitmaps s ! g = Some (p, old)" "g < length (g_bitmaps s)"
  shows "group_bits disk (bitmap_put (int g) bm s) = (group_bits disk s)(g := bm)"
  using assms by (auto simp: group_bits_def bitmap_put_def fun_eq_iff nth_upd split: option.split)

text \<open>Taking or releasing one bit of a loaded bitmap, with its counters.\<close>

lemma bitmap_change:
  assumes inv: "alloc_inv disk works s" and g: "g < nat (g_nr_groups s)" "g_bitmaps s ! g = Some (p, old)"
    and bm: "length bm = 4096" "int (zeros (bit_test bm) 32768) = int (zeros (bit_test old) 32768) + k"
    and z: "g = 0 \<Longrightarrow> bit_test bm 0"
  defines "s' \<equiv> free_blocks_add (int g) k (bitmap_put (int g) bm s)"
  shows "alloc_inv disk works s'" "group_bits disk s' = (group_bits disk s)(g := bm)" "meta_same disk s s'"
    "g_cache s' = g_cache s" "g_cache_next s' = g_cache_next s" "s_dev s' = s_dev s"
proof -
  note I = alloc_invD[OF inv]
  have gl: "g < length (g_bitmaps s)" "g < length (g_gd s)" using g(1) I(4,5) by simp_all
  have old: "group_bits disk s g = old" using g(2) by (simp add: group_bits_def)
  have gb0: "group_bits disk s' = group_bits disk (bitmap_put (int g) bm s)"
  proof
    fix h
    show "group_bits disk s' h = group_bits disk (bitmap_put (int g) bm s) h"
      by (simp add: s'_def free_blocks_add_def group_bits_def bitmap_put_def nth_upd split: option.split)
  qed
  then show gb: "group_bits disk s' = (group_bits disk s)(g := bm)"
    using group_bits_put[OF g(2) gl(1)] by simp
  have cnt: "unat (gd_free_blocks_count (g_gd s' ! h)) = zeros (bit_test (group_bits disk s' h)) 32768"
    if "h < nat (g_nr_groups s)" for h
  proof (cases "h = g")
    case True
    have "gd_free_blocks_count (g_gd s' ! g) = gd_free_blocks_count (g_gd s ! g) + of_int k"
      using gl by (simp add: s'_def free_blocks_add_def bitmap_put_def)
    moreover have "gd_free_blocks_count (g_gd s ! g) = of_nat (zeros (bit_test old) 32768)"
      using arg_cong[OF I(8)[OF g(1)], of "of_nat :: nat \<Rightarrow> u32"] old by simp
    ultimately have "gd_free_blocks_count (g_gd s' ! g) = of_int (int (zeros (bit_test old) 32768) + k)" by simp
    also have "\<dots> = of_nat (zeros (bit_test bm) 32768)" by (simp only: bm(2)[symmetric] of_int_of_nat_eq)
    finally show ?thesis using True gb zeros_le[of "bit_test bm" 32768] by (simp add: unat_of_nat_small)
  next
    case False
    then show ?thesis using I(8)[OF that] gb by (simp add: s'_def free_blocks_add_def bitmap_put_def nth_upd)
  qed
  show "alloc_inv disk works s'"
    unfolding alloc_inv_def
  proof (intro conjI allI impI, goal_cases)
    case (7 h) then show ?case using I(7)[of h] bm(1) gb by (simp add: s'_def free_blocks_add_def bitmap_put_def)
  next
    case (8 h) then show ?case using cnt[of h] by (simp add: s'_def free_blocks_add_def bitmap_put_def)
  next
    case 9 then show ?case using I(9) z gb by simp
  qed (use I in \<open>simp_all add: s'_def free_blocks_add_def bitmap_put_def\<close>)
  show "meta_same disk s s'"
    unfolding meta_same_def using cview_cong[of s' s disk]
    by (simp add: s'_def free_blocks_add_def bitmap_put_def nth_upd)
qed (simp_all add: s'_def free_blocks_add_def bitmap_put_def)

section \<open>Allocation takes a free block, release gives it back\<close>

lemma block_split: "g < 131072 \<Longrightarrow> b < 32768 \<Longrightarrow> unat (group_start_block (int g) + of_nat b) = g * 32768 + b"
proof -
  assume gb: "g < 131072" "b < 32768"
  have "group_start_block (int g) = of_nat (g * 32768)"
    unfolding group_start_block_def SWIFTFS2_BLOCKS_PER_GROUP_def by (metis of_int_of_nat_eq of_nat_mult)
  then have "group_start_block (int g) + of_nat b = of_nat (g * 32768 + b)" by simp
  then show ?thesis using gb by (simp only:) (rule unat_of_nat_small, simp)
qed

lemma block_used_upd:
  assumes "g < nat (g_nr_groups s)" "b < 32768" "group_bits disk s' = (group_bits disk s)(g := bm)"
    and "g_nr_groups s' = g_nr_groups s" "\<And>k. k < 32768 \<Longrightarrow> bit_test bm k = (if k = b then v else bit_test (group_bits disk s g) k)"
    and "unat x = g * 32768 + b"
  shows "block_used disk s' y \<longleftrightarrow> (if y = x then v else block_used disk s y)"
proof (cases "unat y div 32768 = g")
  case True
  have "y = x \<longleftrightarrow> unat y mod 32768 = b"
  proof
    assume "unat y mod 32768 = b"
    then have "unat y = unat x" using True assms(6) div_mult_mod_eq[of "unat y" 32768] by simp
    then show "y = x" by (simp add: word_unat_eq_iff)
  qed (use assms(2,6) in simp)
  then show ?thesis using True assms by (simp add: block_used_def)
next
  case False
  then have "y \<noteq> x" using assms(2,6) by auto
  with False assms(3,4) show ?thesis by (simp add: block_used_def)
qed

text \<open>The part of \<open>block_alloc\<close> that takes the bit \<open>b\<close> of group \<open>g\<close>.\<close>

definition block_take :: "nat \<Rightarrow> nat \<Rightarrow> 'd swiftfs \<Rightarrow> 'd swiftfs" where
  "block_take g b s =
     (let s3 = (free_blocks_add (int g) (-1) (bitmap_put (int g) (bit_set (bitmap_bits (int g) s) b) s))\<lparr>g_curr_group := int g\<rparr>
      in cache_mark_dirty (gd_block_bitmap_block (g_gd s3 ! g)) 0 s3)"

lemma block_take_ok:
  assumes inv: "alloc_inv disk works s" and g: "g < nat (g_nr_groups s)" "g_bitmaps s ! g = Some (p, bits)"
    and b: "find (\<lambda>b. \<not> bit_test bits b) [0..<32768] = Some b"
  defines "x \<equiv> group_start_block (int g) + of_nat b"
  shows "alloc_inv disk works (block_take g b s)" "meta_same disk s (block_take g b s)"
    "cache_inv disk works s \<Longrightarrow> cache_inv disk works (block_take g b s)"
    "unat x div 32768 < nat (g_nr_groups s)" "\<not> block_used disk s x" "x \<noteq> 0"
    "block_used disk (block_take g b s) = (block_used disk s)(x := True)"
    "sb (block_take g b s) = (sb s)\<lparr>sb_free_blocks := sb_free_blocks (sb s) - 1\<rparr>"
    "g_bitmaps s ! k \<noteq> None \<Longrightarrow> g_bitmaps (block_take g b s) ! k \<noteq> None"
proof -
  note I = alloc_invD[OF inv]
  have bb: "bitmap_bits (int g) s = bits" "group_bits disk s g = bits"
    using g(2) by (simp_all add: bitmap_bits_def group_bits_def)
  have len: "length bits = 4096" using I(7)[OF g(1)] bb by simp
  note sc = bm.scan_takes_one[OF b]
  have b32: "b < 32768" "\<not> bit_test bits b" using sc(1,2) len by simp_all
  have z: "int (zeros (bit_test (bit_set bits b)) 32768) = int (zeros (bit_test bits) 32768) + -1"
    using sc(5,6) len by simp
  have set: "bit_test (bit_set bits b) k = (if k = b then True else bit_test (group_bits disk s g) k)" if "k < 32768" for k
    using bm.test_mark[of b bits k] that b32(1) len bb by simp
  have z0: "g = 0 \<Longrightarrow> bit_test (bit_set bits b) 0" using I(9) set[of 0] bb by simp
  have l4: "length (bit_set bits b) = 4096" using len by (simp add: bit_set_def)
  define s2 where "s2 = free_blocks_add (int g) (-1) (bitmap_put (int g) (bit_set bits b) s)"
  note ch = bitmap_change[OF inv g l4 z z0, folded s2_def]
  let ?s = "block_take g b s"
  have s: "?s = cache_mark_dirty (gd_block_bitmap_block (g_gd s2 ! g)) 0 (s2\<lparr>g_curr_group := int g\<rparr>)"
    by (simp add: block_take_def bb s2_def)
  have ux: "unat x = g * 32768 + b" unfolding x_def using g(1) I(3) b32(1) by (intro block_split) auto
  have nr2: "g_nr_groups s2 = g_nr_groups s" using ch(3) by (simp add: meta_same_def)
  have "block_used disk ?s y \<longleftrightarrow> (if y = x then True else block_used disk s y)" for y
    by (rule block_used_upd[OF g(1) b32(1) _ _ set ux])
       (use ch(2) nr2 in \<open>simp_all add: s\<close>)
  then show "block_used disk ?s = (block_used disk s)(x := True)" by (simp add: fun_eq_iff)
  show "alloc_inv disk works ?s" using ch(1) by (simp add: s alloc_inv_def)
  show "meta_same disk s ?s"
    using ch(3) cview_cong[of "s2\<lparr>g_curr_group := int g\<rparr>" s2 disk] by (simp add: s meta_same_def)
  show "cache_inv disk works ?s" if "cache_inv disk works s"
    unfolding s using that alloc_invD(1)[OF ch(1)] ch(3-6)
    by - (rule mark_dirty_inv, rule cache_inv_cong[of _ s], simp_all add: meta_same_def)
  show "\<not> block_used disk s x" using ux b32 bb by (simp add: block_used_def)
  show "unat x div 32768 < nat (g_nr_groups s)" using ux b32(1) g(1) by simp
  show "x \<noteq> 0"
  proof
    assume "x = 0"
    then have "g = 0" "b = 0" using ux by auto
    then show False using b32(2) I(9) bb by simp
  qed
  show "sb ?s = (sb s)\<lparr>sb_free_blocks := sb_free_blocks (sb s) - 1\<rparr>"
    by (simp add: s s2_def free_blocks_add_def bitmap_put_def)
  show "g_bitmaps ?s ! k \<noteq> None" if "g_bitmaps s ! k \<noteq> None"
    using that g(2) by (auto simp: s s2_def free_blocks_add_def bitmap_put_def nth_upd)
qed

context block_device
begin

lemma block_alloc_loop_ok:
  assumes "alloc_inv disk works s" "0 \<le> start"
  shows "\<exists>b s'. block_alloc_loop D start gis s = (b, s') \<and> alloc_inv disk works s' \<and> meta_same disk s s' \<and>
    (cache_inv disk works s \<longrightarrow> cache_inv disk works s') \<and>
    (b \<noteq> 0 \<longrightarrow> unat b div 32768 < nat (g_nr_groups s) \<and> \<not> block_used disk s b \<and>
       block_used disk s' = (block_used disk s)(b := True) \<and> sb s' = (sb s)\<lparr>sb_free_blocks := sb_free_blocks (sb s) - 1\<rparr>) \<and>
    (b = 0 \<longrightarrow> block_used disk s' = block_used disk s \<and> sb s' = sb s \<and>
       (all_loaded s \<longrightarrow>
          (\<forall>gi\<in>set gis. gd_free_blocks_count (g_gd s ! nat ((start + int gi) mod g_nr_groups s)) = 0))) \<and>
    (\<forall>g. g_bitmaps s ! g \<noteq> None \<longrightarrow> g_bitmaps s' ! g \<noteq> None)"
  using assms
proof (induction gis arbitrary: s)
  case Nil
  then show ?case by simp
next
  case (Cons gi gis)
  note I = alloc_invD[OF Cons.prems(1)]
  define g where "g = nat ((start + int gi) mod g_nr_groups s)"
  have g: "(start + int gi) mod g_nr_groups s = int g" "g < nat (g_nr_groups s)"
    using I(2) by (simp_all add: g_def nat_less_iff)
  show ?case
  proof (cases "gd_free_blocks_count (g_gd s ! g) = 0")
    case True
    have "block_alloc_loop D start (gi # gis) s = block_alloc_loop D start gis s" using g True by simp
    then show ?thesis using Cons.IH[OF Cons.prems] True by (simp only: list.set ball_simps g(1) nat_int) auto
  next
    case False
    obtain ok s1 where s1: "bitmap_for_group D (int g) s = (ok, s1)" "alloc_inv disk works s1"
      "group_bits disk s1 = group_bits disk s" "meta_same disk s s1" "g_gd s1 = g_gd s" "sb s1 = sb s"
      "g_cache s1 = g_cache s" "g_cache_next s1 = g_cache_next s"
      "ok \<Longrightarrow> \<exists>p. g_bitmaps s1 ! g = Some (p, group_bits disk s g)"
      "\<And>k. g_bitmaps s ! k \<noteq> None \<Longrightarrow> g_bitmaps s1 ! k = g_bitmaps s ! k" "g_bitmaps s ! g \<noteq> None \<Longrightarrow> ok"
      using bitmap_for_group_ok[OF Cons.prems(1) g(2)] by blast
    have nr: "g_nr_groups s1 = g_nr_groups s" and port: "g_port s1 = g_port s" using s1(4) by (auto simp: meta_same_def)
    have used1: "block_used disk s1 = block_used disk s" by (simp add: block_used_def fun_eq_iff nr s1(3))
    have ci: "cache_inv disk works s1" if "cache_inv disk works s"
      using cache_inv_cong[OF s1(7) _ s1(8) _ that] alloc_invD(1)[OF s1(2)] s1(4) by (simp add: meta_same_def)
    let ?bits = "group_bits disk s g"
    have pos: "0 < zeros (bit_test ?bits) 32768"
      using I(8)[OF g(2)] False by (simp add: unat_gt_0[symmetric])
    show ?thesis
    proof (cases ok)
      case nok: False
      then have "\<not> all_loaded s" using s1(11) g(2) by (auto simp: all_loaded_def)
      have "block_alloc_loop D start (gi # gis) s = block_alloc_loop D start gis s1" using g False s1(1) nok by simp
      moreover obtain b s' where "block_alloc_loop D start gis s1 = (b, s')" "alloc_inv disk works s'" "meta_same disk s1 s'"
        "cache_inv disk works s1 \<longrightarrow> cache_inv disk works s'"
        "b \<noteq> 0 \<longrightarrow> unat b div 32768 < nat (g_nr_groups s1) \<and> \<not> block_used disk s1 b \<and>
          block_used disk s' = (block_used disk s1)(b := True) \<and> sb s' = (sb s1)\<lparr>sb_free_blocks := sb_free_blocks (sb s1) - 1\<rparr>"
        "b = 0 \<longrightarrow> block_used disk s' = block_used disk s1 \<and> sb s' = sb s1"
        "\<forall>g. g_bitmaps s1 ! g \<noteq> None \<longrightarrow> g_bitmaps s' ! g \<noteq> None"
        using Cons.IH[OF s1(2) Cons.prems(2)] by blast
      ultimately show ?thesis
        using meta_same_trans[OF s1(4)] ci used1 s1(6,10) nr \<open>\<not> all_loaded s\<close>
        by (intro exI[of _ b] exI[of _ s']) metis
    next
      case ok: True
      then obtain p where p: "g_bitmaps s1 ! g = Some (p, ?bits)" using s1(9) by blast
      obtain b where b: "find (\<lambda>b. \<not> bit_test ?bits b) [0..<32768] = Some b"
        using pos bm.scan_fails[of ?bits 32768] by (cases "find (\<lambda>b. \<not> bit_test ?bits b) [0..<32768]") auto
      note tk = block_take_ok[OF s1(2) g(2)[folded nr] p b]
      let ?x = "group_start_block (int g) + of_nat b"
      have "block_alloc_loop D start (gi # gis) s = (?x, block_take g b s1)"
        using g(1) False s1(1) ok b p by (simp add: bitmap_bits_def SWIFTFS2_BLOCKS_PER_GROUP_def block_take_def Let_def)
      then show ?thesis using tk meta_same_trans[OF s1(4)] ci used1 s1(6,10) nr
        by (intro exI[of _ ?x] exI[of _ "block_take g b s1"]) simp
    qed
  qed
qed

lemma block_alloc_ok:
  assumes "alloc_inv disk works s"
  obtains b s' where "block_alloc D s = (b, s')" "alloc_inv disk works s'" "meta_same disk s s'"
    "cache_inv disk works s \<Longrightarrow> cache_inv disk works s'"
    "b \<noteq> 0 \<Longrightarrow> unat b div 32768 < nat (g_nr_groups s) \<and> \<not> block_used disk s b"
    "block_used disk s' = (if b = 0 then block_used disk s else (block_used disk s)(b := True))"
    "sb_free_blocks (sb s') = (if b = 0 then sb_free_blocks (sb s) else sb_free_blocks (sb s) - 1)"
    "\<And>g. b = 0 \<Longrightarrow> all_loaded s \<Longrightarrow> g < nat (g_nr_groups s) \<Longrightarrow> zeros (bit_test (group_bits disk s g)) 32768 = 0"
    "all_loaded s \<Longrightarrow> all_loaded s'"
proof -
  note I = alloc_invD[OF assms]
  let ?n = "g_nr_groups s"
  obtain b s' where r: "block_alloc_loop D (g_curr_group s) [0..<nat ?n] s = (b, s')" "alloc_inv disk works s'"
    "meta_same disk s s'" "cache_inv disk works s \<longrightarrow> cache_inv disk works s'"
    "b \<noteq> 0 \<longrightarrow> unat b div 32768 < nat ?n \<and> \<not> block_used disk s b \<and> block_used disk s' = (block_used disk s)(b := True) \<and>
       sb s' = (sb s)\<lparr>sb_free_blocks := sb_free_blocks (sb s) - 1\<rparr>"
    "b = 0 \<longrightarrow> block_used disk s' = block_used disk s \<and> sb s' = sb s \<and> (all_loaded s \<longrightarrow>
      (\<forall>gi\<in>set [0..<nat ?n]. gd_free_blocks_count (g_gd s ! nat ((g_curr_group s + int gi) mod ?n)) = 0))"
    "\<forall>g. g_bitmaps s ! g \<noteq> None \<longrightarrow> g_bitmaps s' ! g \<noteq> None"
    using block_alloc_loop_ok[OF assms I(6), of "[0..<nat ?n]"] by blast
  have full: "zeros (bit_test (group_bits disk s g)) 32768 = 0"
    if "b = 0" "all_loaded s" "g < nat ?n" for g
  proof -
    let ?gi = "nat ((int g - g_curr_group s) mod ?n)"
    have "int ?gi = (int g - g_curr_group s) mod ?n" "?gi \<in> set [0..<nat ?n]" using I(2) by (simp_all add: nat_less_iff)
    then have "(g_curr_group s + int ?gi) mod ?n = int g" using that(3) by (simp add: mod_add_right_eq)
    with r(6) that \<open>?gi \<in> set _\<close> have "gd_free_blocks_count (g_gd s ! g) = 0" by fastforce
    with I(8)[OF that(3)] show ?thesis by simp
  qed
  show thesis
    by (rule that[of b s']) (use r full in \<open>auto simp: block_alloc_def all_loaded_def meta_same_def\<close>)
qed

lemma block_free_loaded:
  assumes inv: "alloc_inv disk works s" and x: "x \<noteq> 0" "unat x div 32768 < nat (g_nr_groups s)"
    and p: "g_bitmaps s ! (unat x div 32768) = Some (p, bits)"
  shows "alloc_inv disk works (block_free D x s)" "meta_same disk s (block_free D x s)"
    "cache_inv disk works s \<Longrightarrow> cache_inv disk works (block_free D x s)"
    "block_used disk (block_free D x s) = (block_used disk s)(x := False)"
    "g_bitmaps s ! k \<noteq> None \<Longrightarrow> g_bitmaps (block_free D x s) ! k \<noteq> None"
proof -
  note I = alloc_invD[OF inv]
  let ?g = "unat x div 32768" and ?b = "unat x mod 32768"
  have bb: "bitmap_bits (int ?g) s = bits" "group_bits disk s ?g = bits" "length bits = 4096"
    using p I(7)[OF x(2)] by (simp_all add: bitmap_bits_def group_bits_def)
  have ux: "unat x = ?g * 32768 + ?b" by simp
  have gb: "group_of_block x = int ?g" "block_in_group x = ?b"
    by (simp_all add: group_of_block_def block_in_group_def SWIFTFS2_BLOCKS_PER_GROUP_def)
  have f: "bitmap_for_group D (int ?g) s = (True, s)" using x(2) p by (simp add: bitmap_for_group_def)
  have "alloc_inv disk works (block_free D x s) \<and> meta_same disk s (block_free D x s) \<and>
    (cache_inv disk works s \<longrightarrow> cache_inv disk works (block_free D x s)) \<and>
    block_used disk (block_free D x s) = (block_used disk s)(x := False) \<and>
    (g_bitmaps s ! k \<noteq> None \<longrightarrow> g_bitmaps (block_free D x s) ! k \<noteq> None)"
  proof (cases "bit_test bits ?b")
    case False
    then have "block_free D x s = s" using x(1) gb f bb by (simp add: block_free_def)
    moreover have "\<not> block_used disk s x" using False bb by (simp add: block_used_def)
    ultimately show ?thesis using inv by (simp add: fun_upd_idem)
  next
    case True
    have set: "bit_test (bit_clear bits ?b) k = (if k = ?b then False else bit_test (group_bits disk s ?g) k)" if "k < 32768" for k
      using bm.test_unmark[of ?b bits k] that bb by simp
    have z: "int (zeros (bit_test (bit_clear bits ?b)) 32768) = int (zeros (bit_test bits) 32768) + 1"
      using bm.zeros_unmark[of ?b 32768 bits] True bb(3) by simp
    have z0: "?g = 0 \<Longrightarrow> bit_test (bit_clear bits ?b) 0"
    proof -
      assume g0: "?g = 0"
      then have "?b \<noteq> 0" using x(1) ux by (metis add_0 mult_0 unat_eq_0)
      then show ?thesis using set[of 0] I(9) g0 by simp
    qed
    have l4: "length (bit_clear bits ?b) = 4096" using bb(3) by (simp add: bit_clear_def)
    define s2 where "s2 = free_blocks_add (int ?g) 1 (bitmap_put (int ?g) (bit_clear bits ?b) s)"
    note ch = bitmap_change[OF inv x(2) p l4 z z0, folded s2_def]
    have s: "block_free D x s = cache_mark_dirty (gd_block_bitmap_block (g_gd s2 ! ?g)) 0 s2"
      using x(1) gb f bb(1) True by (simp add: block_free_def s2_def Let_def)
    have nr2: "g_nr_groups s2 = g_nr_groups s" using ch(3) by (simp add: meta_same_def)
    have "block_used disk (block_free D x s) y \<longleftrightarrow> (if y = x then False else block_used disk s y)" for y
      by (rule block_used_upd[OF x(2) _ _ _ set ux]) (use ch(2) nr2 in \<open>simp_all add: s\<close>)
    then have "block_used disk (block_free D x s) = (block_used disk s)(x := False)" by (simp add: fun_eq_iff)
    moreover have "alloc_inv disk works (block_free D x s)" using ch(1) by (simp add: s alloc_inv_def)
    moreover have "meta_same disk s (block_free D x s)" using ch(3) by (simp add: s meta_same_def)
    moreover have "cache_inv disk works (block_free D x s)" if "cache_inv disk works s"
      unfolding s using that alloc_invD(1)[OF ch(1)] ch(3-6)
      by - (rule mark_dirty_inv, rule cache_inv_cong[of _ s], simp_all add: meta_same_def)
    moreover have "g_bitmaps s ! k \<noteq> None \<longrightarrow> g_bitmaps (block_free D x s) ! k \<noteq> None"
      using p by (auto simp: s s2_def free_blocks_add_def bitmap_put_def nth_upd)
    ultimately show ?thesis by blast
  qed
  then show "alloc_inv disk works (block_free D x s)" "meta_same disk s (block_free D x s)"
    "cache_inv disk works s \<Longrightarrow> cache_inv disk works (block_free D x s)"
    "block_used disk (block_free D x s) = (block_used disk s)(x := False)"
    "g_bitmaps s ! k \<noteq> None \<Longrightarrow> g_bitmaps (block_free D x s) ! k \<noteq> None" by blast+
qed

lemma block_free_ok:
  assumes inv: "alloc_inv disk works s" and "x \<noteq> 0" "unat x div 32768 < nat (g_nr_groups s)"
    and l: "all_loaded s"
  shows "alloc_inv disk works (block_free D x s)" "meta_same disk s (block_free D x s)"
    "cache_inv disk works s \<Longrightarrow> cache_inv disk works (block_free D x s)"
    "block_used disk (block_free D x s) = (block_used disk s)(x := False)"
    "all_loaded (block_free D x s)"
proof -
  from l assms(3) obtain p bits where "g_bitmaps s ! (unat x div 32768) = Some (p, bits)"
    by (auto simp: all_loaded_def)
  note f = block_free_loaded[OF assms(1-3) this]
  from f(1-4) show "alloc_inv disk works (block_free D x s)" "meta_same disk s (block_free D x s)"
    "cache_inv disk works s \<Longrightarrow> cache_inv disk works (block_free D x s)"
    "block_used disk (block_free D x s) = (block_used disk s)(x := False)" by blast+
  show "all_loaded (block_free D x s)" using f(2,5) l by (auto simp: all_loaded_def meta_same_def)
qed

end

section \<open>The block allocator is an allocator\<close>

definition blocks_live :: "(int \<Rightarrow> 'd \<Rightarrow> u32 \<Rightarrow> u8 list) \<Rightarrow> 'd swiftfs \<Rightarrow> u32 set" where
  "blocks_live disk s = {b. b \<noteq> 0 \<and> block_used disk s b}"

sublocale block_device \<subseteq> ba: allocator "block_alloc D" "block_free D" "blocks_live disk"
  "\<lambda>s. alloc_inv disk works s \<and> all_loaded s" "0 :: u32"
proof (unfold_locales, goal_cases)
  case (1 s)
  then obtain b s' where "block_alloc D s = (b, s')" "alloc_inv disk works s'" "all_loaded s'"
    using block_alloc_ok[of s] by metis
  then show ?case by simp
next
  case (2 s)
  then obtain b s' where "block_alloc D s = (b, s')" "b \<noteq> 0 \<Longrightarrow> \<not> block_used disk s b"
    using block_alloc_ok[of s] by metis
  with 2 show ?case by (simp add: blocks_live_def)
next
  case (3 s)
  then obtain b s' where "block_alloc D s = (b, s')"
    "block_used disk s' = (if b = 0 then block_used disk s else (block_used disk s)(b := True))"
    using block_alloc_ok[of s] by metis
  then show ?case by (auto simp: blocks_live_def)
next
  case (4 s a)
  then show ?case using block_free_ok[of s a] by (simp add: blocks_live_def block_used_def)
next
  case (5 s a)
  then have "block_used disk (block_free D a s) = (block_used disk s)(a := False)"
    by (intro block_free_ok(4)) (auto simp: blocks_live_def block_used_def)
  then show ?case by (auto simp: blocks_live_def)
qed

context block_device
begin

lemma blocks_distinct:
  "alloc_inv disk works s \<Longrightarrow> all_loaded s \<Longrightarrow> distinct (filter (\<lambda>b. b \<noteq> 0) (fst (alloc_many (block_alloc D) n s)))"
  using ba.alloc_many_distinct by blast

lemma blocks_fresh:
  "alloc_inv disk works s \<Longrightarrow> all_loaded s \<Longrightarrow> b \<in> set (fst (alloc_many (block_alloc D) n s)) \<Longrightarrow> b = 0 \<or> \<not> block_used disk s b"
  using ba.alloc_many_fresh[of s b n] by (auto simp: blocks_live_def)

end

end
