(* ===== verification/SwiftfsInode.thy ===== *)
theory SwiftfsInode
  imports SwiftfsAlloc
begin

text \<open>
  Inodes and block mapping of \<open>src/kernel/fs/swiftfs2.c\<close>: inodes live in the inode tables, 32 slots of
  128 bytes per block, and are read and written through the block cache; a file's blocks are found
  through twelve direct pointers and one indirect block.
\<close>

section \<open>Operations\<close>

definition inode_block_and_offset :: "u32 \<Rightarrow> 'd swiftfs \<Rightarrow> u32 \<times> nat" where
  "inode_block_and_offset ino s =
     (let g = unat ino div 4096; local = unat ino mod 4096; tbl_start = gd_inode_table_block (g_gd s ! g)
      in (tbl_start + of_nat (local div 32), (local mod 32) * 128))"

text \<open>\<open>cache_get\<close> never returns a null pointer, so both return 0.\<close>

definition inode_read :: "'d blkdev \<Rightarrow> u32 \<Rightarrow> 'd swiftfs \<Rightarrow> int \<times> swiftfs2_inode \<times> 'd swiftfs" where
  "inode_read D ino s =
     (let (block, offset) = inode_block_and_offset ino s; (i, s1) = cache_get D block 0 s
      in (0, dec_inode (drop offset (cache_data i s1)), s1))"

definition inode_write :: "'d blkdev \<Rightarrow> u32 \<Rightarrow> swiftfs2_inode \<Rightarrow> 'd swiftfs \<Rightarrow> int \<times> 'd swiftfs" where
  "inode_write D ino inode s =
     (let (block, offset) = inode_block_and_offset ino s; (i, s1) = cache_get D block 0 s;
          s2 = cache_store i (blit (cache_data i s1) offset (enc_inode inode)) s1
      in (0, cache_mark_dirty block 0 s2))"

definition free_inodes_add :: "nat \<Rightarrow> int \<Rightarrow> 'd swiftfs \<Rightarrow> 'd swiftfs" where
  "free_inodes_add g k s =
     s\<lparr>g_gd := (g_gd s)[g := (g_gd s ! g)\<lparr>gd_free_inodes_count := gd_free_inodes_count (g_gd s ! g) + of_int k\<rparr>],
       sb := (sb s)\<lparr>sb_free_inodes := sb_free_inodes (sb s) + of_int k\<rparr>\<rparr>"

text \<open>The scan of one group's inode table for an inode of mode 0, and the loop over the groups.\<close>

primrec inode_alloc_scan :: "'d blkdev \<Rightarrow> u16 \<Rightarrow> nat \<Rightarrow> u32 list \<Rightarrow> 'd swiftfs \<Rightarrow> u32 \<times> 'd swiftfs" where
  "inode_alloc_scan D mode gi [] s = (0, s)"
| "inode_alloc_scan D mode gi (ino # inos) s =
     (if ino = 0 then inode_alloc_scan D mode gi inos s
      else
        let (r, inode, s1) = inode_read D ino s in
        if in_mode inode = 0 then
          (ino, free_inodes_add gi (-1) (snd (inode_write D ino (inode_zero\<lparr>in_mode := mode\<rparr>) s1)))
        else inode_alloc_scan D mode gi inos s1)"

definition group_inodes :: "nat \<Rightarrow> u32 list" where
  "group_inodes gi = map (\<lambda>k. of_nat (gi * 4096 + k)) [0..<4096]"

primrec inode_alloc_loop :: "'d blkdev \<Rightarrow> u16 \<Rightarrow> nat list \<Rightarrow> 'd swiftfs \<Rightarrow> u32 \<times> 'd swiftfs" where
  "inode_alloc_loop D mode [] s = (0, s)"
| "inode_alloc_loop D mode (gi # gis) s =
     (if gd_free_inodes_count (g_gd s ! gi) = 0 then inode_alloc_loop D mode gis s
      else
        let (ok, s1) = bitmap_for_group D (int gi) s in
        if \<not> ok then inode_alloc_loop D mode gis s1
        else
          let (ino, s2) = inode_alloc_scan D mode gi (group_inodes gi) s1 in
          if ino \<noteq> 0 then (ino, s2) else inode_alloc_loop D mode gis s2)"

definition inode_alloc :: "'d blkdev \<Rightarrow> u16 \<Rightarrow> 'd swiftfs \<Rightarrow> u32 \<times> 'd swiftfs" where
  "inode_alloc D mode s = inode_alloc_loop D mode [0..<nat (g_nr_groups s)] s"

definition inode_free :: "'d blkdev \<Rightarrow> u32 \<Rightarrow> 'd swiftfs \<Rightarrow> 'd swiftfs" where
  "inode_free D ino s =
     (if ino = 0 then s
      else free_inodes_add (unat ino div 4096) 1 (snd (inode_write D ino inode_zero s)))"

text \<open>
  \<open>bmap_read\<close> gives the block number and the possibly updated inode structure. The indirect block is
  reached through a cache pointer; \<open>block_alloc\<close> does not move cache entries, so the pointer stays
  good across it.
\<close>

definition bmap_indirect :: "'d blkdev \<Rightarrow> swiftfs2_inode \<Rightarrow> nat \<Rightarrow> bool \<Rightarrow> 'd swiftfs \<Rightarrow> u32 \<times> swiftfs2_inode \<times> 'd swiftfs" where
  "bmap_indirect D inode k create s =
     (let (i, s1) = cache_get D (in_indirect inode) 0 s in
      if rd32 (cache_data i s1) (4 * k) = 0 \<and> create then
        let (b, s2) = block_alloc D s1;
            s3 = cache_mark_dirty (in_indirect inode) 0 (cache_store i (wr32 (cache_data i s2) (4 * k) b) s2)
        in (rd32 (cache_data i s3) (4 * k), inode, s3)
      else (rd32 (cache_data i s1) (4 * k), inode, s1))"

definition bmap_read :: "'d blkdev \<Rightarrow> swiftfs2_inode \<Rightarrow> u32 \<Rightarrow> bool \<Rightarrow> 'd swiftfs \<Rightarrow> u32 \<times> swiftfs2_inode \<times> 'd swiftfs" where
  "bmap_read D inode lblock create s =
     (if lblock < 12 then
        (if in_direct inode ! unat lblock = 0 \<and> create then
           let (b, s1) = block_alloc D s in (b, inode\<lparr>in_direct := (in_direct inode)[unat lblock := b]\<rparr>, s1)
         else (in_direct inode ! unat lblock, inode, s))
      else if lblock - 12 < 1024 then
        (if in_indirect inode = 0 then
           (if \<not> create then (0, inode, s)
            else
              let (ib, s1) = block_alloc D s; inode1 = inode\<lparr>in_indirect := ib\<rparr> in
              if ib = 0 then (0, inode1, s1)
              else
                let (z, s2) = cache_get D ib 0 s1;
                    s3 = cache_mark_dirty ib 0 (cache_store z (replicate 4096 0) s2)
                in bmap_indirect D inode1 (unat (lblock - 12)) create s3)
         else bmap_indirect D inode (unat (lblock - 12)) create s)
      else (0, inode, s))"

section \<open>Inodes through the cache\<close>

definition inode_at :: "(int \<Rightarrow> 'd \<Rightarrow> u32 \<Rightarrow> u8 list) \<Rightarrow> 'd swiftfs \<Rightarrow> u32 \<Rightarrow> swiftfs2_inode" where
  "inode_at disk s ino = (let (block, offset) = inode_block_and_offset ino s in dec_inode (drop offset (cview disk s block)))"

lemma inode_offset:
  "inode_block_and_offset ino s = (b, k) \<Longrightarrow> k + 128 \<le> 4096 \<and> 128 dvd k"
  using mod_less_divisor[of 32 "unat ino mod 4096"] by (auto simp: inode_block_and_offset_def Let_def)

lemma dec_inode_take: "dec_inode (take 106 bs) = dec_inode bs"
proof -
  have "dec32s 12 (take 106 bs) 30 = dec32s 12 bs 30"
    by (rule nth_equalityI) (simp_all add: dec32s_def rd32_def drop_take)
  then show ?thesis by (simp add: dec_inode_def rd_defs drop_take)
qed

lemma dec_inode_blit_same:
  assumes "inode_wf i" "k + 106 \<le> length bs"
  shows "dec_inode (drop k (blit bs k (enc_inode i))) = i"
  using assms length_enc_inode[OF assms(1)] by (simp add: blit_def dec_enc_inode)

lemma dec_inode_blit_other:
  assumes "inode_wf i" "k + 128 \<le> length bs" "j + 128 \<le> length bs" "128 dvd k" "128 dvd j" "j \<noteq> k"
  shows "dec_inode (drop j (blit bs k (enc_inode i))) = dec_inode (drop j bs)"
proof -
  have "j + 128 \<le> k \<or> k + 128 \<le> j" using assms(4-6) by (auto elim!: dvdE)
  then have "take 106 (drop j (blit bs k (enc_inode i))) = take 106 (drop j bs)"
    using length_enc_inode[OF assms(1)] assms(2)
    by (auto simp: INODE_BYTES_def take_drop_blit_before take_drop_blit_after)
  then show ?thesis by (metis dec_inode_take)
qed

lemma inode_pos_core: "same_core s s' \<Longrightarrow> inode_block_and_offset ino s' = inode_block_and_offset ino s"
  by (simp add: inode_block_and_offset_def same_coreD)

context block_device
begin

lemma cview_length: "cache_inv disk works s \<Longrightarrow> length (cview disk s b) = 4096"
  using cache_invD(1,4)[of disk works s] disk_length
  by (auto simp: cview_def find_upt_Some split: option.split)

lemma inode_read_ok:
  assumes "cache_inv disk works s"
  obtains s' where "inode_read D ino s = (0, inode_at disk s ino, s')" "cache_inv disk works s'"
    "cview disk s' = cview disk s" "same_core s s'"
proof -
  obtain b k where bk: "inode_block_and_offset ino s = (b, k)" by force
  obtain i s' where "cache_get D b 0 s = (i, s')" "cache_inv disk works s'" "cache_data i s' = cview disk s b"
    "cview disk s' = cview disk s" "same_core s s'"
    using cache_get_ok[OF assms, of b] by metis
  with bk show thesis by (intro that[of s']) (simp_all add: inode_read_def inode_at_def)
qed

lemma inode_at_cong: "same_core s s' \<Longrightarrow> cview disk s' = cview disk s \<Longrightarrow> inode_at disk s' ino = inode_at disk s ino"
  by (simp add: inode_at_def inode_pos_core)

lemma inode_at_wf: "cache_inv disk works s \<Longrightarrow> inode_wf (inode_at disk s ino)"
  using inode_offset[of ino s] cview_length[of s]
  by (auto simp: inode_at_def split: prod.split)

lemma inode_write_ok:
  assumes inv: "cache_inv disk works s" and wf: "inode_wf i" and pos: "inode_block_and_offset ino s = (b, k)"
  obtains s' where "inode_write D ino i s = (0, s')" "cache_inv disk works s'"
    "cview disk s' = (cview disk s)(b := blit (cview disk s b) k (enc_inode i))" "same_core s s'"
    "inode_at disk s' ino = i"
    "\<And>j. inode_block_and_offset j s \<noteq> (b, k) \<Longrightarrow> inode_at disk s' j = inode_at disk s j"
proof -
  obtain c s1 where s1: "cache_get D b 0 s = (c, s1)" "c < SWIFTFS2_CACHE_SIZE" "cache_inv disk works s1"
    "ce_valid (g_cache s1 ! c)" "ce_block (g_cache s1 ! c) = b" "cache_data c s1 = cview disk s b"
    "cview disk s1 = cview disk s" "same_core s s1"
    using cache_get_ok[OF inv, of b] by metis
  note len = cview_length[OF inv]
  have k: "k + 128 \<le> 4096" "128 dvd k" using inode_offset[OF pos] by auto
  let ?bs = "blit (cview disk s b) k (enc_inode i)"
  have l: "length ?bs = 4096" using len[of b] k length_enc_inode[OF wf] by (simp add: INODE_BYTES_def)
  let ?s = "cache_mark_dirty b 0 (cache_store c ?bs s1)"
  note w = cache_write_ok[OF s1(3,2,4,5) l]
  have core: "same_core s ?s" using same_core_trans[OF s1(8) w(3)] .
  have v: "cview disk ?s = (cview disk s)(b := ?bs)" using w(2) s1(7) by simp
  have other: "inode_at disk ?s j = inode_at disk s j" if "inode_block_and_offset j s \<noteq> (b, k)" for j
  proof -
    obtain b' k' where p': "inode_block_and_offset j s = (b', k')" by force
    then show ?thesis
      using that v len[of b] k inode_offset[OF p'] wf dec_inode_blit_other[OF wf, of k "cview disk s b" k']
      by (auto simp: inode_at_def inode_pos_core[OF core])
  qed
  have "inode_at disk ?s ino = i"
    using v pos len[of b] k dec_inode_blit_same[OF wf, of k "cview disk s b"] by (simp add: inode_at_def inode_pos_core[OF core])
  moreover have "inode_write D ino i s = (0, ?s)" using s1(1,6) pos by (simp add: inode_write_def)
  ultimately show thesis using that[of ?s] w(1) v core other by blast
qed

end

section \<open>The invariant of a mounted filesystem\<close>

text \<open>
  The cache and the allocator are sound and every group's bitmap is loaded. Loading all bitmaps makes
  the allocator independent of what evictions write to the disk.
\<close>

definition fs_inv :: "(int \<Rightarrow> 'd \<Rightarrow> u32 \<Rightarrow> u8 list) \<Rightarrow> (int \<Rightarrow> 'd \<Rightarrow> bool) \<Rightarrow> 'd swiftfs \<Rightarrow> bool" where
  "fs_inv disk works s \<longleftrightarrow> cache_inv disk works s \<and> alloc_inv disk works s \<and> all_loaded s"

definition geo_same :: "'d swiftfs \<Rightarrow> 'd swiftfs \<Rightarrow> bool" where
  "geo_same s s' \<longleftrightarrow> g_port s' = g_port s \<and> g_mounted s' = g_mounted s \<and> g_nr_groups s' = g_nr_groups s \<and>
     s_fds s' = s_fds s \<and> length (g_gd s') = length (g_gd s) \<and>
     (\<forall>g. gd_inode_table_block (g_gd s' ! g) = gd_inode_table_block (g_gd s ! g))"

lemma geo_same_refl [simp]: "geo_same s s"
  by (simp add: geo_same_def)

lemma geo_same_trans: "geo_same s s' \<Longrightarrow> geo_same s' s'' \<Longrightarrow> geo_same s s''"
  by (simp add: geo_same_def)

lemma meta_geo: "meta_same disk s s' \<Longrightarrow> geo_same s s'"
  by (simp add: geo_same_def meta_same_def)

lemma core_geo: "same_core s s' \<Longrightarrow> geo_same s s'"
  by (simp add: geo_same_def same_coreD)

lemma inode_pos_geo: "geo_same s s' \<Longrightarrow> inode_block_and_offset ino s' = inode_block_and_offset ino s"
  by (simp add: inode_block_and_offset_def geo_same_def)

lemma group_bits_loaded:
  "all_loaded s \<Longrightarrow> g_bitmaps s' = g_bitmaps s \<Longrightarrow> g < nat (g_nr_groups s) \<Longrightarrow> group_bits disk s' g = group_bits disk s g"
  by (auto simp: group_bits_def all_loaded_def split: option.split)

lemma fs_inv_core:
  assumes "fs_inv disk works s" "same_core s s'" "cache_inv disk works s'"
  shows "fs_inv disk works s'" "block_used disk s' = block_used disk s"
proof -
  note C = same_coreD[OF assms(2)]
  have l: "all_loaded s" "alloc_inv disk works s" using assms(1) by (auto simp: fs_inv_def)
  note gb = group_bits_loaded[OF l(1) C(7)]
  show "block_used disk s' = block_used disk s" using gb by (auto simp: block_used_def fun_eq_iff C)
  have "alloc_inv disk works s'"
    using alloc_invD[OF l(2)] cache_invD(1)[OF assms(3)] gb by (simp add: alloc_inv_def C)
  then show "fs_inv disk works s'" using assms(3) l(1) by (simp add: fs_inv_def all_loaded_def C)
qed

section \<open>Block mapping\<close>

definition bmap_view :: "(int \<Rightarrow> 'd \<Rightarrow> u32 \<Rightarrow> u8 list) \<Rightarrow> 'd swiftfs \<Rightarrow> swiftfs2_inode \<Rightarrow> nat \<Rightarrow> u32" where
  "bmap_view disk s i l =
     (if l < 12 then in_direct i ! l
      else if l < 1036 \<and> in_indirect i \<noteq> 0 then rd32 (cview disk s (in_indirect i)) (4 * (l - 12)) else 0)"

lemma rd32_wr32_other:
  "4 * j + 4 \<le> length bs \<Longrightarrow> 4 * k + 4 \<le> length bs \<Longrightarrow> j \<noteq> k \<Longrightarrow> rd32 (wr32 bs (4 * k) v) (4 * j) = rd32 bs (4 * j)"
proof -
  assume a: "4 * j + 4 \<le> length bs" "4 * k + 4 \<le> length bs" "j \<noteq> k"
  then consider "4 * j + 4 \<le> 4 * k" | "4 * k + 4 \<le> 4 * j" by linarith
  then show ?thesis using a by cases (simp_all add: rd32_def wr32_def take_drop_blit)
qed

text \<open>Allocation does not move cache entries, so pointers into them stay good.\<close>

lemma bitmap_for_group_cache: "g_cache (snd (bitmap_for_group D g s)) = g_cache s"
  by (simp add: bitmap_for_group_def Let_def case_prod_beta read_block_def)

lemma block_alloc_loop_cache:
  "ce_valid (g_cache (snd (block_alloc_loop D start gis s)) ! i) = ce_valid (g_cache s ! i) \<and>
   ce_block (g_cache (snd (block_alloc_loop D start gis s)) ! i) = ce_block (g_cache s ! i) \<and>
   ce_data (g_cache (snd (block_alloc_loop D start gis s)) ! i) = ce_data (g_cache s ! i)"
proof (induction gis arbitrary: s)
  case (Cons gi gis)
  let ?g = "(start + int gi) mod g_nr_groups s"
  have "g_cache (snd (bitmap_for_group D ?g s)) = g_cache s" by (rule bitmap_for_group_cache)
  then show ?case using Cons.IH
    by (simp add: Let_def case_prod_beta mark_dirty_entry free_blocks_add_def bitmap_put_def split: option.split)
qed simp

lemma block_alloc_cache:
  "block_alloc D s = (b, s') \<Longrightarrow> ce_valid (g_cache s' ! i) = ce_valid (g_cache s ! i) \<and>
   ce_block (g_cache s' ! i) = ce_block (g_cache s ! i) \<and> cache_data i s' = cache_data i s"
  using block_alloc_loop_cache[of D "g_curr_group s" "[0..<nat (g_nr_groups s)]" s i]
  by (simp add: block_alloc_def cache_data_def)

context block_device
begin

lemma fs_cache_get_ok:
  assumes "fs_inv disk works s"
  obtains i s' where "cache_get D b 0 s = (i, s')" "i < SWIFTFS2_CACHE_SIZE" "fs_inv disk works s'"
    "ce_valid (g_cache s' ! i)" "ce_block (g_cache s' ! i) = b" "cache_data i s' = cview disk s b"
    "cview disk s' = cview disk s" "same_core s s'" "block_used disk s' = block_used disk s"
proof -
  have "cache_inv disk works s" using assms by (simp add: fs_inv_def)
  then obtain i s' where r: "cache_get D b 0 s = (i, s')" "i < SWIFTFS2_CACHE_SIZE" "cache_inv disk works s'"
    "ce_valid (g_cache s' ! i)" "ce_block (g_cache s' ! i) = b" "cache_data i s' = cview disk s b"
    "cview disk s' = cview disk s" "same_core s s'" using cache_get_ok by metis
  show thesis using that[OF r(1,2) fs_inv_core(1)[OF assms r(8,3)] r(4-8) fs_inv_core(2)[OF assms r(8,3)]] .
qed

lemma fs_store_ok:
  assumes "fs_inv disk works s" "i < SWIFTFS2_CACHE_SIZE" "ce_valid (g_cache s ! i)" "ce_block (g_cache s ! i) = b" "length bs = 4096"
  defines "s' \<equiv> cache_mark_dirty b 0 (cache_store i bs s)"
  shows "fs_inv disk works s'" "cview disk s' = (cview disk s)(b := bs)" "same_core s s'"
    "block_used disk s' = block_used disk s" "cache_data i s' = bs"
proof -
  have ci: "cache_inv disk works s" using assms(1) by (simp add: fs_inv_def)
  note w = cache_write_ok[OF ci assms(2-5), folded s'_def]
  show "cview disk s' = (cview disk s)(b := bs)" "same_core s s'" using w by blast+
  show "fs_inv disk works s'" "block_used disk s' = block_used disk s"
    using fs_inv_core[OF assms(1) w(3,1)] by blast+
  show "cache_data i s' = bs" using w(4) assms(2) cache_invD(2)[OF ci] by (simp add: cache_data_def)
qed

lemma fs_alloc_ok:
  assumes "fs_inv disk works s"
  obtains b s' where "block_alloc D s = (b, s')" "fs_inv disk works s'" "geo_same s s'" "cview disk s' = cview disk s"
    "b \<noteq> 0 \<Longrightarrow> \<not> block_used disk s b"
    "block_used disk s' = (if b = 0 then block_used disk s else (block_used disk s)(b := True))"
    "b = 0 \<Longrightarrow> \<forall>x. unat x div 32768 < nat (g_nr_groups s) \<longrightarrow> block_used disk s x"
proof -
  have i: "alloc_inv disk works s" "cache_inv disk works s" "all_loaded s" using assms by (auto simp: fs_inv_def)
  obtain b s' where r: "block_alloc D s = (b, s')" "alloc_inv disk works s'" "meta_same disk s s'"
    "cache_inv disk works s'" "b \<noteq> 0 \<Longrightarrow> \<not> block_used disk s b"
    "block_used disk s' = (if b = 0 then block_used disk s else (block_used disk s)(b := True))"
    "\<And>g. b = 0 \<Longrightarrow> g < nat (g_nr_groups s) \<Longrightarrow> zeros (bit_test (group_bits disk s g)) 32768 = 0" "all_loaded s'"
    using block_alloc_ok[OF i(1)] i(2,3) by metis
  have "\<forall>x. unat x div 32768 < nat (g_nr_groups s) \<longrightarrow> block_used disk s x" if "b = 0"
    using r(7)[OF that] by (auto simp: block_used_def zeros_eq_0)
  then show thesis
    using that[OF r(1) _ meta_geo[OF r(3)] _ r(5,6)] r(2,3,4,8) by (simp add: fs_inv_def meta_same_def)
qed
lemma bmap_indirect_ok:
  fixes i
  assumes inv: "fs_inv disk works s" and k: "k < 1024"
  defines "old \<equiv> rd32 (cview disk s (in_indirect i)) (4 * k)"
  obtains p s' where "bmap_indirect D i k create s = (p, i, s')" "fs_inv disk works s'" "geo_same s s'"
    "\<not> (old = 0 \<and> create) \<Longrightarrow> p = old"
    "cview disk s' = (if old = 0 \<and> create
       then (cview disk s)(in_indirect i := wr32 (cview disk s (in_indirect i)) (4 * k) p) else cview disk s)"
    "block_used disk s' = (if old = 0 \<and> create \<and> p \<noteq> 0 then (block_used disk s)(p := True) else block_used disk s)"
    "old = 0 \<and> create \<and> p \<noteq> 0 \<Longrightarrow> \<not> block_used disk s p"
proof -
  let ?ib = "in_indirect i"
  obtain c s1 where s1: "cache_get D ?ib 0 s = (c, s1)" "c < SWIFTFS2_CACHE_SIZE" "fs_inv disk works s1"
    "ce_valid (g_cache s1 ! c)" "ce_block (g_cache s1 ! c) = ?ib" "cache_data c s1 = cview disk s ?ib"
    "cview disk s1 = cview disk s" "same_core s s1" "block_used disk s1 = block_used disk s"
    using fs_cache_get_ok[OF inv, of ?ib] by metis
  have len: "length (cview disk s ?ib) = 4096" using inv cview_length by (simp add: fs_inv_def)
  show thesis
  proof (cases "old = 0 \<and> create")
    case False
    then have "bmap_indirect D i k create s = (old, i, s1)"
      using s1(1,6) by (auto simp: bmap_indirect_def old_def)
    with False s1 show thesis by (intro that[of old s1]) (auto simp: core_geo)
  next
    case True
    obtain b s2 where s2: "block_alloc D s1 = (b, s2)" "fs_inv disk works s2" "geo_same s1 s2" "cview disk s2 = cview disk s1"
      "b \<noteq> 0 \<Longrightarrow> \<not> block_used disk s1 b"
      "block_used disk s2 = (if b = 0 then block_used disk s1 else (block_used disk s1)(b := True))"
      using fs_alloc_ok[OF s1(3)] by metis
    note bc = block_alloc_cache[OF s2(1), of c]
    let ?bs = "wr32 (cview disk s ?ib) (4 * k) b"
    have l: "length ?bs = 4096" using len k by simp
    have at: "ce_valid (g_cache s2 ! c)" "ce_block (g_cache s2 ! c) = ?ib" "cache_data c s2 = cview disk s ?ib"
      using bc s1(4,5,6) by simp_all
    let ?s = "cache_mark_dirty ?ib 0 (cache_store c ?bs s2)"
    note w = fs_store_ok[OF s2(2) s1(2) at(1,2) l]
    have "rd32 ?bs (4 * k) = b" using len k by (simp add: rd32_wr32)
    then have "bmap_indirect D i k create s = (b, i, ?s)"
      using True s1(1,6) s2(1) at(3) w(5) by (simp add: bmap_indirect_def old_def)
    moreover have "geo_same s ?s"
      using core_geo[OF s1(8)] s2(3) core_geo[OF w(3)] by (blast intro: geo_same_trans)
    ultimately show thesis using True w(1,2,4) s2 s1(7,9) by (intro that[of b ?s]) simp_all
  qed
qed

lemma bmap_read_ok:
  assumes inv: "fs_inv disk works s" and wf: "inode_wf i"
  obtains s' where "bmap_read D i l False s = (bmap_view disk s i (unat l), i, s')" "fs_inv disk works s'" "geo_same s s'"
    "cview disk s' = cview disk s" "block_used disk s' = block_used disk s"
proof -
  have ul: "unat (l - 12) = unat l - 12" if "\<not> l < 12" using that by (simp add: unat_sub word_le_nat_alt not_less)
  consider (dir) "l < 12" | (none) "\<not> l < 12" "\<not> l - 12 < 1024 \<or> in_indirect i = 0"
    | (ind) "\<not> l < 12" "l - 12 < 1024" "in_indirect i \<noteq> 0" by blast
  then show thesis
  proof cases
    case dir
    with inv show thesis by (intro that[of s]) (simp_all add: bmap_read_def bmap_view_def word_less_nat_alt)
  next
    case none
    with inv ul show thesis by (intro that[of s]) (auto simp: bmap_read_def bmap_view_def word_less_nat_alt)
  next
    case ind
    let ?k = "unat (l - 12)"
    have k: "?k < 1024" using ind(2) by (simp add: word_less_nat_alt)
    obtain p s' where "bmap_indirect D i ?k False s = (p, i, s')" "fs_inv disk works s'" "geo_same s s'"
      "p = rd32 (cview disk s (in_indirect i)) (4 * ?k)" "cview disk s' = cview disk s" "block_used disk s' = block_used disk s"
      using bmap_indirect_ok[OF inv k, of i False] by (simp only: simp_thms) metis
    moreover have "unat l < 1036" using ind ul k by (simp add: word_less_nat_alt)
    ultimately show thesis using ind ul
      by (intro that[of s']) (simp_all add: bmap_read_def bmap_view_def word_less_nat_alt)
  qed
qed
text \<open>
  What \<open>bmap_read\<close> with \<open>create\<close> may do to the state and to the inode structure in memory: it only
  fills in pointers that were zero, with blocks nobody used.
\<close>

definition bmap_grows :: "'d swiftfs \<Rightarrow> swiftfs2_inode \<Rightarrow> nat \<Rightarrow> u32 \<Rightarrow> swiftfs2_inode \<Rightarrow> 'd swiftfs \<Rightarrow> bool" where
  "bmap_grows s i l p i' s' \<longleftrightarrow>
     fs_inv disk works s' \<and> geo_same s s' \<and>
     i'\<lparr>in_direct := [], in_indirect := 0\<rparr> = i\<lparr>in_direct := [], in_indirect := 0\<rparr> \<and> inode_wf i' \<and>
     (bmap_view disk s i l \<noteq> 0 \<longrightarrow> p = bmap_view disk s i l) \<and>
     bmap_view disk s' i' l = p \<and> (\<forall>k. k \<noteq> l \<longrightarrow> bmap_view disk s' i' k = bmap_view disk s i k) \<and>
     (\<forall>b. b \<noteq> in_indirect i' \<longrightarrow> cview disk s' b = cview disk s b) \<and>
     (in_indirect i' = in_indirect i \<or> in_indirect i = 0 \<and> \<not> block_used disk s (in_indirect i') \<and> block_used disk s' (in_indirect i')) \<and>
     (p \<noteq> 0 \<and> bmap_view disk s i l = 0 \<longrightarrow> \<not> block_used disk s p \<and> block_used disk s' p \<and> p \<noteq> in_indirect i') \<and>
     (\<forall>b. block_used disk s b \<longrightarrow> block_used disk s' b)"

lemma bmap_direct_grows:
  assumes inv: "fs_inv disk works s" and wf: "inode_wf i" and l: "unat l < 12"
    and ind: "in_indirect i \<noteq> 0 \<Longrightarrow> block_used disk s (in_indirect i)"
  obtains p i' s' where "bmap_read D i l True s = (p, i', s')" "bmap_grows s i (unat l) p i' s'"
proof (cases "in_direct i ! unat l = 0")
  case False
  with l inv have "bmap_read D i l True s = (in_direct i ! unat l, i, s)"
    by (simp add: bmap_read_def word_less_nat_alt)
  moreover have "bmap_grows s i (unat l) (in_direct i ! unat l) i s"
    unfolding bmap_grows_def using inv l False wf
    by (auto simp: bmap_view_def)
  ultimately show thesis by (rule that)
next
  case True
  obtain b s' where r: "block_alloc D s = (b, s')" "fs_inv disk works s'" "geo_same s s'" "cview disk s' = cview disk s"
    "b \<noteq> 0 \<Longrightarrow> \<not> block_used disk s b"
    "block_used disk s' = (if b = 0 then block_used disk s else (block_used disk s)(b := True))"
    using fs_alloc_ok[OF inv] by metis
  let ?i = "i\<lparr>in_direct := (in_direct i)[unat l := b]\<rparr>"
  have "bmap_read D i l True s = (b, ?i, s')" using l True r(1) by (simp add: bmap_read_def word_less_nat_alt)
  moreover have "bmap_grows s i (unat l) b ?i s'"
    unfolding bmap_grows_def using r l True wf ind
    by (auto simp: bmap_view_def inode_wf_def nth_upd split: if_splits)
  ultimately show thesis by (rule that)
qed
lemma bmap_indirect_grows:
  assumes inv: "fs_inv disk works s" and wf: "inode_wf i" and k: "k < 1024"
    and ind: "in_indirect i \<noteq> 0" "block_used disk s (in_indirect i)"
  obtains p s' where "bmap_indirect D i k True s = (p, i, s')" "bmap_grows s i (k + 12) p i s'"
proof -
  let ?ib = "in_indirect i"
  let ?old = "rd32 (cview disk s ?ib) (4 * k)"
  obtain p s' where r: "bmap_indirect D i k True s = (p, i, s')" "fs_inv disk works s'" "geo_same s s'"
    "?old \<noteq> 0 \<Longrightarrow> p = ?old"
    "cview disk s' = (if ?old = 0 then (cview disk s)(?ib := wr32 (cview disk s ?ib) (4 * k) p) else cview disk s)"
    "block_used disk s' = (if ?old = 0 \<and> p \<noteq> 0 then (block_used disk s)(p := True) else block_used disk s)"
    "?old = 0 \<and> p \<noteq> 0 \<Longrightarrow> \<not> block_used disk s p"
    by (rule bmap_indirect_ok[OF inv k, of i True], rule that, assumption, simp_all)
  have len: "length (cview disk s ?ib) = 4096" using inv cview_length by (simp add: fs_inv_def)
  have v: "bmap_view disk s i (k + 12) = ?old" using k ind by (simp add: bmap_view_def)
  have new: "rd32 (cview disk s' ?ib) (4 * j) = (if j = k then p else rd32 (cview disk s ?ib) (4 * j))" if "j < 1024" for j
    using r(4,5) len k that by (auto simp: rd32_wr32 rd32_wr32_other)
  have "bmap_view disk s' i j = (if j = k + 12 then p else bmap_view disk s i j)" for j
    using new[of "j - 12"] new[OF k] k ind by (auto simp: bmap_view_def)
  moreover have "p \<noteq> ?ib" if "p \<noteq> 0" "?old = 0" using r(7) that ind(2) by auto
  ultimately have "bmap_grows s i (k + 12) p i s'"
    unfolding bmap_grows_def v using r(2-7) wf by simp
  with r(1) show thesis by (rule that)
qed

lemma rd32_zeros: "rd32 (replicate 4096 0) k = 0"
proof -
  have "le_dec (replicate n 0) = (0 :: u32)" for n by (induction n) simp_all
  then show ?thesis by (simp add: rd32_def)
qed

lemma bmap_create_ok:
  assumes inv: "fs_inv disk works s" and wf: "inode_wf i"
    and ind: "in_indirect i \<noteq> 0 \<Longrightarrow> block_used disk s (in_indirect i)"
  obtains p i' s' where "bmap_read D i l True s = (p, i', s')" "bmap_grows s i (unat l) p i' s'"
proof -
  have ul: "unat (l - 12) = unat l - 12" if "\<not> l < 12" using that by (simp add: unat_sub word_le_nat_alt not_less)
  consider (dir) "unat l < 12" | (out) "\<not> l < 12" "\<not> l - 12 < 1024"
    | (ind) "\<not> l < 12" "l - 12 < 1024" "in_indirect i \<noteq> 0" | (new) "\<not> l < 12" "l - 12 < 1024" "in_indirect i = 0"
    by (auto simp: word_less_nat_alt)
  then show thesis
  proof cases
    case dir
    from bmap_direct_grows[OF inv wf dir ind] that show thesis by blast
  next
    case out
    then have "bmap_read D i l True s = (0, i, s)" by (simp add: bmap_read_def)
    moreover have "bmap_grows s i (unat l) 0 i s"
      unfolding bmap_grows_def using inv wf out ul by (auto simp: bmap_view_def word_less_nat_alt inode_wf_def)
    ultimately show thesis by (rule that)
  next
    case ind2: ind
    have k: "unat (l - 12) < 1024" "unat (l - 12) + 12 = unat l"
      using ind2 ul by (simp_all add: word_less_nat_alt)
    from bmap_indirect_grows[OF inv wf k(1) ind2(3) ind[OF ind2(3)]] obtain p s' where
      "bmap_indirect D i (unat (l - 12)) True s = (p, i, s')" "bmap_grows s i (unat l) p i s'" unfolding k(2) by blast
    with ind2 show thesis by (intro that[of p i s']) (simp_all add: bmap_read_def)
  next
    case new
    have k: "unat (l - 12) < 1024" "unat (l - 12) + 12 = unat l"
      using new ul by (simp_all add: word_less_nat_alt)
    obtain ib s1 where s1: "block_alloc D s = (ib, s1)" "fs_inv disk works s1" "geo_same s s1" "cview disk s1 = cview disk s"
      "ib \<noteq> 0 \<Longrightarrow> \<not> block_used disk s ib"
      "block_used disk s1 = (if ib = 0 then block_used disk s else (block_used disk s)(ib := True))"
      using fs_alloc_ok[OF inv] by metis
    show thesis
    proof (cases "ib = 0")
      case True
      then have "bmap_read D i l True s = (0, i\<lparr>in_indirect := 0\<rparr>, s1)" using new s1(1) by (simp add: bmap_read_def)
      moreover have "i\<lparr>in_indirect := 0\<rparr> = i" using new(3) by simp
      moreover have "bmap_grows s i (unat l) 0 i s1"
        unfolding bmap_grows_def using s1 True wf new k by (auto simp: bmap_view_def word_less_nat_alt inode_wf_def)
      ultimately show thesis using that by simp
    next
      case False
      let ?i = "i\<lparr>in_indirect := ib\<rparr>"
      obtain c s2 where s2: "cache_get D ib 0 s1 = (c, s2)" "c < SWIFTFS2_CACHE_SIZE" "fs_inv disk works s2"
        "ce_valid (g_cache s2 ! c)" "ce_block (g_cache s2 ! c) = ib" "cview disk s2 = cview disk s1" "same_core s1 s2"
        "block_used disk s2 = block_used disk s1"
        using fs_cache_get_ok[OF s1(2), of ib] by metis
      define s3 where "s3 = cache_mark_dirty ib 0 (cache_store c (replicate 4096 0) s2)"
      note w = fs_store_ok[OF s2(3,2,4,5), of "replicate 4096 0", folded s3_def]
      have s3: "fs_inv disk works s3" "cview disk s3 = (cview disk s)(ib := replicate 4096 0)" "geo_same s s3"
        "block_used disk s3 = (block_used disk s)(ib := True)"
        using w s2(6,8) s1(3,4,6) False core_geo[OF s2(7)] core_geo[OF w(3)] by (auto intro: geo_same_trans)
      have "inode_wf ?i" using wf by (simp add: inode_wf_def)
      from bmap_indirect_grows[OF s3(1) this k(1)] False s3(4) obtain p s' where
        r: "bmap_indirect D ?i (unat (l - 12)) True s3 = (p, ?i, s')" "bmap_grows s3 ?i (unat l) p ?i s'"
        unfolding k(2) by auto
      have "bmap_read D i l True s = (p, ?i, s')"
        using new s1(1) False s2(1) r(1) by (simp add: bmap_read_def s3_def)
      moreover have "bmap_view disk s3 ?i j = bmap_view disk s i j" for j
        using s3(2) new(3) False by (simp add: bmap_view_def rd32_zeros)
      then have "bmap_grows s i (unat l) p ?i s'"
        using r(2) s3(2,3,4) s1(5) False new(3) wf unfolding bmap_grows_def
        by (auto simp: inode_wf_def intro: geo_same_trans split: if_splits)
      ultimately show thesis by (rule that)
    qed
  qed
qed

end

end
