(* ===== verification/SwiftfsDir.thy ===== *)
theory SwiftfsDir
  imports SwiftfsInode
begin

text \<open>
  Directories of \<open>src/kernel/fs/swiftfs2.c\<close>: splitting a path, walking it from the root inode, and
  adding an entry to a directory. A directory is a file of blocks, each a chain of entries (inode,
  record length, name length, type, name) in which inode 0 marks a free record.

  Reads of an entry that straddles the end of its block see the bytes inside the block only.
\<close>

section \<open>Paths\<close>

text \<open>\<open>path_next\<close>: the rest of the path and the component, or \<^const>\<open>None\<close> at the end of the path.\<close>

definition path_next :: "cstring \<Rightarrow> (cstring \<times> cstring) option" where
  "path_next path =
     (let p = dropWhile (\<lambda>c. c = 47) path in
      if p = [] then None
      else let name = take 254 (takeWhile (\<lambda>c. c \<noteq> 47) p) in Some (drop (length name) p, name))"

lemma path_next_shorter: "path_next path = Some (rest, name) \<Longrightarrow> length rest < length path"
proof -
  assume a: "path_next path = Some (rest, name)"
  let ?p = "dropWhile (\<lambda>c. c = 47) path"
  from a have p: "?p \<noteq> []" "name = take 254 (takeWhile (\<lambda>c. c \<noteq> 47) ?p)" "rest = drop (length name) ?p"
    by (auto simp: path_next_def Let_def split: if_splits)
  then have "hd ?p \<noteq> 47" using hd_dropWhile[of "\<lambda>c. c = 47" path] by simp
  then have "0 < length name" using p(1,2) by (cases ?p) simp_all
  then have "length rest < length ?p" using p(1,3) by (cases ?p) simp_all
  also have "length ?p \<le> length path" by (rule length_dropWhile_le)
  finally show ?thesis .
qed

section \<open>Looking a name up\<close>

text \<open>The test on an entry; a component holds no zero byte, so \<open>strncmp\<close> compares all its bytes.\<close>

definition de_match :: "u8 list \<Rightarrow> nat \<Rightarrow> cstring \<Rightarrow> bool" where
  "de_match data pos name \<longleftrightarrow>
     de_name_len data pos = of_nat (length name) \<and> de_name data pos (length name) = name"

function dir_find :: "u8 list \<Rightarrow> cstring \<Rightarrow> nat \<Rightarrow> u32 option" where
  "dir_find data name pos =
     (if pos \<ge> 4096 then None
      else if de_inode data pos = 0 then None
      else if de_rec_len data pos = 0 then None
      else if de_match data pos name then Some (de_inode data pos)
      else dir_find data name (pos + unat (de_rec_len data pos)))"
  by pat_completeness auto
termination
  by (relation "measure (\<lambda>(data, name, pos). 4096 - pos)") (auto simp: unat_gt_0 intro!: diff_less_mono2)

declare dir_find.simps [simp del]

lemma bmap_read_range: "bmap_read D inode l False s = (p, inode', s') \<Longrightarrow> p \<noteq> 0 \<Longrightarrow> unat l < 1036"
proof -
  assume a: "bmap_read D inode l False s = (p, inode', s')" "p \<noteq> 0"
  then have "l < 12 \<or> l - 12 < 1024" by (auto simp: bmap_read_def split: if_splits)
  moreover have "unat (l - 12) = unat l - 12" if "\<not> l < 12" using that by (simp add: unat_sub word_le_nat_alt not_less)
  ultimately show ?thesis by (cases "l < 12") (auto simp: word_less_nat_alt)
qed

lemma block_index_step: "unat l < 1036 \<Longrightarrow> 1036 - unat (l + 1 :: u32) < 1036 - unat l"
  by (simp add: unat_Suc_small)

text \<open>The loop of \<open>path_walk\<close> over the blocks of a directory.\<close>

function dir_lookup :: "'d blkdev \<Rightarrow> swiftfs2_inode \<Rightarrow> cstring \<Rightarrow> u32 \<Rightarrow> 'd swiftfs \<Rightarrow> u32 option \<times> 'd swiftfs" where
  "dir_lookup D inode name bi s =
     (case bmap_read D inode bi False s of (pblock, inode1, s1) \<Rightarrow>
      if pblock = 0 then (None, s1)
      else case cache_get D pblock 0 s1 of (i, s2) \<Rightarrow>
        (case dir_find (cache_data i s2) name 0 of Some ino \<Rightarrow> (Some ino, s2)
         | None \<Rightarrow> dir_lookup D inode1 name (bi + 1) s2))"
  by pat_completeness auto
termination
  by (relation "measure (\<lambda>(D, inode, name, bi, s). 1036 - unat bi)")
     (auto dest!: bmap_read_range[OF sym] intro: block_index_step)

declare dir_lookup.simps [simp del]

text \<open>One component per round: \<open>cname\<close> is looked up in the directory \<open>ino\<close>, then the path goes on.\<close>

definition S_IFDIR :: u16 where "S_IFDIR = 0x4000"

function path_walk_loop :: "'d blkdev \<Rightarrow> u32 \<Rightarrow> cstring \<Rightarrow> cstring \<Rightarrow> 'd swiftfs \<Rightarrow> u32 option \<times> 'd swiftfs" where
  "path_walk_loop D ino cname path s =
     (let (r, inode, s1) = inode_read D ino s in
      if r < 0 then (None, s1)
      else if in_mode inode AND S_IFDIR = 0 then (None, s1)
      else case dir_lookup D inode cname 0 s1 of
          (None, s2) \<Rightarrow> (None, s2)
        | (Some ino', s2) \<Rightarrow>
            (case path_next path of None \<Rightarrow> (Some ino', s2)
             | Some (path', cname') \<Rightarrow> path_walk_loop D ino' cname' path' s2))"
  by pat_completeness auto
termination
  by (relation "measure (\<lambda>(D, ino, cname, path, s). length path)") (auto dest: path_next_shorter)

declare path_walk_loop.simps [simp del]

definition path_walk :: "'d blkdev \<Rightarrow> cstring \<Rightarrow> 'd swiftfs \<Rightarrow> u32 option \<times> 'd swiftfs" where
  "path_walk D path s =
     (case path_next path of None \<Rightarrow> (Some 1, s)
      | Some (path', cname) \<Rightarrow> path_walk_loop D 1 cname path' s)"

section \<open>Adding an entry\<close>

text \<open>The record length: header and name, rounded up to a multiple of four.\<close>

definition dirent_reclen :: "cstring \<Rightarrow> u16" where
  "dirent_reclen name = (8 + of_nat (length name) + 3) AND NOT 3"

text \<open>The stores to \<open>inode\<close>, \<open>name_len\<close>, \<open>file_type\<close> and \<open>name\<close> of the entry at \<open>pos\<close>.\<close>

definition dirent_fill :: "u8 list \<Rightarrow> nat \<Rightarrow> u32 \<Rightarrow> u8 \<Rightarrow> cstring \<Rightarrow> u8 list" where
  "dirent_fill data pos ino ft name =
     blit ((wr32 data pos ino)[pos + 6 := of_nat (length name), pos + 7 := ft]) (pos + 8) name"

definition dirent_new_block :: "u8 list \<Rightarrow> u32 \<Rightarrow> u8 \<Rightarrow> cstring \<Rightarrow> u8 list" where
  "dirent_new_block data ino ft name =
     (let reclen = dirent_reclen name; d = dirent_fill data 0 ino ft name; rem = 4096 - reclen in
      if rem \<ge> 8 then wr16 (wr32 (wr16 d 4 reclen) (unat reclen) 0) (unat reclen + 4) rem
      else wr16 d 4 4096)"

text \<open>The search for a free record of at least \<open>reclen\<close> bytes.\<close>

function dir_slot :: "u8 list \<Rightarrow> u16 \<Rightarrow> nat \<Rightarrow> nat option" where
  "dir_slot data reclen pos =
     (if pos \<ge> 4096 then None
      else if de_inode data pos = 0 \<and> de_rec_len data pos \<ge> reclen then Some pos
      else if de_rec_len data pos = 0 then Some pos
      else dir_slot data reclen (pos + unat (de_rec_len data pos)))"
  by pat_completeness auto
termination
  by (relation "measure (\<lambda>(data, reclen, pos). 4096 - pos)") (auto simp: unat_gt_0 intro!: diff_less_mono2)

declare dir_slot.simps [simp del]

definition dirent_insert :: "u8 list \<Rightarrow> nat \<Rightarrow> u32 \<Rightarrow> u8 \<Rightarrow> cstring \<Rightarrow> u8 list" where
  "dirent_insert data pos ino ft name =
     (let reclen = dirent_reclen name; remaining = de_rec_len data pos; d = dirent_fill data pos ino ft name in
      if unat remaining \<ge> unat reclen + 8
      then wr16 (wr16 (wr32 d (pos + unat reclen) 0) (pos + unat reclen + 4) (remaining - reclen)) (pos + 4) reclen
      else wr16 d (pos + 4) remaining)"

text \<open>
  A directory with no room: the part of \<open>dir_add_entry\<close> that allocates and links a new block. The
  pointer \<open>i\<close> to the block's data is kept across the later \<open>cache_get\<close> calls.
\<close>

definition dir_link_indirect :: "'d blkdev \<Rightarrow> swiftfs2_inode \<Rightarrow> u32 \<Rightarrow> nat \<Rightarrow> 'd swiftfs \<Rightarrow> swiftfs2_inode option \<times> 'd swiftfs" where
  "dir_link_indirect D inode pblock k s =
     (let (inode1, s1, ok) =
        (if in_indirect inode \<noteq> 0 then (inode, s, True)
         else
           let (ib, s1) = block_alloc D s; inode1 = inode\<lparr>in_indirect := ib\<rparr> in
           if ib = 0 then (inode1, s1, False)
           else let (z, s2) = cache_get D ib 0 s1
                in (inode1, cache_mark_dirty ib 0 (cache_store z (replicate 4096 0) s2), True))
      in if \<not> ok then (None, s1)
         else
           let (t, s2) = cache_get D (in_indirect inode1) 0 s1
           in (Some inode1, cache_mark_dirty (in_indirect inode1) 0 (cache_store t (wr32 (cache_data t s2) (4 * k) pblock) s2)))"

definition dir_new_block :: "'d blkdev \<Rightarrow> u32 \<Rightarrow> swiftfs2_inode \<Rightarrow> u32 \<Rightarrow> cstring \<Rightarrow> u32 \<Rightarrow> u8 \<Rightarrow> 'd swiftfs \<Rightarrow> int \<times> 'd swiftfs" where
  "dir_new_block D dir_ino inode bi name child ft s =
     (let (pblock, s1) = block_alloc D s in
      if pblock = 0 then (-1, s1)
      else
        let (i, s2) = cache_get D pblock 0 s1;
            s3 = cache_mark_dirty pblock 0 (cache_store i (replicate 4096 0) s2);
            (linked, s4) =
              (if bi < 12 then (Some (inode\<lparr>in_direct := (in_direct inode)[unat bi := pblock]\<rparr>), s3)
               else if bi = 12 then dir_link_indirect D inode pblock 0 s3
               else (Some inode, s3))
        in case linked of None \<Rightarrow> (-1, s4)
           | Some inode1 \<Rightarrow>
               let inode2 = inode1\<lparr>in_size := in_size inode1 + 4096, in_block_count := in_block_count inode1 + 1\<rparr>;
                   (r, s5) = inode_write D dir_ino inode2 s4;
                   s6 = cache_store i (dirent_new_block (cache_data i s5) child ft name) s5
               in (0, cache_mark_dirty pblock 0 s6))"

function dir_add_loop :: "'d blkdev \<Rightarrow> u32 \<Rightarrow> swiftfs2_inode \<Rightarrow> u32 \<Rightarrow> cstring \<Rightarrow> u32 \<Rightarrow> u8 \<Rightarrow> 'd swiftfs \<Rightarrow> int \<times> 'd swiftfs" where
  "dir_add_loop D dir_ino inode bi name child ft s =
     (case bmap_read D inode bi False s of (pblock, inode1, s1) \<Rightarrow>
      if pblock = 0 then dir_new_block D dir_ino inode1 bi name child ft s1
      else case cache_get D pblock 0 s1 of (i, s2) \<Rightarrow>
        (case dir_slot (cache_data i s2) (dirent_reclen name) 0 of
           Some pos \<Rightarrow> (0, cache_mark_dirty pblock 0 (cache_store i (dirent_insert (cache_data i s2) pos child ft name) s2))
         | None \<Rightarrow> dir_add_loop D dir_ino inode1 (bi + 1) name child ft s2))"
  by pat_completeness auto
termination
  by (relation "measure (\<lambda>(D, dir_ino, inode, bi, name, child, ft, s). 1036 - unat bi)")
     (auto dest!: bmap_read_range[OF sym] intro: block_index_step)

declare dir_add_loop.simps [simp del]

definition dir_add_entry :: "'d blkdev \<Rightarrow> u32 \<Rightarrow> cstring \<Rightarrow> u32 \<Rightarrow> u8 \<Rightarrow> 'd swiftfs \<Rightarrow> int \<times> 'd swiftfs" where
  "dir_add_entry D dir_ino name child ft s =
     (let (r, inode, s1) = inode_read D dir_ino s in dir_add_loop D dir_ino inode 0 name child ft s1)"

section \<open>Adding an entry makes it visible\<close>

text \<open>
  A stretch of well-formed live entries from \<open>p\<close> to \<open>q\<close>, none of which carries the name: the lookup
  passes over it.
\<close>

inductive live_upto :: "u8 list \<Rightarrow> cstring \<Rightarrow> nat \<Rightarrow> nat \<Rightarrow> bool" for data name where
  live_here: "live_upto data name p p"
| live_next: "p < 4096 \<Longrightarrow> de_inode data p \<noteq> 0 \<Longrightarrow> 8 + unat (de_name_len data p) \<le> unat (de_rec_len data p) \<Longrightarrow>
    \<not> de_match data p name \<Longrightarrow> live_upto data name (p + unat (de_rec_len data p)) q \<Longrightarrow> live_upto data name p q"

lemma live_upto_le: "live_upto data name p q \<Longrightarrow> p \<le> q"
  by (induction rule: live_upto.induct) simp_all

lemma dir_find_live: "live_upto data name p q \<Longrightarrow> dir_find data name p = dir_find data name q"
proof (induction rule: live_upto.induct)
  case (live_next p q)
  then have "de_rec_len data p \<noteq> 0" by auto
  with live_next show ?case by (subst dir_find.simps) simp
qed simp

lemma reclen_value:
  assumes "length name \<le> 254"
  shows "unat (dirent_reclen name) = (length name + 11) div 4 * 4"
    and "8 + length name \<le> unat (dirent_reclen name)" "unat (dirent_reclen name) \<le> 264"
proof -
  have "(8 + of_nat (length name) + 3 :: u16) = of_nat (length name + 11)" by simp
  then have "unat (8 + of_nat (length name) + 3 :: u16) = length name + 11"
    using assms by (simp only:) (rule unat_of_nat_small, simp)
  moreover have "(3 :: u16) = mask 2" by (simp add: mask_numeral)
  ultimately show v: "unat (dirent_reclen name) = (length name + 11) div 4 * 4"
    using unat_align[of "8 + of_nat (length name) + 3 :: u16" 2] by (simp add: dirent_reclen_def)
  show "8 + length name \<le> unat (dirent_reclen name)" unfolding v by linarith
  show "unat (dirent_reclen name) \<le> 264" unfolding v using div_le_mono[of "length name + 11" 265 4] assms by simp
qed

lemma upd_blit: "k < length xs \<Longrightarrow> xs[k := v] = blit xs k [v]"
  by (simp add: blit_def upd_conv_take_nth_drop)

lemma take_blit_before: "n \<le> k \<Longrightarrow> k \<le> length xs \<Longrightarrow> take n (blit xs k ys) = take n xs"
  by (simp add: blit_def)

lemma nth_blit_one: "k + length ys \<le> length xs \<Longrightarrow> j < length xs \<Longrightarrow> j < k \<or> k + length ys \<le> j \<Longrightarrow> blit xs k ys ! j = xs ! j"
  by (auto simp: nth_blit)

text \<open>The bytes below \<open>pos\<close> decide every field of an entry that ends there.\<close>

lemma fields_below:
  assumes "take pos data' = take pos data" "length data' = length data" "q + 8 + n \<le> pos" "pos \<le> length data"
  shows "de_inode data' q = de_inode data q" "de_rec_len data' q = de_rec_len data q"
    "de_name_len data' q = de_name_len data q" "de_name data' q n = de_name data q n"
proof -
  have td: "take m (drop j data') = take m (drop j data)" if "j + m \<le> pos" for j m
  proof -
    have "take m (drop j xs) = drop j (take (j + m) (take pos xs))" for xs :: "u8 list"
      using that by (simp add: drop_take min_absorb1)
    then show ?thesis using assms(1) by metis
  qed
  show "de_inode data' q = de_inode data q" "de_rec_len data' q = de_rec_len data q" "de_name data' q n = de_name data q n"
    using assms(3) by (simp_all add: de_inode_def de_rec_len_def de_name_def rd32_def rd16_def td)
  have "data' ! (q + 6) = take pos data' ! (q + 6)" using assms(3) by simp
  also have "\<dots> = data ! (q + 6)" using assms(1,3) by simp
  finally show "de_name_len data' q = de_name_len data q" by (simp add: de_name_len_def)
qed

lemma dirent_fill_fields:
  assumes "pos + 8 + length name \<le> length data"
  shows "length (dirent_fill data pos ino ft name) = length data"
    "take pos (dirent_fill data pos ino ft name) = take pos data"
    "take 4 (drop pos (dirent_fill data pos ino ft name)) = le_enc 4 ino"
    "dirent_fill data pos ino ft name ! (pos + 6) = of_nat (length name)"
    "take (length name) (drop (pos + 8) (dirent_fill data pos ino ft name)) = name"
proof -
  let ?d1 = "wr32 data pos ino"
  let ?d2 = "blit ?d1 (pos + 6) [of_nat (length name)]"
  let ?d3 = "blit ?d2 (pos + 7) [ft]"
  have l: "length ?d1 = length data" "length ?d2 = length data" "length ?d3 = length data"
    using assms by (simp_all add: wr32_def)
  have f: "dirent_fill data pos ino ft name = blit ?d3 (pos + 8) name"
    using l assms by (simp add: dirent_fill_def upd_blit)
  show "length (dirent_fill data pos ino ft name) = length data" using assms l by (simp add: f)
  show "take pos (dirent_fill data pos ino ft name) = take pos data"
    using assms l by (simp add: f take_blit_before wr32_def)
  show "take 4 (drop pos (dirent_fill data pos ino ft name)) = le_enc 4 ino"
    using assms l take_drop_blit_same[of pos "le_enc 4 ino" data]
    by (simp add: f take_drop_blit) (simp add: wr32_def)
  show "dirent_fill data pos ino ft name ! (pos + 6) = of_nat (length name)"
    using assms l by (simp add: f nth_blit_one) (simp add: nth_blit)
  show "take (length name) (drop (pos + 8) (dirent_fill data pos ino ft name)) = name"
    using assms l by (simp add: f take_drop_blit_same)
qed

lemma dirent_insert_fields:
  fixes ino ft
  assumes len: "length data = 4096" and nm: "length name \<le> 254"
    and slot: "unat (dirent_reclen name) \<le> unat (de_rec_len data pos)" "pos + unat (de_rec_len data pos) \<le> 4096"
  defines "data' \<equiv> dirent_insert data pos ino ft name"
  shows "length data' = 4096" "take pos data' = take pos data" "de_inode data' pos = ino" "de_match data' pos name"
    "unat (dirent_reclen name) \<le> unat (de_rec_len data' pos)"
proof -
  let ?r = "unat (dirent_reclen name)" and ?rem = "unat (de_rec_len data pos)"
  let ?d = "dirent_fill data pos ino ft name"
  note R = reclen_value[OF nm]
  have fit: "pos + 8 + length name \<le> length data" using R(2) slot len by simp
  note F = dirent_fill_fields[OF fit, of ino ft]
  define e where "e = (if ?rem \<ge> ?r + 8
      then wr16 (wr32 ?d (pos + ?r) 0) (pos + ?r + 4) (de_rec_len data pos - dirent_reclen name) else ?d)"
  define v where "v = (if ?rem \<ge> ?r + 8 then dirent_reclen name else de_rec_len data pos)"
  have d': "data' = wr16 e (pos + 4) v" by (simp add: data'_def dirent_insert_def Let_def e_def v_def)
  have e: "length e = 4096" "take pos e = take pos ?d" "take 4 (drop pos e) = take 4 (drop pos ?d)"
      "e ! (pos + 6) = ?d ! (pos + 6)" "take (length name) (drop (pos + 8) e) = take (length name) (drop (pos + 8) ?d)"
    using F(1) len slot R(2) unfolding e_def
    by (auto simp: wr16_def wr32_def take_blit_before take_drop_blit nth_blit_one)
  have p8: "pos + 8 \<le> 4096" using R(2) slot by simp
  show "length data' = 4096" using e(1) p8 by (simp add: d')
  show "take pos data' = take pos data" using e(1,2) F(2) p8 by (simp add: d' wr16_def take_blit_before)
  have "take 4 (drop pos data') = le_enc 4 ino" using e(1,3) F(3) p8 by (simp add: d' wr16_def take_drop_blit)
  then show "de_inode data' pos = ino" by (simp add: de_inode_def rd32_def le_dec_enc_id)
  have "data' ! (pos + 6) = of_nat (length name)" using e(1,4) F(4) p8 by (simp add: d' wr16_def nth_blit_one)
  moreover have "take (length name) (drop (pos + 8) data') = name" using e(1,5) F(5) p8 by (simp add: d' wr16_def take_drop_blit)
  ultimately show "de_match data' pos name" by (simp add: de_match_def de_name_len_def de_name_def)
  have "de_rec_len data' pos = v" using e(1) p8 by (simp add: d' de_rec_len_def rd16_wr16)
  then show "?r \<le> unat (de_rec_len data' pos)" using slot by (simp add: v_def)
qed

lemma live_below:
  assumes "live_upto data name p q" "take pos data' = take pos data" "length data' = length data" "q \<le> pos"
    "pos \<le> length data" "length name \<le> 254"
  shows "live_upto data' name p q"
  using assms
proof (induction rule: live_upto.induct)
  case (live_here p)
  show ?case by (rule live_upto.live_here)
next
  case (live_next p q)
  let ?n = "unat (de_name_len data p)"
  have "p + unat (de_rec_len data p) \<le> q" by (rule live_upto_le[OF live_next.hyps(5)])
  then have ends: "p + 8 + ?n \<le> pos" using live_next.hyps(3) live_next.prems(3) by simp
  note f = fields_below[OF live_next.prems(1,2) ends live_next.prems(4)]
  have "de_name data' p (length name) = de_name data p (length name)" if "de_name_len data p = of_nat (length name)"
  proof -
    have "?n = length name" using that live_next.prems(5) by (simp add: unat_of_nat_small)
    with f(4) show ?thesis by simp
  qed
  then have "de_match data' p name = de_match data p name" using f(3) by (auto simp: de_match_def)
  moreover have "live_upto data' name (p + unat (de_rec_len data' p)) q" using live_next.IH live_next.prems f(2) by simp
  ultimately show ?case using live_next.hyps f by - (rule live_upto.live_next, simp_all)
qed

text \<open>The entry put into the first free record behind live entries is found, and so are the others.\<close>

lemma dir_insert_lookup:
  assumes len: "length data = 4096" and nm: "length name \<le> 254" and ino: "ino \<noteq> 0"
    and slot: "unat (dirent_reclen name) \<le> unat (de_rec_len data pos)" "pos + unat (de_rec_len data pos) \<le> 4096"
    and live: "live_upto data name 0 pos"
  shows "dir_find (dirent_insert data pos ino ft name) name 0 = Some ino"
proof -
  note I = dirent_insert_fields[OF len nm slot, of ino ft]
  have R: "8 \<le> unat (dirent_reclen name)" using reclen_value(2)[OF nm] by simp
  have "live_upto (dirent_insert data pos ino ft name) name 0 pos"
    using slot(2) by (intro live_below[OF live I(2)]) (use I(1) len nm in simp_all)
  then have "dir_find (dirent_insert data pos ino ft name) name 0 = dir_find (dirent_insert data pos ino ft name) name pos"
    by (rule dir_find_live)
  also have "\<dots> = Some ino"
    using I(3,4,5) ino R slot by (subst dir_find.simps) auto
  finally show ?thesis .
qed

lemma dir_insert_keeps:
  assumes len: "length data = 4096" and nm: "length name \<le> 254" "length other \<le> 254"
    and slot: "unat (dirent_reclen name) \<le> unat (de_rec_len data pos)" "pos + unat (de_rec_len data pos) \<le> 4096"
    and live: "live_upto data other 0 q" "q < 4096" "de_match data q other" "q + unat (de_rec_len data q) \<le> pos"
      "8 + length other \<le> unat (de_rec_len data q)" "de_inode data q \<noteq> 0"
  shows "dir_find (dirent_insert data pos ino ft name) other 0 = Some (de_inode data q)"
proof -
  let ?d = "dirent_insert data pos ino ft name"
  note I = dirent_insert_fields[OF len nm(1) slot, of ino ft]
  have "live_upto ?d other 0 q" using slot(2) live(4) by (intro live_below[OF live(1) I(2)]) (use I(1) len nm in simp_all)
  then have "dir_find ?d other 0 = dir_find ?d other q" by (rule dir_find_live)
  moreover have p: "q + 8 + length other \<le> pos" "pos \<le> length data" using live(4,5) slot(2) len by simp_all
  have l: "length ?d = length data" using I(1) len by simp
  note f = fields_below[OF I(2) l p]
  have "de_match ?d q other" using live(3) f by (simp add: de_match_def)
  moreover have "de_rec_len data q \<noteq> 0" using live(5) by auto
  ultimately show ?thesis using f live(2,6) by (subst (asm) (2) dir_find.simps) simp
qed

lemma dirent_new_block_lookup:
  assumes len: "length data = 4096" and nm: "length name \<le> 254" and ino: "ino \<noteq> 0"
  shows "dir_find (dirent_new_block data ino ft name) name 0 = Some ino"
proof -
  let ?r = "unat (dirent_reclen name)"
  note R = reclen_value[OF nm]
  let ?d = "dirent_fill data 0 ino ft name"
  have fit: "0 + 8 + length name \<le> length data" using len nm by simp
  note F = dirent_fill_fields[OF fit, of ino ft, simplified]
  have "unat (4096 - dirent_reclen name) = 4096 - ?r" using R(3) by (subst unat_sub) (simp_all add: word_le_nat_alt)
  then have "\<not> 4096 - dirent_reclen name < 8" using R(3) by (simp add: word_less_nat_alt)
  then have e: "dirent_new_block data ino ft name =
      wr16 (wr32 (wr16 ?d 4 (dirent_reclen name)) ?r 0) (?r + 4) (4096 - dirent_reclen name)"
    by (simp add: dirent_new_block_def Let_def not_less)
  let ?e = "dirent_new_block data ino ft name"
  let ?d4 = "wr16 ?d 4 (dirent_reclen name)"
  have l: "length ?d = 4096" "length ?d4 = 4096" "length (wr32 ?d4 ?r 0) = 4096" using F(1) len R(2,3) by simp_all
  have "take 4 ?e = le_enc 4 ino" using l F(3) R(2,3) take_blit_before[of 4 _ _ "le_enc 4 (0 :: u32)"]
    by (simp add: e wr16_def wr32_def take_blit_before)
  then have "de_inode ?e 0 = ino" by (simp add: de_inode_def rd32_def le_dec_enc_id)
  moreover have "?e ! 6 = of_nat (length name)" using l F(4) R(2,3) by (simp add: e wr16_def wr32_def nth_blit_one)
  moreover have "take (length name) (drop 8 ?e) = name" using l F(5) R(2,3) by (simp add: e wr16_def wr32_def take_drop_blit)
  moreover have "take 2 (drop 4 ?e) = take 2 (drop 4 ?d4)" using l R(2,3) by (simp add: e wr16_def wr32_def take_drop_blit)
  then have "de_rec_len ?e 0 = dirent_reclen name"
    using rd16_wr16[of 4 ?d "dirent_reclen name"] l(1) by (simp add: de_rec_len_def rd16_def)
  moreover have "dirent_reclen name \<noteq> 0" using R(2) by auto
  ultimately show ?thesis using ino
    by (subst dir_find.simps) (simp add: de_match_def de_name_len_def de_name_def)
qed

text \<open>A zero inode hides everything behind it in the block.\<close>

lemma dir_find_zeroed:
  assumes "length data = 4096" "pos + 4 \<le> 4096" "live_upto data name 0 pos" "length name \<le> 254"
  shows "dir_find (wr32 data pos 0) name 0 = None"
proof -
  have "take pos (wr32 data pos 0) = take pos data" using assms(1,2) by (simp add: wr32_def take_blit_before)
  from live_below[OF assms(3) this] have "live_upto (wr32 data pos 0) name 0 pos" using assms by simp
  then have "dir_find (wr32 data pos 0) name 0 = dir_find (wr32 data pos 0) name pos" by (rule dir_find_live)
  also have "\<dots> = None" using assms(1,2) by (subst dir_find.simps) (simp add: de_inode_def rd32_wr32)
  finally show ?thesis .
qed

end
