(* ===== verification/SwiftfsFile.thy ===== *)
theory SwiftfsFile
  imports SwiftfsDir
begin

text \<open>
  Files of \<open>src/kernel/fs/swiftfs2.c\<close>: the table of open files, open with creation and truncation, read,
  write, fstat, close, and the directory calls mkdir, unlink and ls.
\<close>

section \<open>The open-file table\<close>

definition O_CREAT :: u32 where "O_CREAT = 0x100"
definition O_TRUNC :: u32 where "O_TRUNC = 0x200"
definition S_IFREG :: u16 where "S_IFREG = 0x8000"
definition S_IWUSR :: u16 where "S_IWUSR = 0x80"
definition SWIFTFS2_MAX_FD :: nat where "SWIFTFS2_MAX_FD = 64"

definition fd_clear :: swiftfs2_fd where
  "fd_clear = \<lparr>fd_inode = 0, fd_pos = 0, fd_flags = 0, fd_dirty = False\<rparr>"

definition sfd_alloc :: "'d swiftfs \<Rightarrow> int" where
  "sfd_alloc s = (case find (\<lambda>i. fd_inode (s_fds s ! i) = 0) [2..<SWIFTFS2_MAX_FD] of Some i \<Rightarrow> int i | None \<Rightarrow> -1)"

definition sfd_bad :: "int \<Rightarrow> 'd swiftfs \<Rightarrow> bool" where
  "sfd_bad fd s \<longleftrightarrow> fd < 0 \<or> fd \<ge> int SWIFTFS2_MAX_FD \<or> fd_inode (s_fds s ! nat fd) = 0"

definition sfd_set :: "int \<Rightarrow> swiftfs2_fd \<Rightarrow> 'd swiftfs \<Rightarrow> 'd swiftfs" where
  "sfd_set fd f s = s\<lparr>s_fds := (s_fds s)[nat fd := f]\<rparr>"

section \<open>Opening\<close>

text \<open>
  Splitting a path at its last slash: the parent path, \<^const>\<open>None\<close> if there is no slash, and the name.
  The path is cut to 509 bytes and the name to the 255 bytes of its buffer.
\<close>

definition split_path :: "cstring \<Rightarrow> cstring option \<times> cstring" where
  "split_path path =
     (let p = take 509 path; r = rev p in
      if 47 \<in> set p
      then (Some (rev (drop 1 (dropWhile (\<lambda>c. c \<noteq> 47) r))), take 255 (rev (takeWhile (\<lambda>c. c \<noteq> 47) r)))
      else (None, take 255 path))"

definition walk_parent :: "'d blkdev \<Rightarrow> cstring option \<Rightarrow> 'd swiftfs \<Rightarrow> u32 option \<times> 'd swiftfs" where
  "walk_parent D parent s = (case parent of Some p \<Rightarrow> path_walk D p s | None \<Rightarrow> (Some 1, s))"

text \<open>Freeing the blocks an inode points to, and clearing its pointers.\<close>

primrec free_direct :: "'d blkdev \<Rightarrow> nat list \<Rightarrow> swiftfs2_inode \<Rightarrow> 'd swiftfs \<Rightarrow> swiftfs2_inode \<times> 'd swiftfs" where
  "free_direct D [] inode s = (inode, s)"
| "free_direct D (k # ks) inode s =
     (if in_direct inode ! k \<noteq> 0
      then free_direct D ks (inode\<lparr>in_direct := (in_direct inode)[k := 0]\<rparr>) (block_free D (in_direct inode ! k) s)
      else free_direct D ks inode s)"

definition inode_release :: "'d blkdev \<Rightarrow> swiftfs2_inode \<Rightarrow> 'd swiftfs \<Rightarrow> swiftfs2_inode \<times> 'd swiftfs" where
  "inode_release D inode s =
     (let (inode1, s1) = free_direct D [0..<12] inode s;
          (inode2, s2) = (if in_indirect inode1 \<noteq> 0
            then (inode1\<lparr>in_indirect := 0\<rparr>, block_free D (in_indirect inode1) s1) else (inode1, s1))
      in if in_double_indirect inode2 \<noteq> 0
         then (inode2\<lparr>in_double_indirect := 0\<rparr>, block_free D (in_double_indirect inode2) s2) else (inode2, s2))"

text \<open>The creation of a missing file.\<close>

definition file_create :: "'d blkdev \<Rightarrow> cstring \<Rightarrow> 'd swiftfs \<Rightarrow> u32 option \<times> 'd swiftfs" where
  "file_create D path s =
     (let (parent, fname) = split_path path in
      case walk_parent D parent s of
        (None, s1) \<Rightarrow> (None, s1)
      | (Some parent_ino, s1) \<Rightarrow>
          let (ino, s2) = inode_alloc D (S_IFREG OR 0x1A4) s1 in
          if ino = 0 then (None, s2)
          else
            let (r, s3) = dir_add_entry D parent_ino fname ino 1 s2 in
            if r < 0 then (None, inode_free D ino s3) else (Some ino, s3))"

text \<open>What follows once the inode is known.\<close>

definition file_open_inode :: "'d blkdev \<Rightarrow> u32 \<Rightarrow> u32 \<Rightarrow> 'd swiftfs \<Rightarrow> int \<times> 'd swiftfs" where
  "file_open_inode D ino flags s =
     (let (r, inode, s1) = inode_read D ino s in
      if flags AND 3 \<noteq> 0 \<and> in_mode inode AND S_IWUSR = 0 then (-1, s1)
      else
        let s2 = (if flags AND O_TRUNC \<noteq> 0
              then let (inode1, s') = inode_release D inode s1
                   in snd (inode_write D ino (inode1\<lparr>in_size := 0, in_block_count := 0\<rparr>) s')
              else s1);
            fd = sfd_alloc s2
        in if fd < 0 then (-1, s2)
           else (fd, sfd_set fd \<lparr>fd_inode = ino, fd_pos = 0, fd_flags = flags, fd_dirty = False\<rparr> s2))"

definition swiftfs2_open :: "'d blkdev \<Rightarrow> cstring \<Rightarrow> u32 \<Rightarrow> 'd swiftfs \<Rightarrow> int \<times> 'd swiftfs" where
  "swiftfs2_open D path flags s =
     (if \<not> g_mounted s then (-1, s)
      else case path_walk D path s of
          (Some ino, s1) \<Rightarrow> file_open_inode D ino flags s1
        | (None, s1) \<Rightarrow>
            if flags AND O_CREAT = 0 then (-1, s1)
            else (case file_create D path s1 of
                (None, s2) \<Rightarrow> (-1, s2)
              | (Some ino, s2) \<Rightarrow> file_open_inode D ino flags s2))"

section \<open>Reading and writing\<close>

lemma chunk_progress:
  fixes ndone to_read off :: u32
  assumes "ndone < to_read"
  defines "chunk \<equiv> if 4096 - off mod 4096 > to_read - ndone then to_read - ndone else 4096 - off mod 4096"
  shows "unat (to_read - (ndone + chunk)) < unat (to_read - ndone)" "chunk \<noteq> 0" "chunk \<le> to_read - ndone"
    "unat chunk = min (4096 - unat off mod 4096) (unat to_read - unat ndone)"
proof -
  have o: "unat (4096 - off mod 4096) = 4096 - unat off mod 4096"
    by (subst unat_sub) (simp_all add: word_le_nat_alt unat_mod less_imp_le)
  have t: "unat (to_read - ndone) = unat to_read - unat ndone" using assms(1) by (simp add: unat_sub less_imp_le)
  show u: "unat chunk = min (4096 - unat off mod 4096) (unat to_read - unat ndone)"
    using o t by (auto simp: chunk_def word_less_nat_alt min_def)
  have "0 < unat to_read - unat ndone" using assms(1) by (simp add: word_less_nat_alt)
  then have "0 < unat chunk" using u by simp
  then show c: "chunk \<noteq> 0" by auto
  show l: "chunk \<le> to_read - ndone" using u t by (simp add: word_le_nat_alt)
  have e: "to_read - (ndone + chunk) = (to_read - ndone) - chunk" by simp
  show "unat (to_read - (ndone + chunk)) < unat (to_read - ndone)" unfolding e by (rule unat_sub_lt[OF c l])
qed

text \<open>The read loop; \<open>out\<close> are the bytes stored into the caller's buffer so far.\<close>

function read_loop :: "'d blkdev \<Rightarrow> swiftfs2_inode \<Rightarrow> u32 \<Rightarrow> u32 \<Rightarrow> u32 \<Rightarrow> u8 list \<Rightarrow> 'd swiftfs \<Rightarrow> u32 \<times> u8 list \<times> 'd swiftfs" where
  "read_loop D inode pos to_read ndone out s =
     (if ndone < to_read then
        let off = (pos + ndone) mod 4096 in
        case bmap_read D inode ((pos + ndone) div 4096) False s of (pblock, inode1, s1) \<Rightarrow>
        if pblock = 0 then (ndone, out, s1)
        else case cache_get D pblock 0 s1 of (i, s2) \<Rightarrow>
          let chunk = (if 4096 - off > to_read - ndone then to_read - ndone else 4096 - off)
          in read_loop D inode1 pos to_read (ndone + chunk) (out @ take (unat chunk) (drop (unat off) (cache_data i s2))) s2
      else (ndone, out, s))"
  by pat_completeness auto
termination
proof (relation "measure (\<lambda>(D, inode, pos, to_read, ndone, out, s). unat (to_read - ndone))", goal_cases)
  case (2 D inode pos to_read ndone)
  then show ?case using chunk_progress(1)[of ndone to_read "pos + ndone"] by (auto split: if_splits)
qed simp

declare read_loop.simps [simp del]

definition swiftfs2_read :: "'d blkdev \<Rightarrow> int \<Rightarrow> u32 \<Rightarrow> 'd swiftfs \<Rightarrow> int \<times> u8 list \<times> 'd swiftfs" where
  "swiftfs2_read D fd sz s =
     (if sfd_bad fd s then (-1, [], s)
      else if fd_flags (s_fds s ! nat fd) = 1 then (-1, [], s)
      else
        let f = s_fds s ! nat fd; (r, inode, s1) = inode_read D (fd_inode f) s; pos = fd_pos f in
        if ucast pos \<ge> in_size inode then (0, [], s1)
        else
          let to_read = (if ucast (pos + sz) > in_size inode then ucast (in_size inode - ucast pos) else sz);
              (ndone, out, s2) = read_loop D inode pos to_read 0 [] s1
          in (sint ndone, out, sfd_set fd ((s_fds s2 ! nat fd)\<lparr>fd_pos := pos + ndone\<rparr>) s2))"

function write_loop :: "'d blkdev \<Rightarrow> swiftfs2_inode \<Rightarrow> u32 \<Rightarrow> u8 list \<Rightarrow> u32 \<Rightarrow> u32 \<Rightarrow> 'd swiftfs \<Rightarrow> u32 \<times> swiftfs2_inode \<times> 'd swiftfs" where
  "write_loop D inode pos buf sz ndone s =
     (if ndone < sz then
        let off = (pos + ndone) mod 4096 in
        case bmap_read D inode ((pos + ndone) div 4096) True s of (pblock, inode1, s1) \<Rightarrow>
        if pblock = 0 then (ndone, inode1, s1)
        else case cache_get D pblock 0 s1 of (i, s2) \<Rightarrow>
          let chunk = (if 4096 - off > sz - ndone then sz - ndone else 4096 - off);
              bytes = take (unat chunk) (drop (unat ndone) buf);
              s3 = cache_mark_dirty pblock 0 (cache_store i (blit (cache_data i s2) (unat off) bytes) s2)
          in write_loop D inode1 pos buf sz (ndone + chunk) s3
      else (ndone, inode, s))"
  by pat_completeness auto
termination
proof (relation "measure (\<lambda>(D, inode, pos, buf, sz, ndone, s). unat (sz - ndone))", goal_cases)
  case (2 D inode pos buf sz ndone)
  then show ?case using chunk_progress(1)[of ndone sz "pos + ndone"] by (auto split: if_splits)
qed simp

declare write_loop.simps [simp del]

definition swiftfs2_write :: "'d blkdev \<Rightarrow> int \<Rightarrow> u8 list \<Rightarrow> u32 \<Rightarrow> 'd swiftfs \<Rightarrow> int \<times> 'd swiftfs" where
  "swiftfs2_write D fd buf sz s =
     (if sfd_bad fd s then (-1, s)
      else if fd_flags (s_fds s ! nat fd) = 0 then (-1, s)
      else
        let f = s_fds s ! nat fd; (r, inode, s1) = inode_read D (fd_inode f) s;
            (ndone, inode1, s2) = write_loop D inode (fd_pos f) buf sz 0 s1;
            pos = fd_pos f + ndone;
            inode2 = (if ucast pos > in_size inode1 then inode1\<lparr>in_size := ucast pos\<rparr> else inode1);
            inode3 = inode2\<lparr>in_block_count := ucast ((in_size inode2 + 4096 - 1) div 4096)\<rparr>;
            (r', s3) = inode_write D (fd_inode f) inode3 s2
        in (sint ndone, sfd_set fd ((s_fds s3 ! nat fd)\<lparr>fd_pos := pos\<rparr>) s3))"

definition swiftfs2_fstat :: "'d blkdev \<Rightarrow> int \<Rightarrow> 'd swiftfs \<Rightarrow> int \<times> (u16 \<times> u64) option \<times> 'd swiftfs" where
  "swiftfs2_fstat D fd s =
     (if sfd_bad fd s then (-1, None, s)
      else let (r, inode, s1) = inode_read D (fd_inode (s_fds s ! nat fd)) s
           in (0, Some (in_mode inode, in_size inode), s1))"

definition swiftfs2_close :: "'d blkdev \<Rightarrow> int \<Rightarrow> 'd swiftfs \<Rightarrow> int \<times> 'd swiftfs" where
  "swiftfs2_close D fd s =
     (if sfd_bad fd s then (-1, s)
      else
        let ino = fd_inode (s_fds s ! nat fd);
            s1 = (if fd_dirty (s_fds s ! nat fd)
              then let (r, inode, s') = inode_read D ino s in snd (inode_write D ino inode s') else s)
        in (0, sfd_set fd fd_clear s1))"

section \<open>Directories\<close>

definition swiftfs2_mkdir :: "'d blkdev \<Rightarrow> cstring \<Rightarrow> u16 \<Rightarrow> 'd swiftfs \<Rightarrow> int \<times> 'd swiftfs" where
  "swiftfs2_mkdir D path mode s =
     (if \<not> g_mounted s then (-1, s)
      else
        let (parent, dirname) = split_path path in
        case walk_parent D parent s of
          (None, s1) \<Rightarrow> (-1, s1)
        | (Some parent_ino, s1) \<Rightarrow>
            let (ino, s2) = inode_alloc D (S_IFDIR OR (mode AND 0x1FF)) s1 in
            if ino = 0 then (-1, s2)
            else
              let (r1, s3) = dir_add_entry D ino [46] ino 2 s2 in
              if r1 < 0 then (-1, inode_free D ino s3)
              else
                let (r2, s4) = dir_add_entry D ino [46, 46] parent_ino 2 s3 in
                if r2 < 0 then (-1, inode_free D ino s4)
                else
                  let (r3, s5) = dir_add_entry D parent_ino dirname ino 2 s4 in
                  if r3 < 0 then (-1, inode_free D ino s5) else (0, s5))"

text \<open>
  The search of \<open>unlink\<close> for the entry in a block. Unlike the lookup it does not stop at a record of
  length 0, so it may not end: then its value is \<^const>\<open>None\<close>. \<open>Some None\<close> is \<open>not in this block\<close>.
\<close>

partial_function (option) unlink_find :: "u8 list \<Rightarrow> cstring \<Rightarrow> nat \<Rightarrow> nat option option" where
  "unlink_find data name pos =
     (if pos \<ge> 4096 then Some None
      else if de_inode data pos = 0 then Some None
      else if de_match data pos name then Some (Some pos)
      else unlink_find data name (pos + unat (de_rec_len data pos)))"

function unlink_entry :: "'d blkdev \<Rightarrow> swiftfs2_inode \<Rightarrow> cstring \<Rightarrow> u32 \<Rightarrow> 'd swiftfs \<Rightarrow> (bool \<times> 'd swiftfs) option" where
  "unlink_entry D inode name bi s =
     (case bmap_read D inode bi False s of (pblock, inode1, s1) \<Rightarrow>
      if pblock = 0 then Some (False, s1)
      else case cache_get D pblock 0 s1 of (i, s2) \<Rightarrow>
        (case unlink_find (cache_data i s2) name 0 of
           None \<Rightarrow> None
         | Some (Some pos) \<Rightarrow> Some (True, cache_mark_dirty pblock 0 (cache_store i (wr32 (cache_data i s2) pos 0) s2))
         | Some None \<Rightarrow> unlink_entry D inode1 name (bi + 1) s2))"
  by pat_completeness auto
termination
  by (relation "measure (\<lambda>(D, inode, name, bi, s). 1036 - unat bi)")
     (auto dest!: bmap_read_range[OF sym] intro: block_index_step)

declare unlink_entry.simps [simp del]

definition swiftfs2_unlink :: "'d blkdev \<Rightarrow> cstring \<Rightarrow> 'd swiftfs \<Rightarrow> (int \<times> 'd swiftfs) option" where
  "swiftfs2_unlink D path s =
     (let (parent, name) = split_path path in
      case walk_parent D parent s of
        (None, s1) \<Rightarrow> Some (-1, s1)
      | (Some parent_ino, s1) \<Rightarrow>
          (case path_walk D path s1 of
             (None, s2) \<Rightarrow> Some (-1, s2)
           | (Some target_ino, s2) \<Rightarrow>
               let (r1, target_in, s3) = inode_read D target_ino s2;
                   (r2, parent_in, s4) = inode_read D parent_ino s3
               in case unlink_entry D parent_in name 0 s4 of
                    None \<Rightarrow> None
                  | Some (False, s5) \<Rightarrow> Some (-1, s5)
                  | Some (True, s5) \<Rightarrow>
                      let (r3, inode, s6) = inode_read D target_ino s5;
                          (inode', s7) = inode_release D inode s6
                      in Some (0, inode_free D target_ino s7)))"

text \<open>
  \<open>ls\<close> gives the list of the calls of its callback: name, mode and size. Reading a child's inode can
  reuse the cache entry the loop's pointer \<open>i\<close> points to; the record length is read after that.
\<close>

lemma ls_progress:
  "pos < 4096 \<Longrightarrow> 2 * (4096 - (pos + unat (f pos :: u16))) + (if f (pos + unat (f pos)) = 0 then 0 else 1) < Suc (2 * (4096 - pos))"
  by (cases "f pos = 0") (auto simp: unat_gt_0[symmetric])

function ls_block :: "'d blkdev \<Rightarrow> nat \<Rightarrow> nat \<Rightarrow> 'd swiftfs \<Rightarrow> (cstring \<times> u16 \<times> u64) list \<times> 'd swiftfs" where
  "ls_block D i pos s =
     (let data = cache_data i s in
      if pos \<ge> 4096 then ([], s)
      else if de_inode data pos = 0 then ([], s)
      else if de_rec_len data pos = 0 then ([], s)
      else
        let name = de_name data pos (unat (de_name_len data pos)) in
        case inode_read D (de_inode data pos) s of (r, child, s1) \<Rightarrow>
        case ls_block D i (pos + unat (de_rec_len (cache_data i s1) pos)) s1 of (rest, s2) \<Rightarrow>
          ((name, in_mode child, in_size child) # rest, s2))"
  by pat_completeness auto
termination
proof (relation "measure (\<lambda>(D, i, pos, s). 2 * (4096 - pos) + (if de_rec_len (cache_data i s) pos = 0 then 0 else 1))", goal_cases)
  case (2 D i pos s)
  then show ?case using ls_progress[of pos] by auto
qed simp

declare ls_block.simps [simp del]

function ls_blocks :: "'d blkdev \<Rightarrow> swiftfs2_inode \<Rightarrow> u32 \<Rightarrow> 'd swiftfs \<Rightarrow> (cstring \<times> u16 \<times> u64) list \<times> 'd swiftfs" where
  "ls_blocks D inode bi s =
     (case bmap_read D inode bi False s of (pblock, inode1, s1) \<Rightarrow>
      if pblock = 0 then ([], s1)
      else case cache_get D pblock 0 s1 of (i, s2) \<Rightarrow>
        case ls_block D i 0 s2 of (names, s3) \<Rightarrow>
        case ls_blocks D inode1 (bi + 1) s3 of (rest, s4) \<Rightarrow> (names @ rest, s4))"
  by pat_completeness auto
termination
  by (relation "measure (\<lambda>(D, inode, bi, s). 1036 - unat bi)")
     (auto dest!: bmap_read_range[OF sym] intro: block_index_step)

declare ls_blocks.simps [simp del]

definition swiftfs2_ls :: "'d blkdev \<Rightarrow> cstring \<Rightarrow> 'd swiftfs \<Rightarrow> int \<times> (cstring \<times> u16 \<times> u64) list \<times> 'd swiftfs" where
  "swiftfs2_ls D path s =
     (if \<not> g_mounted s then (-1, [], s)
      else case path_walk D path s of
          (None, s1) \<Rightarrow> (-1, [], s1)
        | (Some ino, s1) \<Rightarrow>
            let (r, inode, s2) = inode_read D ino s1 in
            if in_mode inode AND S_IFDIR = 0 then (-1, [], s2)
            else let (names, s3) = ls_blocks D inode 0 s2 in (0, names, s3))"

section \<open>The search of unlink\<close>

lemma unlink_find_agrees:
  "dir_find data name p = Some ino \<Longrightarrow>
   \<exists>pos. unlink_find data name p = Some (Some pos) \<and> pos < 4096 \<and> de_inode data pos = ino \<and> de_match data pos name"
proof (induction data name p rule: dir_find.induct)
  case (1 data name pos)
  from "1.prems" have c: "pos < 4096" "de_inode data pos \<noteq> 0" "de_rec_len data pos \<noteq> 0"
    by (subst (asm) dir_find.simps, auto split: if_splits)+
  show ?case
  proof (cases "de_match data pos name")
    case True
    with c "1.prems" show ?thesis by (subst unlink_find.simps) (simp add: dir_find.simps[of data name pos])
  next
    case False
    with c "1.prems" have "dir_find data name (pos + unat (de_rec_len data pos)) = Some ino"
      by (simp add: dir_find.simps[of data name pos])
    with 1 c False show ?thesis by (subst unlink_find.simps) simp
  qed
qed

lemma unlink_find_stuck:
  assumes "pos < 4096" "de_inode data pos \<noteq> 0" "\<not> de_match data pos name" "de_rec_len data pos = 0"
  shows "unlink_find data name pos = None"
proof (rule ccontr)
  assume "unlink_find data name pos \<noteq> None"
  then obtain r where "unlink_find data name pos = Some r" by blast
  then have "\<not> (pos < 4096 \<and> de_inode data pos \<noteq> 0 \<and> \<not> de_match data pos name \<and> de_rec_len data pos = 0)"
  proof (rule unlink_find.raw_induct[where P = "\<lambda>data name pos r.
      \<not> (pos < 4096 \<and> de_inode data pos \<noteq> 0 \<and> \<not> de_match data pos name \<and> de_rec_len data pos = 0)", rotated])
    fix f :: "u8 list \<Rightarrow> cstring \<Rightarrow> nat \<Rightarrow> nat option option" and data name pos r
    assume IH: "\<And>data name pos r. f data name pos = Some r \<Longrightarrow>
        \<not> (pos < 4096 \<and> de_inode data pos \<noteq> 0 \<and> \<not> de_match data pos name \<and> de_rec_len data pos = 0)"
      and b: "(if pos \<ge> 4096 then Some None else if de_inode data pos = 0 then Some None
        else if de_match data pos name then Some (Some pos) else f data name (pos + unat (de_rec_len data pos))) = Some r"
    show "\<not> (pos < 4096 \<and> de_inode data pos \<noteq> 0 \<and> \<not> de_match data pos name \<and> de_rec_len data pos = 0)"
      using b IH[of data name pos r] by (auto split: if_splits)
  qed
  with assms show False by simp
qed

end
