(* ===== verification/Fifo.thy ===== *)
theory Fifo
  imports Prelude
begin

text \<open>
  The contract of a bounded byte channel, as the pipe of \<open>src/kernel/fs/vfs.c\<close> promises it: a
  push appends to the contents, a pop takes a prefix of them. The locale proves once that any
  interleaving of pushes and pops conserves the stream: nothing is lost, duplicated or reordered.
\<close>

datatype 'a fifo_op = Push "'a list" | Pop nat

text \<open>
  Running a sequence of operations on a queue; an operation that is not possible is skipped. The
  result is the final queue, all that was pushed and all that was popped.
\<close>

fun fifo_run :: "('q \<Rightarrow> 'a list \<Rightarrow> 'q) \<Rightarrow> ('q \<Rightarrow> nat \<Rightarrow> 'a list \<times> 'q) \<Rightarrow> ('q \<Rightarrow> 'a list \<Rightarrow> bool) \<Rightarrow>
    ('q \<Rightarrow> nat \<Rightarrow> bool) \<Rightarrow> 'q \<Rightarrow> 'a fifo_op list \<Rightarrow> 'q \<times> 'a list \<times> 'a list" where
  "fifo_run push pop cpush cpop q [] = (q, [], [])"
| "fifo_run push pop cpush cpop q (Push xs # os) =
     (if cpush q xs
      then let (q', w, r) = fifo_run push pop cpush cpop (push q xs) os in (q', xs @ w, r)
      else fifo_run push pop cpush cpop q os)"
| "fifo_run push pop cpush cpop q (Pop n # os) =
     (if cpop q n
      then let (xs, q1) = pop q n; (q', w, r) = fifo_run push pop cpush cpop q1 os in (q', w, xs @ r)
      else fifo_run push pop cpush cpop q os)"

locale fifo =
  fixes push :: "'q \<Rightarrow> 'a list \<Rightarrow> 'q"
    and pop :: "'q \<Rightarrow> nat \<Rightarrow> 'a list \<times> 'q"
    and can_push :: "'q \<Rightarrow> 'a list \<Rightarrow> bool"
    and can_pop :: "'q \<Rightarrow> nat \<Rightarrow> bool"
    and content :: "'q \<Rightarrow> 'a list"
    and inv :: "'q \<Rightarrow> bool"
  assumes push_content: "inv q \<Longrightarrow> can_push q xs \<Longrightarrow> content (push q xs) = content q @ xs"
    and push_inv: "inv q \<Longrightarrow> can_push q xs \<Longrightarrow> inv (push q xs)"
    and pop_data: "inv q \<Longrightarrow> can_pop q n \<Longrightarrow> fst (pop q n) = take n (content q)"
    and pop_content: "inv q \<Longrightarrow> can_pop q n \<Longrightarrow> content (snd (pop q n)) = drop n (content q)"
    and pop_inv: "inv q \<Longrightarrow> can_pop q n \<Longrightarrow> inv (snd (pop q n))"
begin

lemma run_inv: "inv q \<Longrightarrow> inv (fst (fifo_run push pop can_push can_pop q os))"
proof (induction os arbitrary: q)
  case (Cons x os)
  then show ?case by (cases x) (auto simp: push_inv pop_inv Let_def case_prod_beta)
qed simp

lemma run_stream:
  "inv q \<Longrightarrow> fifo_run push pop can_push can_pop q os = (q', written, got) \<Longrightarrow>
   content q @ written = got @ content q'"
proof (induction os arbitrary: q q' written got)
  case Nil
  then show ?case by simp
next
  case (Cons x os)
  show ?case
  proof (cases x)
    case (Push xs)
    show ?thesis
    proof (cases "can_push q xs")
      case True
      with Push Cons.prems obtain w where w: "written = xs @ w"
        "fifo_run push pop can_push can_pop (push q xs) os = (q', w, got)"
        by (auto simp: Let_def split: prod.splits)
      from Cons.IH[OF push_inv[OF Cons.prems(1) True] w(2)] w(1) Cons.prems(1) True
      show ?thesis by (simp add: push_content)
    next
      case False
      with Push Cons show ?thesis by simp
    qed
  next
    case (Pop n)
    show ?thesis
    proof (cases "can_pop q n")
      case True
      with Pop Cons.prems obtain r where r: "got = take n (content q) @ r"
        "fifo_run push pop can_push can_pop (snd (pop q n)) os = (q', written, r)"
        by (auto simp: Let_def pop_data[symmetric] split: prod.splits)
      from Cons.IH[OF pop_inv[OF Cons.prems(1) True] r(2)] r(1) Cons.prems(1) True
      show ?thesis by (metis append.assoc append_take_drop_id pop_content)
    next
      case False
      with Pop Cons show ?thesis by simp
    qed
  qed
qed

end

end
