(* ===== verification/Pipe.thy ===== *)
theory Pipe
  imports Fifo
begin

text \<open>
  Pipes, \<open>src/kernel/fs/vfs.c\<close> (\<open>struct pipe\<close>, \<open>pipe_read_op\<close>, \<open>pipe_write_op\<close> and the two close
  operations): a 4096-byte ring indexed by two free-running 32-bit counters. A call that finds the
  ring empty (full) calls \<open>sched_yield\<close> and tries again; what the other processes do to the pipe
  during the successive yields is the list \<open>ys\<close> of functions, and a call that is still waiting when
  the list is used up gives \<^const>\<open>None\<close>. System calls run with interrupts off, so a yield is the only
  point where another process can touch the pipe.
\<close>

section \<open>State\<close>

record pipe =
  pp_buf :: "u8 list"
  pp_rpos :: u32
  pp_wpos :: u32
  pp_readers :: int
  pp_writers :: int

section \<open>Operations\<close>

text \<open>The two-part \<open>memcpy\<close> out of and into the ring.\<close>

definition ring_take :: "u8 list \<Rightarrow> nat \<Rightarrow> nat \<Rightarrow> u8 list" where
  "ring_take buf off n =
     (if off + n \<le> 4096 then take n (drop off buf)
      else let first = 4096 - off in take first (drop off buf) @ take (n - first) buf)"

definition ring_store :: "u8 list \<Rightarrow> nat \<Rightarrow> u8 list \<Rightarrow> u8 list" where
  "ring_store buf off xs =
     (if off + length xs \<le> 4096 then blit buf off xs
      else let first = 4096 - off in blit (blit buf off (take first xs)) 0 (drop first xs))"

text \<open>One round of the read loop and of the write loop that moves data.\<close>

definition pipe_pop :: "pipe \<Rightarrow> u32 \<Rightarrow> u8 list \<times> pipe" where
  "pipe_pop p n = (ring_take (pp_buf p) (unat (pp_rpos p mod 4096)) (unat n),
                   p\<lparr>pp_rpos := pp_rpos p + n\<rparr>)"

definition pipe_push :: "pipe \<Rightarrow> u8 list \<Rightarrow> pipe" where
  "pipe_push p xs = p\<lparr>pp_buf := ring_store (pp_buf p) (unat (pp_wpos p mod 4096)) xs,
                      pp_wpos := pp_wpos p + of_nat (length xs)\<rparr>"

function pipe_read_loop :: "(pipe \<Rightarrow> pipe) list \<Rightarrow> pipe \<Rightarrow> u32 \<Rightarrow> u8 list \<Rightarrow> (u8 list \<times> pipe) option" where
  "pipe_read_loop ys p sz out =
     (if sz = 0 then Some (out, p)
      else let avail = pp_wpos p - pp_rpos p in
        if avail = 0 then
          (if pp_writers p = 0 then Some (out, p)
           else case ys of [] \<Rightarrow> None | y # ys' \<Rightarrow> pipe_read_loop ys' (y p) sz out)
        else
          let n = (if sz < avail then sz else avail); (xs, p') = pipe_pop p n
          in pipe_read_loop ys p' (sz - n) (out @ xs))"
  by pat_completeness auto
termination
proof (relation "measures [\<lambda>(ys, p, sz, out). length ys, \<lambda>(ys, p, sz, out). unat sz]", goal_cases)
  case (3 ys p sz out avail n z x y)
  then have "n \<noteq> 0" "n \<le> sz" by (auto split: if_splits)
  then show ?case using unat_sub_lt by simp
qed auto

definition pipe_read_op :: "(pipe \<Rightarrow> pipe) list \<Rightarrow> pipe \<Rightarrow> u32 \<Rightarrow> (int \<times> u8 list \<times> pipe) option" where
  "pipe_read_op ys p sz =
     map_option (\<lambda>(out, p'). (sint (of_nat (length out) :: u32), out, p')) (pipe_read_loop ys p sz [])"

text \<open>
  The write loop; \<open>data\<close> are the bytes at the user buffer and \<open>tot\<close> (\<open>total\<close> in the source) the bytes written so far. It
  returns \<open>total > 0 ? total : -1\<close> when the ring is full and there is no reader.
\<close>

function pipe_write_loop :: "(pipe \<Rightarrow> pipe) list \<Rightarrow> pipe \<Rightarrow> u8 list \<Rightarrow> u32 \<Rightarrow> u32 \<Rightarrow> (int \<times> pipe) option" where
  "pipe_write_loop ys p data sz tot =
     (if sz = 0 then Some (sint tot, p)
      else let space = 4096 - (pp_wpos p - pp_rpos p) in
        if space = 0 then
          (if pp_readers p = 0 then Some (if tot > 0 then sint tot else -1, p)
           else case ys of [] \<Rightarrow> None | y # ys' \<Rightarrow> pipe_write_loop ys' (y p) data sz tot)
        else
          let n = (if sz < space then sz else space)
          in pipe_write_loop ys (pipe_push p (take (unat n) data)) (drop (unat n) data) (sz - n) (tot + n))"
  by pat_completeness auto
termination
proof (relation "measures [\<lambda>(ys, p, d, sz, t). length ys, \<lambda>(ys, p, d, sz, t). unat sz]", goal_cases)
  case (3 ys p data sz tot space n)
  then have "n \<noteq> 0" "n \<le> sz" by (auto split: if_splits)
  then show ?case using unat_sub_lt by simp
qed auto

definition pipe_write_op :: "(pipe \<Rightarrow> pipe) list \<Rightarrow> pipe \<Rightarrow> u8 list \<Rightarrow> u32 \<Rightarrow> (int \<times> pipe) option" where
  "pipe_write_op ys p data sz = pipe_write_loop ys p data sz 0"

text \<open>
  Closing one end. \<^const>\<open>None\<close> for the new pipe means that its memory was returned to the kernel heap.
\<close>

definition pipe_close_op :: "pipe \<Rightarrow> int \<times> pipe option" where
  "pipe_close_op p =
     (let p' = p\<lparr>pp_readers := pp_readers p - 1\<rparr> in
      (0, if pp_readers p' = 0 \<and> pp_writers p' = 0 then None else Some p'))"

definition pipe_write_close_op :: "pipe \<Rightarrow> int \<times> pipe option" where
  "pipe_write_close_op p =
     (let p' = p\<lparr>pp_writers := pp_writers p - 1\<rparr> in
      (0, if pp_readers p' = 0 \<and> pp_writers p' = 0 then None else Some p'))"

declare pipe_read_loop.simps [simp del] pipe_write_loop.simps [simp del]

section \<open>Abstraction to a byte queue\<close>

definition pipe_inv :: "pipe \<Rightarrow> bool" where
  "pipe_inv p \<longleftrightarrow> length (pp_buf p) = 4096 \<and> unat (pp_wpos p - pp_rpos p) \<le> 4096"

definition pipe_contents :: "pipe \<Rightarrow> u8 list" where
  "pipe_contents p =
     map (\<lambda>i. pp_buf p ! ((unat (pp_rpos p) + i) mod 4096)) [0..<unat (pp_wpos p - pp_rpos p)]"

lemma length_contents [simp]: "length (pipe_contents p) = unat (pp_wpos p - pp_rpos p)"
  by (simp add: pipe_contents_def)

lemma ring_index: "x < 8192 \<Longrightarrow> x mod 4096 = (if x < 4096 then x else x - 4096 :: nat)"
  by (simp add: le_mod_geq)

lemma ring_take_nth:
  assumes "length buf = 4096" "off < 4096" "n \<le> 4096"
  shows "ring_take buf off n = map (\<lambda>j. buf ! ((off + j) mod 4096)) [0..<n]"
proof (rule nth_equalityI)
  show "length (ring_take buf off n) = length (map (\<lambda>j. buf ! ((off + j) mod 4096)) [0..<n])"
    using assms by (simp add: ring_take_def Let_def)
next
  fix i assume "i < length (ring_take buf off n)"
  with assms have i: "i < n" by (simp add: ring_take_def Let_def split: if_splits)
  have e: "i + off - 4096 = off + i - 4096" by simp
  from i assms have "off + i < 8192" by simp
  with i assms show "ring_take buf off n ! i = map (\<lambda>j. buf ! ((off + j) mod 4096)) [0..<n] ! i"
    by (auto simp: ring_take_def Let_def nth_append ring_index e)
qed

lemma length_ring_store:
  "length buf = 4096 \<Longrightarrow> off < 4096 \<Longrightarrow> length xs \<le> 4096 \<Longrightarrow> length (ring_store buf off xs) = 4096"
  by (simp add: ring_store_def Let_def)

lemma ring_store_nth:
  assumes "length buf = 4096" "off < 4096" "length xs \<le> 4096" "k < 4096"
  shows "ring_store buf off xs ! k =
    (if (k + 4096 - off) mod 4096 < length xs then xs ! ((k + 4096 - off) mod 4096) else buf ! k)"
proof -
  have "k + 4096 - off < 8192" using assms by simp
  moreover have e: "4096 - off + k = k + 4096 - off" using assms(2) by simp
  ultimately show ?thesis
    using assms by (auto simp: ring_store_def Let_def nth_blit ring_index e simp del: add_diff_assoc2)
qed

text \<open>
  The counters run freely and wrap at \<open>2^32\<close>. As 4096 divides \<open>2^32\<close>, the ring index of a position
  does not notice the wrap-around.
\<close>

lemma wpos_index:
  "unat (pp_wpos p) mod 4096 = (unat (pp_rpos p) + unat (pp_wpos p - pp_rpos p)) mod 4096"
proof -
  have "unat (pp_rpos p + (pp_wpos p - pp_rpos p)) =
      (unat (pp_rpos p) + unat (pp_wpos p - pp_rpos p)) mod 2 ^ 32"
    by (simp only: unat_word_ariths) simp
  then show ?thesis by (simp add: mod_mod_cancel)
qed

lemma unat_mod_4096: "unat (x mod 4096 :: u32) = unat x mod 4096"
  by (simp add: unat_mod)

lemma pipe_pop_contents:
  assumes "pipe_inv p" "n \<le> pp_wpos p - pp_rpos p"
  shows "fst (pipe_pop p n) = take (unat n) (pipe_contents p)"
    and "pipe_contents (snd (pipe_pop p n)) = drop (unat n) (pipe_contents p)"
    and "pipe_inv (snd (pipe_pop p n))"
proof -
  let ?r = "unat (pp_rpos p)" and ?a = "unat (pp_wpos p - pp_rpos p)"
  have n: "unat n \<le> ?a" "?a \<le> 4096" "length (pp_buf p) = 4096"
    using assms by (auto simp: pipe_inv_def word_le_nat_alt)
  show "fst (pipe_pop p n) = take (unat n) (pipe_contents p)"
    using n by (simp add: pipe_pop_def ring_take_nth unat_mod_4096 pipe_contents_def take_map mod_add_left_eq)
  have d: "pp_wpos p - (pp_rpos p + n) = pp_wpos p - pp_rpos p - n" by simp
  have len: "unat (pp_wpos p - (pp_rpos p + n)) = ?a - unat n"
    unfolding d by (rule unat_sub[OF assms(2)])
  then show "pipe_inv (snd (pipe_pop p n))" using n by (simp add: pipe_pop_def pipe_inv_def)
  have r: "unat (pp_rpos p + n) mod 4096 = (?r + unat n) mod 4096"
    by (simp add: unat_word_ariths mod_mod_cancel)
  have "(unat (pp_rpos p + n) + i) mod 4096 = (?r + (unat n + i)) mod 4096" for i
    using mod_add_cong[OF r refl, of i] by (simp only: add.assoc)
  then show "pipe_contents (snd (pipe_pop p n)) = drop (unat n) (pipe_contents p)"
    by (intro nth_equalityI) (simp_all add: pipe_pop_def pipe_contents_def len drop_map)
qed

lemma ring_distance:
  fixes r a i :: nat
  assumes "a \<le> 4096"
  shows "((r + i) mod 4096 + 4096 - (r + a) mod 4096) mod 4096 = (4096 + i - a) mod 4096"
proof -
  define u where "u = (r + a) mod 4096"
  have u: "u < 4096" "r + a = u + 4096 * ((r + a) div 4096)" by (simp_all add: u_def)
  have "((r + i) mod 4096 + 4096 - u) mod 4096 = ((r + i) mod 4096 + (4096 - u)) mod 4096"
    using u(1) by simp
  also have "\<dots> = (r + i + (4096 - u)) mod 4096" by (rule mod_add_left_eq)
  also have "r + i + (4096 - u) = (4096 + i - a) + 4096 * ((r + a) div 4096)"
    using u assms by linarith
  finally show ?thesis by (simp add: u_def)
qed

lemma pipe_push_contents:
  assumes "pipe_inv p" "unat (pp_wpos p - pp_rpos p) + length xs \<le> 4096"
  shows "pipe_contents (pipe_push p xs) = pipe_contents p @ xs" and "pipe_inv (pipe_push p xs)"
proof -
  let ?r = "unat (pp_rpos p)" and ?a = "unat (pp_wpos p - pp_rpos p)"
  have n: "length xs \<le> 4096" "length (pp_buf p) = 4096" using assms by (auto simp: pipe_inv_def)
  have d: "pp_wpos p + of_nat (length xs) - pp_rpos p = (pp_wpos p - pp_rpos p) + of_nat (length xs)" by simp
  have l: "unat (of_nat (length xs) :: u32) = length xs" using n(1) by (simp add: unat_of_nat_small)
  have len: "unat (pp_wpos p + of_nat (length xs) - pp_rpos p) = ?a + length xs"
    unfolding d using assms(2) by (subst unat_add_small) (simp_all add: l)
  have buf: "length (ring_store (pp_buf p) (unat (pp_wpos p) mod 4096) xs) = 4096"
    using n by (simp add: length_ring_store)
  show "pipe_inv (pipe_push p xs)"
    using assms(2) buf len by (simp add: pipe_inv_def pipe_push_def unat_mod_4096)
  show "pipe_contents (pipe_push p xs) = pipe_contents p @ xs"
  proof (rule nth_equalityI)
    fix i assume "i < length (pipe_contents (pipe_push p xs))"
    then have i: "i < ?a + length xs" by (simp add: pipe_push_def len)
    show "pipe_contents (pipe_push p xs) ! i = (pipe_contents p @ xs) ! i"
    proof (cases "i < ?a")
      case True
      with assms(2) have "\<not> (4096 + i - ?a) mod 4096 < length xs" by (simp add: ring_index)
      with True assms(2) n show ?thesis
        by (simp add: pipe_push_def pipe_contents_def len nth_append unat_mod_4096 ring_store_nth
            wpos_index ring_distance)
    next
      case False
      with i assms(2) have "(4096 + i - ?a) mod 4096 = i - ?a" "i - ?a < length xs"
        by (simp_all add: ring_index)
      with False i assms(2) n show ?thesis
        by (simp add: pipe_push_def pipe_contents_def len nth_append unat_mod_4096 ring_store_nth
            wpos_index ring_distance)
    qed
  qed (simp add: pipe_push_def len)
qed

interpretation pf: fifo pipe_push "\<lambda>p n. pipe_pop p (of_nat n)"
  "\<lambda>p xs. unat (pp_wpos p - pp_rpos p) + length xs \<le> 4096" "\<lambda>p n. n \<le> unat (pp_wpos p - pp_rpos p)"
  pipe_contents pipe_inv
proof (unfold_locales, goal_cases)
  case (3 q n)
  then have "unat (of_nat n :: u32) = n" by (intro unat_of_nat_small) (simp add: pipe_inv_def)
  with 3 show ?case using pipe_pop_contents(1)[of q "of_nat n"] by (simp add: word_le_nat_alt)
next
  case (4 q n)
  then have "unat (of_nat n :: u32) = n" by (intro unat_of_nat_small) (simp add: pipe_inv_def)
  with 4 show ?case using pipe_pop_contents(2)[of q "of_nat n"] by (simp add: word_le_nat_alt)
next
  case (5 q n)
  then have "unat (of_nat n :: u32) = n" by (intro unat_of_nat_small) (simp add: pipe_inv_def)
  with 5 show ?case using pipe_pop_contents(3)[of q "of_nat n"] by (simp add: word_le_nat_alt)
qed (simp_all add: pipe_push_contents)

section \<open>The read and write loops\<close>

text \<open>Bytes another process writes at a yield of a blocked reader: one list of chunks per yield.\<close>

lemma read_loop_step:
  assumes "pipe_inv p" "sz \<noteq> 0" "pp_wpos p - pp_rpos p \<noteq> 0"
  shows "\<exists>p' n. n \<noteq> 0 \<and> n \<le> sz \<and> unat n = min (unat sz) (length (pipe_contents p)) \<and> pipe_inv p' \<and>
    pipe_contents p' = drop (unat n) (pipe_contents p) \<and> pp_writers p' = pp_writers p \<and>
    pp_readers p' = pp_readers p \<and>
    pipe_read_loop ys p sz out = pipe_read_loop ys p' (sz - n) (out @ take (unat n) (pipe_contents p))"
proof -
  define n where "n = (if sz < pp_wpos p - pp_rpos p then sz else pp_wpos p - pp_rpos p)"
  have n: "n \<noteq> 0" "n \<le> sz" "n \<le> pp_wpos p - pp_rpos p" "unat n = min (unat sz) (length (pipe_contents p))"
    using assms by (auto simp: n_def word_less_nat_alt word_le_nat_alt)
  note pop = pipe_pop_contents[OF assms(1) n(3)]
  have "pipe_read_loop ys p sz out = pipe_read_loop ys (snd (pipe_pop p n)) (sz - n) (out @ fst (pipe_pop p n))"
    using assms(2,3) by (subst pipe_read_loop.simps) (simp add: n_def case_prod_beta Let_def)
  with n pop show ?thesis
    by (intro exI[of _ "snd (pipe_pop p n)"] exI[of _ n]) (simp add: pipe_pop_def)
qed

lemma read_loop_enough:
  assumes "pipe_inv p" "unat sz \<le> length (pipe_contents p)"
  shows "\<exists>p'. pipe_read_loop ys p sz out = Some (out @ take (unat sz) (pipe_contents p), p') \<and>
    pipe_inv p' \<and> pipe_contents p' = drop (unat sz) (pipe_contents p)"
proof (cases "sz = 0")
  case True
  with assms show ?thesis by (subst pipe_read_loop.simps) simp
next
  case False
  then have "unat sz \<noteq> 0" by (simp add: unat_eq_0)
  with assms(2) have ne: "pp_wpos p - pp_rpos p \<noteq> 0" by (auto simp: unat_eq_0)
  from read_loop_step[OF assms(1) False ne, of ys out] obtain p' n where
    n: "n \<le> sz" "unat n = min (unat sz) (length (pipe_contents p))" "pipe_inv p'"
      "pipe_contents p' = drop (unat n) (pipe_contents p)"
      "pipe_read_loop ys p sz out = pipe_read_loop ys p' (sz - n) (out @ take (unat n) (pipe_contents p))"
    by blast
  then have "n = sz" using assms(2) by (simp add: word_unat_eq_iff)
  with n show ?thesis by (simp add: pipe_read_loop.simps[of ys p' 0])
qed

text \<open>
  A reader that empties the ring and must wait: every yield at which another process pushes a chunk
  \<open>w\<close> that fits into the (empty) ring.
\<close>

lemma read_loop_wait:
  assumes "pipe_inv p" "sz \<noteq> 0" "pp_writers p \<noteq> 0" "length (pipe_contents p) < unat sz"
  shows "\<exists>p'. pipe_inv p' \<and> pipe_contents p' = [] \<and> pp_writers p' = pp_writers p \<and>
    unat (sz - of_nat (length (pipe_contents p))) = unat sz - length (pipe_contents p) \<and>
    pipe_read_loop (y # ys) p sz out =
      pipe_read_loop ys (y p') (sz - of_nat (length (pipe_contents p))) (out @ pipe_contents p)"
proof (cases "pp_wpos p - pp_rpos p = 0")
  case True
  then have "pipe_contents p = []" by (simp flip: length_0_conv)
  with True assms show ?thesis
    by (intro exI[of _ p]) (subst pipe_read_loop.simps[of "y # ys" p], simp)
next
  case False
  from read_loop_step[OF assms(1,2) False, of "y # ys" out] obtain p' n where
    n: "n \<noteq> 0" "n \<le> sz" "unat n = min (unat sz) (length (pipe_contents p))" "pipe_inv p'"
      "pipe_contents p' = drop (unat n) (pipe_contents p)" "pp_writers p' = pp_writers p"
      "pipe_read_loop (y # ys) p sz out =
         pipe_read_loop (y # ys) p' (sz - n) (out @ take (unat n) (pipe_contents p))"
    by blast
  have un: "unat n = length (pipe_contents p)" using n(3) assms(4) by simp
  then have nn: "n = of_nat (length (pipe_contents p))" by (simp add: word_unat_eq_iff)
  have "pipe_contents p' = []" using n(5) un by simp
  then have e: "pp_wpos p' - pp_rpos p' = 0" by (metis length_contents list.size(3) unat_eq_0)
  have s: "unat (sz - n) = unat sz - length (pipe_contents p)" using n(2) un by (simp add: unat_sub)
  then have "sz - n \<noteq> 0" using assms(4) by (auto simp: unat_eq_0[symmetric])
  with e assms(3) n(6) have "pipe_read_loop (y # ys) p' (sz - n) (out @ pipe_contents p) =
      pipe_read_loop ys (y p') (sz - n) (out @ pipe_contents p)"
    by (subst pipe_read_loop.simps) simp
  with n un nn s \<open>pipe_contents p' = []\<close> show ?thesis by (intro exI[of _ p']) simp
qed

lemma read_loop_stream:
  "pipe_inv p \<Longrightarrow> pp_writers p \<noteq> 0 \<Longrightarrow> \<forall>w\<in>set ws. length w \<le> 4096 \<Longrightarrow>
   unat sz \<le> length (pipe_contents p @ concat ws) \<Longrightarrow>
   \<exists>p'. pipe_read_loop (map (\<lambda>w q. pipe_push q w) ws) p sz out =
          Some (out @ take (unat sz) (pipe_contents p @ concat ws), p') \<and> pipe_inv p'"
proof (induction ws arbitrary: p sz out)
  case Nil
  then show ?case using read_loop_enough[of p sz "[]" out] by auto
next
  case (Cons w ws)
  let ?ys = "map (\<lambda>w q. pipe_push q w) ws"
  show ?case
  proof (cases "unat sz \<le> length (pipe_contents p)")
    case True
    with Cons.prems show ?thesis
      using read_loop_enough[OF Cons.prems(1) True, of "map (\<lambda>w q. pipe_push q w) (w # ws)" out] by auto
  next
    case False
    let ?sz = "sz - of_nat (length (pipe_contents p))"
    have "sz \<noteq> 0" using False by auto
    with False Cons.prems obtain p' where p': "pipe_inv p'" "pipe_contents p' = []"
      "pp_writers p' = pp_writers p" "unat ?sz = unat sz - length (pipe_contents p)"
      "pipe_read_loop ((\<lambda>q. pipe_push q w) # ?ys) p sz out =
         pipe_read_loop ?ys (pipe_push p' w) ?sz (out @ pipe_contents p)"
      using read_loop_wait[OF Cons.prems(1), of sz "\<lambda>q. pipe_push q w" ?ys out] by (auto simp: not_le)
    have "unat (pp_wpos p' - pp_rpos p') + length w \<le> 4096"
      using p'(2) Cons.prems(3) by (simp flip: length_contents)
    from pipe_push_contents[OF p'(1) this] p'(2)
    have q: "pipe_contents (pipe_push p' w) = w" "pipe_inv (pipe_push p' w)" by auto
    have wr: "pp_writers (pipe_push p' w) \<noteq> 0" using p'(3) Cons.prems(2) by (simp add: pipe_push_def)
    have le: "unat ?sz \<le> length (pipe_contents (pipe_push p' w) @ concat ws)"
      using p'(4) q(1) Cons.prems(4) by simp
    have "\<forall>w\<in>set ws. length w \<le> 4096" using Cons.prems(3) by simp
    from Cons.IH[OF q(2) wr this le, of "out @ pipe_contents p"] obtain p'' where
      "pipe_read_loop ?ys (pipe_push p' w) ?sz (out @ pipe_contents p) =
         Some ((out @ pipe_contents p) @ take (unat ?sz) (w @ concat ws), p'')" "pipe_inv p''"
      by (auto simp: q(1))
    with p'(4,5) False show ?thesis by simp
  qed
qed

lemma read_loop_eof:
  assumes "pipe_inv p" "pp_writers p = 0" "length (pipe_contents p) \<le> unat sz"
  shows "\<exists>p'. pipe_read_loop ys p sz out = Some (out @ pipe_contents p, p') \<and> pipe_inv p' \<and> pipe_contents p' = []"
proof (cases "sz = 0 \<or> pp_wpos p - pp_rpos p = 0")
  case True
  then have "pipe_contents p = []" using assms(3) by (auto simp flip: length_0_conv)
  with True assms show ?thesis by (subst pipe_read_loop.simps) auto
next
  case False
  then obtain p' n where n: "n \<le> sz" "unat n = min (unat sz) (length (pipe_contents p))" "pipe_inv p'"
      "pipe_contents p' = drop (unat n) (pipe_contents p)" "pp_writers p' = pp_writers p"
      "pipe_read_loop ys p sz out = pipe_read_loop ys p' (sz - n) (out @ take (unat n) (pipe_contents p))"
    using read_loop_step[OF assms(1), of sz ys out] by blast
  then have c: "pipe_contents p' = []" "take (unat n) (pipe_contents p) = pipe_contents p"
    using assms(3) by simp_all
  then have "pp_wpos p' - pp_rpos p' = 0" by (metis length_contents list.size(3) unat_eq_0)
  with n c assms(2) show ?thesis by (auto simp: pipe_read_loop.simps[of ys p'])
qed

section \<open>Properties\<close>


text \<open>
  A reader blocks exactly while it is owed bytes: with writers open and too few bytes in the pipe
  it does not return without a yield; with no writer left it returns what there is (end of file).
\<close>

theorem pipe_read_blocks_or_eof:
  assumes "pipe_inv p" "length (pipe_contents p) < unat sz"
  shows "(pp_writers p \<noteq> 0 \<longrightarrow> pipe_read_op [] p sz = None) \<and>
    (pp_writers p = 0 \<longrightarrow> (\<exists>p'. pipe_read_op ys p sz =
       Some (int (length (pipe_contents p)), pipe_contents p, p') \<and> pipe_contents p' = []))"
proof (intro conjI impI)
  assume w: "pp_writers p \<noteq> 0"
  show "pipe_read_op [] p sz = None"
  proof (cases "pp_wpos p - pp_rpos p = 0")
    case True
    with w assms(2) show ?thesis
      by (simp add: pipe_read_op_def pipe_read_loop.simps[of "[]" p]) (auto simp: unat_gt_0)
  next
    case False
    have "sz \<noteq> 0" using assms(2) by auto
    from read_loop_step[OF assms(1) this False, of "[]" "[]"] obtain p' n where
      n: "n \<le> sz" "unat n = length (pipe_contents p)" "pipe_contents p' = []" "pp_writers p' = pp_writers p"
        "pipe_read_loop [] p sz [] = pipe_read_loop [] p' (sz - n) (pipe_contents p)"
      using assms(2) by (auto simp: min_def not_le)
    from n(3) have "pp_wpos p' - pp_rpos p' = 0" by (metis length_contents list.size(3) unat_eq_0)
    moreover have "sz - n \<noteq> 0" using assms(2) n(1,2) by (auto simp: unat_sub simp flip: unat_eq_0)
    ultimately have "pipe_read_loop [] p' (sz - n) (pipe_contents p) = None"
      using w n(4) by (subst pipe_read_loop.simps) simp
    then show ?thesis using n(5) by (simp add: pipe_read_op_def)
  qed
next
  assume "pp_writers p = 0"
  from read_loop_eof[OF assms(1) this, of sz ys "[]"] assms(2) obtain p' where
    p': "pipe_read_loop ys p sz [] = Some (pipe_contents p, p')" "pipe_contents p' = []" by auto
  have "unat (pp_wpos p - pp_rpos p) \<le> 4096" using assms(1) by (simp add: pipe_inv_def)
  then have "sint (of_nat (length (pipe_contents p)) :: u32) = int (length (pipe_contents p))"
    using sint_small[of "pp_wpos p - pp_rpos p"] by simp
  with p' show "\<exists>p'. pipe_read_op ys p sz =
      Some (int (length (pipe_contents p)), pipe_contents p, p') \<and> pipe_contents p' = []"
    by (simp only: pipe_read_op_def option.map prod.case) blast
qed

text \<open>
  A write that fits returns its size at once and appends exactly its bytes; a write that does not
  fit while no reader is left fills the ring with a prefix of its bytes and reports that short count,
  or -1 if the ring was already full. It never blocks in either case.
\<close>

theorem pipe_write_correct:
  assumes "pipe_inv p" "unat sz \<le> length data" "unat sz < 2 ^ 31"
    and "length (pipe_contents p) + unat sz \<le> 4096 \<or> pp_readers p = 0"
  shows "\<exists>k p'. pipe_inv p' \<and> k = min (unat sz) (4096 - length (pipe_contents p)) \<and>
    pipe_contents p' = pipe_contents p @ take k data \<and>
    pipe_write_op ys p data sz = Some (if k = 0 \<and> sz \<noteq> 0 then -1 else int k, p')"
proof -
  let ?a = "unat (pp_wpos p - pp_rpos p)"
  define space where "space = 4096 - (pp_wpos p - pp_rpos p)"
  have a: "?a \<le> 4096" using assms(1) by (simp add: pipe_inv_def)
  then have sp: "unat space = 4096 - ?a"
    by (simp add: space_def unat_sub word_le_nat_alt)
  define n where "n = (if sz < space then sz else space)"
  have n: "unat n = min (unat sz) (4096 - ?a)" "n \<le> sz"
    using sp by (auto simp: n_def word_less_nat_alt word_le_nat_alt)
  have w: "pipe_inv (pipe_push p (take (unat n) data))"
    "pipe_contents (pipe_push p (take (unat n) data)) = pipe_contents p @ take (unat n) data"
    using pipe_push_contents[OF assms(1), of "take (unat n) data"] n a by auto
  show ?thesis
  proof (cases "sz = 0 \<or> space = 0")
    case True
    then have "n = 0" "unat n = 0" using n by (auto simp: n_def)
    with True n assms(1,4) sp show ?thesis
      by (intro exI[of _ "unat n"] exI[of _ p])
         (auto simp: pipe_write_op_def pipe_write_loop.simps[of ys p data sz] space_def[symmetric] unat_eq_0)
  next
    case False
    have st: "pipe_write_op ys p data sz =
        pipe_write_loop ys (pipe_push p (take (unat n) data)) (drop (unat n) data) (sz - n) n"
      using False by (simp add: pipe_write_op_def pipe_write_loop.simps[of ys p data sz] space_def n_def Let_def)
    have pos: "0 < n" using False by (auto simp: n_def word_gt_0)
    have sn: "sint n = int (unat n)" using assms(3) n(1) by (intro sint_small) simp
    have "pipe_write_loop ys (pipe_push p (take (unat n) data)) (drop (unat n) data) (sz - n) n =
        Some (sint n, pipe_push p (take (unat n) data))"
    proof (cases "sz - n = 0")
      case True
      then show ?thesis by (subst pipe_write_loop.simps) simp
    next
      case f: False
      then have "n = space" "sz \<noteq> n" by (auto simp: n_def)
      then have "n = space" "unat sz \<noteq> unat n" by (simp_all add: word_unat_eq_iff)
      then have "?a + unat n = 4096" "pp_readers p = 0" using n sp a assms(4) by auto
      then have "unat (pp_wpos (pipe_push p (take (unat n) data)) - pp_rpos (pipe_push p (take (unat n) data))) = 4096"
        using arg_cong[OF w(2), of length] n(1) assms(2) by simp
      then have "pp_wpos (pipe_push p (take (unat n) data)) - pp_rpos (pipe_push p (take (unat n) data)) = 4096"
        by (simp add: word_unat_eq_iff)
      with f pos \<open>pp_readers p = 0\<close> show ?thesis
        by (subst pipe_write_loop.simps) (simp add: pipe_push_def)
    qed
    moreover have "unat n \<noteq> 0" using pos by (simp add: word_less_nat_alt)
    ultimately show ?thesis using st sn w n(1)
      by (intro exI[of _ "unat n"] exI[of _ "pipe_push p (take (unat n) data)"]) simp
  qed
qed


section \<open>Concrete instances\<close>

text \<open>A pipe whose counters are about to wrap, holding the two bytes 10 and 20.\<close>

definition pipe_example :: pipe where
  "pipe_example = \<lparr>pp_buf = blit (replicate 4096 0) 4094 [10, 20], pp_rpos = 0xFFFFFFFE, pp_wpos = 0,
                   pp_readers = 1, pp_writers = 1\<rparr>"

lemma pipe_example_inv: "pipe_inv pipe_example"
  by (simp add: pipe_inv_def pipe_example_def)

lemma pipe_example_contents: "pipe_contents pipe_example = [10, 20]"
proof -
  have "[0..<2] = [0, 1::nat]" by (simp add: upt_rec[of 0] upt_rec[of 1] numeral_2_eq_2)
  then show ?thesis by (simp add: pipe_contents_def pipe_example_def nth_blit)
qed


theorem pipe_read_blocks_or_eof_witness:
  "pipe_read_op [] pipe_example 3 = None \<and>
   (\<exists>p'. pipe_read_op [] (pipe_example\<lparr>pp_writers := 0\<rparr>) 3 = Some (2, [10, 20], p'))"
proof -
  have c: "pipe_contents (pipe_example\<lparr>pp_writers := 0\<rparr>) = [10, 20]" "pipe_inv (pipe_example\<lparr>pp_writers := 0\<rparr>)"
    using pipe_example_contents pipe_example_inv by (simp_all add: pipe_contents_def pipe_inv_def)
  show ?thesis
    using pipe_read_blocks_or_eof[OF pipe_example_inv, of 3] pipe_read_blocks_or_eof[OF c(2), of 3 "[]"] c(1)
    by (auto simp: pipe_example_contents pipe_example_def[THEN arg_cong, of pp_writers])
qed

theorem pipe_write_correct_witness:
  "\<exists>p'. pipe_write_op [] pipe_example [30, 40, 50] 2 = Some (2, p') \<and> pipe_contents p' = [10, 20, 30, 40]"
  using pipe_write_correct[OF pipe_example_inv, of 2 "[30, 40, 50]" "[]"] by (auto simp: pipe_example_contents)


end
