(* ===== verification/Vfs.thy ===== *)
theory Vfs
  imports Pipe Kheap
begin

text \<open>
  The virtual file system layer, \<open>src/kernel/fs/vfs.c\<close> and \<open>vfs.h\<close>: the table of open files of the
  running process (\<open>g_fds\<close>), the registered filesystems (\<open>fs_list\<close>) and the operations that dispatch
  through a \<open>struct vfs_ops\<close> of function pointers. A null function pointer is \<^const>\<open>None\<close>. What the operations
  of the table act on is a \<open>world\<close>: the kernel heap, the pipes that live in it by address, the two
  directions of the serial line and the state of the filesystem, whose type is left open.

  Calls give an \<open>outcome\<close>: \<open>Returns\<close> a result, \<open>Blocks\<close> for a call still waiting when the schedule of
  yields is used up, and \<open>Undef\<close> for a call through a null function pointer or an access to a freed pipe.
\<close>

section \<open>State\<close>

datatype 'a outcome = Returns 'a | Blocks | Undef

record stat =
  st_mode :: u16
  st_size :: u64

record 'fs world =
  w_heap :: kheap
  w_pipes :: "u64 \<Rightarrow> pipe option"
  w_sin :: "u8 list"
  w_sout :: "u8 list"
  w_fs :: 'fs

text \<open>
  A table of operations. \<open>read\<close> gives the return value, the bytes stored into the caller's buffer, the
  new position and the new world; \<open>fstat\<close> gives the structure it stores, if it stores one.
\<close>

record 'fs vfs_ops =
  o_name :: string
  o_open :: "(cstring \<Rightarrow> int \<Rightarrow> 'fs world \<Rightarrow> int \<times> u64 \<times> 'fs world) option"
  o_read :: "((pipe \<Rightarrow> pipe) list \<Rightarrow> u64 \<Rightarrow> u32 \<Rightarrow> u64 \<Rightarrow> 'fs world \<Rightarrow> (int \<times> u8 list \<times> u64 \<times> 'fs world) outcome) option"
  o_write :: "((pipe \<Rightarrow> pipe) list \<Rightarrow> u64 \<Rightarrow> u8 list \<Rightarrow> u32 \<Rightarrow> u64 \<Rightarrow> 'fs world \<Rightarrow> (int \<times> u64 \<times> 'fs world) outcome) option"
  o_close :: "(u64 \<Rightarrow> 'fs world \<Rightarrow> (int \<times> 'fs world) outcome) option"
  o_fstat :: "(u64 \<Rightarrow> 'fs world \<Rightarrow> int \<times> stat option \<times> 'fs world) option"

record 'fs vfile =
  f_ops :: "'fs vfs_ops option"
  f_priv :: u64
  f_pos :: u64
  f_flags :: int
  f_refcount :: int

record 'fs vfs =
  g_fds :: "'fs vfile list"
  fs_list :: "'fs vfs_ops list"
  v_world :: "'fs world"

definition VFS_MAX_FILES :: nat where "VFS_MAX_FILES = 64"

lemmas vfs_consts = VFS_MAX_FILES_def

section \<open>Serial operations\<close>

definition ser_open :: "cstring \<Rightarrow> int \<Rightarrow> 'fs world \<Rightarrow> int \<times> u64 \<times> 'fs world" where
  "ser_open path flags w = (0, 0, w)"

definition ser_read :: "(pipe \<Rightarrow> pipe) list \<Rightarrow> u64 \<Rightarrow> u32 \<Rightarrow> u64 \<Rightarrow> 'fs world \<Rightarrow> (int \<times> u8 list \<times> u64 \<times> 'fs world) outcome" where
  "ser_read ys priv sz pos w =
     (if length (w_sin w) < unat sz then Blocks
      else Returns (sint sz, take (unat sz) (w_sin w), pos, w\<lparr>w_sin := drop (unat sz) (w_sin w)\<rparr>))"

definition ser_write :: "(pipe \<Rightarrow> pipe) list \<Rightarrow> u64 \<Rightarrow> u8 list \<Rightarrow> u32 \<Rightarrow> u64 \<Rightarrow> 'fs world \<Rightarrow> (int \<times> u64 \<times> 'fs world) outcome" where
  "ser_write ys priv buf sz pos w =
     Returns (sint sz, pos, w\<lparr>w_sout := w_sout w @ take (unat sz) buf\<rparr>)"

definition ser_close :: "u64 \<Rightarrow> 'fs world \<Rightarrow> (int \<times> 'fs world) outcome" where
  "ser_close priv w = Returns (0, w)"

definition ser_fstat :: "u64 \<Rightarrow> 'fs world \<Rightarrow> int \<times> stat option \<times> 'fs world" where
  "ser_fstat priv w = (-1, None, w)"

definition serial_ops :: "'fs vfs_ops" where
  "serial_ops = \<lparr>o_name = ''serial'', o_open = Some ser_open, o_read = Some ser_read,
                 o_write = Some ser_write, o_close = Some ser_close, o_fstat = Some ser_fstat\<rparr>"

section \<open>Pipe operations\<close>

definition pipe_read_vop :: "(pipe \<Rightarrow> pipe) list \<Rightarrow> u64 \<Rightarrow> u32 \<Rightarrow> u64 \<Rightarrow> 'fs world \<Rightarrow> (int \<times> u8 list \<times> u64 \<times> 'fs world) outcome" where
  "pipe_read_vop ys priv sz pos w =
     (case w_pipes w priv of None \<Rightarrow> Undef
      | Some p \<Rightarrow> (case pipe_read_op ys p sz of None \<Rightarrow> Blocks
          | Some (r, out, p') \<Rightarrow> Returns (r, out, pos, w\<lparr>w_pipes := (w_pipes w)(priv \<mapsto> p')\<rparr>)))"

definition pipe_write_vop :: "(pipe \<Rightarrow> pipe) list \<Rightarrow> u64 \<Rightarrow> u8 list \<Rightarrow> u32 \<Rightarrow> u64 \<Rightarrow> 'fs world \<Rightarrow> (int \<times> u64 \<times> 'fs world) outcome" where
  "pipe_write_vop ys priv buf sz pos w =
     (case w_pipes w priv of None \<Rightarrow> Undef
      | Some p \<Rightarrow> (case pipe_write_op ys p buf sz of None \<Rightarrow> Blocks
          | Some (r, p') \<Rightarrow> Returns (r, pos, w\<lparr>w_pipes := (w_pipes w)(priv \<mapsto> p')\<rparr>)))"

text \<open>Storing what a close operation leaves of the pipe; \<^const>\<open>None\<close> is its \<open>kfree\<close>.\<close>

definition pipe_put :: "u64 \<Rightarrow> pipe option \<Rightarrow> 'fs world \<Rightarrow> 'fs world" where
  "pipe_put priv q w =
     (case q of Some p \<Rightarrow> w\<lparr>w_pipes := (w_pipes w)(priv \<mapsto> p)\<rparr>
      | None \<Rightarrow> w\<lparr>w_pipes := (w_pipes w)(priv := None), w_heap := kfree priv (w_heap w)\<rparr>)"

definition pipe_close_vop :: "(pipe \<Rightarrow> int \<times> pipe option) \<Rightarrow> u64 \<Rightarrow> 'fs world \<Rightarrow> (int \<times> 'fs world) outcome" where
  "pipe_close_vop cl priv w =
     (case w_pipes w priv of None \<Rightarrow> Undef
      | Some p \<Rightarrow> let (r, q) = cl p in Returns (r, pipe_put priv q w))"

definition pipe_read_ops :: "'fs vfs_ops" where
  "pipe_read_ops = \<lparr>o_name = ''pipe_r'', o_open = None, o_read = Some pipe_read_vop, o_write = None,
                    o_close = Some (pipe_close_vop pipe_close_op), o_fstat = None\<rparr>"

definition pipe_write_ops :: "'fs vfs_ops" where
  "pipe_write_ops = \<lparr>o_name = ''pipe_w'', o_open = None, o_read = None, o_write = Some pipe_write_vop,
                     o_close = Some (pipe_close_vop pipe_write_close_op), o_fstat = None\<rparr>"

section \<open>The file table\<close>

definition vfs_init :: "'fs vfile list \<Rightarrow> 'fs vfile list" where
  "vfs_init fds =
     (let fds1 = map (\<lambda>f. f\<lparr>f_refcount := 0\<rparr>) fds;
          fds2 = fds1[0 := (fds1 ! 0)\<lparr>f_ops := Some serial_ops, f_refcount := 1\<rparr>]
      in fds2[1 := (fds2 ! 1)\<lparr>f_ops := Some serial_ops, f_refcount := 1\<rparr>])"

definition vfs_set_fds :: "'fs vfile list \<Rightarrow> 'fs vfs \<Rightarrow> 'fs vfs" where
  "vfs_set_fds fds v = v\<lparr>g_fds := fds\<rparr>"

definition vfs_register :: "'fs vfs_ops \<Rightarrow> 'fs vfs \<Rightarrow> int \<times> 'fs vfs" where
  "vfs_register ops v =
     (if length (fs_list v) \<ge> 8 then (-1, v) else (0, v\<lparr>fs_list := fs_list v @ [ops]\<rparr>))"

definition fd_alloc :: "'fs vfile list \<Rightarrow> int" where
  "fd_alloc fds =
     (case find (\<lambda>i. f_refcount (fds ! i) = 0) [2..<VFS_MAX_FILES] of Some i \<Rightarrow> int i | None \<Rightarrow> -1)"

text \<open>The guard every operation on a descriptor starts with.\<close>

definition fd_bad :: "int \<Rightarrow> 'fs vfile list \<Rightarrow> bool" where
  "fd_bad fd fds \<longleftrightarrow> fd < 0 \<or> fd \<ge> int VFS_MAX_FILES \<or> f_refcount (fds ! nat fd) = 0"

definition fd_set :: "int \<Rightarrow> 'fs vfile \<Rightarrow> 'fs vfs \<Rightarrow> 'fs vfs" where
  "fd_set fd f v = v\<lparr>g_fds := (g_fds v)[nat fd := f]\<rparr>"

abbreviation fd_get :: "int \<Rightarrow> 'fs vfs \<Rightarrow> 'fs vfile" where "fd_get fd v \<equiv> g_fds v ! nat fd"

definition fd_close_priv :: "'fs vfs_ops \<Rightarrow> u64 \<Rightarrow> 'fs vfs \<Rightarrow> (int \<times> 'fs vfs) outcome" where
  "fd_close_priv ops priv v =
     (case o_close ops of None \<Rightarrow> Undef
      | Some cl \<Rightarrow> (case cl priv (v_world v) of Returns (r, w) \<Rightarrow> Returns (r, v\<lparr>v_world := w\<rparr>)
          | Blocks \<Rightarrow> Blocks | Undef \<Rightarrow> Undef))"

text \<open>The loop of \<open>vfs_open\<close> over the registered filesystems.\<close>

primrec vfs_open_in :: "'fs vfs_ops list \<Rightarrow> cstring \<Rightarrow> int \<Rightarrow> 'fs vfs \<Rightarrow> (int \<times> 'fs vfs) outcome" where
  "vfs_open_in [] path flags v = Returns (-1, v)"
| "vfs_open_in (ops # rest) path flags v =
     (case o_open ops of None \<Rightarrow> Undef
      | Some op \<Rightarrow>
          let (ret, priv, w) = op path flags (v_world v); v1 = v\<lparr>v_world := w\<rparr> in
          if ret = 0 then
            let fd = fd_alloc (g_fds v1) in
            if fd < 0 then
              (case fd_close_priv ops priv v1 of Returns (r, v2) \<Rightarrow> Returns (-1, v2)
               | Blocks \<Rightarrow> Blocks | Undef \<Rightarrow> Undef)
            else Returns (fd, fd_set fd \<lparr>f_ops = Some ops, f_priv = priv, f_pos = 0, f_flags = flags, f_refcount = 1\<rparr> v1)
          else vfs_open_in rest path flags v1)"

definition vfs_open :: "cstring \<Rightarrow> int \<Rightarrow> 'fs vfs \<Rightarrow> (int \<times> 'fs vfs) outcome" where
  "vfs_open path flags v = vfs_open_in (fs_list v) path flags v"

definition vfs_read :: "(pipe \<Rightarrow> pipe) list \<Rightarrow> int \<Rightarrow> u32 \<Rightarrow> 'fs vfs \<Rightarrow> (int \<times> u8 list \<times> 'fs vfs) outcome" where
  "vfs_read ys fd sz v =
     (if fd_bad fd (g_fds v) then Returns (-1, [], v)
      else case Option.bind (f_ops (fd_get fd v)) o_read of None \<Rightarrow> Undef
        | Some rd \<Rightarrow> (case rd ys (f_priv (fd_get fd v)) sz (f_pos (fd_get fd v)) (v_world v) of
            Returns (r, out, pos, w) \<Rightarrow> Returns (r, out, (fd_set fd ((fd_get fd v)\<lparr>f_pos := pos\<rparr>) v)\<lparr>v_world := w\<rparr>)
          | Blocks \<Rightarrow> Blocks | Undef \<Rightarrow> Undef))"

definition vfs_write :: "(pipe \<Rightarrow> pipe) list \<Rightarrow> int \<Rightarrow> u8 list \<Rightarrow> u32 \<Rightarrow> 'fs vfs \<Rightarrow> (int \<times> 'fs vfs) outcome" where
  "vfs_write ys fd buf sz v =
     (if fd_bad fd (g_fds v) then Returns (-1, v)
      else case Option.bind (f_ops (fd_get fd v)) o_write of None \<Rightarrow> Undef
        | Some wr \<Rightarrow> (case wr ys (f_priv (fd_get fd v)) buf sz (f_pos (fd_get fd v)) (v_world v) of
            Returns (r, pos, w) \<Rightarrow> Returns (r, (fd_set fd ((fd_get fd v)\<lparr>f_pos := pos\<rparr>) v)\<lparr>v_world := w\<rparr>)
          | Blocks \<Rightarrow> Blocks | Undef \<Rightarrow> Undef))"

definition vfs_close :: "int \<Rightarrow> 'fs vfs \<Rightarrow> (int \<times> 'fs vfs) outcome" where
  "vfs_close fd v =
     (if fd_bad fd (g_fds v) then Returns (-1, v)
      else
        let f = (fd_get fd v)\<lparr>f_refcount := f_refcount (fd_get fd v) - 1\<rparr>; v1 = fd_set fd f v;
            clear = fd_set fd \<lparr>f_ops = None, f_priv = 0, f_pos = 0, f_flags = 0, f_refcount = 0\<rparr>
        in if f_refcount f > 0 then Returns (0, v1)
           else case f_ops f of None \<Rightarrow> Undef
             | Some ops \<Rightarrow>
                 if Option.is_none (o_close ops) then Returns (0, clear v1)
                 else (case fd_close_priv ops (f_priv f) v1 of Returns (r, v2) \<Rightarrow> Returns (r, clear v2)
                   | Blocks \<Rightarrow> Blocks | Undef \<Rightarrow> Undef))"

definition vfs_fstat :: "int \<Rightarrow> 'fs vfs \<Rightarrow> (int \<times> stat option \<times> 'fs vfs) outcome" where
  "vfs_fstat fd v =
     (if fd_bad fd (g_fds v) then Returns (-1, None, v)
      else case Option.bind (f_ops (fd_get fd v)) o_fstat of None \<Rightarrow> Undef
        | Some st \<Rightarrow> (let (r, buf, w) = st (f_priv (fd_get fd v)) (v_world v) in Returns (r, buf, v\<lparr>v_world := w\<rparr>)))"

text \<open>\<open>SEEK_SET\<close> is 0 and \<open>SEEK_CUR\<close> 1; the result is the new position cut to a C \<open>int\<close>.\<close>

definition vfs_lseek :: "int \<Rightarrow> u64 \<Rightarrow> int \<Rightarrow> 'fs vfs \<Rightarrow> int \<times> 'fs vfs" where
  "vfs_lseek fd offset whence v =
     (if fd_bad fd (g_fds v) then (-1, v)
      else if whence = 0 \<or> whence = 1 then
        let pos = (if whence = 0 then offset else f_pos (fd_get fd v) + offset)
        in (sint (ucast pos :: u32), fd_set fd ((fd_get fd v)\<lparr>f_pos := pos\<rparr>) v)
      else (-1, v))"

definition vfs_get_file :: "int \<Rightarrow> 'fs vfs \<Rightarrow> int \<times> 'fs vfile option" where
  "vfs_get_file fd v = (if fd_bad fd (g_fds v) then (-1, None) else (0, Some (fd_get fd v)))"

text \<open>
  \<open>vfs_pipe\<close>; \<open>garbage\<close> is what the ring's 4096 bytes hold in the fresh heap block of
  \<open>sizeof(struct pipe)\<close> = 4112 bytes. The result is the return value and the two descriptors stored.
\<close>

definition pipe_file :: "'fs vfs_ops \<Rightarrow> u64 \<Rightarrow> 'fs vfile" where
  "pipe_file ops p = \<lparr>f_ops = Some ops, f_priv = p, f_pos = 0, f_flags = 0, f_refcount = 1\<rparr>"

definition vfs_pipe :: "u8 list \<Rightarrow> 'fs vfs \<Rightarrow> int \<times> (int \<times> int) option \<times> 'fs vfs" where
  "vfs_pipe garbage v =
     (let (p, h) = kmalloc 4112 (w_heap (v_world v)); v0 = v\<lparr>v_world := (v_world v)\<lparr>w_heap := h\<rparr>\<rparr> in
      if p = 0 then (-1, None, v0)
      else
        let fresh = \<lparr>pp_buf = garbage, pp_rpos = 0, pp_wpos = 0, pp_readers = 1, pp_writers = 1\<rparr>;
            v1 = v0\<lparr>v_world := (v_world v0)\<lparr>w_pipes := (w_pipes (v_world v0))(p \<mapsto> fresh)\<rparr>\<rparr>;
            rfd = fd_alloc (g_fds v1)
        in if rfd < 0 then (-1, None, v1\<lparr>v_world := pipe_put p None (v_world v1)\<rparr>)
        else
          let wfd = fd_alloc (g_fds v1)
          in if wfd < 0 then
               (-1, None, (fd_set rfd ((fd_get rfd v1)\<lparr>f_refcount := 0\<rparr>) v1)\<lparr>v_world := pipe_put p None (v_world v1)\<rparr>)
          else (0, Some (rfd, wfd), fd_set wfd (pipe_file pipe_write_ops p) (fd_set rfd (pipe_file pipe_read_ops p) v1)))"

text \<open>The structure copy and the two counters of \<open>vfs_dup\<close> and \<open>vfs_dup2\<close>.\<close>

definition fd_share :: "int \<Rightarrow> int \<Rightarrow> 'fs vfs \<Rightarrow> 'fs vfs" where
  "fd_share oldfd newfd v =
     (let v1 = fd_set newfd ((fd_get oldfd v)\<lparr>f_refcount := 1\<rparr>) v
      in fd_set oldfd ((fd_get oldfd v1)\<lparr>f_refcount := f_refcount (fd_get oldfd v1) + 1\<rparr>) v1)"

definition vfs_dup :: "int \<Rightarrow> 'fs vfs \<Rightarrow> int \<times> 'fs vfs" where
  "vfs_dup oldfd v =
     (if fd_bad oldfd (g_fds v) then (-1, v)
      else let newfd = fd_alloc (g_fds v) in
        if newfd < 0 then (-1, v) else (newfd, fd_share oldfd newfd v))"

definition vfs_dup2 :: "int \<Rightarrow> int \<Rightarrow> 'fs vfs \<Rightarrow> (int \<times> 'fs vfs) outcome" where
  "vfs_dup2 oldfd newfd v =
     (if fd_bad oldfd (g_fds v) then Returns (-1, v)
      else if newfd < 0 \<or> newfd \<ge> int VFS_MAX_FILES then Returns (-1, v)
      else if newfd = oldfd then Returns (newfd, v)
      else if f_refcount (fd_get newfd v) > 0 then
        (case vfs_close newfd v of Returns (r, v1) \<Rightarrow> Returns (newfd, fd_share oldfd newfd v1)
         | Blocks \<Rightarrow> Blocks | Undef \<Rightarrow> Undef)
      else Returns (newfd, fd_share oldfd newfd v))"

section \<open>Sequences of calls\<close>

datatype vfs_call =
    C_open cstring int
  | C_read "(pipe \<Rightarrow> pipe) list" int u32
  | C_write "(pipe \<Rightarrow> pipe) list" int "u8 list" u32
  | C_close int
  | C_fstat int
  | C_lseek int u64 int
  | C_pipe "u8 list"
  | C_dup int
  | C_dup2 int int

primrec vfs_step :: "vfs_call \<Rightarrow> 'fs vfs \<Rightarrow> 'fs vfs option" where
  "vfs_step (C_open path flags) v = (case vfs_open path flags v of Returns (r, v') \<Rightarrow> Some v' | _ \<Rightarrow> None)"
| "vfs_step (C_read ys fd sz) v = (case vfs_read ys fd sz v of Returns (r, out, v') \<Rightarrow> Some v' | _ \<Rightarrow> None)"
| "vfs_step (C_write ys fd buf sz) v = (case vfs_write ys fd buf sz v of Returns (r, v') \<Rightarrow> Some v' | _ \<Rightarrow> None)"
| "vfs_step (C_close fd) v = (case vfs_close fd v of Returns (r, v') \<Rightarrow> Some v' | _ \<Rightarrow> None)"
| "vfs_step (C_fstat fd) v = (case vfs_fstat fd v of Returns (r, buf, v') \<Rightarrow> Some v' | _ \<Rightarrow> None)"
| "vfs_step (C_lseek fd off whence) v = Some (snd (vfs_lseek fd off whence v))"
| "vfs_step (C_pipe garbage) v = Some (snd (snd (vfs_pipe garbage v)))"
| "vfs_step (C_dup fd) v = Some (snd (vfs_dup fd v))"
| "vfs_step (C_dup2 fd fd') v = (case vfs_dup2 fd fd' v of Returns (r, v') \<Rightarrow> Some v' | _ \<Rightarrow> None)"

text \<open>The states the calls of a process can reach; a call that blocks for ever or is undefined ends the run.\<close>

inductive vfs_reach :: "'fs vfs \<Rightarrow> 'fs vfs \<Rightarrow> bool" for v where
  reach_refl: "vfs_reach v v"
| reach_step: "vfs_reach v v1 \<Longrightarrow> vfs_step c v1 = Some v2 \<Longrightarrow> vfs_reach v v2"

section \<open>The invariant of the table\<close>

definition file_ok :: "'fs vfile \<Rightarrow> bool" where
  "file_ok f \<longleftrightarrow> 0 \<le> f_refcount f \<and> (f_refcount f \<noteq> 0 \<longrightarrow> f_ops f \<noteq> None)"

definition vfs_inv :: "'fs vfs \<Rightarrow> bool" where
  "vfs_inv v \<longleftrightarrow> length (g_fds v) = VFS_MAX_FILES \<and> (\<forall>f\<in>set (g_fds v). file_ok f)"

lemma fd_set_simps [simp]:
  "g_fds (fd_set fd f v) = (g_fds v)[nat fd := f]"
  "fs_list (fd_set fd f v) = fs_list v"
  "v_world (fd_set fd f v) = v_world v"
  by (simp_all add: fd_set_def)

lemma fd_get_ok: "vfs_inv v \<Longrightarrow> 0 \<le> fd \<Longrightarrow> fd < int VFS_MAX_FILES \<Longrightarrow> file_ok (fd_get fd v)"
  by (auto simp: vfs_inv_def)

lemma fd_set_inv [inv_intros]: "vfs_inv v \<Longrightarrow> file_ok f \<Longrightarrow> vfs_inv (fd_set fd f v)"
  by (auto simp: vfs_inv_def dest!: set_update_subset_insert[THEN subsetD])

lemma world_inv [simp]: "vfs_inv (v\<lparr>v_world := w\<rparr>) = vfs_inv v"
  by (simp add: vfs_inv_def)

lemma fd_bad_ops: "vfs_inv v \<Longrightarrow> \<not> fd_bad fd (g_fds v) \<Longrightarrow> f_refcount (fd_get fd v) > 0 \<and> f_ops (fd_get fd v) \<noteq> None"
  using fd_get_ok[of v fd] by (auto simp: fd_bad_def file_ok_def)

lemma fd_alloc_Some:
  assumes "0 \<le> fd_alloc fds"
  shows "2 \<le> fd_alloc fds" "fd_alloc fds < int VFS_MAX_FILES" "f_refcount (fds ! nat (fd_alloc fds)) = 0"
    "2 \<le> i \<Longrightarrow> int i < fd_alloc fds \<Longrightarrow> f_refcount (fds ! i) \<noteq> 0"
proof -
  from assms obtain k where k: "find (\<lambda>i. f_refcount (fds ! i) = 0) [2..<VFS_MAX_FILES] = Some k" "fd_alloc fds = int k"
    by (auto simp: fd_alloc_def split: option.splits)
  note k' = k(1)[unfolded find_upt_Some]
  from k' k(2) show "2 \<le> fd_alloc fds" "fd_alloc fds < int VFS_MAX_FILES"
      "f_refcount (fds ! nat (fd_alloc fds)) = 0" by simp_all
  show "f_refcount (fds ! i) \<noteq> 0" if "2 \<le> i" "int i < fd_alloc fds" using k' k(2) that by simp
qed

lemma fd_alloc_full: "fd_alloc fds < 0 \<longleftrightarrow> (\<forall>i. 2 \<le> i \<and> i < VFS_MAX_FILES \<longrightarrow> f_refcount (fds ! i) \<noteq> 0)"
proof (cases "find (\<lambda>i. f_refcount (fds ! i) = 0) [2..<VFS_MAX_FILES]")
  case None
  then show ?thesis by (simp add: fd_alloc_def) (simp add: find_upt_None)
next
  case (Some k)
  then have "fd_alloc fds = int k" by (simp add: fd_alloc_def)
  with Some[unfolded find_upt_Some] show ?thesis by auto
qed

lemma fd_alloc_good:
  "0 \<le> fd_alloc fds \<Longrightarrow> length fds = VFS_MAX_FILES \<Longrightarrow> nat (fd_alloc fds) < length fds"
  using fd_alloc_Some(2) by force

subsection \<open>Every operation keeps it\<close>

lemma fd_close_priv_frame:
  "fd_close_priv ops priv v = Returns (r, v') \<Longrightarrow> g_fds v' = g_fds v \<and> fs_list v' = fs_list v"
  by (auto simp: fd_close_priv_def split: option.splits outcome.splits)

lemma vfs_inv_cong: "g_fds v' = g_fds v \<Longrightarrow> vfs_inv v' = vfs_inv v"
  by (simp add: vfs_inv_def)

text \<open>One filesystem that accepts: the rest of \<open>vfs_open\<close>.\<close>

lemma vfs_open_in_accept:
  assumes "o_open ops = Some op" "op path flags (v_world v) = (0, priv, w)"
  shows "vfs_open_in (ops # os) path flags v =
    (if fd_alloc (g_fds v) < 0 then
       (case fd_close_priv ops priv (v\<lparr>v_world := w\<rparr>) of Returns (r, v2) \<Rightarrow> Returns (-1, v2)
        | Blocks \<Rightarrow> Blocks | Undef \<Rightarrow> Undef)
     else Returns (fd_alloc (g_fds v), fd_set (fd_alloc (g_fds v))
       \<lparr>f_ops = Some ops, f_priv = priv, f_pos = 0, f_flags = flags, f_refcount = 1\<rparr> (v\<lparr>v_world := w\<rparr>)))"
  using assms by (simp add: Let_def)

lemma vfs_open_in_reject:
  assumes "o_open ops = Some op" "op path flags (v_world v) = (ret, priv, w)" "ret \<noteq> 0"
  shows "vfs_open_in (ops # os) path flags v = vfs_open_in os path flags (v\<lparr>v_world := w\<rparr>)"
  using assms by simp

declare vfs_open_in.simps(2) [simp del]

lemma vfs_open_in_inv: "vfs_inv v \<Longrightarrow> vfs_open_in os path flags v = Returns (r, v') \<Longrightarrow> vfs_inv v'"
proof (induction os arbitrary: v)
  case (Cons ops os)
  then obtain op where op: "o_open ops = Some op" by (auto simp: vfs_open_in.simps split: option.splits)
  obtain ret priv w where w: "op path flags (v_world v) = (ret, priv, w)" by (metis prod_cases3)
  let ?v = "v\<lparr>v_world := w\<rparr>"
  have i: "vfs_inv ?v" using Cons.prems(1) by simp
  show ?case
  proof (cases "ret = 0")
    case True
    have "vfs_inv v2" if "fd_close_priv ops priv ?v = Returns (r', v2)" for r' v2
      using fd_close_priv_frame[OF that] i by (simp add: vfs_inv_def)
    with Cons.prems(2) i vfs_open_in_accept[OF op w[unfolded True]] show ?thesis
      by (auto simp: file_ok_def split: if_splits outcome.splits intro!: fd_set_inv)
  next
    case False
    from Cons.prems(2) Cons.IH[OF i] vfs_open_in_reject[OF op w False] show ?thesis by simp
  qed
qed simp

lemma vfs_open_inv [inv_intros]: "vfs_inv v \<Longrightarrow> vfs_open path flags v = Returns (r, v') \<Longrightarrow> vfs_inv v'"
  by (simp add: vfs_open_def vfs_open_in_inv)

lemma file_ok_pos [simp]: "file_ok (f\<lparr>f_pos := pos\<rparr>) = file_ok f"
  by (simp add: file_ok_def)

lemma fd_bad_ok: "vfs_inv v \<Longrightarrow> \<not> fd_bad fd (g_fds v) \<Longrightarrow> file_ok (fd_get fd v)"
  by (auto simp: fd_bad_def intro: fd_get_ok)

lemma vfs_read_inv [inv_intros]: "vfs_inv v \<Longrightarrow> vfs_read ys fd sz v = Returns (r, out, v') \<Longrightarrow> vfs_inv v'"
  by (auto simp: vfs_read_def fd_bad_ok split: if_splits option.splits outcome.splits intro!: fd_set_inv)

lemma vfs_write_inv [inv_intros]: "vfs_inv v \<Longrightarrow> vfs_write ys fd buf sz v = Returns (r, v') \<Longrightarrow> vfs_inv v'"
  by (auto simp: vfs_write_def fd_bad_ok split: if_splits option.splits outcome.splits intro!: fd_set_inv)

lemma vfs_close_inv [inv_intros]:
  assumes "vfs_inv v" "vfs_close fd v = Returns (r, v')"
  shows "vfs_inv v'"
proof (cases "fd_bad fd (g_fds v)")
  case True
  with assms show ?thesis by (simp add: vfs_close_def)
next
  case False
  define f where "f = (fd_get fd v)\<lparr>f_refcount := f_refcount (fd_get fd v) - 1\<rparr>"
  have "file_ok f" using fd_bad_ops[OF assms(1) False] by (simp add: f_def file_ok_def)
  then have i: "vfs_inv (fd_set fd f v)" by (rule fd_set_inv[OF assms(1)])
  then have "vfs_inv v2" if "fd_close_priv ops (f_priv f) (fd_set fd f v) = Returns (r', v2)" for ops r' v2
    using fd_close_priv_frame[OF that] by (simp add: vfs_inv_def)
  with False assms(2) i show ?thesis
    by (auto simp: vfs_close_def f_def[symmetric] Let_def file_ok_def
        split: if_splits option.splits outcome.splits intro!: fd_set_inv)
qed

lemma vfs_fstat_inv [inv_intros]: "vfs_inv v \<Longrightarrow> vfs_fstat fd v = Returns (r, buf, v') \<Longrightarrow> vfs_inv v'"
  by (auto simp: vfs_fstat_def split: if_splits option.splits prod.splits)

lemma vfs_lseek_inv [inv_intros]: "vfs_inv v \<Longrightarrow> vfs_inv (snd (vfs_lseek fd off whence v))"
  by (auto simp: vfs_lseek_def Let_def fd_bad_ok intro!: fd_set_inv)

lemma fd_share_inv [inv_intros]:
  assumes "vfs_inv v" "\<not> fd_bad oldfd (g_fds v)"
  shows "vfs_inv (fd_share oldfd newfd v)"
proof -
  let ?v = "fd_set newfd ((fd_get oldfd v)\<lparr>f_refcount := 1\<rparr>) v"
  have "vfs_inv ?v" using fd_bad_ops[OF assms] by (intro fd_set_inv assms(1)) (simp add: file_ok_def)
  moreover from this have "file_ok (fd_get oldfd ?v)" using assms(2) by (intro fd_get_ok) (auto simp: fd_bad_def)
  moreover have "f_ops (fd_get oldfd ?v) \<noteq> None"
    using fd_bad_ops[OF assms] by (simp add: nth_upd)
  ultimately show ?thesis
    by (simp only: fd_share_def Let_def) (rule fd_set_inv, auto simp: file_ok_def)
qed

lemma vfs_dup_inv [inv_intros]: "vfs_inv v \<Longrightarrow> vfs_inv (snd (vfs_dup fd v))"
  by (simp add: vfs_dup_def Let_def fd_share_inv)

lemma vfs_close_other:
  assumes "vfs_close fd v = Returns (r, v')" "i \<noteq> nat fd"
  shows "g_fds v' ! i = g_fds v ! i"
  using assms by (auto simp: vfs_close_def Let_def dest!: fd_close_priv_frame
      split: if_splits option.splits outcome.splits)

lemma vfs_dup2_inv [inv_intros]:
  assumes "vfs_inv v" "vfs_dup2 oldfd newfd v = Returns (r, v')"
  shows "vfs_inv v'"
proof (cases "fd_bad oldfd (g_fds v)")
  case True
  with assms show ?thesis by (simp add: vfs_dup2_def)
next
  case False
  have "vfs_inv (fd_share oldfd newfd v1)" if c: "vfs_close newfd v = Returns (r1, v1)"
    and ne: "newfd \<noteq> oldfd" "0 \<le> newfd" for r1 v1
  proof -
    have "nat oldfd \<noteq> nat newfd" using ne False by (auto simp: fd_bad_def)
    with vfs_close_other[OF c] False have "\<not> fd_bad oldfd (g_fds v1)" by (simp add: fd_bad_def)
    with vfs_close_inv[OF assms(1) c] show ?thesis by (rule fd_share_inv)
  qed
  with False assms show ?thesis
    by (auto simp: vfs_dup2_def fd_share_inv split: if_splits outcome.splits)
qed

lemma vfs_pipe_inv [inv_intros]: "vfs_inv v \<Longrightarrow> vfs_inv (snd (snd (vfs_pipe garbage v)))"
  by (auto simp: vfs_pipe_def Let_def pipe_file_def file_ok_def case_prod_beta dest: fd_alloc_Some(1)
      intro!: fd_set_inv)

lemma vfs_step_inv: "vfs_inv v \<Longrightarrow> vfs_step c v = Some v' \<Longrightarrow> vfs_inv v'"
  by (cases c) (auto split: outcome.splits intro: inv_intros)

lemma vfs_reach_inv: "vfs_reach v v' \<Longrightarrow> vfs_inv v \<Longrightarrow> vfs_inv v'"
  by (induction rule: vfs_reach.induct) (auto intro: vfs_step_inv)

lemma vfs_init_inv:
  assumes "length fds = VFS_MAX_FILES"
  shows "vfs_inv \<lparr>g_fds = vfs_init fds, fs_list = l, v_world = w\<rparr>"
proof -
  have "file_ok (vfs_init fds ! i)" if "i < 64" for i
    using that assms by (cases "i = 0 \<or> i = 1") (auto simp: vfs_init_def Let_def file_ok_def vfs_consts nth_upd)
  then show ?thesis using assms
    by (auto simp: vfs_inv_def in_set_conv_nth vfs_init_def Let_def vfs_consts)
qed

section \<open>What the table promises its drivers' clients\<close>

text \<open>
  A driver is safe on the handles \<open>ok\<close> when none of its operations is undefined there and reading and
  writing keep the handle usable. A descriptor on such a driver can be read, written and examined
  without a call through a null pointer.
\<close>

locale vfs_driver =
  fixes ops :: "'fs vfs_ops"
    and ok :: "u64 \<Rightarrow> 'fs world \<Rightarrow> bool"
  assumes driver_read: "ok p w \<Longrightarrow> \<exists>rd. o_read ops = Some rd \<and> rd ys p sz pos w \<noteq> Undef \<and>
      (\<forall>r out pos' w'. rd ys p sz pos w = Returns (r, out, pos', w') \<longrightarrow> length out \<le> unat sz \<and> ok p w')"
    and driver_write: "ok p w \<Longrightarrow> \<exists>wr. o_write ops = Some wr \<and> wr ys p buf sz pos w \<noteq> Undef \<and>
      (\<forall>r pos' w'. wr ys p buf sz pos w = Returns (r, pos', w') \<longrightarrow> ok p w')"
    and driver_close: "ok p w \<Longrightarrow> \<exists>cl r w'. o_close ops = Some cl \<and> cl p w = Returns (r, w')"
    and driver_fstat: "o_fstat ops \<noteq> None"
begin

lemma read_safe:
  assumes "f_ops (fd_get fd v) = Some ops" "ok (f_priv (fd_get fd v)) (v_world v)"
  shows "vfs_read ys fd sz v \<noteq> Undef \<and>
    (\<forall>r out v'. vfs_read ys fd sz v = Returns (r, out, v') \<longrightarrow> length out \<le> unat sz \<and>
       (\<not> fd_bad fd (g_fds v) \<longrightarrow> ok (f_priv (fd_get fd v)) (v_world v')))"
  using driver_read[OF assms(2), of ys sz "f_pos (fd_get fd v)"] assms(1)
  by (auto simp: vfs_read_def split: outcome.splits)

lemma write_safe:
  assumes "f_ops (fd_get fd v) = Some ops" "ok (f_priv (fd_get fd v)) (v_world v)"
  shows "vfs_write ys fd buf sz v \<noteq> Undef"
  using driver_write[OF assms(2), of ys buf sz "f_pos (fd_get fd v)"] assms(1)
  by (auto simp: vfs_write_def split: outcome.splits)

lemma fstat_safe: "f_ops (fd_get fd v) = Some ops \<Longrightarrow> \<exists>r. vfs_fstat fd v = Returns r"
  using driver_fstat by (auto simp: vfs_fstat_def case_prod_beta)

lemma close_safe:
  assumes "f_ops (fd_get fd v) = Some ops" "ok (f_priv (fd_get fd v)) (v_world v)"
  shows "\<exists>r v'. vfs_close fd v = Returns (r, v')"
proof -
  from driver_close[OF assms(2)] obtain cl r w where
    "o_close ops = Some cl" "cl (f_priv (fd_get fd v)) (v_world v) = Returns (r, w)" by blast
  with assms(1) show ?thesis by (auto simp: vfs_close_def Let_def fd_close_priv_def)
qed

end

interpretation serial: vfs_driver serial_ops "\<lambda>p w. True"
  by unfold_locales
     (auto simp: serial_ops_def ser_read_def ser_write_def ser_close_def)

section \<open>Properties\<close>

text \<open>
  From a fresh table, every sequence of open, read, write, close, fstat, lseek, pipe, dup and dup2 calls
  (whatever the registered filesystems do) keeps the table of 64 entries in which no reference count
  is negative and every entry in use has its operations, so no call dispatches through a null
  \<open>ops\<close> pointer.
\<close>

theorem vfs_table_invariant:
  assumes "length fds = VFS_MAX_FILES"
    and "vfs_reach \<lparr>g_fds = vfs_init fds, fs_list = l, v_world = w\<rparr> v"
  shows "length (g_fds v) = VFS_MAX_FILES \<and>
    (\<forall>fd. fd_bad fd (g_fds v) \<or> 0 < f_refcount (fd_get fd v) \<and> f_ops (fd_get fd v) \<noteq> None)"
proof -
  have "vfs_inv v" using vfs_reach_inv[OF assms(2) vfs_init_inv[OF assms(1)]] .
  then show ?thesis using fd_bad_ops[of v] by (auto simp: vfs_inv_def)
qed


text \<open>
  Closing a descriptor with one reference calls the driver's close once with its handle, reports
  what it returns and frees the descriptor: it is rejected afterwards, and no other descriptor changed.
\<close>

theorem vfs_close_correct:
  assumes "vfs_inv v" "\<not> fd_bad fd (g_fds v)" "f_refcount (fd_get fd v) = 1"
    and "f_ops (fd_get fd v) = Some ops" "o_close ops = Some cl"
    and "cl (f_priv (fd_get fd v)) (v_world v) = Returns (r, w)"
  shows "\<exists>v'. vfs_close fd v = Returns (r, v') \<and> v_world v' = w \<and> fd_bad fd (g_fds v') \<and>
    vfs_close fd v' = Returns (-1, v') \<and> (\<forall>i. i \<noteq> nat fd \<longrightarrow> g_fds v' ! i = g_fds v ! i)"
proof -
  have l: "nat fd < length (g_fds v)" using assms(1,2) by (auto simp: vfs_inv_def fd_bad_def)
  have "\<exists>v'. vfs_close fd v = Returns (r, v') \<and> v_world v' = w \<and> fd_bad fd (g_fds v') \<and>
    (\<forall>i. i \<noteq> nat fd \<longrightarrow> g_fds v' ! i = g_fds v ! i)"
    using assms l by (simp add: vfs_close_def Let_def fd_close_priv_def) (simp add: fd_bad_def)
  then show ?thesis by (auto simp: vfs_close_def)
qed

text \<open>
  After \<open>lseek\<close> with \<open>SEEK_SET\<close> the next read starts at the requested offset, a relative seek by
  zero reports it, and any \<open>whence\<close> other than \<open>SEEK_SET\<close> and \<open>SEEK_CUR\<close> (\<open>SEEK_END\<close> among them) is
  refused without moving the position.
\<close>

theorem vfs_lseek_correct:
  assumes "vfs_inv v" "\<not> fd_bad fd (g_fds v)" "unat off < 2 ^ 31"
    and "vfs_lseek fd off 0 v = (r, v')"
  shows "r = int (unat off) \<and> f_pos (fd_get fd v') = off \<and> vfs_lseek fd 0 1 v' = (r, v') \<and>
    vfs_lseek fd off' 2 v' = (-1, v') \<and> (\<forall>i. i \<noteq> nat fd \<longrightarrow> g_fds v' ! i = g_fds v ! i)"
proof -
  have l: "nat fd < length (g_fds v)" using assms(1,2) by (auto simp: vfs_inv_def fd_bad_def)
  have u: "unat (ucast off :: u32) = unat off" using assms(3) by (simp add: unsigned_ucast_eq take_bit_nat_eq_self)
  have r: "sint (ucast off :: u32) = int (unat off)" using assms(3) u sint_small[of "ucast off :: u32"] by simp
  have nb: "\<not> fd_bad fd (g_fds v')" using assms(2,4) l by (auto simp: vfs_lseek_def fd_bad_def Let_def)
  have v': "v' = fd_set fd ((fd_get fd v)\<lparr>f_pos := off\<rparr>) v" "r = int (unat off)"
    using assms(2,4) r by (simp_all add: vfs_lseek_def Let_def)
  then have "fd_set fd ((fd_get fd v')\<lparr>f_pos := off\<rparr>) v' = v'" using l by (simp add: fd_set_def)
  with nb v' l r show ?thesis by (simp add: vfs_lseek_def Let_def)
qed

text \<open>
  \<open>vfs_pipe\<close> never yields a usable pipe. Whenever it succeeds the two descriptors it stores are
  the same one, because the second search runs before the first entry is marked used. That
  descriptor is the write end: reading from it calls a null function pointer, and nothing refers to
  the read end, so the pipe's reader count stays at 1 and closing the descriptor does not free it.
\<close>

theorem vfs_pipe_ends_coincide:
  assumes "vfs_inv v" "vfs_pipe garbage v = (0, Some (rfd, wfd), v')"
  shows "rfd = wfd \<and> vfs_read ys rfd sz v' = Undef \<and>
    (\<exists>p q v''. f_priv (fd_get wfd v') = p \<and> vfs_close wfd v' = Returns (0, v'') \<and>
       w_pipes (v_world v'') p = Some q \<and> pp_readers q = 1 \<and> pp_writers q = 0 \<and>
       w_heap (v_world v'') = w_heap (v_world v'))"
proof -
  obtain p h where k: "kmalloc 4112 (w_heap (v_world v)) = (p, h)" by force
  let ?fd = "fd_alloc (g_fds v)"
  have ge: "\<not> ?fd < 0" using assms(2) k by (auto simp: vfs_pipe_def Let_def split: if_splits)
  then have fd: "0 \<le> ?fd" "?fd < int VFS_MAX_FILES" "nat ?fd < length (g_fds v)"
    using fd_alloc_Some(2)[of "g_fds v"] assms(1) by (auto simp: vfs_inv_def)
  let ?q = "\<lparr>pp_buf = garbage, pp_rpos = 0, pp_wpos = 0, pp_readers = 1, pp_writers = 1\<rparr>"
  have v': "rfd = ?fd" "wfd = ?fd" "g_fds v' = (g_fds v)[nat ?fd := pipe_file pipe_write_ops p]"
    "v_world v' = (v_world v)\<lparr>w_heap := h, w_pipes := (w_pipes (v_world v))(p \<mapsto> ?q)\<rparr>"
    using assms(2) k ge by (auto simp: vfs_pipe_def Let_def split: if_splits)
  then have f: "fd_get wfd v' = pipe_file pipe_write_ops p" "\<not> fd_bad wfd (g_fds v')"
    using fd by (simp_all add: fd_bad_def pipe_file_def)
  then have "vfs_read ys wfd sz v' = Undef"
    by (simp add: vfs_read_def pipe_file_def pipe_write_ops_def)
  moreover have "\<exists>v''. vfs_close wfd v' = Returns (0, v'') \<and>
      v_world v'' = pipe_put p (Some (?q\<lparr>pp_writers := 0\<rparr>)) (v_world v')"
    using f v'(4) by (simp add: vfs_close_def Let_def pipe_file_def pipe_write_ops_def fd_close_priv_def
        pipe_close_vop_def pipe_write_close_op_def)
  ultimately show ?thesis using v' f(1)
    by (auto simp: pipe_put_def pipe_file_def)
qed

text \<open>
  \<open>vfs_dup\<close> gives a second descriptor with the same driver, handle and position and leaves the
  others alone; but the copy counts as one reference of its own, so closing the copy calls the
  driver's close although the original descriptor is still open (with two references).
\<close>

theorem vfs_dup_close:
  assumes "vfs_inv v" "\<not> fd_bad fd (g_fds v)" "vfs_dup fd v = (newfd, v1)" "newfd \<noteq> -1"
    and "f_ops (fd_get fd v) = Some ops" "o_close ops = Some cl"
    and "cl (f_priv (fd_get fd v)) (v_world v) = Returns (r, w)"
  shows "newfd \<noteq> fd \<and> fd_get newfd v1 = (fd_get fd v)\<lparr>f_refcount := 1\<rparr> \<and>
    fd_get fd v1 = (fd_get fd v)\<lparr>f_refcount := f_refcount (fd_get fd v) + 1\<rparr> \<and>
    (\<forall>i. i \<noteq> nat fd \<and> i \<noteq> nat newfd \<longrightarrow> g_fds v1 ! i = g_fds v ! i) \<and>
    (\<exists>v2. vfs_close newfd v1 = Returns (r, v2) \<and> v_world v2 = w \<and> fd_get fd v2 = fd_get fd v1)"
proof -
  let ?n = "fd_alloc (g_fds v)"
  have n: "newfd = ?n" "0 \<le> ?n" "v1 = fd_share fd newfd v"
    using assms(2-4) by (auto simp: vfs_dup_def Let_def split: if_splits)
  note a = fd_alloc_Some(1-3)[OF n(2)]
  have l: "nat ?n < length (g_fds v)" "nat fd < length (g_fds v)" "0 \<le> fd" "fd \<noteq> ?n" "nat fd \<noteq> nat ?n"
    using a assms(1,2) by (auto simp: vfs_inv_def fd_bad_def)
  have t: "g_fds v1 = (g_fds v)[nat ?n := (fd_get fd v)\<lparr>f_refcount := 1\<rparr>,
      nat fd := (fd_get fd v)\<lparr>f_refcount := f_refcount (fd_get fd v) + 1\<rparr>]" "v_world v1 = v_world v"
    using n l by (simp_all add: fd_share_def Let_def nth_upd)
  have g: "fd_get newfd v1 = (fd_get fd v)\<lparr>f_refcount := 1\<rparr>"
      "fd_get fd v1 = (fd_get fd v)\<lparr>f_refcount := f_refcount (fd_get fd v) + 1\<rparr>"
    using t l n by (simp_all add: nth_upd)
  have nb: "\<not> fd_bad newfd (g_fds v1)" using n a g(1) by (simp add: fd_bad_def)
  have "\<exists>v2. vfs_close newfd v1 = Returns (r, v2) \<and> v_world v2 = w"
    using nb g(1) t(2) assms(5-7) by (simp add: vfs_close_def Let_def fd_close_priv_def)
  then obtain v2 where v2: "vfs_close newfd v1 = Returns (r, v2)" "v_world v2 = w" by blast
  have "fd_get fd v2 = fd_get fd v1" by (rule vfs_close_other[OF v2(1)]) (use l n in simp)
  with v2 g l n t show ?thesis by (auto simp: nth_upd)
qed

text \<open>
  After \<open>vfs_init\<close> descriptor 0 reads exactly the next bytes of the serial line, or waits for them,
  and descriptor 1 sends exactly the bytes written.
\<close>

theorem vfs_stdio:
  assumes "length fds = VFS_MAX_FILES" "v = \<lparr>g_fds = vfs_init fds, fs_list = l, v_world = w\<rparr>"
    and "w_sin w = line @ later" "length line = unat sz" "length buf = unat sz" "unat sz < 2 ^ 31"
  shows "(\<exists>v'. vfs_read ys 0 sz v = Returns (int (unat sz), line, v') \<and> w_sin (v_world v') = later) \<and>
    (\<exists>v'. vfs_write ys 1 buf sz v = Returns (int (unat sz), v') \<and> w_sout (v_world v') = w_sout w @ buf)"
proof -
  have s: "sint sz = int (unat sz)" by (rule sint_small) (use assms(6) in simp)
  have f: "f_ops (g_fds v ! 0) = Some serial_ops" "f_ops (g_fds v ! 1) = Some serial_ops"
    "\<not> fd_bad 0 (g_fds v)" "\<not> fd_bad 1 (g_fds v)"
    using assms(1,2) by (auto simp: vfs_init_def Let_def fd_bad_def vfs_consts nth_upd)
  show ?thesis using f s assms(2-5)
    by (simp add: vfs_read_def vfs_write_def serial_ops_def ser_read_def ser_write_def)
qed

section \<open>Concrete instances\<close>

text \<open>A fresh table, a kernel heap of 8 KiB at \<open>0x200000\<close> and one filesystem that opens every path.\<close>

definition any_ops :: "unit vfs_ops" where
  "any_ops = \<lparr>o_name = ''any'', o_open = Some (\<lambda>path flags w. (0, 7, w)), o_read = Some ser_read,
              o_write = Some ser_write, o_close = Some ser_close, o_fstat = Some ser_fstat\<rparr>"

definition vfs_example :: "unit vfs" where
  "vfs_example = \<lparr>g_fds = vfs_init (replicate 64 \<lparr>f_ops = None, f_priv = 0, f_pos = 0, f_flags = 0, f_refcount = 0\<rparr>),
     fs_list = [any_ops],
     v_world = \<lparr>w_heap = [\<lparr>hb_addr = 0x200000, hb_size = 8168, hb_free = True\<rparr>], w_pipes = (\<lambda>a. None),
                w_sin = [104, 105, 33], w_sout = [], w_fs = ()\<rparr>\<rparr>"

lemma vfs_example_inv: "vfs_inv vfs_example"
  unfolding vfs_example_def by (rule vfs_init_inv) (simp add: vfs_consts)

lemma vfs_example_fds:
  "f_refcount (g_fds vfs_example ! 2) = 0" "\<not> fd_bad 0 (g_fds vfs_example)"
  "f_refcount (g_fds vfs_example ! 0) = 1" "f_ops (g_fds vfs_example ! 0) = Some serial_ops"
  by (simp_all add: vfs_example_def vfs_init_def Let_def fd_bad_def vfs_consts nth_upd)

lemma vfs_example_alloc: "fd_alloc (g_fds vfs_example) = 2"
proof -
  have "\<not> fd_alloc (g_fds vfs_example) < 0"
    unfolding fd_alloc_full using vfs_example_fds(1) by (auto simp: vfs_consts intro: exI[of _ 2])
  then show ?thesis
    using fd_alloc_Some(1)[of "g_fds vfs_example"] fd_alloc_Some(4)[of "g_fds vfs_example" 2] vfs_example_fds(1) by force
qed

theorem vfs_table_invariant_witness:
  "length (g_fds (snd (vfs_dup 0 vfs_example))) = VFS_MAX_FILES \<and>
   f_ops (fd_get 2 (snd (vfs_dup 0 vfs_example))) \<noteq> None"
proof -
  let ?v = "snd (vfs_dup 0 vfs_example)"
  have r: "vfs_reach vfs_example ?v" by (rule reach_step[OF reach_refl, of "C_dup 0"]) simp
  note inv = vfs_table_invariant[OF _ r[unfolded vfs_example_def], folded vfs_example_def]
  have "\<not> fd_bad 2 (g_fds ?v)"
    using vfs_example_fds vfs_example_alloc vfs_example_inv
    by (simp add: vfs_dup_def fd_share_def fd_bad_def Let_def nth_upd vfs_inv_def vfs_consts)
  with inv show ?thesis by (auto simp: vfs_consts)
qed


theorem vfs_close_correct_witness:
  "\<exists>v'. vfs_close 0 vfs_example = Returns (0, v') \<and> fd_bad 0 (g_fds v')"
  using vfs_close_correct[OF vfs_example_inv vfs_example_fds(2), of serial_ops ser_close 0 "v_world vfs_example"]
    vfs_example_fds(3,4) by (auto simp: serial_ops_def ser_close_def)

theorem vfs_lseek_correct_witness: "f_pos (g_fds (snd (vfs_lseek 0 100 0 vfs_example)) ! 0) = 100"
  using vfs_lseek_correct[OF vfs_example_inv vfs_example_fds(2), of 100 "fst (vfs_lseek 0 100 0 vfs_example)"
      "snd (vfs_lseek 0 100 0 vfs_example)" 0] by simp

theorem vfs_pipe_ends_coincide_witness:
  "\<exists>v'. vfs_pipe (replicate 4096 0) vfs_example = (0, Some (2, 2), v') \<and> vfs_read [] 2 1 v' = Undef"
proof -
  obtain v' where v': "vfs_pipe (replicate 4096 0) vfs_example = (0, Some (2, 2), v')"
    using vfs_example_alloc
    by (auto simp: vfs_pipe_def Let_def vfs_example_def kmalloc_def kmalloc_round_def HB_SIZE_def)
  from v' vfs_pipe_ends_coincide[OF vfs_example_inv this, of "[]" 1] show ?thesis by simp
qed

theorem vfs_dup_close_witness:
  "\<exists>v1 v2. vfs_dup 0 vfs_example = (2, v1) \<and> f_refcount (fd_get 0 v1) = 2 \<and> vfs_close 2 v1 = Returns (0, v2)"
proof -
  let ?v = "snd (vfs_dup 0 vfs_example)"
  have d: "vfs_dup 0 vfs_example = (2, ?v)"
    using vfs_example_fds(2) vfs_example_alloc by (simp add: vfs_dup_def Let_def)
  from vfs_dup_close[OF vfs_example_inv vfs_example_fds(2) d, of serial_ops ser_close 0 "v_world vfs_example"]
    vfs_example_fds(3,4) d show ?thesis by (auto simp: serial_ops_def ser_close_def)
qed

theorem vfs_stdio_witness:
  "\<exists>v'. vfs_read [] 0 2 vfs_example = Returns (2, [104, 105], v') \<and> w_sin (v_world v') = [33]"
proof -
  have "length (replicate 64 \<lparr>f_ops = None :: unit vfs_ops option, f_priv = 0, f_pos = 0, f_flags = 0, f_refcount = 0\<rparr>) = VFS_MAX_FILES"
    by (simp add: vfs_consts)
  from vfs_stdio[OF this vfs_example_def, of "[104, 105]" "[33]" 2 "[104, 105]" "[]"] show ?thesis by simp
qed

end
