(* ===== verification/SwiftfsMount.thy ===== *)
theory SwiftfsMount
  imports SwiftfsFile Vfs
begin

text \<open>
  Mounting, syncing and unmounting, \<open>src/kernel/fs/swiftfs2.c\<close>, and the wrappers that register the
  filesystem with the VFS. The journal of the source is a stub whose three functions do nothing.
\<close>

section \<open>Mount\<close>

definition SWIFTFS2_MAGIC :: u64 where "SWIFTFS2_MAGIC = 0x3253465446495753"

definition cache_zero :: cache_entry where
  "cache_zero = \<lparr>ce_block = 0, ce_group = 0, ce_data = replicate 4096 0, ce_dirty = False, ce_valid = False\<rparr>"

definition journal_recover :: "'d swiftfs \<Rightarrow> 'd swiftfs" where "journal_recover s = s"
definition journal_begin :: "'d swiftfs \<Rightarrow> int \<times> 'd swiftfs" where "journal_begin s = (0, s)"
definition journal_commit :: "'d swiftfs \<Rightarrow> int \<times> 'd swiftfs" where "journal_commit s = (0, s)"

text \<open>\<open>garbage\<close> is what the heap memory for the group descriptors holds before it is filled.\<close>

definition swiftfs2_mount :: "'d blkdev \<Rightarrow> u8 list \<Rightarrow> int \<Rightarrow> 'd swiftfs \<Rightarrow> int \<times> 'd swiftfs" where
  "swiftfs2_mount D garbage ahci_port s =
     (if g_mounted s then (-1, s)
      else
        let s0 = s\<lparr>g_port := ahci_port, g_cache := replicate SWIFTFS2_CACHE_SIZE cache_zero,
                   s_fds := replicate SWIFTFS2_MAX_FD fd_clear, g_cache_next := 0\<rparr>;
            (r, bytes, s1) = read_block D 0 s0;
            s2 = s1\<lparr>sb := dec_super (blit (enc_super (sb s1)) 0 bytes)\<rparr>
        in if r < 0 then (-1, s2)
           else if sb_magic (sb s2) \<noteq> SWIFTFS2_MAGIC then (-1, s2)
           else if sb_block_size (sb s2) \<noteq> 4096 then (-1, s2)
           else
             let (r', s3) = load_group_descriptors D garbage s2 in
             if r' < 0 then (-1, s3)
             else
               let s4 = (if sb_journal_last (sb s3) < sb_journal_size (sb s3) then journal_recover s3 else s3)
               in (0, s4\<lparr>g_curr_group := 0, g_mounted := True\<rparr>))"

section \<open>Sync and unmount\<close>

definition gd_bytes :: "'d swiftfs \<Rightarrow> u8 list" where
  "gd_bytes s = concat (map enc_gd (g_gd s))"

primrec write_gd_blocks :: "'d blkdev \<Rightarrow> nat list \<Rightarrow> 'd swiftfs \<Rightarrow> 'd swiftfs" where
  "write_gd_blocks D [] s = s"
| "write_gd_blocks D (i # is) s =
     write_gd_blocks D is (snd (write_block D (1 + of_nat i) (take 4096 (drop (i * 4096) (gd_bytes s))) s))"

primrec sync_bitmaps :: "'d blkdev \<Rightarrow> nat list \<Rightarrow> 'd swiftfs \<Rightarrow> 'd swiftfs" where
  "sync_bitmaps D [] s = s"
| "sync_bitmaps D (g # gs) s = sync_bitmaps D gs (bitmap_sync D (int g) s)"

definition swiftfs2_sync :: "'d blkdev \<Rightarrow> 'd swiftfs \<Rightarrow> int \<times> 'd swiftfs" where
  "swiftfs2_sync D s =
     (if \<not> g_mounted s then (-1, s)
      else
        let s1 = snd (journal_begin s);
            s2 = s1\<lparr>s_fds := map (\<lambda>f. if fd_inode f \<noteq> 0 then f\<lparr>fd_dirty := False\<rparr> else f) (s_fds s1)\<rparr>;
            s3 = snd (journal_commit (cache_flush_all D s2));
            s4 = snd (write_block D 0 (enc_super (sb s3)) s3);
            s5 = write_gd_blocks D [0..<nat (sint (sb_group_desc_count (sb s4)))] s4
        in (0, sync_bitmaps D [0..<nat (g_nr_groups s5)] s5))"

definition free_bitmaps :: "(u64 \<times> u8 list) option list \<Rightarrow> kheap \<Rightarrow> kheap" where
  "free_bitmaps bms h = fold (\<lambda>b h. case b of Some (p, bm) \<Rightarrow> kfree p h | None \<Rightarrow> h) bms h"

definition swiftfs2_umount :: "'d blkdev \<Rightarrow> 'd swiftfs \<Rightarrow> int \<times> 'd swiftfs" where
  "swiftfs2_umount D s =
     (if \<not> g_mounted s then (-1, s)
      else
        let s1 = snd (swiftfs2_sync D s);
            h = kfree (g_gd_ptr s1) (kfree (g_bitmaps_ptr s1) (free_bitmaps (g_bitmaps s1) (s_heap s1)))
        in (0, s1\<lparr>s_heap := h, g_cache := replicate SWIFTFS2_CACHE_SIZE cache_zero, g_mounted := False\<rparr>))"

section \<open>The VFS operations\<close>

text \<open>The filesystem state inside the world; the kernel heap is shared with the rest of the kernel.\<close>

definition sw_get :: "('d swiftfs) world \<Rightarrow> 'd swiftfs" where
  "sw_get w = (w_fs w)\<lparr>s_heap := w_heap w\<rparr>"

definition sw_put :: "'d swiftfs \<Rightarrow> ('d swiftfs) world \<Rightarrow> ('d swiftfs) world" where
  "sw_put s w = w\<lparr>w_fs := s, w_heap := s_heap s\<rparr>"

definition priv_fd :: "u64 \<Rightarrow> int" where "priv_fd priv = sint (ucast priv :: u32)"

definition sw_open :: "'d blkdev \<Rightarrow> cstring \<Rightarrow> int \<Rightarrow> ('d swiftfs) world \<Rightarrow> int \<times> u64 \<times> ('d swiftfs) world" where
  "sw_open D path flags w =
     (let (fd, s) = swiftfs2_open D path (of_int flags) (sw_get w); w' = sw_put s w
      in if fd < 0 then (-1, 0, w') else (0, of_int fd, w'))"

text \<open>Setting \<open>g_fds[fd].pos\<close> from the VFS position before the call.\<close>

definition sw_seek :: "int \<Rightarrow> u64 \<Rightarrow> 'd swiftfs \<Rightarrow> 'd swiftfs" where
  "sw_seek fd pos s = sfd_set fd ((s_fds s ! nat fd)\<lparr>fd_pos := ucast pos\<rparr>) s"

definition sw_read :: "'d blkdev \<Rightarrow> (pipe \<Rightarrow> pipe) list \<Rightarrow> u64 \<Rightarrow> u32 \<Rightarrow> u64 \<Rightarrow> ('d swiftfs) world \<Rightarrow>
    (int \<times> u8 list \<times> u64 \<times> ('d swiftfs) world) outcome" where
  "sw_read D ys priv sz pos w =
     (let fd = priv_fd priv; (ret, out, s) = swiftfs2_read D fd sz (sw_seek fd pos (sw_get w))
      in Returns (ret, out, if ret > 0 then ucast (fd_pos (s_fds s ! nat fd)) else pos, sw_put s w))"

definition sw_write :: "'d blkdev \<Rightarrow> (pipe \<Rightarrow> pipe) list \<Rightarrow> u64 \<Rightarrow> u8 list \<Rightarrow> u32 \<Rightarrow> u64 \<Rightarrow> ('d swiftfs) world \<Rightarrow>
    (int \<times> u64 \<times> ('d swiftfs) world) outcome" where
  "sw_write D ys priv buf sz pos w =
     (let fd = priv_fd priv; (ret, s) = swiftfs2_write D fd buf sz (sw_seek fd pos (sw_get w))
      in Returns (ret, if ret > 0 then ucast (fd_pos (s_fds s ! nat fd)) else pos, sw_put s w))"

definition sw_close :: "'d blkdev \<Rightarrow> u64 \<Rightarrow> ('d swiftfs) world \<Rightarrow> (int \<times> ('d swiftfs) world) outcome" where
  "sw_close D priv w =
     (let (ret, s) = swiftfs2_close D (priv_fd priv) (sw_get w) in Returns (ret, sw_put s w))"

definition sw_fstat :: "'d blkdev \<Rightarrow> u64 \<Rightarrow> ('d swiftfs) world \<Rightarrow> int \<times> stat option \<times> ('d swiftfs) world" where
  "sw_fstat D priv w =
     (let (ret, st, s) = swiftfs2_fstat D (priv_fd priv) (sw_get w)
      in (ret, map_option (\<lambda>(mode, sz). \<lparr>st_mode = mode, st_size = sz\<rparr>) st, sw_put s w))"

definition swiftfs_vfs_ops :: "'d blkdev \<Rightarrow> ('d swiftfs) vfs_ops" where
  "swiftfs_vfs_ops D = \<lparr>o_name = ''swiftfs'', o_open = Some (sw_open D), o_read = Some (sw_read D),
     o_write = Some (sw_write D), o_close = Some (sw_close D), o_fstat = Some (sw_fstat D)\<rparr>"

definition swiftfs2_vfs_init :: "'d blkdev \<Rightarrow> ('d swiftfs) vfs \<Rightarrow> ('d swiftfs) vfs" where
  "swiftfs2_vfs_init D v = snd (vfs_register (swiftfs_vfs_ops D) v)"

section \<open>A mounted filesystem starts with a sound cache\<close>

lemma nth_cache_reset: "i < SWIFTFS2_CACHE_SIZE \<Longrightarrow> replicate SWIFTFS2_CACHE_SIZE cache_zero ! i = cache_zero"
  by simp

lemma reset_cache_inv:
  assumes "works (g_port s) (s_dev s)" "g_cache s = replicate SWIFTFS2_CACHE_SIZE cache_zero" "g_cache_next s = 0"
  shows "cache_inv disk works s"
  using assms by (simp add: cache_inv_def cache_zero_def SWIFTFS2_CACHE_SIZE_def)

lemma swiftfs2_mount_rejects:
  assumes "\<not> g_mounted s"
    and "read_block D 0 (s\<lparr>g_port := port, g_cache := replicate SWIFTFS2_CACHE_SIZE cache_zero,
          s_fds := replicate SWIFTFS2_MAX_FD fd_clear, g_cache_next := 0\<rparr>) = (r, bytes, s1)"
    and "length bytes = 4096" "length (enc_super (sb s1)) = 4096"
    and "r < 0 \<or> rd64 bytes 0 \<noteq> SWIFTFS2_MAGIC \<or> rd64 bytes 8 \<noteq> 4096"
  shows "fst (swiftfs2_mount D garbage port s) = -1 \<and> \<not> g_mounted (snd (swiftfs2_mount D garbage port s))"
proof -
  have b: "blit (enc_super (sb s1)) 0 bytes = bytes" using assms(3,4) by (simp add: blit_def)
  have "g_mounted s1 = g_mounted s" using assms(2) by (auto simp: read_block_def split: prod.splits)
  with assms(1,2,5) b show ?thesis by (auto simp: swiftfs2_mount_def Let_def dec_super_def)
qed

section \<open>What sync writes\<close>

context block_device
begin

lemma write_block_disk:
  assumes "works (g_port s) (s_dev s)" "length buf = 4096"
  obtains s' where "snd (write_block D (ucast b) buf s) = s'" "same_core s s'" "works (g_port s) (s_dev s')"
    "disk (g_port s) (s_dev s') = (disk (g_port s) (s_dev s))(b := buf)"
proof -
  from write_block_ok[OF assms, of b] obtain d where d: "write_block D (ucast b) buf s = (4096, s\<lparr>s_dev := d\<rparr>)"
    "works (g_port s) d" "disk (g_port s) d = (disk (g_port s) (s_dev s))(b := buf)" by blast
  then show thesis by (intro that[of "s\<lparr>s_dev := d\<rparr>"]) (simp_all add: same_core_def)
qed

lemma block_word: "i < 2 ^ 31 \<Longrightarrow> (1 + of_nat i :: u64) = ucast (of_nat (1 + i) :: u32)"
proof -
  assume "i < 2 ^ 31"
  then have "unat (of_nat (1 + i) :: u64) = unat (ucast (of_nat (1 + i) :: u32) :: u64)"
    by (subst unat_ucast_up) (simp_all del: of_nat_Suc add: unat_of_nat_small)
  then show ?thesis by (simp add: word_unat_eq_iff)
qed

lemma write_gd_ok:
  assumes "works (g_port s) (s_dev s)" "\<forall>i\<in>set is. i < 2 ^ 31 \<and> length (take 4096 (drop (i * 4096) (gd_bytes s))) = 4096"
  shows "same_core s (write_gd_blocks D is s) \<and> works (g_port s) (s_dev (write_gd_blocks D is s)) \<and>
    (\<forall>b. (\<forall>i\<in>set is. b \<noteq> of_nat (1 + i)) \<longrightarrow> disk (g_port s) (s_dev (write_gd_blocks D is s)) b = disk (g_port s) (s_dev s) b)"
  using assms
proof (induction "is" arbitrary: s)
  case (Cons i "is")
  let ?buf = "take 4096 (drop (i * 4096) (gd_bytes s))"
  have l: "length ?buf = 4096" "i < 2 ^ 31" using Cons.prems(2) by simp_all
  obtain s' where s': "snd (write_block D (ucast (of_nat (1 + i) :: u32)) ?buf s) = s'" "same_core s s'" "works (g_port s) (s_dev s')"
    "disk (g_port s) (s_dev s') = (disk (g_port s) (s_dev s))(of_nat (1 + i) := ?buf)"
    using write_block_disk[OF Cons.prems(1) l(1), of "of_nat (1 + i)"] by metis
  have run: "write_gd_blocks D (i # is) s = write_gd_blocks D is s'" using s'(1) block_word[OF l(2)] by simp
  have "gd_bytes s' = gd_bytes s" by (simp add: gd_bytes_def same_coreD[OF s'(2)])
  with Cons.IH[of s'] Cons.prems(2) s'(2,3) have
    "same_core s' (write_gd_blocks D is s') \<and> works (g_port s) (s_dev (write_gd_blocks D is s')) \<and>
     (\<forall>b. (\<forall>i\<in>set is. b \<noteq> of_nat (1 + i)) \<longrightarrow> disk (g_port s) (s_dev (write_gd_blocks D is s')) b = disk (g_port s) (s_dev s') b)"
    by (simp add: same_coreD)
  note IH = this
  have "same_core s (write_gd_blocks D is s')" using same_core_trans[OF s'(2)] IH by simp
  moreover have "disk (g_port s) (s_dev (write_gd_blocks D is s')) b = disk (g_port s) (s_dev s) b"
    if "\<forall>j\<in>set (i # is). b \<noteq> of_nat (1 + j)" for b
    using IH that by (simp del: of_nat_Suc add: s'(4))
  ultimately show ?case unfolding run using IH by blast
qed simp

lemma sync_bitmaps_ok:
  assumes "works (g_port s) (s_dev s)" "\<forall>g\<in>set gs. \<forall>p bm. g_bitmaps s ! g = Some (p, bm) \<longrightarrow> length bm = 4096"
  shows "same_core s (sync_bitmaps D gs s) \<and> works (g_port s) (s_dev (sync_bitmaps D gs s)) \<and>
    (\<forall>b. (\<forall>g\<in>set gs. b \<noteq> gd_block_bitmap_block (g_gd s ! g)) \<longrightarrow> disk (g_port s) (s_dev (sync_bitmaps D gs s)) b = disk (g_port s) (s_dev s) b)"
  using assms
proof (induction gs arbitrary: s)
  case (Cons g gs)
  obtain s' where s': "bitmap_sync D (int g) s = s'" "same_core s s'" "works (g_port s) (s_dev s')"
    "\<forall>b. b \<noteq> gd_block_bitmap_block (g_gd s ! g) \<longrightarrow> disk (g_port s) (s_dev s') b = disk (g_port s) (s_dev s) b"
  proof (cases "g_bitmaps s ! g")
    case None
    then show thesis using that[of s] Cons.prems(1) by (simp add: bitmap_sync_def)
  next
    case (Some pb)
    obtain p bm where pb: "pb = (p, bm)" by force
    then have "length bm = 4096" using Some Cons.prems(2) by simp
    from write_block_disk[OF Cons.prems(1) this, of "gd_block_bitmap_block (g_gd s ! g)"] obtain s' where
      s': "snd (write_block D (ucast (gd_block_bitmap_block (g_gd s ! g))) bm s) = s'" "same_core s s'" "works (g_port s) (s_dev s')"
      "disk (g_port s) (s_dev s') = (disk (g_port s) (s_dev s))(gd_block_bitmap_block (g_gd s ! g) := bm)" by metis
    have "bitmap_sync D (int g) s = s'" using s'(1) Some pb by (simp add: bitmap_sync_def)
    then show thesis by (rule that[OF _ s'(2,3)]) (simp add: s'(4))
  qed
  from Cons.IH[of s'] Cons.prems(2) s'(2,3) have
    "same_core s' (sync_bitmaps D gs s') \<and> works (g_port s) (s_dev (sync_bitmaps D gs s')) \<and>
     (\<forall>b. (\<forall>g\<in>set gs. b \<noteq> gd_block_bitmap_block (g_gd s ! g)) \<longrightarrow> disk (g_port s) (s_dev (sync_bitmaps D gs s')) b = disk (g_port s) (s_dev s') b)"
    by (simp add: same_coreD)
  note IH = this
  have "same_core s (sync_bitmaps D gs s')" using same_core_trans[OF s'(2)] IH by simp
  moreover have "disk (g_port s) (s_dev (sync_bitmaps D gs s')) b = disk (g_port s) (s_dev s) b"
    if "\<forall>h\<in>set (g # gs). b \<noteq> gd_block_bitmap_block (g_gd s ! h)" for b
    using IH that by (simp add: s'(4))
  ultimately show ?case using IH s'(1) by simp
qed simp

lemma swiftfs2_sync_ok:
  assumes inv: "cache_inv disk works s" and m: "g_mounted s" and wf: "super_wf (sb s)"
    and gd: "\<forall>i<nat (sint (sb_group_desc_count (sb s))). length (take 4096 (drop (i * 4096) (gd_bytes s))) = 4096"
    and bm: "\<forall>g<nat (g_nr_groups s). \<forall>p bm. g_bitmaps s ! g = Some (p, bm) \<longrightarrow> length bm = 4096"
    and b: "b \<noteq> 0" "\<forall>i<nat (sint (sb_group_desc_count (sb s))). b \<noteq> of_nat (1 + i)"
      "\<forall>g<nat (g_nr_groups s). b \<noteq> gd_block_bitmap_block (g_gd s ! g)"
  shows "fst (swiftfs2_sync D s) = 0 \<and> disk (g_port s) (s_dev (snd (swiftfs2_sync D s))) b = cview disk s b"
proof -
  let ?n = "nat (sint (sb_group_desc_count (sb s)))"
  let ?p = "g_port s"
  define s2 where "s2 = s\<lparr>s_fds := map (\<lambda>f. if fd_inode f \<noteq> 0 then f\<lparr>fd_dirty := False\<rparr> else f) (s_fds s)\<rparr>"
  have f2: "sb s2 = sb s" "g_port s2 = g_port s" "g_gd s2 = g_gd s" "g_bitmaps s2 = g_bitmaps s" "g_nr_groups s2 = g_nr_groups s"
    by (simp_all add: s2_def)
  have inv2: "cache_inv disk works s2" using inv by (simp add: s2_def cache_inv_def)
  have v2: "cview disk s2 = cview disk s" by (rule cview_cong) (simp_all add: s2_def)
  define s3 where "s3 = cache_flush_all D s2"
  note fl = cache_flush_ok[OF inv2, folded s3_def]
  note c3 = same_coreD[OF fl(3)]
  have w3: "works ?p (s_dev s3)" using cache_invD(1)[OF fl(1)] c3(2) f2(2) by simp
  have d3: "disk ?p (s_dev s3) = cview disk s" using fl(4) v2 f2(2) by simp
  have ls: "length (enc_super (sb s3)) = 4096" using length_enc_super[OF wf] c3(1) f2(1) by simp
  have "works (g_port s3) (s_dev s3)" using w3 c3(2) f2(2) by simp
  from write_block_disk[OF this ls, of 0] obtain s4 where s4: "snd (write_block D 0 (enc_super (sb s3)) s3) = s4" "same_core s3 s4"
    "works ?p (s_dev s4)" "disk ?p (s_dev s4) = (disk ?p (s_dev s3))(0 := enc_super (sb s3))"
    using c3(2) f2(2) by auto
  note c4 = same_coreD[OF s4(2)]
  have e4: "sb s4 = sb s" "g_port s4 = ?p" "g_gd s4 = g_gd s" "g_bitmaps s4 = g_bitmaps s" "g_nr_groups s4 = g_nr_groups s"
    using c4 c3 f2 by simp_all
  have n31: "i < 2 ^ 31" if "i < ?n" for i
    using that sint_lt[of "sb_group_desc_count (sb s)"] by simp
  define s5 where "s5 = write_gd_blocks D [0..<?n] s4"
  have s5: "same_core s4 s5 \<and> works ?p (s_dev s5) \<and>
      (\<forall>b. (\<forall>i\<in>set [0..<?n]. b \<noteq> of_nat (1 + i)) \<longrightarrow> disk ?p (s_dev s5) b = disk ?p (s_dev s4) b)"
    using write_gd_ok[of s4 "[0..<?n]"] s4(3) e4 gd n31 by (simp add: s5_def gd_bytes_def)
  note c5 = same_coreD[OF s5[THEN conjunct1]]
  define s6 where "s6 = sync_bitmaps D [0..<nat (g_nr_groups s5)] s5"
  have s6: "\<forall>b. (\<forall>g\<in>set [0..<nat (g_nr_groups s)]. b \<noteq> gd_block_bitmap_block (g_gd s ! g)) \<longrightarrow> disk ?p (s_dev s6) b = disk ?p (s_dev s5) b"
    using sync_bitmaps_ok[of s5 "[0..<nat (g_nr_groups s5)]"] s5 c5 e4 bm by (simp add: s6_def)
  have "swiftfs2_sync D s = (0, s6)"
    using m s4(1) e4(1) c5 by (simp add: swiftfs2_sync_def Let_def journal_begin_def journal_commit_def s2_def[symmetric] s3_def[symmetric]
        s5_def[symmetric] s6_def)
  moreover have "disk ?p (s_dev s6) b = disk ?p (s_dev s5) b" using s6 b(3) by simp
  moreover have "disk ?p (s_dev s5) b = disk ?p (s_dev s4) b" using s5 b(2) by simp
  ultimately show ?thesis using s4(4) d3 b(1) by simp
qed

end

end
