(* ===== verification/Mkfs.thy ===== *)
theory Mkfs
  imports SwiftfsMount
begin

text \<open>
  The image builder, \<open>tools/mkfs.swiftfs2.c\<close>. The image file is a function from byte offsets to bytes, all zero
  after the first loop; \<open>fseek\<close> and \<open>fwrite\<close> are \<open>img_write\<close>, \<open>fseek\<close> and \<open>fread\<close> are \<open>img_read\<close>. The structures are
  those of \<open>SwiftfsFormat\<close>, whose layout the tool repeats. What the tool reads from its surroundings is an
  argument: the number \<open>atol\<close> gives for the size, and whether \<open>fopen\<close> and \<open>calloc\<close> succeed. A write outside the
  bitmap buffer, which is undefined, is \<^const>\<open>None\<close>.
\<close>

type_synonym image = "nat \<Rightarrow> u8"

definition img_write :: "image \<Rightarrow> nat \<Rightarrow> u8 list \<Rightarrow> image" where
  "img_write im off bs = (\<lambda>a. if off \<le> a \<and> a < off + length bs then bs ! (a - off) else im a)"

definition img_read :: "image \<Rightarrow> nat \<Rightarrow> nat \<Rightarrow> u8 list" where
  "img_read im off n = map (\<lambda>j. im (off + j)) [0..<n]"

section \<open>Geometry\<close>

definition SWIFTFS2_INODES_PER_GROUP :: u32 where "SWIFTFS2_INODES_PER_GROUP = 4096"
definition SWIFTFS2_INODE_SIZE :: u32 where "SWIFTFS2_INODE_SIZE = 128"
definition FILE_TYPE_DIR :: u8 where "FILE_TYPE_DIR = 2"
definition journal_size_blocks :: int where "journal_size_blocks = 8192"

definition mk_num_blocks :: "u64 \<Rightarrow> u64" where
  "mk_num_blocks size_mb = (size_mb * 1024 * 1024) div 4096"

definition mk_nr_groups :: "u64 \<Rightarrow> int" where
  "mk_nr_groups num_blocks = to_int ((num_blocks + 32768 - 1) div 32768)"

definition mk_gd_blocks :: "int \<Rightarrow> int" where
  "mk_gd_blocks nr_groups = (nr_groups + 128 - 1) sdiv 128"

definition mk_journal_block :: "u64 \<Rightarrow> u64" where
  "mk_journal_block num_blocks = num_blocks - of_int journal_size_blocks"

definition inode_table_blocks :: u32 where
  "inode_table_blocks = (SWIFTFS2_INODES_PER_GROUP * SWIFTFS2_INODE_SIZE + 4096 - 1) div 4096"

section \<open>Groups\<close>

primrec bitmap_set_loop :: "nat list \<Rightarrow> u32 \<Rightarrow> u8 list \<Rightarrow> u8 list option" where
  "bitmap_set_loop [] start bm = Some bm"
| "bitmap_set_loop (i # is) start bm =
     (let byte = unat ((start + of_nat i) div 8); b = unat ((start + of_nat i) mod 8) in
      if byte < length bm then bitmap_set_loop is start (bm[byte := bm ! byte OR push_bit b 1]) else None)"

definition bitmap_set_range :: "u8 list \<Rightarrow> u32 \<Rightarrow> u32 \<Rightarrow> u8 list option" where
  "bitmap_set_range bm start count = bitmap_set_loop [0..<unat count] start bm"

definition mk_group_start :: "nat \<Rightarrow> u32" where
  "mk_group_start g = of_nat g * 32768"

definition mk_bitmap_block :: "int \<Rightarrow> nat \<Rightarrow> u32" where
  "mk_bitmap_block gd_blocks g = (if g = 0 then 1 + of_int gd_blocks else mk_group_start g)"

definition mk_used_blocks :: "int \<Rightarrow> nat \<Rightarrow> u32" where
  "mk_used_blocks gd_blocks g = (if g = 0 then 1 + of_int gd_blocks + 1 + inode_table_blocks else 1 + inode_table_blocks)"

definition mk_gd :: "int \<Rightarrow> int \<Rightarrow> nat \<Rightarrow> swiftfs2_gd" where
  "mk_gd nr_groups gd_blocks g =
     (let free = 32768 - mk_used_blocks gd_blocks g
      in \<lparr>gd_block_bitmap_block = mk_bitmap_block gd_blocks g, gd_inode_table_block = mk_bitmap_block gd_blocks g + 1,
          gd_free_blocks_count = (if int g = nr_groups - 1 then free - of_int journal_size_blocks else free),
          gd_free_inodes_count = SWIFTFS2_INODES_PER_GROUP, gd_pad = replicate 4 0\<rparr>)"

text \<open>What a group takes from the count of free blocks of the superblock.\<close>

definition mk_taken :: "int \<Rightarrow> int \<Rightarrow> nat \<Rightarrow> u32" where
  "mk_taken nr_groups gd_blocks g =
     (if int g = nr_groups - 1 then mk_used_blocks gd_blocks g + of_int journal_size_blocks else mk_used_blocks gd_blocks g)"

definition mk_bitmap :: "u64 \<Rightarrow> int \<Rightarrow> int \<Rightarrow> nat \<Rightarrow> u8 list option" where
  "mk_bitmap journal_block nr_groups gd_blocks g =
     Option.bind (bitmap_set_range (replicate 4096 0) 0 (mk_used_blocks gd_blocks g)) (\<lambda>bm.
       if int g = nr_groups - 1
       then bitmap_set_range bm (ucast (journal_block - ucast (mk_group_start g))) (of_int journal_size_blocks)
       else Some bm)"

primrec mk_groups :: "u64 \<Rightarrow> int \<Rightarrow> int \<Rightarrow> nat list \<Rightarrow> u64 \<times> image \<Rightarrow> (u64 \<times> image) option" where
  "mk_groups journal_block nr_groups gd_blocks [] st = Some st"
| "mk_groups journal_block nr_groups gd_blocks (g # gs) st =
     Option.bind (mk_bitmap journal_block nr_groups gd_blocks g) (\<lambda>bm.
       mk_groups journal_block nr_groups gd_blocks gs
         (fst st - ucast (mk_taken nr_groups gd_blocks g),
          img_write (snd st) (unat (mk_bitmap_block gd_blocks g) * 4096) bm))"

section \<open>Superblock and root directory\<close>

definition mk_super :: "u64 \<Rightarrow> int \<Rightarrow> int \<Rightarrow> u64 \<Rightarrow> swiftfs2_super" where
  "mk_super num_blocks nr_groups gd_blocks free_blocks =
     \<lparr>sb_magic = SWIFTFS2_MAGIC, sb_block_size = 4096, sb_num_blocks = num_blocks,
      sb_inode_count = of_int nr_groups * 4096, sb_free_blocks = free_blocks, sb_free_inodes = of_int nr_groups * 4096 - 1,
      sb_blocks_per_group = 32768, sb_inodes_per_group = SWIFTFS2_INODES_PER_GROUP, sb_group_desc_count = of_int gd_blocks,
      sb_inode_size = SWIFTFS2_INODE_SIZE, sb_journal_block = mk_journal_block num_blocks,
      sb_journal_size = of_int journal_size_blocks, sb_journal_last = 0,
      sb_uuid = map (\<lambda>c. of_char c) ''swiftfs2-v2-test'', sb_volume_name = map (\<lambda>c. of_char c) ''root'' @ replicate 28 0,
      sb_pad = replicate 3960 0\<rparr>"

text \<open>The search for the block of the root directory; 0 if all bitmaps are full.\<close>

primrec mk_root_block :: "int \<Rightarrow> nat list \<Rightarrow> image \<Rightarrow> u32 \<times> image" where
  "mk_root_block gd_blocks [] im = (0, im)"
| "mk_root_block gd_blocks (g # gs) im =
     (let off = unat (mk_bitmap_block gd_blocks g) * 4096; bm = img_read im off 4096 in
      case find (\<lambda>i. \<not> bit_test bm i) [0..<32768] of
        Some i \<Rightarrow> (mk_group_start g + of_nat i, img_write im off (bit_set bm i))
      | None \<Rightarrow> mk_root_block gd_blocks gs im)"

definition mk_root_inode :: "u32 \<Rightarrow> swiftfs2_inode" where
  "mk_root_inode root_data_block = inode_zero\<lparr>in_mode := S_IFDIR OR 0x1ED, in_size := 4096, in_block_count := 1,
     in_direct := (replicate 12 0)[0 := root_data_block]\<rparr>"

definition mk_dir_block :: "u8 list" where
  "mk_dir_block =
     le_enc 4 (1 :: u32) @ le_enc 2 (12 :: u16) @ [1, FILE_TYPE_DIR] @ [46, 0, 0, 0] @
     le_enc 4 (1 :: u32) @ le_enc 2 (12 :: u16) @ [2, FILE_TYPE_DIR] @ [46, 46, 0, 0] @
     le_enc 4 (0 :: u32) @ le_enc 2 (4096 - 12 - 12 :: u16) @ replicate 4066 0"

definition gd_table :: "int \<Rightarrow> int \<Rightarrow> u8 list" where
  "gd_table nr_groups gd_blocks = concat (map (\<lambda>g. enc_gd (mk_gd nr_groups gd_blocks g)) [0..<nat nr_groups])"

section \<open>The tool\<close>

text \<open>The exit code and the image.\<close>

definition mkfs :: "bool \<Rightarrow> u64 \<Rightarrow> (int \<times> image) option" where
  "mkfs calloc_ok size_mb =
     (let num_blocks = mk_num_blocks size_mb; nr_groups = mk_nr_groups num_blocks; gd_blocks = mk_gd_blocks nr_groups;
          im0 = (\<lambda>_. 0)
      in if \<not> calloc_ok then Some (1, im0)
         else
           Option.bind (mk_groups (mk_journal_block num_blocks) nr_groups gd_blocks [0..<nat nr_groups] (num_blocks, im0)) (\<lambda>(free, im1).
             let im2 = img_write im1 0 (enc_super (mk_super num_blocks nr_groups gd_blocks free));
                 im3 = img_write im2 4096 (gd_table nr_groups gd_blocks);
                 (root_data_block, im4) = mk_root_block gd_blocks [0..<nat nr_groups] im3
             in if root_data_block = 0 then Some (1, im4)
                else
                  let gd0 = mk_gd nr_groups gd_blocks 0;
                      im5 = img_write im4 (unat (gd_inode_table_block gd0) * 4096 + 128) (enc_inode (mk_root_inode root_data_block));
                      im6 = img_write im5 (unat root_data_block * 4096) mk_dir_block;
                      im7 = img_write im6 4096 (enc_gd (gd0\<lparr>gd_free_inodes_count := gd_free_inodes_count gd0 - 1\<rparr>))
                  in Some (0, im7)))"

definition mkfs_main :: "int \<Rightarrow> u64 \<Rightarrow> bool \<Rightarrow> bool \<Rightarrow> (int \<times> image option) option" where
  "mkfs_main argc arg2 fopen_ok calloc_ok =
     (if argc < 2 then Some (1, None)
      else
        let size_mb = (if argc \<ge> 3 then arg2 else 128); size_mb = (if size_mb < 1 then 1 else size_mb)
        in if \<not> fopen_ok then Some (1, None)
           else map_option (\<lambda>(r, im). (r, Some im)) (mkfs calloc_ok size_mb))"

end
