(* ===== verification/MkfsProps.thy ===== *)
theory MkfsProps
  imports Mkfs
begin

text \<open>
  What the image builder builds: for every size whose last group holds the journal, an image that the file system
  mounts, with an empty root directory and exactly the blocks of the metadata, the journal and the root directory
  in use.
\<close>

section \<open>Images\<close>

definition blk :: "image \<Rightarrow> nat \<Rightarrow> u8 list" where "blk im b = img_read im (b * 4096) 4096"

lemma length_img_read [simp]: "length (img_read im off n) = n"
  by (simp add: img_read_def)

lemma nth_img_read [simp]: "j < n \<Longrightarrow> img_read im off n ! j = im (off + j)"
  by (simp add: img_read_def)

lemma length_blk [simp]: "length (blk im b) = 4096"
  by (simp add: blk_def)

lemma nth_blk: "j < 4096 \<Longrightarrow> blk im b ! j = im (b * 4096 + j)"
  by (simp add: blk_def)

lemma blk_write:
  assumes "k + length bs \<le> 4096"
  shows "blk (img_write im (b * 4096 + k) bs) b' = (if b' = b then blit (blk im b) k bs else blk im b')"
proof (rule nth_equalityI)
  show "length (blk (img_write im (b * 4096 + k) bs) b') = length (if b' = b then blit (blk im b) k bs else blk im b')"
    using assms by (simp add: length_blit)
  fix j assume "j < length (blk (img_write im (b * 4096 + k) bs) b')"
  then have j: "j < 4096" by simp
  show "blk (img_write im (b * 4096 + k) bs) b' ! j = (if b' = b then blit (blk im b) k bs else blk im b') ! j"
  proof (cases "b' = b")
    case True
    then show ?thesis using j assms by (auto simp: img_write_def nth_blit nth_blk)
  next
    case False
    then have "b' < b \<or> b < b'" by arith
    then have "b' * 4096 + j < b * 4096 + k \<or> b * 4096 + k + length bs \<le> b' * 4096 + j" using j assms by auto
    then show ?thesis using j False by (auto simp: img_write_def nth_blk)
  qed
qed

lemma blk_write_all: "length bs = 4096 \<Longrightarrow> blk (img_write im (b * 4096) bs) b' = (if b' = b then bs else blk im b')"
  using blk_write[of 0 bs im b b'] by (simp add: blit_def)

section \<open>Bitmaps\<close>

lemma set_loop_bits:
  assumes "\<forall>i\<in>set is. unat start + i < 8 * length bm \<and> unat start + i < 2 ^ 32"
  shows "\<exists>bm'. bitmap_set_loop is start bm = Some bm' \<and> length bm' = length bm \<and>
    (\<forall>n<8 * length bm. bit_test bm' n \<longleftrightarrow> bit_test bm n \<or> n \<in> (+) (unat start) ` set is)"
  using assms
proof (induction "is" arbitrary: bm)
  case (Cons i "is")
  let ?n = "unat start + i"
  have n: "?n < 8 * length bm" "unat (start + of_nat i) = ?n"
    using Cons.prems by (auto simp: unat_add_small unat_of_nat_small)
  obtain bm' where b: "bitmap_set_loop is start (bit_set bm ?n) = Some bm'" "length bm' = length bm"
    "\<forall>m<8 * length bm. bit_test bm' m \<longleftrightarrow> bit_test (bit_set bm ?n) m \<or> m \<in> (+) (unat start) ` set is"
    using Cons.IH[of "bit_set bm ?n"] Cons.prems by (auto simp: bit_set_def)
  have "bitmap_set_loop (i # is) start bm = Some bm'"
    using n b(1)[unfolded bit_set_def] by (simp add: Let_def unat_div unat_mod div_less_iff_less_mult)
  then show ?case using b n(1) bm.test_mark[of ?n bm] by auto
qed simp

lemma set_range_bits:
  assumes "unat start + unat count \<le> 8 * length bm" "unat start + unat count \<le> 2 ^ 32"
  obtains bm' where "bitmap_set_range bm start count = Some bm'" "length bm' = length bm"
    "\<And>n. n < 8 * length bm \<Longrightarrow> bit_test bm' n \<longleftrightarrow> bit_test bm n \<or> unat start \<le> n \<and> n < unat start + unat count"
proof -
  have "\<exists>bm'. bitmap_set_loop [0..<unat count] start bm = Some bm' \<and> length bm' = length bm \<and>
    (\<forall>n<8 * length bm. bit_test bm' n \<longleftrightarrow> bit_test bm n \<or> n \<in> (+) (unat start) ` set [0..<unat count])"
    by (rule set_loop_bits) (use assms in auto)
  moreover have "n \<in> (+) (unat start) ` set [0..<unat count] \<longleftrightarrow> unat start \<le> n \<and> n < unat start + unat count" for n
    by (auto simp: image_iff intro: bexI[of _ "n - unat start"])
  ultimately show thesis using that unfolding bitmap_set_range_def by (simp del: set_upt) blast
qed

section \<open>Geometry of a sound size\<close>

definition mk_blocks :: "nat \<Rightarrow> nat" where "mk_blocks m = 256 * m"
definition mk_nr :: "nat \<Rightarrow> nat" where "mk_nr m = (mk_blocks m + 32767) div 32768"

text \<open>Sizes in MiB for which the journal fits into the last group behind the metadata.\<close>

definition size_ok :: "nat \<Rightarrow> bool" where
  "size_ok m \<longleftrightarrow> 33 \<le> m \<and> m \<le> 16384 \<and> 31 \<le> (m - 1) mod 128"

lemma mk_nr_eq: "0 < m \<Longrightarrow> mk_nr m = (m - 1) div 128 + 1"
proof -
  assume m: "0 < m"
  have "(256 * m + 32767) div 32768 = (256 * m + 32767) div 256 div 128" by (simp flip: div_mult2_eq)
  also have "(256 * m + 32767) div 256 = m - 1 + 128" using m by (simp add: div_add1_eq)
  finally show ?thesis by (simp add: mk_nr_def mk_blocks_def)
qed

lemma geometry_nat:
  assumes "size_ok m"
  shows "0 < mk_nr m" "mk_nr m \<le> 128" "mk_blocks m \<le> 4194304" "8324 \<le> mk_blocks m" "m \<le> 16384"
    "32768 * (mk_nr m - 1) + 8192 \<le> mk_blocks m" "mk_blocks m \<le> 32768 * mk_nr m"
proof -
  have m: "33 \<le> m" "m \<le> 16384" "31 \<le> (m - 1) mod 128" using assms by (simp_all add: size_ok_def)
  then show b: "mk_blocks m \<le> 4194304" "8324 \<le> mk_blocks m" "m \<le> 16384" by (simp_all add: mk_blocks_def)
  have nr: "mk_nr m = (m - 1) div 128 + 1" using m by (simp add: mk_nr_eq)
  obtain q r where qr: "m - 1 = 128 * q + r" "q = (m - 1) div 128" "r = (m - 1) mod 128" "r < 128" using that by simp
  show n: "0 < mk_nr m" "mk_nr m \<le> 128" unfolding nr qr(2)[symmetric] using qr(1) m(2) by simp_all
  show "32768 * (mk_nr m - 1) + 8192 \<le> mk_blocks m" "mk_blocks m \<le> 32768 * mk_nr m"
    unfolding nr qr(2)[symmetric] mk_blocks_def using m qr(1,3,4) by simp_all
qed

lemma word64: "x < 2 ^ 64 \<Longrightarrow> unat (of_nat x :: u64) = x"
  by (rule unat_of_nat_small) simp

lemma ucast_of_nat_small: "x < 2 ^ 32 \<Longrightarrow> (ucast (of_nat x :: u64) :: u32) = of_nat x"
  by (simp only: word_unat_eq_iff) (simp add: unat_ucast_small word64 unat_of_nat_small)

lemma geometry:
  assumes "size_ok m"
  shows "mk_num_blocks (of_nat m) = of_nat (mk_blocks m)" "mk_nr_groups (of_nat (mk_blocks m)) = int (mk_nr m)"
    "mk_gd_blocks (int (mk_nr m)) = 1" "mk_journal_block (of_nat (mk_blocks m)) = of_nat (mk_blocks m - 8192)"
proof -
  note g = geometry_nat[OF assms]
  show "mk_num_blocks (of_nat m) = of_nat (mk_blocks m)"
  proof -
    have e: "(of_nat m * 1024 * 1024 :: u64) = of_nat (m * 1048576)" by simp
    have "unat (of_nat (m * 1048576) :: u64) = m * 1048576" by (rule word64) (use g(5) in simp)
    then have "unat (mk_num_blocks (of_nat m)) = m * 1048576 div 4096" unfolding mk_num_blocks_def e by (simp only: unat_div) simp
    also have "\<dots> = unat (of_nat (mk_blocks m) :: u64)" by (subst word64) (use g(3) in \<open>simp_all add: mk_blocks_def\<close>)
    finally show ?thesis by (simp add: word_unat_eq_iff)
  qed
  have "(of_nat (mk_blocks m) + 32768 - 1 :: u64) = of_nat (mk_blocks m + 32767)" by simp
  moreover have "unat (of_nat (mk_blocks m + 32767) :: u64) = mk_blocks m + 32767" by (rule word64) (use g(3) in simp)
  ultimately have "unat ((of_nat (mk_blocks m) + 32768 - 1) div 32768 :: u64) = mk_nr m" by (simp only: unat_div) (simp add: mk_nr_def)
  then have e: "(of_nat (mk_blocks m) + 32768 - 1) div 32768 = (of_nat (mk_nr m) :: u64)"
    using g(2) by (simp only: word_unat_eq_iff) (simp add: word64)
  have "(ucast (of_nat (mk_nr m) :: u64) :: u32) = of_nat (mk_nr m)"
    using g(2) by (intro ucast_of_nat_small) simp
  then have "to_int (of_nat (mk_nr m)) = int (mk_nr m)"
    using g(2) unfolding to_int_def by (subst sint_small) (simp_all add: unat_of_nat_small)
  then show "mk_nr_groups (of_nat (mk_blocks m)) = int (mk_nr m)" unfolding mk_nr_groups_def e .
  have "(int (mk_nr m) + 127) div 128 = 1" using g(1,2) by simp
  then show "mk_gd_blocks (int (mk_nr m)) = 1" using g(1) by (simp add: mk_gd_blocks_def signed_divide_int_def)
  show "mk_journal_block (of_nat (mk_blocks m)) = of_nat (mk_blocks m - 8192)"
    using g(4) by (simp add: mk_journal_block_def journal_size_blocks_def of_nat_diff)
qed

section \<open>The bitmaps of an image\<close>

lemma used_blocks: "unat (mk_used_blocks 1 g) = (if g = 0 then 131 else 129)"
  by (simp add: mk_used_blocks_def inode_table_blocks_def SWIFTFS2_INODES_PER_GROUP_def SWIFTFS2_INODE_SIZE_def)

lemma bitmap_block: "g < 128 \<Longrightarrow> unat (mk_bitmap_block 1 g) = (if g = 0 then 2 else g * 32768)"
proof -
  assume "g < 128"
  then have "unat (of_nat g * 32768 :: u32) = g * 32768"
    using unat_of_nat_small[of "g * 32768", where 'a = 32] by simp
  then show ?thesis by (simp add: mk_bitmap_block_def mk_group_start_def)
qed

text \<open>Whether block \<open>i\<close> of group \<open>g\<close> belongs to the metadata or to the journal.\<close>

definition mk_reserved :: "nat \<Rightarrow> nat \<Rightarrow> nat \<Rightarrow> bool" where
  "mk_reserved m g i \<longleftrightarrow> i < (if g = 0 then 131 else 129) \<or>
     g = mk_nr m - 1 \<and> mk_blocks m - 8192 \<le> 32768 * g + i \<and> 32768 * g + i < mk_blocks m"

lemma zero_bits: "n < 32768 \<Longrightarrow> \<not> bit_test (replicate 4096 0) n"
  by (simp add: bit_test_def div_less_iff_less_mult)

lemma group_start64: "g < 128 \<Longrightarrow> (ucast (mk_group_start g) :: u64) = of_nat (32768 * g)"
proof -
  assume g: "g < 128"
  then have "unat (mk_group_start g) = 32768 * g"
    unfolding mk_group_start_def using unat_of_nat_small[of "32768 * g", where 'a = 32] by (simp add: mult.commute)
  moreover have "unat (ucast (mk_group_start g) :: u64) = unat (mk_group_start g)" by (rule unat_ucast_up) simp
  moreover have "unat (of_nat (32768 * g) :: u64) = 32768 * g" by (rule word64) (use g in simp)
  ultimately show ?thesis by (simp only: word_unat_eq_iff)
qed

lemma mk_bitmap_bits:
  assumes ok: "size_ok m" and g: "g < mk_nr m"
  obtains bm where "mk_bitmap (of_nat (mk_blocks m - 8192)) (int (mk_nr m)) 1 g = Some bm" "length bm = 4096"
    "\<And>i. i < 32768 \<Longrightarrow> bit_test bm i \<longleftrightarrow> mk_reserved m g i"
proof -
  note geo = geometry_nat[OF ok]
  have u: "unat (0 :: u32) + unat (mk_used_blocks 1 g) \<le> 8 * length (replicate 4096 (0 :: u8))" "unat (0 :: u32) + unat (mk_used_blocks 1 g) \<le> 2 ^ 32"
    by (simp_all add: used_blocks)
  obtain b1 where b1: "bitmap_set_range (replicate 4096 0) 0 (mk_used_blocks 1 g) = Some b1" "length b1 = 4096"
    "\<And>n. n < 32768 \<Longrightarrow> bit_test b1 n \<longleftrightarrow> n < (if g = 0 then 131 else 129)"
    by (rule set_range_bits[OF u]) (use zero_bits in \<open>auto simp: used_blocks\<close>)
  show thesis
  proof (cases "g = mk_nr m - 1")
    case False
    then have "int g \<noteq> int (mk_nr m) - 1" using g by linarith
    then have "mk_bitmap (of_nat (mk_blocks m - 8192)) (int (mk_nr m)) 1 g = Some b1" by (simp add: mk_bitmap_def b1(1))
    then show thesis by (rule that) (use False b1 in \<open>auto simp: mk_reserved_def\<close>)
  next
    case True
    define j where "j = mk_blocks m - 8192 - 32768 * g"
    have le: "32768 * g + 8192 \<le> mk_blocks m" "mk_blocks m \<le> 32768 * g + 32768" using True geo(1,6,7) by simp_all
    have "(of_nat (mk_blocks m - 8192) - ucast (mk_group_start g) :: u64) = of_nat (mk_blocks m - 8192 - 32768 * g)"
      using group_start64[of g] True geo(2) le by (simp add: of_nat_diff)
    then have "(of_nat (mk_blocks m - 8192) - ucast (mk_group_start g) :: u64) = of_nat j" by (simp add: j_def)
    moreover have "j \<le> 24576" using le by (simp add: j_def)
    ultimately have js: "ucast (of_nat (mk_blocks m - 8192) - ucast (mk_group_start g) :: u64) = (of_nat j :: u32)" "unat (of_nat j :: u32) = j"
      by (simp_all add: ucast_of_nat_small unat_of_nat_small)
    have js2: "unat (of_nat j :: u32) + unat (8192 :: u32) \<le> 8 * length b1" "unat (of_nat j :: u32) + unat (8192 :: u32) \<le> 2 ^ 32"
      using \<open>j \<le> 24576\<close> b1(2) js(2) by simp_all
    obtain b2 where b2: "bitmap_set_range b1 (of_nat j) 8192 = Some b2" "length b2 = 4096"
      "\<And>n. n < 32768 \<Longrightarrow> bit_test b2 n \<longleftrightarrow> bit_test b1 n \<or> j \<le> n \<and> n < j + 8192"
      by (rule set_range_bits[OF js2]) (use b1(2) js(2) in auto)
    have "mk_bitmap (of_nat (mk_blocks m - 8192)) (int (mk_nr m)) 1 g = Some b2"
    proof -
      have "int g = int (mk_nr m) - 1" using True geo(1) by linarith
      then show ?thesis unfolding mk_bitmap_def b1(1) bind.bind_lunit js(1) by (simp add: journal_size_blocks_def b2(1))
    qed
    moreover have "bit_test b2 i \<longleftrightarrow> mk_reserved m g i" if "i < 32768" for i
    proof -
      have "j \<le> i \<and> i < j + 8192 \<longleftrightarrow> mk_blocks m - 8192 \<le> 32768 * g + i \<and> 32768 * g + i < mk_blocks m"
        using le unfolding j_def by linarith
      then show ?thesis using b2(3)[OF that] b1(3)[OF that] True by (simp add: mk_reserved_def)
    qed
    ultimately show thesis using b2(2) that by blast
  qed
qed

section \<open>The blocks of an image\<close>

definition bbn :: "nat \<Rightarrow> nat" where "bbn g = (if g = 0 then 2 else g * 32768)"

lemma bbn_inj: "bbn g = bbn h \<Longrightarrow> g = h"
  by (auto simp: bbn_def split: if_splits)

definition mk_bits :: "nat \<Rightarrow> nat \<Rightarrow> u8 list" where
  "mk_bits m g = the (mk_bitmap (of_nat (mk_blocks m - 8192)) (int (mk_nr m)) 1 g)"

lemma mk_bits:
  assumes "size_ok m" "g < mk_nr m"
  shows "mk_bitmap (of_nat (mk_blocks m - 8192)) (int (mk_nr m)) 1 g = Some (mk_bits m g)" "length (mk_bits m g) = 4096"
    "i < 32768 \<Longrightarrow> bit_test (mk_bits m g) i \<longleftrightarrow> mk_reserved m g i"
  using mk_bitmap_bits[OF assms] by (metis mk_bits_def option.sel)+

lemma mk_groups_blocks:
  assumes ok: "size_ok m" and gs: "\<forall>g\<in>set gs. g < mk_nr m" "distinct gs"
  shows "\<exists>free im'. mk_groups (of_nat (mk_blocks m - 8192)) (int (mk_nr m)) 1 gs (f, im) = Some (free, im') \<and>
    (\<forall>g\<in>set gs. blk im' (bbn g) = mk_bits m g) \<and> (\<forall>b. b \<notin> bbn ` set gs \<longrightarrow> blk im' b = blk im b)"
  using gs
proof (induction gs arbitrary: f im)
  case (Cons g gs)
  have g: "g < mk_nr m" "g < 128" using Cons.prems geometry_nat(2)[OF ok] by auto
  note bm = mk_bits[OF ok g(1)]
  let ?im = "img_write im (bbn g * 4096) (mk_bits m g)"
  obtain free im' where r: "mk_groups (of_nat (mk_blocks m - 8192)) (int (mk_nr m)) 1 gs (f - ucast (mk_taken (int (mk_nr m)) 1 g), ?im) = Some (free, im')"
    "\<forall>g\<in>set gs. blk im' (bbn g) = mk_bits m g" "\<forall>b. b \<notin> bbn ` set gs \<longrightarrow> blk im' b = blk ?im b"
    using Cons.IH[of "f - ucast (mk_taken (int (mk_nr m)) 1 g)" ?im] Cons.prems by auto
  have nin: "bbn g \<notin> bbn ` set gs" using Cons.prems(2) bbn_inj by (metis distinct.simps(2) image_iff)
  have run: "mk_groups (of_nat (mk_blocks m - 8192)) (int (mk_nr m)) 1 (g # gs) (f, im) = Some (free, im')"
    using r(1) by (simp only: mk_groups.simps bm(1) bind.bind_lunit fst_conv snd_conv bitmap_block[OF g(2), folded bbn_def])
  have "blk im' (bbn g) = mk_bits m g" using r(3) nin blk_write_all[OF bm(2), of im "bbn g" "bbn g"] by metis
  moreover have "blk im' b = blk im b" if "b \<notin> bbn ` set (g # gs)" for b
    using r(3) that blk_write_all[OF bm(2), of im "bbn g" b] by auto
  ultimately show ?case using run r(2) by auto
qed simp

lemma length_concat_same: "\<forall>x\<in>set xs. length (f x) = n \<Longrightarrow> length (concat (map f xs)) = n * length xs"
  by (induction xs) simp_all

lemma concat_piece: "\<forall>x\<in>set xs. length (f x) = n \<Longrightarrow> i < length xs \<Longrightarrow> take n (drop (n * i) (concat (map f xs))) = f (xs ! i)"
proof (induction xs arbitrary: i)
  case (Cons x xs)
  then show ?case by (cases i) simp_all
qed simp

lemma dec_gd_at:
  assumes "take 32 (drop k bs) = enc_gd g" "length (gd_pad g) = 4" "k \<le> length bs"
  shows "dec_gd bs k = g"
proof -
  have "bs = take k bs @ enc_gd g @ drop 32 (drop k bs)" using assms(1) by (metis append_take_drop_id)
  then show ?thesis using dec_enc_gd[OF assms(2), of "take k bs" k "drop 32 (drop k bs)"] assms(3) by simp
qed

lemma gd_pad_mk [simp]: "length (gd_pad (mk_gd nr gb g)) = 4"
  by (simp add: mk_gd_def Let_def)

definition mk_gd0 :: "nat \<Rightarrow> swiftfs2_gd" where
  "mk_gd0 m = (mk_gd (int (mk_nr m)) 1 0)\<lparr>gd_free_inodes_count := 4095\<rparr>"

lemma table_decodes:
  assumes "size_ok m" "g < mk_nr m" "bs = blit (blit (replicate 4096 0) 0 (gd_table (int (mk_nr m)) 1)) 0 (enc_gd (mk_gd0 m))"
  shows "dec_gd bs (32 * g) = (if g = 0 then mk_gd0 m else mk_gd (int (mk_nr m)) 1 g)"
proof -
  let ?f = "\<lambda>g. enc_gd (mk_gd (int (mk_nr m)) 1 g)"
  have nr: "mk_nr m \<le> 128" "0 < mk_nr m" using geometry_nat[OF assms(1)] by simp_all
  have l: "\<forall>x\<in>set [0..<mk_nr m]. length (?f x) = 32" by (simp add: length_enc_gd)
  have tab: "length (gd_table (int (mk_nr m)) 1) = 32 * mk_nr m" unfolding gd_table_def using length_concat_same[OF l] by simp
  have l0: "length (enc_gd (mk_gd0 m)) = 32" "length (gd_pad (mk_gd0 m)) = 4" by (simp_all add: length_enc_gd mk_gd0_def)
  have lb: "length bs = 4096" using nr tab l0 by (simp add: assms(3) length_blit)
  have bsd: "bs = enc_gd (mk_gd0 m) @ drop 32 (gd_table (int (mk_nr m)) 1) @ replicate (4096 - 32 * mk_nr m) 0"
    using nr tab l0 by (simp add: assms(3) blit_def)
  show ?thesis
  proof (cases "g = 0")
    case True
    have "dec_gd bs 0 = mk_gd0 m" by (rule dec_gd_at) (simp_all add: bsd l0)
    then show ?thesis using True by simp
  next
    case False
    have "take 32 (drop (32 * g) bs) = take 32 (drop (32 * g) (gd_table (int (mk_nr m)) 1))"
    proof -
      have "drop (32 * g) bs = drop (32 * g) (gd_table (int (mk_nr m)) 1) @ replicate (4096 - 32 * mk_nr m) 0"
        unfolding bsd using False l0 tab assms(2) by simp
      then show ?thesis using tab assms(2) by simp
    qed
    also have "\<dots> = ?f g" unfolding gd_table_def using concat_piece[OF l, of g] assms(2) by simp
    finally show ?thesis using dec_gd_at[of "32 * g" bs "mk_gd (int (mk_nr m)) 1 g"] lb nr assms(2) False by simp
  qed
qed

lemma root_block_found:
  assumes ok: "size_ok m" and b2: "blk im 2 = mk_bits m 0"
  shows "mk_root_block 1 [0..<mk_nr m] im = (131, img_write im (2 * 4096) (bit_set (mk_bits m 0) 131))"
proof -
  note geo = geometry_nat[OF ok]
  have 131: "\<not> mk_reserved m 0 131" using geo by (auto simp: mk_reserved_def)
  have f: "find (\<lambda>i. \<not> bit_test (mk_bits m 0) i) [0..<32768] = Some 131"
    unfolding find_upt_Some using mk_bits(3)[OF ok geo(1)] 131 by (auto simp: mk_reserved_def)
  have "[0..<mk_nr m] = 0 # [1..<mk_nr m]" using geo(1) by (simp add: upt_conv_Cons)
  moreover have "unat (mk_bitmap_block 1 0) = 2" using bitmap_block[of 0] by simp
  ultimately show ?thesis using b2[unfolded blk_def] f by (simp add: Let_def mk_group_start_def)
qed

lemma super_wf_mk: "super_wf (mk_super nb nr gb f)"
  by (simp add: super_wf_def mk_super_def)

lemma root_wf: "inode_wf (mk_root_inode b)"
  by (simp add: inode_wf_def mk_root_inode_def inode_zero_def)

lemma length_dir_block [simp]: "length mk_dir_block = 4096"
  by (simp add: mk_dir_block_def)

text \<open>The finished image, block by block.\<close>

definition image_ok :: "nat \<Rightarrow> u64 \<Rightarrow> image \<Rightarrow> bool" where
  "image_ok m free im \<longleftrightarrow>
     blk im 0 = enc_super (mk_super (of_nat (mk_blocks m)) (int (mk_nr m)) 1 free) \<and>
     blk im 1 = blit (blit (replicate 4096 0) 0 (gd_table (int (mk_nr m)) 1)) 0 (enc_gd (mk_gd0 m)) \<and>
     blk im 2 = bit_set (mk_bits m 0) 131 \<and>
     blk im 3 = blit (replicate 4096 0) 128 (enc_inode (mk_root_inode 131)) \<and>
     blk im 131 = mk_dir_block \<and> (\<forall>g. 0 < g \<and> g < mk_nr m \<longrightarrow> blk im (g * 32768) = mk_bits m g)"

lemma blk_zero: "blk (\<lambda>_. 0) b = replicate 4096 0"
  by (simp add: blk_def img_read_def map_replicate_const)

lemma mkfs_blocks:
  assumes ok: "size_ok m"
  shows "\<exists>free im. mkfs True (of_nat m) = Some (0, im) \<and> image_ok m free im"
proof -
  note geo = geometry_nat[OF ok] and gw = geometry[OF ok]
  obtain free im1 where g: "mk_groups (of_nat (mk_blocks m - 8192)) (int (mk_nr m)) 1 [0..<mk_nr m] (of_nat (mk_blocks m), \<lambda>_. 0) = Some (free, im1)"
    "\<forall>g\<in>set [0..<mk_nr m]. blk im1 (bbn g) = mk_bits m g" "\<forall>b. b \<notin> bbn ` set [0..<mk_nr m] \<longrightarrow> blk im1 b = blk (\<lambda>_. 0) b"
    using mk_groups_blocks[OF ok, of "[0..<mk_nr m]" "of_nat (mk_blocks m)" "\<lambda>_. 0"] by auto
  define sup where "sup = enc_super (mk_super (of_nat (mk_blocks m)) (int (mk_nr m)) 1 free)"
  define tab where "tab = gd_table (int (mk_nr m)) 1"
  define rin where "rin = enc_inode (mk_root_inode 131)"
  define im2 where "im2 = img_write im1 (0 * 4096) sup"
  define im3 where "im3 = img_write im2 (1 * 4096 + 0) tab"
  define im4 where "im4 = img_write im3 (2 * 4096) (bit_set (mk_bits m 0) 131)"
  define im5 where "im5 = img_write im4 (3 * 4096 + 128) rin"
  define im6 where "im6 = img_write im5 (131 * 4096) mk_dir_block"
  define im7 where "im7 = img_write im6 (1 * 4096 + 0) (enc_gd (mk_gd0 m))"
  have len: "length sup = 4096" "length tab = 32 * mk_nr m" "length (bit_set (mk_bits m 0) 131) = 4096" "length rin = 106" "length (enc_gd (mk_gd0 m)) = 32"
    using length_concat_same[of "[0..<mk_nr m]" "\<lambda>g. enc_gd (mk_gd (int (mk_nr m)) 1 g)" 32] length_enc_inode[OF root_wf] mk_bits(2)[OF ok geo(1)]
    by (simp_all add: sup_def tab_def rin_def length_enc_super super_wf_mk gd_table_def length_enc_gd INODE_BYTES_def bit_set_def mk_gd0_def)
  have z: "blk im1 b = replicate 4096 0" if "b = 1 \<or> b = 3" for b
  proof -
    have "bbn x \<noteq> b" for x using that by (cases x) (auto simp: bbn_def)
    then have "b \<notin> bbn ` set [0..<mk_nr m]" by blast
    then show ?thesis using g(3) blk_zero by metis
  qed
  have bb: "blk im1 2 = mk_bits m 0" "0 < x \<Longrightarrow> x < mk_nr m \<Longrightarrow> blk im1 (x * 32768) = mk_bits m x" for x
    using bspec[OF g(2), of 0] bspec[OF g(2), of x] geo(1) by (simp_all add: bbn_def)
  note w2 = blk_write_all[OF len(1), of im1 0, folded im2_def] and w4 = blk_write_all[OF len(3), of im3 2, folded im4_def]
    and w6 = blk_write_all[OF length_dir_block, of im5 131, folded im6_def]
  have w3: "blk im3 b = (if b = 1 then blit (blk im2 1) 0 tab else blk im2 b)" for b unfolding im3_def using geo(2) by (subst blk_write) (simp_all add: len)
  have w5: "blk im5 b = (if b = 3 then blit (blk im4 3) 128 rin else blk im4 b)" for b unfolding im5_def by (subst blk_write) (simp_all add: len)
  have w7: "blk im7 b = (if b = 1 then blit (blk im6 1) 0 (enc_gd (mk_gd0 m)) else blk im6 b)" for b unfolding im7_def by (subst blk_write) (simp_all add: len)
  note ws = w2 w3 w4 w5 w6 w7
  have "image_ok m free im7"
    unfolding image_ok_def using z bb(2) by (auto simp: ws sup_def tab_def rin_def)
  moreover have "mkfs True (of_nat m) = Some (0, im7)"
  proof -
    have b2: "blk im3 2 = mk_bits m 0" by (simp add: w3 w2 bb(1))
    have gd0: "unat (gd_inode_table_block (mk_gd (int (mk_nr m)) 1 0)) = 3" "(mk_gd (int (mk_nr m)) 1 0)\<lparr>gd_free_inodes_count := gd_free_inodes_count (mk_gd (int (mk_nr m)) 1 0) - 1\<rparr> = mk_gd0 m"
      by (simp_all add: mk_gd_def Let_def mk_gd0_def mk_bitmap_block_def SWIFTFS2_INODES_PER_GROUP_def)
    have e: "img_write im1 0 sup = im2" "img_write im2 4096 tab = im3" "img_write im4 (3 * 4096 + 128) rin = im5"
      "img_write im5 (131 * 4096) mk_dir_block = im6" "img_write im6 4096 (enc_gd (mk_gd0 m)) = im7"
      by (simp_all add: im2_def im3_def im5_def im6_def im7_def)
    have nat: "nat (int (mk_nr m)) = mk_nr m" "unat (131 :: u32) = 131" "(131 :: u32) \<noteq> 0" by simp_all
    show ?thesis
      unfolding mkfs_def Let_def gw nat g(1) bind.bind_lunit prod.case sup_def[symmetric] tab_def[symmetric] e
        root_block_found[OF ok b2] im4_def[symmetric] gd0 rin_def[symmetric] by simp
  qed
  ultimately show ?thesis by blast
qed

section \<open>Mounting an image\<close>

lemma cview_fresh: "g_cache s = replicate SWIFTFS2_CACHE_SIZE cache_zero \<Longrightarrow> cview disk s b = disk (g_port s) (s_dev s) b"
proof -
  assume "g_cache s = replicate SWIFTFS2_CACHE_SIZE cache_zero"
  then have "find (\<lambda>i. cache_hit b 0 (g_cache s ! i)) [0..<SWIFTFS2_CACHE_SIZE] = None"
    by (auto simp: find_upt_None cache_hit_def cache_zero_def)
  then show ?thesis by (simp add: cview_def)
qed

text \<open>A drive that holds an image.\<close>

definition holds :: "(int \<Rightarrow> 'd \<Rightarrow> u32 \<Rightarrow> u8 list) \<Rightarrow> int \<Rightarrow> 'd \<Rightarrow> nat \<Rightarrow> image \<Rightarrow> bool" where
  "holds disk port d n im \<longleftrightarrow> (\<forall>b<n. disk port d (of_nat b) = blk im b)"

lemma mount_image:
  assumes dev: "block_device D disk works" and ok: "size_ok m" and im: "image_ok m free im"
    and d: "works port (s_dev s)" "holds disk port (s_dev s) (mk_blocks m) im" and s: "\<not> g_mounted s" "super_wf (sb s)"
    and k: "kmalloc 4096 (s_heap s) = (p1, h1)" "p1 \<noteq> 0" "kmalloc (8 * of_nat (mk_nr m)) h1 = (p2, h2)" "p2 \<noteq> 0" "4096 \<le> length garbage"
  obtains d' where "works port d'" "disk port d' = disk port (s_dev s)"
    "swiftfs2_mount D garbage port s =
      (0, s\<lparr>g_port := port, g_cache := replicate SWIFTFS2_CACHE_SIZE cache_zero, s_fds := replicate SWIFTFS2_MAX_FD fd_clear, g_cache_next := 0,
            s_dev := d', sb := mk_super (of_nat (mk_blocks m)) (int (mk_nr m)) 1 free, g_nr_groups := int (mk_nr m), s_heap := h2,
            g_gd := map (\<lambda>k. dec_gd (blk im 1) (32 * k)) [0..<128], g_gd_ptr := p1, g_bitmaps_ptr := p2,
            g_bitmaps := replicate (mk_nr m) None, g_curr_group := 0, g_mounted := True\<rparr>)"
proof -
  note geo = geometry_nat[OF ok] and gw = geometry[OF ok]
  let ?sup = "mk_super (of_nat (mk_blocks m)) (int (mk_nr m)) 1 free"
  let ?s0 = "s\<lparr>g_port := port, g_cache := replicate SWIFTFS2_CACHE_SIZE cache_zero, s_fds := replicate SWIFTFS2_MAX_FD fd_clear, g_cache_next := 0\<rparr>"
  have b01: "disk port (s_dev s) 0 = blk im 0" "disk port (s_dev s) 1 = blk im 1"
    using d(2)[unfolded holds_def, rule_format, of 0] d(2)[unfolded holds_def, rule_format, of 1] geo(4) by simp_all
  obtain d1 where d1: "read_block D 0 ?s0 = (4096, blk im 0, ?s0\<lparr>s_dev := d1\<rparr>)" "works port d1" "disk port d1 = disk port (s_dev s)"
    using block_device.read_block_ok[OF dev, of ?s0 0] d(1) b01(1) by auto
  have sup: "dec_super (blit (enc_super (sb s)) 0 (blk im 0)) = ?sup"
  proof -
    have "blit (enc_super (sb s)) 0 (blk im 0) = blk im 0" using length_enc_super[OF s(2)] by (simp add: blit_def)
    then show ?thesis using im dec_enc_super[OF super_wf_mk] by (simp add: image_ok_def)
  qed
  have sup': "sb_magic ?sup = SWIFTFS2_MAGIC" "sb_block_size ?sup = 4096" "sb_num_blocks ?sup = of_nat (mk_blocks m)" "sint (sb_group_desc_count ?sup) = 1"
    by (simp_all add: mk_super_def)
  have nr: "to_int ((of_nat (mk_blocks m) + 32768 - 1) div 32768) = int (mk_nr m)" using gw(2) by (simp only: mk_nr_groups_def)
  have db: "(to_int (of_int (int (mk_nr m)) * 32) + 4096 - 1) sdiv 4096 = 1"
  proof -
    have "(ucast (of_nat (mk_nr m * 32) :: u64) :: u32) = of_nat (mk_nr m * 32)" using geo(2) by (intro ucast_of_nat_small) simp
    then have "to_int (of_nat (mk_nr m * 32)) = int (mk_nr m * 32)"
      using geo(2) unfolding to_int_def by (subst sint_small) (simp_all add: unat_of_nat_small del: of_nat_mult)
    then have "to_int (of_int (int (mk_nr m)) * 32) = int (mk_nr m * 32)" by simp
    moreover have "(int (mk_nr m * 32) + 4096 - 1) div 4096 = 1" using geo(1,2) by simp
    ultimately show ?thesis using geo(1) by (simp add: signed_divide_int_def)
  qed
  let ?s2 = "?s0\<lparr>s_dev := d1, sb := ?sup, g_nr_groups := int (mk_nr m), s_heap := h1\<rparr>"
  obtain d2 where d2: "read_block D 1 ?s2 = (4096, blk im 1, ?s2\<lparr>s_dev := d2\<rparr>)" "works port d2" "disk port d2 = disk port (s_dev s)"
    using block_device.read_block_ok[OF dev, of ?s2 1] d1(2,3) b01(2) by auto
  have bl: "blit (take 4096 garbage) 0 (blk im 1) = blk im 1" using k(5) by (simp add: blit_def)
  let ?s4 = "?s2\<lparr>s_dev := d2, s_heap := h2, g_gd := map (\<lambda>k. dec_gd (blk im 1) (32 * k)) [0..<128], g_gd_ptr := p1, g_bitmaps_ptr := p2, g_bitmaps := replicate (mk_nr m) None\<rparr>"
  have rb: "read_blocks D [0..<nat 1] (take (nat 1 * 4096) garbage) ?s2 = (blk im 1, ?s2\<lparr>s_dev := d2\<rparr>)"
    using d2(1) bl by simp
  have ld: "load_group_descriptors D garbage (?s0\<lparr>s_dev := d1, sb := ?sup\<rparr>) = (0, ?s4)"
  proof -
    have k2: "kmalloc (8 * of_int (int (mk_nr m))) h1 = (p2, h2)" using k(3) by simp
    have n: "nat 1 * 128 = (128 :: nat)" by simp
    show ?thesis
      unfolding load_group_descriptors_def Let_def
      using k(1,2,4) rb k2 by (simp add: sup' nr[simplified] db[simplified] del: upt_Suc)
  qed
  have run: "swiftfs2_mount D garbage port s = (0, ?s4\<lparr>g_curr_group := 0, g_mounted := True\<rparr>)"
    unfolding swiftfs2_mount_def Let_def using s(1) d1(1) sup ld by (simp add: sup' journal_recover_def)
  show thesis using that[OF d2(2,3)] run by simp
qed

lemma image_gd:
  assumes "size_ok m" "image_ok m free im" "g_gd s = map (\<lambda>k. dec_gd (blk im 1) (32 * k)) [0..<128]" "g < mk_nr m"
  shows "g_gd s ! g = (if g = 0 then mk_gd0 m else mk_gd (int (mk_nr m)) 1 g)"
proof -
  have "blk im 1 = blit (blit (replicate 4096 0) 0 (gd_table (int (mk_nr m)) 1)) 0 (enc_gd (mk_gd0 m))"
    using assms(2) unfolding image_ok_def by blast
  from table_decodes[OF assms(1,4) this] show ?thesis using assms(3,4) geometry_nat(2)[OF assms(1)] by simp
qed

lemma mounted_root:
  assumes "size_ok m" "image_ok m free im" "g_gd s = map (\<lambda>k. dec_gd (blk im 1) (32 * k)) [0..<128]" "cview disk s = dk"
    and "\<And>b. unat b < mk_blocks m \<Longrightarrow> dk b = blk im (unat b)"
  shows "inode_at disk s 1 = mk_root_inode 131"
proof -
  note geo = geometry_nat[OF assms(1)]
  have "gd_inode_table_block (g_gd s ! 0) = 3"
    using image_gd[OF assms(1-3) geo(1)] by (simp add: mk_gd0_def mk_gd_def Let_def mk_bitmap_block_def)
  then have "inode_block_and_offset 1 s = (3, 128)" by (simp add: inode_block_and_offset_def)
  moreover have "dk 3 = blk im 3" using assms(5)[of 3] geo(4) by simp
  moreover have "blk im 3 = replicate 128 0 @ enc_inode (mk_root_inode 131) @ replicate 3862 0"
    using assms(2) length_enc_inode[OF root_wf, of 131] by (simp add: image_ok_def blit_def INODE_BYTES_def)
  ultimately show ?thesis using dec_enc_inode[OF root_wf] by (simp add: inode_at_def assms(4))
qed

lemma mounted_used:
  assumes ok: "size_ok m" and im: "image_ok m free im" and f: "g_port s = port" "s_dev s = d" "g_nr_groups s = int (mk_nr m)"
      "g_gd s = map (\<lambda>k. dec_gd (blk im 1) (32 * k)) [0..<128]" "g_bitmaps s = replicate (mk_nr m) None"
    and dk: "\<And>b. unat b < mk_blocks m \<Longrightarrow> disk port d b = blk im (unat b)" and b: "b < 32768 * mk_nr m"
  shows "block_used disk s (of_nat b) \<longleftrightarrow> mk_reserved m (b div 32768) (b mod 32768) \<or> b = 131"
proof -
  note geo = geometry_nat[OF ok]
  let ?g = "b div 32768" and ?i = "b mod 32768"
  have g: "?g < mk_nr m" "?g < 128" using b geo(2) by (simp_all add: div_less_iff_less_mult mult.commute)
  have u: "unat (of_nat b :: u32) = b" using b geo(2) by (intro unat_of_nat_small) simp
  have bb: "gd_block_bitmap_block (g_gd s ! ?g) = mk_bitmap_block 1 ?g"
    using image_gd[OF ok im f(4) g(1)] by (simp add: mk_gd0_def mk_gd_def Let_def)
  have un: "unat (mk_bitmap_block 1 ?g) = bbn ?g" using bitmap_block[OF g(2)] by (simp add: bbn_def)
  have "bbn ?g < mk_blocks m" using geo(1,4,6) g(1) by (cases "?g = 0") (auto simp: bbn_def)
  then have bits: "group_bits disk s ?g = blk im (bbn ?g)"
    using dk[of "mk_bitmap_block 1 ?g"] un g(1) by (simp add: group_bits_def f(1,2,5) bb)
  have i: "?i < 32768" by simp
  note mb = mk_bits[OF ok g(1)]
  have "bit_test (blk im (bbn ?g)) ?i \<longleftrightarrow> mk_reserved m ?g ?i \<or> b = 131"
  proof (cases "?g = 0")
    case True
    then have e: "blk im (bbn ?g) = bit_set (mk_bits m 0) 131" "?i = b" using im by (auto simp: image_ok_def bbn_def)
    have "bit_test (bit_set (mk_bits m 0) 131) b \<longleftrightarrow> b = 131 \<or> bit_test (mk_bits m 0) b"
      using bm.test_mark[of 131 "mk_bits m 0" b] mb(2) True e(2) i by simp
    then show ?thesis unfolding e using mb(3)[of b] True e(2) i by auto
  next
    case False
    then have "blk im (bbn ?g) = mk_bits m ?g" "b \<noteq> 131" using im g by (auto simp: image_ok_def bbn_def)
    then show ?thesis using mb(3)[OF i] by simp
  qed
  then show ?thesis using g(1) by (simp add: block_used_def u f(3) bits)
qed

lemma dir_names:
  assumes "length name < 256"
  shows "dir_find mk_dir_block name 0 = (if name = [46] \<or> name = [46, 46] then Some 1 else None)"
proof -
  have e: "de_inode mk_dir_block 0 = 1" "de_rec_len mk_dir_block 0 = 12" "de_inode mk_dir_block 12 = 1" "de_rec_len mk_dir_block 12 = 12"
    "de_inode mk_dir_block 24 = 0"
    by (simp_all add: de_inode_def de_rec_len_def mk_dir_block_def rd_defs FILE_TYPE_DIR_def le_dec_enc_id)
  have n: "mk_dir_block ! 6 = 1" "mk_dir_block ! 18 = 2" "take 1 (drop 8 mk_dir_block) = [46]" "take 2 (drop 20 mk_dir_block) = [46, 46]"
    by (simp_all add: mk_dir_block_def nth_append)
  have w: "(of_nat (length name) :: u8) = of_nat k \<longleftrightarrow> length name = k" if "k < 256" for k
    using assms that unat_of_nat_small[of "length name", where 'a = 8] unat_of_nat_small[of k, where 'a = 8] by (auto simp: word_unat_eq_iff)
  have m: "de_match mk_dir_block 0 name \<longleftrightarrow> name = [46]" "de_match mk_dir_block 12 name \<longleftrightarrow> name = [46, 46]"
    using w[of 1] w[of 2] n by (auto simp: de_match_def de_name_len_def de_name_def numeral_2_eq_2)
  show ?thesis unfolding m[symmetric] by (simp add: dir_find.simps[of _ _ 0] dir_find.simps[of _ _ 12] dir_find.simps[of _ _ 24] e)
qed

section \<open>Properties\<close>


text \<open>
  The size limit is needed: with less than 8192 blocks in the last group, the tool marks the journal outside the
  bitmap of that group, beyond the end of its buffer.
\<close>

lemma mkfs_overflows: "mk_bitmap (mk_journal_block (mk_num_blocks 16)) 1 1 0 = None"
proof -
  have u: "unat (0 :: u32) + unat (mk_used_blocks 1 0) \<le> 8 * length (replicate 4096 (0 :: u8))" "unat (0 :: u32) + unat (mk_used_blocks 1 0) \<le> 2 ^ 32"
    by (simp_all add: used_blocks)
  obtain b1 where b1: "bitmap_set_range (replicate 4096 0) 0 (mk_used_blocks 1 0) = Some b1" "length b1 = 4096"
    by (rule set_range_bits[OF u]) auto
  have j: "ucast (mk_journal_block (mk_num_blocks 16) - ucast (mk_group_start 0)) = (0xFFFFF000 :: u32)"
    by (simp add: mk_journal_block_def mk_num_blocks_def journal_size_blocks_def mk_group_start_def)
  have "unat (of_int journal_size_blocks :: u32) = 8192" by (simp add: journal_size_blocks_def)
  then obtain "is" where c: "[0..<unat (of_int journal_size_blocks :: u32)] = 0 # is" by (metis upt_conv_Cons zero_less_numeral)
  show ?thesis unfolding mk_bitmap_def b1(1) bind.bind_lunit j unfolding bitmap_set_range_def c by (simp add: b1(2))
qed

lemma mkfs_small_undefined: "mkfs True 16 = None"
proof -
  have "mk_nr_groups (mk_num_blocks 16) = 1" by (simp add: mk_nr_groups_def mk_num_blocks_def to_int_def)
  moreover have "mk_gd_blocks 1 = 1" by (simp add: mk_gd_blocks_def signed_divide_int_def)
  ultimately show ?thesis by (simp add: mkfs_def Let_def mkfs_overflows)
qed

section \<open>A drive in memory\<close>

definition ram_dev :: "(u32 \<Rightarrow> u8 list) blkdev" where
  "ram_dev = \<lparr>bd_read = (\<lambda>p lba n d. (4096, d (ucast (lba div 8)), d)), bd_write = (\<lambda>p lba buf n d. (4096, d(ucast (lba div 8) := buf)))\<rparr>"

lemma ram_block: "(ucast ((ucast (b :: u32) * 8 :: u64) div 8) :: u32) = b"
proof -
  have "unat (ucast b * 8 :: u64) = unat b * 8" using unat_bound[of b] by (simp add: unat_word_ariths unat_ucast_up)
  then have "unat ((ucast b * 8 :: u64) div 8) = unat b" by (simp add: unat_div)
  then have "unat (ucast ((ucast b * 8 :: u64) div 8) :: u32) = unat b" using unat_bound[of b] by (subst unat_ucast_small) simp_all
  then show ?thesis by (simp only: word_unat_eq_iff)
qed

lemma ram_device: "block_device ram_dev (\<lambda>p d. d) (\<lambda>p d. \<forall>b. length (d b) = 4096)"
  by unfold_locales (auto simp: ram_dev_def ram_block)

definition fs_blank :: "(u32 \<Rightarrow> u8 list) \<Rightarrow> (u32 \<Rightarrow> u8 list) swiftfs" where
  "fs_blank d = \<lparr>sb = mk_super 0 0 0 0, g_port = 0, g_mounted = False, g_nr_groups = 0, g_gd = [], g_gd_ptr = 0, g_bitmaps = [], g_bitmaps_ptr = 0,
     g_curr_group = 0, s_fds = [], g_cache = [], g_cache_next = 0, s_heap = kheap_init 0x400000, s_dev = d\<rparr>"


end
