(* ===== verification/Pmm.thy ===== *)
theory Pmm
  imports Bitmap Allocator
begin

text \<open>
  The physical page allocator, \<open>src/kernel/mm/pmm.c\<close>: a bitmap of 4 KiB page frames (bit set =
  frame in use), filled from the Multiboot memory map at boot, with first-fit allocation and
  guarded release. Log output is not modelled. The Multiboot information block is a byte memory
  passed as a parameter, as is the link-time address \<open>_bss_end\<close>.
\<close>

section \<open>State and bitmap helpers\<close>

definition PAGE_SIZE :: u64 where "PAGE_SIZE = 4096"
definition MAX_PAGES :: nat where "MAX_PAGES = 131072"

record pmm =
  bitmap :: "u8 list"
  last_phys_page :: u64
  free_page_count :: u64
  total_mem :: u64

definition bitmap_set :: "u8 list \<Rightarrow> nat \<Rightarrow> u8 list" where
  "bitmap_set bm p = bm[p div 8 := bm ! (p div 8) OR push_bit (p mod 8) 1]"

definition bitmap_clear :: "u8 list \<Rightarrow> nat \<Rightarrow> u8 list" where
  "bitmap_clear bm p = bm[p div 8 := bm ! (p div 8) AND NOT (push_bit (p mod 8) 1)]"

definition bitmap_test :: "u8 list \<Rightarrow> nat \<Rightarrow> bool" where
  "bitmap_test bm p \<longleftrightarrow> drop_bit (p mod 8) (bm ! (p div 8)) AND 1 = 1"

section \<open>Operations\<close>

definition page_alloc :: "pmm \<Rightarrow> u64 \<times> pmm" where
  "page_alloc s =
     (case find (\<lambda>i. \<not> bitmap_test (bitmap s) i) [0..<unat (last_phys_page s)] of
        Some i \<Rightarrow> (of_nat i * PAGE_SIZE,
                   s\<lparr>bitmap := bitmap_set (bitmap s) i, free_page_count := free_page_count s - 1\<rparr>)
      | None \<Rightarrow> (0, s))"

definition page_free :: "u64 \<Rightarrow> pmm \<Rightarrow> pmm" where
  "page_free addr s =
     (let p = unat (addr div PAGE_SIZE) in
      if p \<ge> MAX_PAGES then s
      else if bitmap_test (bitmap s) p
        then s\<lparr>bitmap := bitmap_clear (bitmap s) p, free_page_count := free_page_count s + 1\<rparr>
        else s)"

definition pmm_free_count :: "pmm \<Rightarrow> u64" where "pmm_free_count s = free_page_count s"
definition pmm_total_mem :: "pmm \<Rightarrow> u64" where "pmm_total_mem s = total_mem s"

subsection \<open>Initialisation from the Multiboot memory map\<close>

text \<open>The loop that frees the frames \<open>ps \<le> p < pe\<close> of one usable region.\<close>

primrec release_pages :: "nat list \<Rightarrow> pmm \<Rightarrow> pmm" where
  "release_pages [] s = s"
| "release_pages (p # ps) s =
     release_pages ps (s\<lparr>bitmap := bitmap_clear (bitmap s) p, free_page_count := free_page_count s + 1\<rparr>)"

definition mmap_entry :: "memory \<Rightarrow> u64 \<Rightarrow> pmm \<Rightarrow> pmm" where
  "mmap_entry mb e s =
     (let start = load64 mb e;
          len = load64 mb (e + 8);
          fin = start + len
      in if load32 mb (e + 16) = 1 then
           let s1 = s\<lparr>total_mem := total_mem s + len\<rparr>;
               ps = (start + PAGE_SIZE - 1) div PAGE_SIZE;
               pe0 = fin div PAGE_SIZE;
               pe = (if pe0 > of_nat MAX_PAGES then of_nat MAX_PAGES else pe0);
               s2 = release_pages [unat ps..<unat pe] s1
           in if pe > last_phys_page s2 then s2\<lparr>last_phys_page := pe\<rparr> else s2
         else s)"

primrec mmap_entries :: "memory \<Rightarrow> u64 \<Rightarrow> nat \<Rightarrow> pmm \<Rightarrow> pmm" where
  "mmap_entries mb tag 0 s = s"
| "mmap_entries mb tag (Suc i) s = mmap_entry mb (tag + 16 + 24 * of_nat i) (mmap_entries mb tag i s)"

text \<open>
  \<open>int n = (mmap->size - sizeof(*mmap)) / mmap->entry_size\<close>: a 64-bit unsigned quotient stored in a
  signed 32-bit integer; a negative \<open>n\<close> runs the loop zero times.
\<close>

definition mmap_count :: "memory \<Rightarrow> u64 \<Rightarrow> nat" where
  "mmap_count mb tag =
     nat (sint (ucast ((ucast (load32 mb (tag + 4)) - 16) div ucast (load32 mb (tag + 8)) :: u64) :: u32))"

text \<open>
  The walk over the tags stops at a tag of type 0. A chain without one never ends, and a memory map
  tag with \<open>entry_size = 0\<close> is a division fault: both are \<^const>\<open>None\<close>.
\<close>

partial_function (option) mboot_tags :: "memory \<Rightarrow> u64 \<Rightarrow> pmm \<Rightarrow> pmm option" where
  "mboot_tags mb addr s =
     (let typ = load32 mb addr; next = addr + ucast ((load32 mb (addr + 4) + 7) AND NOT 7) in
      if typ = 0 then Some s
      else if typ = 6 then
        (if load32 mb (addr + 8) = 0 then None
         else mboot_tags mb next (mmap_entries mb addr (mmap_count mb addr) s))
      else mboot_tags mb next s)"

primrec reserve_pages :: "nat \<Rightarrow> pmm \<Rightarrow> pmm" where
  "reserve_pages 0 s = s"
| "reserve_pages (Suc i) s =
     (let s' = reserve_pages i s in
      if \<not> bitmap_test (bitmap s') i
      then s'\<lparr>bitmap := bitmap_set (bitmap s') i, free_page_count := free_page_count s' - 1\<rparr>
      else s')"

definition kernel_end_page :: "u64 \<Rightarrow> u64" where
  "kernel_end_page bss_end = (bss_end + KHEAP_SIZE + PAGE_SIZE - 1) div PAGE_SIZE"

definition pmm_reset :: pmm where
  "pmm_reset = \<lparr>bitmap = replicate (MAX_PAGES div 8) 0xFF, last_phys_page = 0,
                free_page_count = 0, total_mem = 0\<rparr>"

definition pmm_init :: "memory \<Rightarrow> u64 \<Rightarrow> u32 \<Rightarrow> pmm option" where
  "pmm_init mb bss_end mboot_info =
     map_option (reserve_pages (unat (kernel_end_page bss_end)))
       (mboot_tags mb (ucast (mboot_info + 8)) pmm_reset)"

section \<open>The bitmap contract holds\<close>

lemma bitmap_test_bit: "bitmap_test bm p \<longleftrightarrow> bit (bm ! (p div 8)) (p mod 8)"
  by (simp add: bitmap_test_def bit_byte_shift)

interpretation pm: alloc_bitmap bitmap_test bitmap_set bitmap_clear "\<lambda>bm. 8 * length bm"
  by unfold_locales
     (simp_all add: bitmap_test_bit bitmap_set_def bitmap_clear_def nth_bit_or nth_bit_andnot)

lemma bitmap_clear_set: "\<not> bitmap_test bm p \<Longrightarrow> bitmap_clear (bitmap_set bm p) p = bm"
  by (cases "p div 8 < length bm")
     (simp_all add: bitmap_clear_def bitmap_set_def bitmap_test_bit or_andnot_byte list_update_beyond)

section \<open>Invariant\<close>

text \<open>
  The bitmap has one bit per frame, the scan bound lies inside it, and the free-page counter equals
  the number of clear bits.
\<close>

definition pmm_inv :: "pmm \<Rightarrow> bool" where
  "pmm_inv s \<longleftrightarrow> length (bitmap s) = MAX_PAGES div 8 \<and> unat (last_phys_page s) \<le> MAX_PAGES \<and>
     unat (free_page_count s) = zeros (bitmap_test (bitmap s)) MAX_PAGES"

lemma MAX_PAGES_cap [simp]: "8 * (MAX_PAGES div 8) = MAX_PAGES"
  by (simp add: MAX_PAGES_def)

lemma length_bitmap_set [simp]: "length (bitmap_set bm p) = length bm"
  by (simp add: bitmap_set_def)

lemma length_bitmap_clear [simp]: "length (bitmap_clear bm p) = length bm"
  by (simp add: bitmap_clear_def)

lemma bitmap_test_set: "p < MAX_PAGES \<Longrightarrow> q < MAX_PAGES \<Longrightarrow> length bm = MAX_PAGES div 8 \<Longrightarrow>
    bitmap_test (bitmap_set bm p) q = (q = p \<or> bitmap_test bm q)"
  by (simp add: pm.test_mark)

lemma bitmap_test_clear: "p < MAX_PAGES \<Longrightarrow> q < MAX_PAGES \<Longrightarrow> length bm = MAX_PAGES div 8 \<Longrightarrow>
    bitmap_test (bitmap_clear bm p) q = (q \<noteq> p \<and> bitmap_test bm q)"
  by (simp add: pm.test_unmark)

lemma page_number: "p < MAX_PAGES \<Longrightarrow> unat ((of_nat p * PAGE_SIZE) div PAGE_SIZE) = p"
  by (simp add: MAX_PAGES_def PAGE_SIZE_def unat_div unat_word_ariths take_bit_nat_eq_self unat_of_nat)

lemma page_alloc_Some:
  assumes "pmm_inv s" and "find (\<lambda>i. \<not> bitmap_test (bitmap s) i) [0..<unat (last_phys_page s)] = Some p"
  shows "p < MAX_PAGES" "\<not> bitmap_test (bitmap s) p" "free_page_count s \<noteq> 0"
    "unat (free_page_count s - 1) = zeros (bitmap_test (bitmap_set (bitmap s) p)) MAX_PAGES"
proof -
  have cap: "8 * length (bitmap s) = MAX_PAGES" using assms(1) by (simp add: pmm_inv_def)
  show p: "p < MAX_PAGES" "\<not> bitmap_test (bitmap s) p"
    using assms by (auto simp: pmm_inv_def find_upt_Some)
  then have "0 < zeros (bitmap_test (bitmap s)) MAX_PAGES" by (rule zeros_pos)
  then show "free_page_count s \<noteq> 0" using assms(1) by (auto simp: pmm_inv_def)
  then show "unat (free_page_count s - 1) = zeros (bitmap_test (bitmap_set (bitmap s) p)) MAX_PAGES"
    using assms(1) p cap by (simp add: unat_pred pmm_inv_def pm.zeros_mark)
qed

lemma page_alloc_inv [inv_intros]: "pmm_inv s \<Longrightarrow> pmm_inv (snd (page_alloc s))"
proof (cases "find (\<lambda>i. \<not> bitmap_test (bitmap s) i) [0..<unat (last_phys_page s)]")
  case (Some p)
  assume inv: "pmm_inv s"
  from page_alloc_Some(4)[OF inv Some] inv Some show ?thesis
    by (simp add: page_alloc_def pmm_inv_def)
qed (simp add: page_alloc_def)

lemma page_free_inv [inv_intros]:
  assumes "pmm_inv s" shows "pmm_inv (page_free a s)"
proof -
  let ?p = "unat (a div PAGE_SIZE)"
  have cap: "8 * length (bitmap s) = MAX_PAGES" using assms by (simp add: pmm_inv_def)
  have "unat (free_page_count s + 1) = Suc (unat (free_page_count s))"
    using assms zeros_le[of "bitmap_test (bitmap s)" MAX_PAGES]
    by (intro unat_Suc_small) (simp add: pmm_inv_def MAX_PAGES_def)
  then show ?thesis
    using assms cap by (auto simp: page_free_def pmm_inv_def Let_def pm.zeros_unmark)
qed

section \<open>Boot-time initialisation\<close>

text \<open>The frames that one memory map entry, one memory map tag and the whole chain make usable.\<close>

definition entry_pages :: "memory \<Rightarrow> u64 \<Rightarrow> nat list" where
  "entry_pages mb e =
     (if load32 mb (e + 16) = 1
      then [unat ((load64 mb e + PAGE_SIZE - 1) div PAGE_SIZE)..<
            min MAX_PAGES (unat ((load64 mb e + load64 mb (e + 8)) div PAGE_SIZE))]
      else [])"

primrec tag_pages :: "memory \<Rightarrow> u64 \<Rightarrow> nat \<Rightarrow> nat list" where
  "tag_pages mb tag 0 = []"
| "tag_pages mb tag (Suc i) = tag_pages mb tag i @ entry_pages mb (tag + 16 + 24 * of_nat i)"

text \<open>
  \<open>mboot_chain mb a ps\<close>: the tag chain starting at address \<open>a\<close> ends with a tag of type 0, no memory
  map tag in it has a zero entry size, and together its memory maps make the frames \<open>ps\<close> usable.
\<close>

inductive mboot_chain :: "memory \<Rightarrow> u64 \<Rightarrow> nat list \<Rightarrow> bool" where
  stop: "load32 mb a = 0 \<Longrightarrow> mboot_chain mb a []"
| mmap: "load32 mb a = 6 \<Longrightarrow> load32 mb (a + 8) \<noteq> 0 \<Longrightarrow>
     mboot_chain mb (a + ucast ((load32 mb (a + 4) + 7) AND NOT 7)) ps \<Longrightarrow>
     mboot_chain mb a (tag_pages mb a (mmap_count mb a) @ ps)"
| skip: "load32 mb a \<noteq> 0 \<Longrightarrow> load32 mb a \<noteq> 6 \<Longrightarrow>
     mboot_chain mb (a + ucast ((load32 mb (a + 4) + 7) AND NOT 7)) ps \<Longrightarrow> mboot_chain mb a ps"

text \<open>
  \<open>usable s s' ps\<close>: between the two states exactly the frames \<open>ps\<close> became free, and the scan bound
  covers every frame that is free.
\<close>

definition usable :: "pmm \<Rightarrow> pmm \<Rightarrow> nat list \<Rightarrow> bool" where
  "usable s s' ps \<longleftrightarrow> pmm_inv s' \<and> unat (last_phys_page s) \<le> unat (last_phys_page s') \<and>
     (\<forall>p\<in>set ps. p < unat (last_phys_page s')) \<and>
     (\<forall>p<MAX_PAGES. bitmap_test (bitmap s') p \<longleftrightarrow> bitmap_test (bitmap s) p \<and> p \<notin> set ps)"

lemma usable_Nil: "pmm_inv s \<Longrightarrow> usable s s []"
  by (simp add: usable_def)

lemma usable_trans: "usable s s' ps \<Longrightarrow> usable s' s'' qs \<Longrightarrow> usable s s'' (ps @ qs)"
  by (auto simp: usable_def)

lemma release_pages_effect:
  assumes "pmm_inv s" "distinct ps" "\<forall>p\<in>set ps. p < MAX_PAGES \<and> bitmap_test (bitmap s) p"
  shows "pmm_inv (release_pages ps s) \<and> last_phys_page (release_pages ps s) = last_phys_page s \<and>
    (\<forall>p<MAX_PAGES. bitmap_test (bitmap (release_pages ps s)) p \<longleftrightarrow> bitmap_test (bitmap s) p \<and> p \<notin> set ps)"
  using assms
proof (induction ps arbitrary: s)
  case Nil
  then show ?case by simp
next
  case (Cons p ps)
  let ?s = "s\<lparr>bitmap := bitmap_clear (bitmap s) p, free_page_count := free_page_count s + 1\<rparr>"
  have len: "length (bitmap s) = MAX_PAGES div 8" and p: "p < MAX_PAGES" "bitmap_test (bitmap s) p"
    using Cons.prems by (auto simp: pmm_inv_def)
  have "?s = page_free (of_nat p * PAGE_SIZE) s"
    using p by (simp add: page_free_def page_number)
  then have "pmm_inv ?s" using page_free_inv Cons.prems(1) by metis
  moreover have "\<forall>q\<in>set ps. q < MAX_PAGES \<and> bitmap_test (bitmap ?s) q"
    using Cons.prems len p by (auto simp: bitmap_test_clear)
  ultimately show ?case
    using Cons.IH[of ?s] Cons.prems len p by (auto simp: bitmap_test_clear)
qed

lemma entry_pages_lt: "p \<in> set (entry_pages mb e) \<Longrightarrow> p < MAX_PAGES"
  by (auto simp: entry_pages_def split: if_splits)

lemma tag_pages_lt: "p \<in> set (tag_pages mb tag n) \<Longrightarrow> p < MAX_PAGES"
  by (induction n) (auto dest: entry_pages_lt)

lemma clamp_pages: "unat (if pe > of_nat MAX_PAGES then of_nat MAX_PAGES else pe :: u64) = min MAX_PAGES (unat pe)"
  by (auto simp: MAX_PAGES_def word_less_nat_alt min_def)

lemma pmm_inv_total [simp]: "pmm_inv (s\<lparr>total_mem := t\<rparr>) = pmm_inv s"
  by (simp add: pmm_inv_def)

lemma mmap_entry_usable:
  assumes "pmm_inv s" "\<forall>p\<in>set (entry_pages mb e). bitmap_test (bitmap s) p"
  shows "usable s (mmap_entry mb e s) (entry_pages mb e)"
proof (cases "load32 mb (e + 16) = 1")
  case True
  define pe :: u64 where "pe = (let q = (load64 mb e + load64 mb (e + 8)) div PAGE_SIZE
    in if q > of_nat MAX_PAGES then of_nat MAX_PAGES else q)"
  define s1 where "s1 = release_pages (entry_pages mb e) (s\<lparr>total_mem := total_mem s + load64 mb (e + 8)\<rparr>)"
  have pe: "unat pe = min MAX_PAGES (unat ((load64 mb e + load64 mb (e + 8)) div PAGE_SIZE))"
    unfolding pe_def Let_def by (rule clamp_pages)
  have s': "mmap_entry mb e s = (if pe > last_phys_page s1 then s1\<lparr>last_phys_page := pe\<rparr> else s1)"
    using True pe by (simp add: mmap_entry_def s1_def entry_pages_def Let_def pe_def[unfolded Let_def, symmetric])
  have "distinct (entry_pages mb e)" by (simp add: entry_pages_def)
  with assms have s1: "pmm_inv s1" "last_phys_page s1 = last_phys_page s"
    "\<forall>p<MAX_PAGES. bitmap_test (bitmap s1) p \<longleftrightarrow> bitmap_test (bitmap s) p \<and> p \<notin> set (entry_pages mb e)"
    using release_pages_effect[of "s\<lparr>total_mem := total_mem s + load64 mb (e + 8)\<rparr>" "entry_pages mb e"]
      entry_pages_lt[of _ mb e] by (auto simp: s1_def)
  moreover have "\<forall>p\<in>set (entry_pages mb e). p < unat pe" using True pe by (auto simp: entry_pages_def)
  ultimately show ?thesis
    using pe by (auto simp: s' usable_def pmm_inv_def word_less_nat_alt split: if_splits)
next
  case False
  then show ?thesis using assms by (simp add: mmap_entry_def entry_pages_def Let_def usable_Nil)
qed

lemma mmap_entries_usable:
  "pmm_inv s \<Longrightarrow> distinct (tag_pages mb tag n) \<Longrightarrow> \<forall>p\<in>set (tag_pages mb tag n). bitmap_test (bitmap s) p \<Longrightarrow>
   usable s (mmap_entries mb tag n s) (tag_pages mb tag n)"
proof (induction n)
  case 0
  then show ?case by (simp add: usable_Nil)
next
  case (Suc n)
  let ?e = "tag + 16 + 24 * of_nat n"
  let ?s = "mmap_entries mb tag n s"
  have IH: "usable s ?s (tag_pages mb tag n)" using Suc by simp
  then have "\<forall>p\<in>set (entry_pages mb ?e). bitmap_test (bitmap ?s) p"
    using Suc.prems entry_pages_lt[of _ mb ?e] by (auto simp: usable_def)
  then have "usable ?s (mmap_entry mb ?e ?s) (entry_pages mb ?e)"
    using IH by (intro mmap_entry_usable) (simp_all add: usable_def)
  with IH show ?case by (simp add: usable_trans)
qed

lemma mboot_chain_lt: "mboot_chain mb a ps \<Longrightarrow> p \<in> set ps \<Longrightarrow> p < MAX_PAGES"
  by (induction rule: mboot_chain.induct) (auto dest: tag_pages_lt)

lemma mboot_tags_usable:
  "mboot_chain mb a ps \<Longrightarrow> pmm_inv s \<Longrightarrow> distinct ps \<Longrightarrow> \<forall>p\<in>set ps. bitmap_test (bitmap s) p \<Longrightarrow>
   \<exists>s'. mboot_tags mb a s = Some s' \<and> usable s s' ps"
proof (induction arbitrary: s rule: mboot_chain.induct)
  case (stop mb a)
  then show ?case by (subst mboot_tags.simps) (simp add: usable_Nil)
next
  case (mmap mb a ps)
  let ?ts = "tag_pages mb a (mmap_count mb a)"
  let ?s = "mmap_entries mb a (mmap_count mb a) s"
  have u: "usable s ?s ?ts" using mmap.prems by (intro mmap_entries_usable) auto
  moreover have "\<forall>p\<in>set ps. bitmap_test (bitmap ?s) p"
    using mmap.prems mboot_chain_lt[OF mmap.hyps(3)] u by (auto simp: usable_def)
  ultimately obtain s' where "mboot_tags mb (a + ucast ((load32 mb (a + 4) + 7) AND NOT 7)) ?s = Some s'"
    "usable ?s s' ps"
    using mmap.IH[of ?s] mmap.prems by (auto simp: usable_def)
  with u mmap.hyps show ?case by (subst mboot_tags.simps) (auto simp: Let_def intro: usable_trans)
next
  case (skip mb a ps)
  then show ?case by (subst mboot_tags.simps) (simp add: Let_def)
qed

lemma reserve_pages_effect:
  "pmm_inv s \<Longrightarrow> n \<le> MAX_PAGES \<Longrightarrow>
   pmm_inv (reserve_pages n s) \<and> last_phys_page (reserve_pages n s) = last_phys_page s \<and>
   (\<forall>p<MAX_PAGES. bitmap_test (bitmap (reserve_pages n s)) p \<longleftrightarrow> bitmap_test (bitmap s) p \<or> p < n)"
proof (induction n)
  case 0
  then show ?case by simp
next
  case (Suc n)
  let ?s = "reserve_pages n s"
  have IH: "pmm_inv ?s" "last_phys_page ?s = last_phys_page s"
    "\<forall>p<MAX_PAGES. bitmap_test (bitmap ?s) p \<longleftrightarrow> bitmap_test (bitmap s) p \<or> p < n" using Suc by auto
  have cap: "length (bitmap ?s) = MAX_PAGES div 8" using IH(1) by (simp add: pmm_inv_def)
  have "unat (free_page_count ?s - 1) = zeros (bitmap_test (bitmap_set (bitmap ?s) n)) MAX_PAGES"
    if "\<not> bitmap_test (bitmap ?s) n"
    using that IH(1) Suc.prems cap zeros_pos[of n MAX_PAGES "bitmap_test (bitmap ?s)"]
      unat_pred[of "free_page_count ?s"]
    by (fastforce simp: pmm_inv_def pm.zeros_mark)
  then show ?case
    using IH Suc.prems cap by (auto simp: Let_def pmm_inv_def bitmap_test_set less_Suc_eq)
qed

lemma zeros_full: "zeros (bitmap_test (replicate (MAX_PAGES div 8) 0xFF)) MAX_PAGES = 0"
proof -
  have "bit (0xFF :: u8) k" if "k < 8" for k
    using that by (auto simp: less_Suc_eq numeral_eq_Suc)
  then show ?thesis by (simp add: zeros_eq_0 bitmap_test_bit MAX_PAGES_def less_mult_imp_div_less)
qed

lemma pmm_reset_inv: "pmm_inv pmm_reset"
  by (simp add: pmm_inv_def pmm_reset_def zeros_full)

lemma pmm_reset_full: "p < MAX_PAGES \<Longrightarrow> bitmap_test (bitmap pmm_reset) p"
  using zeros_full by (simp add: pmm_reset_def zeros_eq_0)

section \<open>Properties\<close>

lemma page_alloc_effect:
  assumes "pmm_inv s" and "page_alloc s = (a, s')"
  shows "pmm_inv s' \<and>
    (if \<exists>p<unat (last_phys_page s). \<not> bitmap_test (bitmap s) p
     then \<exists>p<unat (last_phys_page s). a = of_nat p * PAGE_SIZE \<and> \<not> bitmap_test (bitmap s) p \<and>
            (\<forall>q<p. bitmap_test (bitmap s) q) \<and>
            (\<forall>q<MAX_PAGES. bitmap_test (bitmap s') q = (q = p \<or> bitmap_test (bitmap s) q)) \<and>
            unat (free_page_count s) = Suc (unat (free_page_count s'))
     else a = 0 \<and> s' = s)"
proof (cases "find (\<lambda>i. \<not> bitmap_test (bitmap s) i) [0..<unat (last_phys_page s)]")
  case None
  with assms show ?thesis by (auto simp: page_alloc_def find_upt_None)
next
  case (Some p)
  have s': "a = of_nat p * PAGE_SIZE" "bitmap s' = bitmap_set (bitmap s) p"
    "free_page_count s' = free_page_count s - 1"
    using assms(2) Some by (auto simp: page_alloc_def)
  have "pmm_inv s'" using page_alloc_inv[OF assms(1)] assms(2) by simp
  moreover have "\<forall>q<MAX_PAGES. bitmap_test (bitmap s') q = (q = p \<or> bitmap_test (bitmap s) q)"
    using assms(1) page_alloc_Some(1)[OF assms(1) Some] by (simp add: s' bitmap_test_set pmm_inv_def)
  moreover have "unat (free_page_count s) = Suc (unat (free_page_count s'))"
    using page_alloc_Some(3)[OF assms(1) Some] by (simp add: s' unat_pred unat_gt_0)
  moreover have "p < unat (last_phys_page s)" "\<not> bitmap_test (bitmap s) p" "\<forall>q<p. bitmap_test (bitmap s) q"
    using Some by (auto simp: find_upt_Some)
  ultimately show ?thesis using s'(1) by auto
qed

text \<open>
  C6: \<open>page_alloc\<close> either hands out the lowest-numbered free frame below the scan bound, marking
  exactly that frame used and lowering the free counter by one, or, when there is none, returns 0 and
  changes nothing; the allocator invariant is kept.
\<close>

theorem page_alloc_correct:
  assumes "pmm_inv s" and "page_alloc s = (a, s')"
  shows "pmm_inv s' \<and>
    (if \<exists>p<unat (last_phys_page s). \<not> bitmap_test (bitmap s) p
     then \<exists>p<unat (last_phys_page s). a = of_nat p * PAGE_SIZE \<and> \<not> bitmap_test (bitmap s) p \<and>
            (\<forall>q<p. bitmap_test (bitmap s) q) \<and>
            (\<forall>q<MAX_PAGES. bitmap_test (bitmap s') q = (q = p \<or> bitmap_test (bitmap s) q)) \<and>
            unat (free_page_count s) = Suc (unat (free_page_count s'))
     else a = 0 \<and> s' = s)"
  using assms by (rule page_alloc_effect)

text \<open>Releasing the frame that was just allocated restores the allocator state exactly.\<close>

lemma page_free_alloc:
  assumes "pmm_inv s" "page_alloc s = (a, s')" "a \<noteq> 0"
  shows "page_free a s' = s"
proof (cases "find (\<lambda>i. \<not> bitmap_test (bitmap s) i) [0..<unat (last_phys_page s)]")
  case None
  with assms show ?thesis by (simp add: page_alloc_def)
next
  case (Some p)
  note p = page_alloc_Some(1,2)[OF assms(1) Some]
  moreover have "bitmap_test (bitmap_set (bitmap s) p) p"
    using p assms(1) by (simp add: bitmap_test_set pmm_inv_def)
  ultimately show ?thesis
    using assms Some by (auto simp: page_alloc_def page_free_def page_number bitmap_clear_set)
qed

text \<open>
  C5: Boot-time initialisation terminates on every Multiboot tag chain that ends, and if the usable
  regions of the memory map do not overlap it establishes the invariant with exactly the usable
  frames beyond the kernel image and kernel heap free.
\<close>

theorem pmm_init_correct:
  assumes chain: "mboot_chain mb (ucast (mboot_info + 8)) ps" and "distinct ps"
    and k: "unat (kernel_end_page bss_end) \<le> MAX_PAGES"
  shows "\<exists>s. pmm_init mb bss_end mboot_info = Some s \<and> pmm_inv s \<and>
    (\<forall>p<MAX_PAGES. bitmap_test (bitmap s) p \<longleftrightarrow> p \<notin> set ps \<or> p < unat (kernel_end_page bss_end)) \<and>
    (\<forall>p\<in>set ps. p < unat (last_phys_page s))"
proof -
  have "\<forall>p\<in>set ps. bitmap_test (bitmap pmm_reset) p"
    using mboot_chain_lt[OF chain] by (simp add: pmm_reset_full)
  then obtain s where s: "mboot_tags mb (ucast (mboot_info + 8)) pmm_reset = Some s" "usable pmm_reset s ps"
    using mboot_tags_usable[OF chain pmm_reset_inv] assms(2) by blast
  then have "pmm_inv s" by (simp add: usable_def)
  from reserve_pages_effect[OF this k] s show ?thesis
    by (auto simp: pmm_init_def usable_def pmm_reset_full)
qed

section \<open>The allocator contract\<close>

definition page_inv :: "pmm \<Rightarrow> bool" where
  "page_inv s \<longleftrightarrow> pmm_inv s \<and> bitmap_test (bitmap s) 0"

definition page_live :: "pmm \<Rightarrow> u64 set" where
  "page_live s = {of_nat p * PAGE_SIZE | p. 0 < p \<and> p < MAX_PAGES \<and> bitmap_test (bitmap s) p}"

lemma of_nat_page_inject:
  "p < MAX_PAGES \<Longrightarrow> q < MAX_PAGES \<Longrightarrow> of_nat p * PAGE_SIZE = of_nat q * PAGE_SIZE \<longleftrightarrow> p = q"
  by (metis page_number)

lemma MAX_PAGES_pos: "0 < MAX_PAGES"
  by (simp add: MAX_PAGES_def)

lemma page_alloc_page:
  assumes "page_inv s" "page_alloc s = (a, s')"
  shows "a = 0 \<and> s' = s \<or>
    (\<exists>p. a = of_nat p * PAGE_SIZE \<and> a \<noteq> 0 \<and> 0 < p \<and> p < MAX_PAGES \<and> \<not> bitmap_test (bitmap s) p \<and>
      (\<forall>q<MAX_PAGES. bitmap_test (bitmap s') q = (q = p \<or> bitmap_test (bitmap s) q)))"
proof -
  have inv: "pmm_inv s" "bitmap_test (bitmap s) 0" using assms(1) by (simp_all add: page_inv_def)
  show ?thesis
  proof (cases "\<exists>p<unat (last_phys_page s). \<not> bitmap_test (bitmap s) p")
    case True
    with page_alloc_effect[OF inv(1) assms(2)] obtain p where p: "p < unat (last_phys_page s)"
      "a = of_nat p * PAGE_SIZE" "\<not> bitmap_test (bitmap s) p"
      "\<forall>q<MAX_PAGES. bitmap_test (bitmap s') q = (q = p \<or> bitmap_test (bitmap s) q)" by auto
    then have "p < MAX_PAGES" "0 < p" using inv by (auto simp: pmm_inv_def intro: gr0I)
    with p show ?thesis using of_nat_page_inject[OF _ MAX_PAGES_pos, of p] by auto
  next
    case False
    with page_alloc_effect[OF inv(1) assms(2)] show ?thesis by simp
  qed
qed

lemma page_free_bits:
  assumes "pmm_inv s" "p < MAX_PAGES" "bitmap_test (bitmap s) p" "q < MAX_PAGES"
  shows "bitmap_test (bitmap (page_free (of_nat p * PAGE_SIZE) s)) q = (q \<noteq> p \<and> bitmap_test (bitmap s) q)"
  using assms by (simp add: page_free_def page_number bitmap_test_clear pmm_inv_def)

interpretation pa: allocator page_alloc page_free page_live page_inv "0 :: u64"
proof (unfold_locales, goal_cases)
  case (1 s)
  then show ?case
    using page_alloc_page[OF 1 surjective_pairing] page_alloc_inv[of s] MAX_PAGES_pos by (auto simp: page_inv_def)
next
  case (2 s)
  then show ?case
    using page_alloc_page[OF 2(1) surjective_pairing] of_nat_page_inject by (auto simp: page_live_def)
next
  case (3 s)
  then show ?case
    using page_alloc_page[OF 3 surjective_pairing] by (auto simp: page_live_def)
next
  case (4 s a)
  then show ?case
    using page_free_inv[of s a] page_free_bits[of s _ 0] MAX_PAGES_pos by (auto simp: page_inv_def page_live_def)
next
  case (5 s a)
  then obtain p where p: "a = of_nat p * PAGE_SIZE" "0 < p" "p < MAX_PAGES" "bitmap_test (bitmap s) p" "pmm_inv s"
    by (auto simp: page_live_def page_inv_def)
  then show ?case by (auto simp: page_live_def page_free_bits of_nat_page_inject)
qed

section \<open>Ownership of frames\<close>

text \<open>
  A history of the allocator as its clients see it: \<open>L\<close> is the set of frame addresses handed out
  and not yet returned.
\<close>

inductive pmm_step :: "pmm \<times> u64 set \<Rightarrow> pmm \<times> u64 set \<Rightarrow> bool" where
  alloc: "page_alloc s = (a, s') \<Longrightarrow> a \<noteq> 0 \<Longrightarrow> pmm_step (s, L) (s', insert a L)"
| oom: "page_alloc s = (0, s') \<Longrightarrow> pmm_step (s, L) (s', L)"
| free: "a \<in> L \<Longrightarrow> pmm_step (s, L) (page_free a s, L - {a})"

definition owned :: "nat \<Rightarrow> pmm \<times> u64 set \<Rightarrow> bool" where
  "owned k = (\<lambda>(s, L). pmm_inv s \<and> 0 < k \<and> k \<le> MAX_PAGES \<and> (\<forall>p<k. bitmap_test (bitmap s) p) \<and>
     (\<forall>a\<in>L. \<exists>p. a = of_nat p * PAGE_SIZE \<and> k \<le> p \<and> p < MAX_PAGES \<and> bitmap_test (bitmap s) p))"

lemma owned_alloc:
  assumes "owned k (s, L)" "page_alloc s = (a, s')" "a \<noteq> 0"
  shows "owned k (s', insert a L)" "a \<notin> L" "\<exists>p\<ge>k. p < MAX_PAGES \<and> a = of_nat p * PAGE_SIZE"
proof -
  have inv: "pmm_inv s" and used: "\<forall>p<k. bitmap_test (bitmap s) p" using assms(1) by (auto simp: owned_def)
  from page_alloc_effect[OF inv assms(2)] assms(3)
  obtain p where p: "p < unat (last_phys_page s)" "a = of_nat p * PAGE_SIZE" "\<not> bitmap_test (bitmap s) p"
    "\<forall>q<MAX_PAGES. bitmap_test (bitmap s') q = (q = p \<or> bitmap_test (bitmap s) q)" "pmm_inv s'"
    by (auto split: if_splits)
  moreover have "p < MAX_PAGES" using p(1) inv by (simp add: pmm_inv_def)
  moreover have "k \<le> p" using p(3) used by (meson not_less)
  ultimately show "owned k (s', insert a L)" "a \<notin> L" "\<exists>p\<ge>k. p < MAX_PAGES \<and> a = of_nat p * PAGE_SIZE"
    using assms(1) by (fastforce simp: owned_def of_nat_page_inject)+
qed

lemma owned_free:
  assumes "owned k (s, L)" "a \<in> L"
  shows "owned k (page_free a s, L - {a})"
proof -
  from assms obtain p where p: "a = of_nat p * PAGE_SIZE" "k \<le> p" "p < MAX_PAGES" "bitmap_test (bitmap s) p"
    by (auto simp: owned_def)
  have len: "length (bitmap s) = MAX_PAGES div 8" using assms(1) by (simp add: owned_def pmm_inv_def)
  have "bitmap (page_free a s) = bitmap_clear (bitmap s) p"
    using p by (simp add: page_free_def page_number)
  then show ?thesis
    using assms p len page_free_inv[of s a]
    by (fastforce simp: owned_def bitmap_test_clear of_nat_page_inject)
qed

lemma owned_step: "pmm_step sl sl' \<Longrightarrow> owned k sl \<Longrightarrow> owned k sl'"
proof (induction rule: pmm_step.induct)
  case (oom s s' L)
  have "bitmap_test (bitmap s) 0" "pmm_inv s" using oom.prems by (auto simp: owned_def)
  moreover have "0 < MAX_PAGES" by (simp add: MAX_PAGES_def)
  ultimately have "s' = s"
    using page_alloc_effect[OF _ oom.hyps] of_nat_page_inject[of 0]
    by (fastforce simp: pmm_inv_def split: if_splits)
  then show ?case using oom.prems by simp
qed (auto intro: owned_alloc owned_free)

lemma owned_run: "pmm_step\<^sup>*\<^sup>* sl sl' \<Longrightarrow> owned k sl \<Longrightarrow> owned k sl'"
  by (induction rule: rtranclp_induct) (blast intro: owned_step)+

text \<open>
  Frames are never handed out twice and never taken from the kernel. From a state in which the
  first \<open>k\<close> frames are reserved, after any history of allocations and of releases of owned frames,
  an allocation that succeeds returns a page-aligned address at or above frame \<open>k\<close> that no client
  currently owns.
\<close>

theorem page_alloc_exclusive:
  assumes "pmm_inv s" "0 < k" "k \<le> MAX_PAGES" "\<forall>p<k. bitmap_test (bitmap s) p"
    and "pmm_step\<^sup>*\<^sup>* (s, {}) (s', L)" and "page_alloc s' = (a, s'')" "a \<noteq> 0"
  shows "a \<notin> L \<and> (\<exists>p. k \<le> p \<and> p < MAX_PAGES \<and> a = of_nat p * PAGE_SIZE)"
proof -
  have "owned k (s, {})" using assms(1-4) by (simp add: owned_def)
  then have "owned k (s', L)" using owned_run[OF assms(5)] by blast
  from owned_alloc(2,3)[OF this assms(6,7)] show ?thesis by blast
qed

section \<open>Concrete instances\<close>

text \<open>A machine with 16 frames of which 5 and 6 are free.\<close>

definition pmm_example :: pmm where
  "pmm_example = page_free 0x6000 (page_free 0x5000 (pmm_reset\<lparr>last_phys_page := 16\<rparr>))"

lemma pmm_example_inv: "pmm_inv pmm_example"
proof -
  have "pmm_inv (pmm_reset\<lparr>last_phys_page := 16\<rparr>)"
    using pmm_reset_inv by (simp add: pmm_inv_def MAX_PAGES_def)
  then show ?thesis by (simp add: pmm_example_def inv_intros)
qed

lemma pmm_example_bits:
  "p < MAX_PAGES \<Longrightarrow> bitmap_test (bitmap pmm_example) p \<longleftrightarrow> p \<noteq> 5 \<and> p \<noteq> 6"
  "last_phys_page pmm_example = 16"
proof -
  have M: "5 < MAX_PAGES" "6 < MAX_PAGES" by (simp_all add: MAX_PAGES_def)
  have d: "unat (0x5000 div PAGE_SIZE) = 5" "unat (0x6000 div PAGE_SIZE) = 6"
    by (simp_all add: PAGE_SIZE_def)
  have len: "length (bitmap pmm_reset) = MAX_PAGES div 8" by (simp add: pmm_reset_def)
  show "p < MAX_PAGES \<Longrightarrow> bitmap_test (bitmap pmm_example) p \<longleftrightarrow> p \<noteq> 5 \<and> p \<noteq> 6"
    using M by (auto simp: pmm_example_def page_free_def d len bitmap_test_clear pmm_reset_full Let_def)
  show "last_phys_page pmm_example = 16"
    by (simp add: pmm_example_def page_free_def Let_def)
qed

lemma pmm_example_alloc:
  "page_alloc pmm_example =
     (0x5000, pmm_example\<lparr>bitmap := bitmap_set (bitmap pmm_example) 5,
                          free_page_count := free_page_count pmm_example - 1\<rparr>)"
proof -
  have "find (\<lambda>i. \<not> bitmap_test (bitmap pmm_example) i) [0..<16] = Some 5"
    by (auto simp: find_upt_Some pmm_example_bits(1) MAX_PAGES_def)
  then show ?thesis by (simp add: page_alloc_def pmm_example_bits(2) PAGE_SIZE_def)
qed

theorem page_alloc_correct_witness:
  "pmm_inv pmm_example \<and> pmm_inv (snd (page_alloc pmm_example)) \<and> fst (page_alloc pmm_example) = 0x5000 \<and>
   bitmap_test (bitmap (snd (page_alloc pmm_example))) 5 \<and>
   \<not> bitmap_test (bitmap (snd (page_alloc pmm_example))) 6"
proof -
  have "\<exists>p<unat (last_phys_page pmm_example). \<not> bitmap_test (bitmap pmm_example) p"
    by (intro exI[of _ 5]) (simp add: pmm_example_bits MAX_PAGES_def)
  then obtain p where "fst (page_alloc pmm_example) = of_nat p * PAGE_SIZE" "p < 16"
    "pmm_inv (snd (page_alloc pmm_example))"
    "\<forall>q<MAX_PAGES. bitmap_test (bitmap (snd (page_alloc pmm_example))) q =
       (q = p \<or> bitmap_test (bitmap pmm_example) q)"
    using page_alloc_correct[OF pmm_example_inv, of "fst (page_alloc pmm_example)" "snd (page_alloc pmm_example)"]
    by (auto simp: pmm_example_bits(2))
  moreover have "p = 5"
    using calculation of_nat_page_inject[of p 5] by (simp add: pmm_example_alloc PAGE_SIZE_def MAX_PAGES_def)
  ultimately show ?thesis
    using pmm_example_inv by (simp add: pmm_example_alloc pmm_example_bits(1) MAX_PAGES_def)
qed

text \<open>A Multiboot block with one memory map tag: 64 MiB of usable memory from address 0.\<close>

definition mboot_example :: memory where
  "mboot_example = (\<lambda>_. 0)(8 := 6, 12 := 40, 16 := 24, 35 := 4, 40 := 1)"

lemma mboot_example_chain: "mboot_chain mboot_example 8 [0..<16384]"
proof -
  have n: "mmap_count mboot_example 8 = Suc 0"
    by (simp add: mmap_count_def load32_eq mboot_example_def)
  have p: "tag_pages mboot_example 8 (mmap_count mboot_example 8) = [0..<16384]"
    unfolding n by (simp add: entry_pages_def load32_eq load64_eq mboot_example_def
        PAGE_SIZE_def MAX_PAGES_def del: upt_conv_Cons upt_rec_numeral)
  have "mboot_chain mboot_example 8 (tag_pages mboot_example 8 (mmap_count mboot_example 8) @ [])"
    by (rule mboot_chain.mmap)
       (simp_all add: load32_eq mboot_example_def mboot_chain.stop)
  then show ?thesis by (simp add: p)
qed

theorem pmm_init_correct_witness:
  "\<exists>s. pmm_init mboot_example 0x200000 0 = Some s \<and> pmm_inv s \<and> unat (kernel_end_page 0x200000) = 768 \<and>
     bitmap_test (bitmap s) 767 \<and> \<not> bitmap_test (bitmap s) 768 \<and> bitmap_test (bitmap s) 16384"
proof -
  have k: "unat (kernel_end_page 0x200000) = 768"
    by (simp add: kernel_end_page_def KHEAP_SIZE_def PAGE_SIZE_def)
  have c: "mboot_chain mboot_example (ucast (0 + 8 :: u32)) [0..<16384]"
    using mboot_example_chain by simp
  have "unat (kernel_end_page 0x200000) \<le> MAX_PAGES" by (simp only: k) (simp add: MAX_PAGES_def)
  from pmm_init_correct[OF c distinct_upt this] show ?thesis
    by (auto simp: k MAX_PAGES_def)
qed

theorem page_alloc_exclusive_witness:
  "\<exists>s L. pmm_step\<^sup>*\<^sup>* (pmm_example, {}) (s, L) \<and> 0x5000 \<in> L \<and>
     fst (page_alloc s) = 0x6000 \<and> fst (page_alloc s) \<notin> L"
proof -
  define s where "s = snd (page_alloc pmm_example)"
  have s: "page_alloc pmm_example = (0x5000, s)" by (simp add: s_def pmm_example_alloc)
  have run: "pmm_step\<^sup>*\<^sup>* (pmm_example, {}) (s, {0x5000})"
    using pmm_step.alloc[OF s, of "{}"] by simp
  have len: "length (bitmap pmm_example) = MAX_PAGES div 8" using pmm_example_inv by (simp add: pmm_inv_def)
  have "find (\<lambda>i. \<not> bitmap_test (bitmap s) i) [0..<16] = Some 6"
    by (auto simp: s_def pmm_example_alloc find_upt_Some bitmap_test_set len pmm_example_bits(1) MAX_PAGES_def)
  moreover have "last_phys_page s = 16" by (simp add: s_def pmm_example_alloc pmm_example_bits(2))
  ultimately have a: "page_alloc s = (0x6000, snd (page_alloc s))"
    by (simp add: page_alloc_def PAGE_SIZE_def)
  have "(0x6000 :: u64) \<notin> {0x5000} \<and> (\<exists>p. 5 \<le> p \<and> p < MAX_PAGES \<and> 0x6000 = of_nat p * PAGE_SIZE)"
    by (rule page_alloc_exclusive[OF pmm_example_inv _ _ _ run a])
       (simp_all add: pmm_example_bits(1) MAX_PAGES_def)
  with run a show ?thesis by (intro exI[of _ s] exI[of _ "{0x5000}"]) (simp add: prod_eq_iff)
qed

end
