(* ===== verification/Vmm.thy ===== *)
theory Vmm
  imports Pmm
begin

text \<open>
  Paging, \<open>src/kernel/arch/x86_64/vmm.c\<close>: four-level page tables in physical memory, which is mapped one to one,
  so that a table is the page at its physical address and an entry is a 64-bit load or store. The state is
  physical memory, the page allocator, the register \<open>cr3\<close> and the address of the boot tables \<open>page_pml4\<close>.
  The translation caches, and so the \<open>invlpg\<close> instructions, are not part of the state.
\<close>

section \<open>State\<close>

record mmu =
  vm_mem :: memory
  vm_pmm :: pmm
  vm_cr3 :: u64
  vm_page_pml4 :: u64

definition PG_PRESENT :: u64 where "PG_PRESENT = 1"
definition PG_WRITE :: u64 where "PG_WRITE = 2"
definition PG_USER :: u64 where "PG_USER = 4"
definition PG_ACCESSED :: u64 where "PG_ACCESSED = 0x20"
definition PG_DIRTY :: u64 where "PG_DIRTY = 0x40"
definition PG_HUGE :: u64 where "PG_HUGE = 0x80"
definition PG_NX :: u64 where "PG_NX = 0x8000000000000000"

definition vmm_read_cr3 :: "mmu \<Rightarrow> u64" where "vmm_read_cr3 s = vm_cr3 s"
definition vmm_set_cr3 :: "u64 \<Rightarrow> mmu \<Rightarrow> mmu" where "vmm_set_cr3 cr3 s = s\<lparr>vm_cr3 := cr3\<rparr>"

text \<open>The entry \<open>i\<close> of the table at \<open>t\<close>.\<close>

definition tbl_get :: "u64 \<Rightarrow> nat \<Rightarrow> mmu \<Rightarrow> u64" where
  "tbl_get t i s = load64 (vm_mem s) (t + of_nat (8 * i))"

definition tbl_set :: "u64 \<Rightarrow> nat \<Rightarrow> u64 \<Rightarrow> mmu \<Rightarrow> mmu" where
  "tbl_set t i e s = s\<lparr>vm_mem := store_bytes (vm_mem s) (t + of_nat (8 * i)) (le_enc 8 e)\<rparr>"

definition present :: "u64 \<Rightarrow> bool" where "present e \<longleftrightarrow> e AND PG_PRESENT \<noteq> 0"
definition frame_addr :: "u64 \<Rightarrow> u64" where "frame_addr e = e AND NOT 0xFFF"

section \<open>Indices\<close>

definition pt_lookup :: "u64 \<Rightarrow> nat" where "pt_lookup virt = unat (drop_bit 12 virt AND 0x1FF)"
definition pd_lookup :: "u64 \<Rightarrow> nat" where "pd_lookup virt = unat (drop_bit 21 virt AND 0x1FF)"
definition pdpt_lookup :: "u64 \<Rightarrow> nat" where "pdpt_lookup virt = unat (drop_bit 30 virt AND 0x1FF)"
definition pml4_lookup :: "u64 \<Rightarrow> nat" where "pml4_lookup virt = unat (drop_bit 39 virt AND 0x1FF)"

section \<open>Mapping\<close>

definition vm_page_alloc :: "mmu \<Rightarrow> u64 \<times> mmu" where
  "vm_page_alloc s = (let (x, p) = page_alloc (vm_pmm s) in (x, s\<lparr>vm_pmm := p\<rparr>))"

definition vm_page_free :: "u64 \<Rightarrow> mmu \<Rightarrow> mmu" where
  "vm_page_free x s = s\<lparr>vm_pmm := page_free x (vm_pmm s)\<rparr>"

definition zero_page :: "u64 \<Rightarrow> mmu \<Rightarrow> mmu" where
  "zero_page x s = s\<lparr>vm_mem := store_bytes (vm_mem s) x (replicate 4096 0)\<rparr>"

text \<open>Splitting a 2 MiB page: the 512 entries of its new page table.\<close>

definition huge_flags :: "u64 \<Rightarrow> u64" where
  "huge_flags huge = (let f = huge AND 0x1FF AND NOT PG_HUGE in if huge AND PG_NX \<noteq> 0 then f OR PG_NX else f)"

definition split_huge :: "u64 \<Rightarrow> u64 \<Rightarrow> mmu \<Rightarrow> mmu" where
  "split_huge pt huge s =
     fold (\<lambda>i. tbl_set pt i ((huge AND NOT (push_bit 21 1 - 1)) + of_nat i * 0x1000 OR huge_flags huge)) [0..<512] (zero_page pt s)"

definition table_entry :: "u64 \<Rightarrow> bool \<Rightarrow> u64" where
  "table_entry paddr user = paddr OR PG_PRESENT OR PG_WRITE OR (if user then PG_USER else 0)"

definition get_or_alloc_table :: "u64 \<Rightarrow> nat \<Rightarrow> bool \<Rightarrow> bool \<Rightarrow> mmu \<Rightarrow> u64 \<times> mmu" where
  "get_or_alloc_table parent idx is_pd user s =
     (let e = tbl_get parent idx s in
      if present e then
        if is_pd \<and> e AND PG_HUGE \<noteq> 0 then
          let (pt, s1) = vm_page_alloc s in
          if pt = 0 then (0, s1)
          else (pt, tbl_set parent idx (table_entry pt user) (split_huge pt e s1))
        else (frame_addr e, s)
      else
        let (paddr, s1) = vm_page_alloc s in
        if paddr = 0 then (0, s1)
        else (paddr, tbl_set parent idx (table_entry paddr user) (zero_page paddr s1)))"

definition pte_value :: "u64 \<Rightarrow> u64 \<Rightarrow> u64" where
  "pte_value phys flags =
     (let e = frame_addr phys OR PG_PRESENT OR (flags AND 0xFFF) in if flags AND PG_NX \<noteq> 0 then e OR PG_NX else e)"

definition vmm_map_in_cr3 :: "u64 \<Rightarrow> u64 \<Rightarrow> u64 \<Rightarrow> u64 \<Rightarrow> mmu \<Rightarrow> mmu" where
  "vmm_map_in_cr3 cr3 virt phys flags s =
     (let user = pml4_lookup virt < 256;
          (pdpt, s1) = get_or_alloc_table cr3 (pml4_lookup virt) False user s;
          (pd, s2) = get_or_alloc_table pdpt (pdpt_lookup virt) False user s1;
          (pt, s3) = get_or_alloc_table pd (pd_lookup virt) True user s2
      in if pt = 0 then s3 else tbl_set pt (pt_lookup virt) (pte_value phys flags) s3)"

definition vmm_map :: "u64 \<Rightarrow> u64 \<Rightarrow> u64 \<Rightarrow> mmu \<Rightarrow> mmu" where
  "vmm_map virt phys flags s = vmm_map_in_cr3 (vmm_read_cr3 s) virt phys flags s"

text \<open>The address of the last-level entry of a page in the boot tables, 0 if a level is not present.\<close>

definition vmm_walk :: "u64 \<Rightarrow> u64 \<Rightarrow> mmu \<Rightarrow> u64 option" where
  "vmm_walk root virt s =
     (let e1 = tbl_get root (pml4_lookup virt) s in
      if \<not> present e1 then None
      else let e2 = tbl_get (frame_addr e1) (pdpt_lookup virt) s in
      if \<not> present e2 then None
      else let e3 = tbl_get (frame_addr e2) (pd_lookup virt) s in
      if \<not> present e3 then None else Some (frame_addr e3))"

definition vmm_unmap :: "u64 \<Rightarrow> mmu \<Rightarrow> mmu" where
  "vmm_unmap virt s =
     (case vmm_walk (vm_page_pml4 s) virt s of None \<Rightarrow> s
      | Some pt \<Rightarrow>
          let pte = tbl_get pt (pt_lookup virt) s;
              s1 = (if pte AND PG_USER \<noteq> 0 then vm_page_free (frame_addr pte) s else s)
          in tbl_set pt (pt_lookup virt) 0 s1)"

definition vmm_pt_lookup :: "u64 \<Rightarrow> mmu \<Rightarrow> u64" where
  "vmm_pt_lookup virt s =
     (case vmm_walk (vm_page_pml4 s) virt s of None \<Rightarrow> 0
      | Some pt \<Rightarrow> if present (tbl_get pt (pt_lookup virt) s) then pt + of_nat (8 * pt_lookup virt) else 0)"

definition vmm_alloc_page :: "mmu \<Rightarrow> u64 \<times> mmu" where
  "vmm_alloc_page s = (let (x, s1) = vm_page_alloc s in if x = 0 then (0, s1) else (x, zero_page x s1))"

section \<open>Copying an address space\<close>

definition rw_entry :: "bool \<Rightarrow> u64 \<Rightarrow> u64" where
  "rw_entry user e =
     (if \<not> present e then 0 else if e AND PG_HUGE \<noteq> 0 then e
      else frame_addr e OR (PG_PRESENT OR PG_WRITE OR (if user then PG_USER else 0)))"

definition clone_table_rw :: "u64 \<Rightarrow> bool \<Rightarrow> mmu \<Rightarrow> u64 \<times> mmu" where
  "clone_table_rw parent user s =
     (let (child, s1) = vmm_alloc_page s in
      if child = 0 then (0, s1)
      else (child, fold (\<lambda>i t. tbl_set child i (rw_entry user (tbl_get parent i t)) t) [0..<512] s1))"

text \<open>One entry of a page table copied on write: a user page loses its write permission in both tables.\<close>

definition cow_entry :: "u64 \<Rightarrow> u64 \<Rightarrow> nat \<Rightarrow> mmu \<Rightarrow> mmu" where
  "cow_entry parent child i s =
     (let e = tbl_get parent i s in
      if \<not> present e then tbl_set child i 0 s
      else if e AND PG_USER \<noteq> 0
        then let e' = e AND NOT PG_WRITE in tbl_set child i e' (tbl_set parent i e' s)
        else tbl_set child i e s)"

definition clone_pt_cow :: "u64 \<Rightarrow> mmu \<Rightarrow> u64 \<times> mmu" where
  "clone_pt_cow parent s =
     (let (child, s1) = vmm_alloc_page s in
      if child = 0 then (0, s1) else (child, fold (cow_entry parent child) [0..<512] s1))"

definition child_entry :: "u64 \<Rightarrow> u64" where
  "child_entry x = frame_addr x OR PG_PRESENT OR PG_WRITE OR PG_USER"

text \<open>The three nested loops; the result is whether no allocation failed.\<close>

primrec clone_pd :: "u64 \<Rightarrow> u64 \<Rightarrow> nat list \<Rightarrow> mmu \<Rightarrow> bool \<times> mmu" where
  "clone_pd parent child [] s = (True, s)"
| "clone_pd parent child (k # ks) s =
     (let e = tbl_get parent k s in
      if \<not> present e then clone_pd parent child ks (tbl_set child k 0 s)
      else if e AND PG_HUGE \<noteq> 0 then clone_pd parent child ks (tbl_set child k e s)
      else
        let (pt, s1) = clone_pt_cow (frame_addr e) s in
        if pt = 0 then (False, s1)
        else clone_pd parent child ks (fold (cow_entry (frame_addr e) pt) [0..<512] (tbl_set child k (child_entry pt) s1)))"

primrec clone_pdpt :: "u64 \<Rightarrow> u64 \<Rightarrow> nat list \<Rightarrow> mmu \<Rightarrow> bool \<times> mmu" where
  "clone_pdpt parent child [] s = (True, s)"
| "clone_pdpt parent child (j # js) s =
     (let e = tbl_get parent j s in
      if \<not> present e then clone_pdpt parent child js (tbl_set child j 0 s)
      else if e AND PG_HUGE \<noteq> 0 then clone_pdpt parent child js (tbl_set child j e s)
      else
        let (pd, s1) = clone_table_rw (frame_addr e) True s in
        if pd = 0 then (False, s1)
        else
          let (ok, s2) = clone_pd (frame_addr e) pd [0..<512] (tbl_set child j (child_entry pd) s1)
          in if ok then clone_pdpt parent child js s2 else (False, s2))"

primrec clone_pml4_loop :: "u64 \<Rightarrow> u64 \<Rightarrow> nat list \<Rightarrow> mmu \<Rightarrow> bool \<times> mmu" where
  "clone_pml4_loop parent child [] s = (True, s)"
| "clone_pml4_loop parent child (i # is) s =
     (let e = tbl_get parent i s in
      if \<not> present e then clone_pml4_loop parent child is (tbl_set child i 0 s)
      else if e AND PG_HUGE \<noteq> 0 then clone_pml4_loop parent child is (tbl_set child i e s)
      else
        let (pdpt, s1) = clone_table_rw (frame_addr e) True s in
        if pdpt = 0 then (False, s1)
        else
          let (ok, s2) = clone_pdpt (frame_addr e) pdpt [0..<512] (tbl_set child i (child_entry pdpt) s1)
          in if ok then clone_pml4_loop parent child is s2 else (False, s2))"

definition vmm_clone_pml4 :: "u64 \<Rightarrow> mmu \<Rightarrow> u64 \<times> mmu" where
  "vmm_clone_pml4 parent s =
     (let (child, s1) = vmm_alloc_page s in
      if child = 0 then (0, s1)
      else
        let s2 = fold (\<lambda>i t. tbl_set child i (tbl_get parent i t) t) [256..<512] s1;
            (ok, s3) = clone_pml4_loop parent child [0..<256] s2
        in (if ok then child else 0, s3))"

section \<open>Releasing an address space\<close>

definition unmap_pt :: "u64 \<Rightarrow> mmu \<Rightarrow> mmu" where
  "unmap_pt pt = fold (\<lambda>l s. let e = tbl_get pt l s in
     if present e \<and> e AND PG_USER \<noteq> 0 then vm_page_free (frame_addr e) s else s) [0..<512]"

definition unmap_pd :: "u64 \<Rightarrow> mmu \<Rightarrow> mmu" where
  "unmap_pd pd = fold (\<lambda>k s. let e = tbl_get pd k s in
     if present e then (let s1 = unmap_pt (frame_addr e) s in vm_page_free (frame_addr (tbl_get pd k s1)) s1) else s) [0..<512]"

definition unmap_pdpt :: "u64 \<Rightarrow> mmu \<Rightarrow> mmu" where
  "unmap_pdpt pdpt = fold (\<lambda>j s. let e = tbl_get pdpt j s in
     if present e then (let s1 = unmap_pd (frame_addr e) s in vm_page_free (frame_addr (tbl_get pdpt j s1)) s1) else s) [0..<512]"

definition vmm_unmap_user :: "mmu \<Rightarrow> mmu" where
  "vmm_unmap_user s0 =
     (let pml4 = vmm_read_cr3 s0 in
      fold (\<lambda>i s. let e = tbl_get pml4 i s in
        if present e
        then (let s1 = unmap_pdpt (frame_addr e) s
              in tbl_set pml4 i 0 (vm_page_free (frame_addr (tbl_get pml4 i s1)) s1))
        else s) [0..<256] s0)"

end
