(* ===== verification/Process.thy ===== *)
theory Process
  imports Vmm Vfs
begin

text \<open>
  Processes and the scheduler, \<open>src/kernel/sched/process.h\<close> and \<open>sched.c\<close>: the table of 64 processes, process
  numbers, creation, \<open>fork\<close>, \<open>exit\<close>, \<open>wait\<close> and the round-robin choice at a timer interrupt. The pointer
  \<open>g_fds\<close> of the VFS is the number of the process whose table it points to, or none for the boot table. What
  other processes do while a call waits in \<open>sched_yield\<close> is a list of changes of the kernel state, one for
  each yield. Console messages are left out.
\<close>

section \<open>State\<close>

definition MAX_PROCS :: nat where "MAX_PROCS = 64"
definition KSTACK_SIZE :: u64 where "KSTACK_SIZE = 4096"
definition VMA_MAX :: nat where "VMA_MAX = 64"
definition PROC_READY :: int where "PROC_READY = 1"
definition PROC_ZOMBIE :: int where "PROC_ZOMBIE = 2"

record vma =
  v_start :: u64
  v_end :: u64
  v_prot :: int
  v_flags :: int
  v_fd :: int
  v_foff :: u64
  v_used :: bool

record 'fs process =
  p_used :: bool
  p_pid :: int
  p_state :: int
  p_exit_code :: int
  p_parent :: int
  p_frame :: u64
  p_cr3 :: u64
  p_kstack :: u64
  p_heap_start :: u64
  p_heap_break :: u64
  p_vmas :: "vma list"
  p_vma_count :: int
  p_fds :: "'fs vfile list"

record 'fs kernel =
  procs :: "'fs process list"
  current_idx :: nat
  next_pid :: u32
  nr_procs :: int
  k_mmu :: mmu
  k_vfs :: "'fs vfs"
  k_fds :: "nat option"
  syscall_kernel_rsp :: u64
  syscall_frame_ptr :: u64
  user_rsp_save :: u64
  tss_rsp0 :: u64

abbreviation cur :: "'fs kernel \<Rightarrow> 'fs process" where "cur k \<equiv> procs k ! current_idx k"

definition put_proc :: "nat \<Rightarrow> 'fs process \<Rightarrow> 'fs kernel \<Rightarrow> 'fs kernel" where
  "put_proc i p k = k\<lparr>procs := (procs k)[i := p]\<rparr>"

text \<open>The VFS as the running code sees it through \<open>g_fds\<close>, and what a call leaves of it.\<close>

definition vfs_view :: "'fs kernel \<Rightarrow> 'fs vfs" where
  "vfs_view k = (case k_fds k of None \<Rightarrow> k_vfs k | Some i \<Rightarrow> (k_vfs k)\<lparr>g_fds := p_fds (procs k ! i)\<rparr>)"

definition vfs_put :: "'fs vfs \<Rightarrow> 'fs kernel \<Rightarrow> 'fs kernel" where
  "vfs_put v k =
     (case k_fds k of None \<Rightarrow> k\<lparr>k_vfs := v\<rparr>
      | Some i \<Rightarrow> put_proc i ((procs k ! i)\<lparr>p_fds := g_fds v\<rparr>) (k\<lparr>k_vfs := v\<lparr>g_fds := g_fds (k_vfs k)\<rparr>\<rparr>))"

section \<open>Slots and numbers\<close>

definition slot_alloc :: "'fs kernel \<Rightarrow> int" where
  "slot_alloc k = (case find (\<lambda>i. \<not> p_used (procs k ! i)) [0..<MAX_PROCS] of Some i \<Rightarrow> int i | None \<Rightarrow> -1)"

definition pid_taken :: "int \<Rightarrow> 'fs kernel \<Rightarrow> bool" where
  "pid_taken pid k \<longleftrightarrow> list_ex (\<lambda>i. p_used (procs k ! i) \<and> p_pid (procs k ! i) = pid) [0..<MAX_PROCS]"

text \<open>The counter is a signed 32-bit integer; its increment wraps around.\<close>

primrec pid_try :: "nat \<Rightarrow> 'fs kernel \<Rightarrow> int \<times> 'fs kernel" where
  "pid_try 0 k = (-1, k)"
| "pid_try (Suc n) k =
     (let pid = sint (next_pid k); k1 = k\<lparr>next_pid := (if sint (next_pid k + 1) \<le> 0 then 1 else next_pid k + 1)\<rparr>
      in if pid_taken pid k1 then pid_try n k1 else (pid, k1))"

definition pid_alloc :: "'fs kernel \<Rightarrow> int \<times> 'fs kernel" where
  "pid_alloc k = pid_try 65536 k"

definition pid_free :: "int \<Rightarrow> 'fs kernel \<Rightarrow> 'fs kernel" where
  "pid_free pid k = k"

definition proc_index :: "int \<Rightarrow> 'fs kernel \<Rightarrow> int" where
  "proc_index pid k =
     (case find (\<lambda>i. p_used (procs k ! i) \<and> p_pid (procs k ! i) = pid) [0..<MAX_PROCS] of Some i \<Rightarrow> int i | None \<Rightarrow> -1)"

section \<open>Creation\<close>

definition store64s :: "u64 \<Rightarrow> u64 list \<Rightarrow> mmu \<Rightarrow> mmu" where
  "store64s a ws s = s\<lparr>vm_mem := store_bytes (vm_mem s) a (concat (map (le_enc 8) ws))\<rparr>"

text \<open>The register frame of a new process: fifteen registers, vector, error code and what \<open>iretq\<close> takes.\<close>

definition entry_frame :: "u64 \<Rightarrow> u64 \<Rightarrow> u64 list" where
  "entry_frame entry rsp = replicate 17 0 @ [entry, 0x23, 0x202, rsp, 0x1B]"

definition proc_create :: "u64 \<Rightarrow> u64 \<Rightarrow> u64 \<Rightarrow> u64 \<Rightarrow> 'fs kernel \<Rightarrow> int \<times> 'fs kernel" where
  "proc_create entry rsp cr3 kstack k =
     (let idx = slot_alloc k in
      if idx < 0 then (-1, k)
      else
        let (pid, k1) = pid_alloc k in
        if pid < 0 then (-1, k1)
        else
          let frame = kstack + KSTACK_SIZE - 22 * 8;
              k2 = k1\<lparr>k_mmu := store64s frame (entry_frame entry rsp) (zero_page kstack (k_mmu k1))\<rparr>;
              i = nat idx;
              p = (procs k2 ! i)\<lparr>p_used := True, p_pid := pid, p_state := PROC_READY, p_exit_code := 0, p_parent := 1,
                    p_cr3 := cr3, p_kstack := kstack, p_frame := frame,
                    p_heap_start := 0x10000000, p_heap_break := 0x10000000,
                    p_vmas := map (\<lambda>v. v\<lparr>v_used := False\<rparr>) (p_vmas (procs k2 ! i)), p_vma_count := 0,
                    p_fds := vfs_init (p_fds (procs k2 ! i))\<rparr>
          in (pid, (put_proc i p k2)\<lparr>k_fds := Some i, nr_procs := nr_procs k2 + 1\<rparr>))"

section \<open>Scheduling\<close>

definition set_kernel_stack :: "u64 \<Rightarrow> 'fs kernel \<Rightarrow> 'fs kernel" where
  "set_kernel_stack kstack k = k\<lparr>syscall_kernel_rsp := kstack + KSTACK_SIZE, tss_rsp0 := kstack + KSTACK_SIZE\<rparr>"

definition sched_init :: "'fs kernel \<Rightarrow> 'fs kernel" where
  "sched_init k =
     k\<lparr>procs := map (\<lambda>p. p\<lparr>p_used := False\<rparr>) (procs k), current_idx := 0, next_pid := 1, nr_procs := 0\<rparr>"

definition runnable :: "'fs process \<Rightarrow> bool" where
  "runnable p \<longleftrightarrow> p_used p \<and> p_state p = PROC_READY"

function sched_scan :: "'fs process list \<Rightarrow> nat \<Rightarrow> nat \<Rightarrow> nat \<times> nat" where
  "sched_scan ps c tries =
     (let c' = (c + 1) mod MAX_PROCS; tries' = tries + 1
      in if tries' \<le> MAX_PROCS \<and> \<not> runnable (ps ! c') then sched_scan ps c' tries' else (c', tries'))"
  by pat_completeness auto
termination by (relation "measure (\<lambda>(ps, c, tries). MAX_PROCS - tries)") auto

declare sched_scan.simps [simp del]

text \<open>Making a process current: its file table, its page tables unless it has none, its kernel stack.\<close>

definition set_cr3_of :: "'fs process \<Rightarrow> 'fs kernel \<Rightarrow> 'fs kernel" where
  "set_cr3_of p k = (if p_cr3 p \<noteq> 0 then k\<lparr>k_mmu := vmm_set_cr3 (p_cr3 p) (k_mmu k)\<rparr> else k)"

definition sched_irq_return :: "u64 \<Rightarrow> 'fs kernel \<Rightarrow> u64 \<times> 'fs kernel" where
  "sched_irq_return frame k =
     (let k1 = (if p_used (cur k) then put_proc (current_idx k) ((cur k)\<lparr>p_frame := frame\<rparr>) k else k);
          prev = current_idx k1;
          (c, tries) = sched_scan (procs k1) prev 0;
          k2 = k1\<lparr>current_idx := c\<rparr>
      in if tries > MAX_PROCS \<or> c = prev then (frame, k2)
         else
           let p = procs k2 ! c; k3 = (set_kernel_stack (p_kstack p) k2)\<lparr>k_fds := Some c\<rparr>
           in (p_frame p, set_cr3_of p k3))"

definition sched_run :: "'fs kernel \<Rightarrow> 'fs kernel" where
  "sched_run k = set_kernel_stack (p_kstack (cur k)) (set_cr3_of (cur k) (k\<lparr>k_fds := Some (current_idx k)\<rparr>))"

section \<open>Fork, exit and wait\<close>

text \<open>
  The frame \<open>fork\<close> builds for the child from the registers that the system call entry pushed at \<open>sf\<close>:
  \<open>r11\<close>, \<open>r10\<close>, \<open>r9\<close>, \<open>r8\<close>, \<open>rcx\<close>, \<open>rdx\<close>, \<open>rsi\<close> and \<open>rdi\<close>, from the lowest address on.
\<close>

definition irq_frame :: "u64 list \<Rightarrow> u64 \<Rightarrow> u64 \<Rightarrow> u64 list" where
  "irq_frame sf rax rsp =
     [rax, 0, sf ! 4, sf ! 5, sf ! 7, sf ! 6, 0, sf ! 3, sf ! 2, sf ! 1, sf ! 0, 0, 0, 0, 0, 0, 0,
      sf ! 4, 0x23, 0x202, rsp, 0x1B]"

definition build_irq_frame :: "u64 \<Rightarrow> u64 \<Rightarrow> u64 \<Rightarrow> 'fs kernel \<Rightarrow> u64 \<times> 'fs kernel" where
  "build_irq_frame sysframe rax_val child_kstack k =
     (let frame = child_kstack + KSTACK_SIZE - 15 * 8 - 2 * 8;
          sf = map (\<lambda>i. load64 (vm_mem (k_mmu k)) (sysframe + of_nat (8 * i))) [0..<8]
      in (frame, k\<lparr>k_mmu := store64s frame (irq_frame sf rax_val (user_rsp_save k)) (k_mmu k)\<rparr>))"

definition proc_fork :: "'fs kernel \<Rightarrow> int \<times> 'fs kernel" where
  "proc_fork k =
     (let parent = cur k;
          parent_cr3 = (if p_cr3 parent = 0 then vm_page_pml4 (k_mmu k) else p_cr3 parent);
          (child_cr3, m1) = vmm_clone_pml4 parent_cr3 (k_mmu k)
      in if child_cr3 = 0 then (-1, k\<lparr>k_mmu := m1\<rparr>)
      else
        let (kstack, m2) = vm_page_alloc m1; k2 = k\<lparr>k_mmu := m2\<rparr>
        in if kstack = 0 then (-1, k2)
        else
          let (child_frame, k3) = build_irq_frame (syscall_frame_ptr k2) 0 kstack k2; idx = slot_alloc k3
          in if idx < 0 then (-1, k3)
          else
            let (pid, k4) = pid_alloc k3
            in if pid < 0 then (-1, k4)
            else
              let i = nat idx;
                  p = (procs k4 ! i)\<lparr>p_used := True, p_pid := pid, p_state := PROC_READY, p_exit_code := 0,
                        p_parent := p_pid parent, p_cr3 := child_cr3, p_kstack := kstack, p_frame := child_frame,
                        p_heap_start := p_heap_start parent, p_heap_break := p_heap_break parent,
                        p_vmas := p_vmas parent, p_vma_count := p_vma_count parent, p_fds := p_fds parent\<rparr>
              in (pid, (put_proc i p k4)\<lparr>nr_procs := nr_procs k4 + 1\<rparr>))"

text \<open>The process then halts for ever with interrupts enabled.\<close>

definition proc_exit :: "int \<Rightarrow> 'fs kernel \<Rightarrow> 'fs kernel" where
  "proc_exit code k = put_proc (current_idx k) ((cur k)\<lparr>p_exit_code := code, p_state := PROC_ZOMBIE\<rparr>) k"

definition wait_zombie :: "int \<Rightarrow> 'fs kernel \<Rightarrow> nat option" where
  "wait_zombie my_pid k =
     find (\<lambda>i. p_used (procs k ! i) \<and> p_state (procs k ! i) = PROC_ZOMBIE \<and> p_parent (procs k ! i) = my_pid) [0..<MAX_PROCS]"

definition has_child :: "int \<Rightarrow> 'fs kernel \<Rightarrow> bool" where
  "has_child my_pid k \<longleftrightarrow> list_ex (\<lambda>i. p_used (procs k ! i) \<and> p_parent (procs k ! i) = my_pid) [0..<MAX_PROCS]"

text \<open>Taking the zombie in slot \<open>i\<close>.\<close>

definition reap :: "nat \<Rightarrow> 'fs kernel \<Rightarrow> 'fs kernel" where
  "reap i k = (put_proc i ((procs k ! i)\<lparr>p_used := False\<rparr>) k)\<lparr>nr_procs := nr_procs k - 1\<rparr>"

text \<open>
  The result is the return value, the exit code stored for the caller, if one is, and the state; a call that
  is still waiting when the list of yields is used up is \<^const>\<open>None\<close>.
\<close>

primrec wait_loop :: "int \<Rightarrow> ('fs kernel \<Rightarrow> 'fs kernel) list \<Rightarrow> 'fs kernel \<Rightarrow> (int \<times> int option \<times> 'fs kernel) option" where
  "wait_loop my_pid [] k =
     (case wait_zombie my_pid k of
        Some i \<Rightarrow> Some (p_pid (procs k ! i), Some (p_exit_code (procs k ! i)), reap i k)
      | None \<Rightarrow> if has_child my_pid k then None else Some (-1, None, k))"
| "wait_loop my_pid (y # ys) k =
     (case wait_zombie my_pid k of
        Some i \<Rightarrow> Some (p_pid (procs k ! i), Some (p_exit_code (procs k ! i)), reap i k)
      | None \<Rightarrow> if has_child my_pid k then wait_loop my_pid ys (y k) else Some (-1, None, k))"

definition proc_wait :: "('fs kernel \<Rightarrow> 'fs kernel) list \<Rightarrow> 'fs kernel \<Rightarrow> (int \<times> int option \<times> 'fs kernel) option" where
  "proc_wait ys k = wait_loop (p_pid (cur k)) ys k"

end
