(* ===== verification/Vma.thy ===== *)
theory Vma
  imports Process
begin

text \<open>
  The virtual memory areas of a process, \<open>struct vma\<close> in \<open>src/kernel/sched/process.h\<close> and the helpers of
  \<open>src/kernel/user/syscall_handler.c\<close>: searching, the hint for a new area, splitting and merging. The helpers
  act on the array of the current process and its counter. What an address sees of the areas is \<open>vma_attr\<close>;
  splitting and merging do not change it.
\<close>

type_synonym vtab = "vma list \<times> int"

section \<open>Operations\<close>

definition vma_alloc_slot :: "vma list \<Rightarrow> int" where
  "vma_alloc_slot v = (case find (\<lambda>i. \<not> v_used (v ! i)) [0..<VMA_MAX] of Some i \<Rightarrow> int i | None \<Rightarrow> -1)"

definition vma_find :: "u64 \<Rightarrow> vma list \<Rightarrow> int" where
  "vma_find addr v =
     (case find (\<lambda>i. v_used (v ! i) \<and> addr \<ge> v_start (v ! i) \<and> addr < v_end (v ! i)) [0..<VMA_MAX] of
        Some i \<Rightarrow> int i | None \<Rightarrow> -1)"

definition vma_hint :: "vma list \<Rightarrow> u64" where
  "vma_hint v =
     (let hint = fold (\<lambda>i hint. if v_used (v ! i) \<and> v_end (v ! i) > hint then v_end (v ! i) else hint) [0..<VMA_MAX] 0x40000000
      in (hint + 0xFFF) AND NOT 0xFFF)"

definition vma_split :: "nat \<Rightarrow> u64 \<Rightarrow> vtab \<Rightarrow> int \<times> vtab" where
  "vma_split idx split_addr vt =
     (let (v, n) = vt in
      if split_addr \<le> v_start (v ! idx) \<or> split_addr \<ge> v_end (v ! idx) then (-1, vt)
      else
        let right = vma_alloc_slot v in
        if right < 0 then (-1, vt)
        else
          let v1 = v[nat right := (v ! idx)\<lparr>v_start := split_addr, v_foff := v_foff (v ! idx) + (split_addr - v_start (v ! idx))\<rparr>];
              v2 = v1[idx := (v1 ! idx)\<lparr>v_end := split_addr\<rparr>]
          in (right, (v2, n + 1)))"

definition vma_compat :: "vma \<Rightarrow> vma \<Rightarrow> bool" where
  "vma_compat a b \<longleftrightarrow> v_prot a = v_prot b \<and> v_flags a = v_flags b \<and> v_fd a = v_fd b \<and>
     (v_fd a \<ge> 0 \<longrightarrow> v_foff b = v_foff a + (v_end a - v_start a))"

text \<open>Merging the area in slot \<open>b\<close> into the one in slot \<open>a\<close>, if they fit.\<close>

definition merge_pair :: "nat \<Rightarrow> nat \<Rightarrow> vtab \<Rightarrow> vtab option" where
  "merge_pair a b vt =
     (let (v, n) = vt in
      if v_end (v ! a) = v_start (v ! b) \<and> vma_compat (v ! a) (v ! b)
      then let v1 = v[a := (v ! a)\<lparr>v_end := v_end (v ! b)\<rparr>]
           in Some (v1[b := (v1 ! b)\<lparr>v_used := False\<rparr>], n - 1)
      else None)"

definition vma_try_merge :: "nat \<Rightarrow> vtab \<Rightarrow> vtab" where
  "vma_try_merge idx vt =
     (case (if idx = 0 \<or> \<not> v_used (fst vt ! (idx - 1)) then None else merge_pair (idx - 1) idx vt) of
        Some vt' \<Rightarrow> vt'
      | None \<Rightarrow>
          (case (if idx + 1 \<ge> VMA_MAX \<or> \<not> v_used (fst vt ! (idx + 1)) then None else merge_pair idx (idx + 1) vt) of
             Some vt' \<Rightarrow> vt' | None \<Rightarrow> vt))"

section \<open>What an address sees\<close>

definition covers :: "vma \<Rightarrow> u64 \<Rightarrow> bool" where
  "covers v a \<longleftrightarrow> v_used v \<and> v_start v \<le> a \<and> a < v_end v"

definition attr_of :: "vma \<Rightarrow> u64 \<Rightarrow> int \<times> int \<times> int \<times> u64" where
  "attr_of v a = (v_prot v, v_flags v, v_fd v, if v_fd v \<ge> 0 then v_foff v + (a - v_start v) else 0)"

definition vma_attr :: "u64 \<Rightarrow> vma list \<Rightarrow> (int \<times> int \<times> int \<times> u64) option" where
  "vma_attr a v = (let i = vma_find a v in if i < 0 then None else Some (attr_of (v ! nat i) a))"

definition vma_ok :: "vma list \<Rightarrow> bool" where
  "vma_ok v \<longleftrightarrow> length v = VMA_MAX \<and>
     (\<forall>i<VMA_MAX. v_used (v ! i) \<longrightarrow> v_start (v ! i) < v_end (v ! i)) \<and>
     (\<forall>i<VMA_MAX. \<forall>j<VMA_MAX. i \<noteq> j \<and> v_used (v ! i) \<and> v_used (v ! j) \<longrightarrow>
        v_end (v ! i) \<le> v_start (v ! j) \<or> v_end (v ! j) \<le> v_start (v ! i))"

lemma vma_okD:
  assumes "vma_ok v"
  shows "length v = VMA_MAX" "i < VMA_MAX \<Longrightarrow> v_used (v ! i) \<Longrightarrow> v_start (v ! i) < v_end (v ! i)"
    and "i < VMA_MAX \<Longrightarrow> j < VMA_MAX \<Longrightarrow> i \<noteq> j \<Longrightarrow> v_used (v ! i) \<Longrightarrow> v_used (v ! j) \<Longrightarrow>
      v_end (v ! i) \<le> v_start (v ! j) \<or> v_end (v ! j) \<le> v_start (v ! i)"
  using assms by (auto simp: vma_ok_def)

lemma vma_alloc_slot_free:
  assumes "vma_alloc_slot v \<ge> 0"
  shows "nat (vma_alloc_slot v) < VMA_MAX" "\<not> v_used (v ! nat (vma_alloc_slot v))"
proof -
  from assms obtain i where "find (\<lambda>i. \<not> v_used (v ! i)) [0..<VMA_MAX] = Some i" "vma_alloc_slot v = int i"
    by (auto simp: vma_alloc_slot_def split: option.splits)
  then show "nat (vma_alloc_slot v) < VMA_MAX" "\<not> v_used (v ! nat (vma_alloc_slot v))" by (auto simp: find_upt_Some)
qed

lemma vma_attr_None: "vma_attr a v = None \<longleftrightarrow> (\<forall>i<VMA_MAX. \<not> covers (v ! i) a)"
proof (cases "find (\<lambda>i. v_used (v ! i) \<and> a \<ge> v_start (v ! i) \<and> a < v_end (v ! i)) [0..<VMA_MAX]")
  case None
  then have "\<forall>i<VMA_MAX. \<not> covers (v ! i) a" by (auto simp: find_upt_None covers_def)
  then show ?thesis by (simp add: vma_attr_def vma_find_def None)
next
  case (Some j)
  then have "j < VMA_MAX" "covers (v ! j) a" by (auto simp: find_upt_Some covers_def)
  then show ?thesis by (auto simp: vma_attr_def vma_find_def Some)
qed

lemma vma_attr_Some:
  assumes ok: "vma_ok v" and i: "i < VMA_MAX" "covers (v ! i) a"
  shows "vma_attr a v = Some (attr_of (v ! i) a)"
proof -
  obtain j where j: "find (\<lambda>i. v_used (v ! i) \<and> a \<ge> v_start (v ! i) \<and> a < v_end (v ! i)) [0..<VMA_MAX] = Some j"
    using i by (fastforce simp: covers_def find_upt_None intro: option.exhaust_sel)
  then have "j < VMA_MAX" "covers (v ! j) a" by (auto simp: find_upt_Some covers_def)
  then have "j = i" using vma_okD(3)[OF ok, of i j] i by (fastforce simp: covers_def word_le_nat_alt word_less_nat_alt)
  then show ?thesis using j by (simp add: vma_attr_def vma_find_def)
qed

text \<open>Two tables show the same if every covering area of one has a counterpart in the other.\<close>

lemma vma_attr_eqI:
  assumes "vma_ok v" "vma_ok w"
    and fwd: "\<And>i. i < VMA_MAX \<Longrightarrow> covers (v ! i) a \<Longrightarrow> \<exists>j<VMA_MAX. covers (w ! j) a \<and> attr_of (w ! j) a = attr_of (v ! i) a"
    and bwd: "\<And>j. j < VMA_MAX \<Longrightarrow> covers (w ! j) a \<Longrightarrow> \<exists>i<VMA_MAX. covers (v ! i) a"
  shows "vma_attr a w = vma_attr a v"
proof (cases "\<exists>i<VMA_MAX. covers (v ! i) a")
  case True
  then obtain i where i: "i < VMA_MAX" "covers (v ! i) a" by blast
  with fwd obtain j where "j < VMA_MAX" "covers (w ! j) a" "attr_of (w ! j) a = attr_of (v ! i) a" by blast
  then show ?thesis using vma_attr_Some[OF assms(1) i] vma_attr_Some[OF assms(2)] by metis
next
  case False
  then have "\<not> (\<exists>j<VMA_MAX. covers (w ! j) a)" using bwd by blast
  then show ?thesis using False vma_attr_None[of a v] vma_attr_None[of a w] by simp
qed

section \<open>Splitting and merging\<close>

lemma vma_split_cases:
  assumes "vma_ok v" "idx < VMA_MAX" "v_used (v ! idx)"
  obtains (none) "vma_split idx x (v, n) = (-1, (v, n))" "\<not> (v_start (v ! idx) < x \<and> x < v_end (v ! idx)) \<or> (\<forall>i<VMA_MAX. v_used (v ! i))"
  | (split) r where "v_start (v ! idx) < x" "x < v_end (v ! idx)" "r < VMA_MAX" "\<not> v_used (v ! r)" "r \<noteq> idx"
      "vma_split idx x (v, n) = (int r, (v[r := (v ! idx)\<lparr>v_start := x, v_foff := v_foff (v ! idx) + (x - v_start (v ! idx))\<rparr>,
         idx := (v ! idx)\<lparr>v_end := x\<rparr>], n + 1))"
proof (cases "v_start (v ! idx) < x \<and> x < v_end (v ! idx)")
  case inside: True
  show thesis
  proof (cases "vma_alloc_slot v < 0")
    case True
    then have "\<forall>i<VMA_MAX. v_used (v ! i)" by (auto simp: vma_alloc_slot_def find_upt_None split: option.splits)
    then show thesis using none True by (simp add: vma_split_def)
  next
    case False
    let ?r = "nat (vma_alloc_slot v)"
    have r: "?r < VMA_MAX" "\<not> v_used (v ! ?r)" using vma_alloc_slot_free[of v] False by simp_all
    then have "?r \<noteq> idx" using assms(3) by auto
    then show thesis using split[of ?r] inside r False by (simp add: vma_split_def Let_def not_le)
  qed
next
  case False
  then have "x \<le> v_start (v ! idx) \<or> v_end (v ! idx) \<le> x" by auto
  then show thesis using none False by (auto simp: vma_split_def)
qed

lemma vma_split_ok:
  assumes ok: "vma_ok v" and idx: "idx < VMA_MAX" "v_used (v ! idx)" and r: "vma_split idx x (v, n) = (r, (w, m))"
  shows "vma_ok w"
  using ok idx
proof (cases rule: vma_split_cases[of v idx x n])
  case none
  then show ?thesis using r ok by simp
next
  case (split s)
  then have w: "w = v[s := (v ! idx)\<lparr>v_start := x, v_foff := v_foff (v ! idx) + (x - v_start (v ! idx))\<rparr>, idx := (v ! idx)\<lparr>v_end := x\<rparr>]"
    using r by simp
  have len: "length v = VMA_MAX" by (rule vma_okD(1)[OF ok])
  have el: "w ! i = (if i = idx then (v ! idx)\<lparr>v_end := x\<rparr> else if i = s then (v ! idx)\<lparr>v_start := x, v_foff := v_foff (v ! idx) + (x - v_start (v ! idx))\<rparr> else v ! i)"
    if "i < VMA_MAX" for i using that len split(3) idx(1) by (auto simp: w nth_list_update)
  show ?thesis
    unfolding vma_ok_def
  proof (intro conjI allI impI)
    show "length w = VMA_MAX" by (simp add: w len)
    show "v_start (w ! i) < v_end (w ! i)" if "i < VMA_MAX" "v_used (w ! i)" for i
      using that split vma_okD(2)[OF ok, of i] by (auto simp: el split: if_splits)
    show "v_end (w ! i) \<le> v_start (w ! j) \<or> v_end (w ! j) \<le> v_start (w ! i)"
      if "i < VMA_MAX" "j < VMA_MAX" "i \<noteq> j \<and> v_used (w ! i) \<and> v_used (w ! j)" for i j
      using that split(1-5) idx vma_okD(3)[OF ok, of i j] vma_okD(3)[OF ok, of idx j] vma_okD(3)[OF ok, of i idx]
      by (auto simp: el word_le_nat_alt word_less_nat_alt split: if_splits)
  qed
qed

lemma vma_split_transparent:
  assumes ok: "vma_ok v" and idx: "idx < VMA_MAX" "v_used (v ! idx)" and r: "vma_split idx x (v, n) = (r, (w, m))"
  shows "vma_attr a w = vma_attr a v"
  using ok idx
proof (cases rule: vma_split_cases[of v idx x n])
  case none
  then show ?thesis using r by simp
next
  case (split s)
  then have w: "w = v[s := (v ! idx)\<lparr>v_start := x, v_foff := v_foff (v ! idx) + (x - v_start (v ! idx))\<rparr>, idx := (v ! idx)\<lparr>v_end := x\<rparr>]"
    using r by simp
  have len: "length v = VMA_MAX" by (rule vma_okD(1)[OF ok])
  have el: "w ! i = (if i = idx then (v ! idx)\<lparr>v_end := x\<rparr> else if i = s then (v ! idx)\<lparr>v_start := x, v_foff := v_foff (v ! idx) + (x - v_start (v ! idx))\<rparr> else v ! i)"
    if "i < VMA_MAX" for i using that len split(3) idx(1) by (auto simp: w nth_list_update)
  show ?thesis
  proof (rule vma_attr_eqI[OF ok vma_split_ok[OF ok idx r]])
    fix i assume i: "i < VMA_MAX" "covers (v ! i) a"
    show "\<exists>j<VMA_MAX. covers (w ! j) a \<and> attr_of (w ! j) a = attr_of (v ! i) a"
    proof (cases "i = idx \<and> x \<le> a")
      case True
      then show ?thesis using i split idx by (intro exI[of _ s]) (auto simp: el covers_def attr_of_def)
    next
      case False
      moreover have "i \<noteq> s" using i split by (auto simp: covers_def)
      ultimately show ?thesis using i by (intro exI[of _ i]) (auto simp: el covers_def attr_of_def)
    qed
  next
    fix j assume j: "j < VMA_MAX" "covers (w ! j) a"
    then show "\<exists>i<VMA_MAX. covers (v ! i) a"
      using split idx by (intro exI[of _ "if j = s then idx else j"]) (auto simp: el covers_def split: if_splits)
  qed
qed

lemma merge_pair_Some:
  assumes "merge_pair a b (v, n) = Some (w, m)" "length v = VMA_MAX" "a < VMA_MAX" "b < VMA_MAX" "a \<noteq> b"
  shows "v_end (v ! a) = v_start (v ! b)" "vma_compat (v ! a) (v ! b)" "length w = VMA_MAX" "m = n - 1"
    "i < VMA_MAX \<Longrightarrow> w ! i = (if i = a then (v ! a)\<lparr>v_end := v_end (v ! b)\<rparr> else if i = b then (v ! b)\<lparr>v_used := False\<rparr> else v ! i)"
  using assms by (auto simp: merge_pair_def Let_def nth_list_update split: if_splits)

lemma merge_pair_ok:
  assumes ok: "vma_ok v" and ab: "a < VMA_MAX" "b < VMA_MAX" "a \<noteq> b" "v_used (v ! a)" "v_used (v ! b)"
    and r: "merge_pair a b (v, n) = Some (w, m)"
  shows "vma_ok w"
proof -
  note mp = merge_pair_Some[OF r vma_okD(1)[OF ok] ab(1-3)]
  have ea: "v_start (v ! a) < v_end (v ! a)" and eb: "v_start (v ! b) < v_end (v ! b)"
    using vma_okD(2)[OF ok] ab by simp_all
  show ?thesis
    unfolding vma_ok_def
  proof (intro conjI allI impI)
    show "length w = VMA_MAX" by (rule mp(3))
    show "v_start (w ! i) < v_end (w ! i)" if "i < VMA_MAX" "v_used (w ! i)" for i
      using that ea eb mp(1) vma_okD(2)[OF ok, of i] by (auto simp: mp(5) split: if_splits)
    show "v_end (w ! i) \<le> v_start (w ! j) \<or> v_end (w ! j) \<le> v_start (w ! i)"
      if "i < VMA_MAX" "j < VMA_MAX" "i \<noteq> j \<and> v_used (w ! i) \<and> v_used (w ! j)" for i j
      using that ab ea eb mp(1) vma_okD(3)[OF ok, of i j]
        vma_okD(2)[OF ok, of i] vma_okD(2)[OF ok, of j] vma_okD(3)[OF ok, of a j] vma_okD(3)[OF ok, of i a] vma_okD(3)[OF ok, of b j] vma_okD(3)[OF ok, of i b]
      by (auto simp: mp(5) word_le_nat_alt word_less_nat_alt split: if_splits)
  qed
qed

lemma merge_pair_transparent:
  assumes ok: "vma_ok v" and ab: "a < VMA_MAX" "b < VMA_MAX" "a \<noteq> b" "v_used (v ! a)" "v_used (v ! b)"
    and r: "merge_pair a b (v, n) = Some (w, m)"
  shows "vma_attr x w = vma_attr x v"
proof (rule vma_attr_eqI[OF ok merge_pair_ok[OF ok ab r]])
  note mp = merge_pair_Some[OF r vma_okD(1)[OF ok] ab(1-3)]
  have ea: "v_start (v ! a) < v_end (v ! a)" and eb: "v_start (v ! b) < v_end (v ! b)"
    using vma_okD(2)[OF ok] ab by simp_all
  fix i assume i: "i < VMA_MAX" "covers (v ! i) x"
  show "\<exists>j<VMA_MAX. covers (w ! j) x \<and> attr_of (w ! j) x = attr_of (v ! i) x"
  proof (cases "i = b")
    case True
    have "v_start (v ! a) \<le> x" "x < v_end (v ! b)" using i True mp(1) ea by (auto simp: covers_def)
    moreover have "attr_of (v ! a) x = attr_of (v ! b) x"
      using mp(1,2) by (auto simp: attr_of_def vma_compat_def)
    ultimately show ?thesis
      using True ab i by (intro exI[of _ a]) (auto simp: mp(5) covers_def attr_of_def)
  next
    case False
    then show ?thesis using i eb mp(1) ab by (intro exI[of _ i]) (auto simp: mp(5) covers_def attr_of_def)
  qed
next
  note mp = merge_pair_Some[OF r vma_okD(1)[OF ok] ab(1-3)]
  fix j assume j: "j < VMA_MAX" "covers (w ! j) x"
  then show "\<exists>i<VMA_MAX. covers (v ! i) x"
    using ab mp(1) by (intro exI[of _ "if j = a \<and> v_end (v ! a) \<le> x then b else j"])
      (auto simp: mp(5) covers_def split: if_splits)
qed

lemma vma_try_merge_transparent:
  assumes ok: "vma_ok v" and i: "i < VMA_MAX" "v_used (v ! i)" and r: "vma_try_merge i (v, n) = (w, m)"
  shows "vma_ok w" "vma_attr x w = vma_attr x v"
proof -
  consider (same) "w = v" | (left) "0 < i" "v_used (v ! (i - 1))" "merge_pair (i - 1) i (v, n) = Some (w, m)"
    | (right) "i + 1 < VMA_MAX" "v_used (v ! (i + 1))" "merge_pair i (i + 1) (v, n) = Some (w, m)"
    using r by (auto simp: vma_try_merge_def split: if_splits option.splits)
  then have "vma_ok w \<and> vma_attr x w = vma_attr x v"
  proof cases
    case same
    then show ?thesis using ok by simp
  next
    case left
    then show ?thesis using merge_pair_ok[OF ok _ _ _ _ _ left(3)] merge_pair_transparent[OF ok _ _ _ _ _ left(3)] i by auto
  next
    case right
    then show ?thesis using merge_pair_ok[OF ok _ _ _ _ _ right(3)] merge_pair_transparent[OF ok _ _ _ _ _ right(3)] i by auto
  qed
  then show "vma_ok w" "vma_attr x w = vma_attr x v" by simp_all
qed

section \<open>The hint for a new area\<close>

lemma hint_fold:
  "hint \<le> fold (\<lambda>i hint. if v_used (v ! i) \<and> v_end (v ! i) > hint then v_end (v ! i) else hint) is hint \<and>
   (\<forall>i\<in>set is. v_used (v ! i) \<longrightarrow> v_end (v ! i) \<le> fold (\<lambda>i hint. if v_used (v ! i) \<and> v_end (v ! i) > hint then v_end (v ! i) else hint) is hint)"
proof (induction "is" arbitrary: hint)
  case (Cons i "is")
  let ?h = "if v_used (v ! i) \<and> v_end (v ! i) > hint then v_end (v ! i) else hint"
  have "hint \<le> ?h" "v_used (v ! i) \<Longrightarrow> v_end (v ! i) \<le> ?h" by auto
  then show ?case using Cons.IH[of ?h] by (auto intro: order_trans)
qed simp

end
