(* ===== verification/VmmMap.thy ===== *)
theory VmmMap
  imports Vmm
begin

text \<open>
  The page tables as a map from virtual pages to entries. \<open>node\<close> is the table at the end of a path of
  indices, \<open>xlat\<close> what the processor finds for a page, large pages included, and \<open>vm_inv\<close> that the tables
  form a tree of pages in use. Mapping a page changes the map at that page and nowhere else.
\<close>

section \<open>Entries\<close>

lemma tbl_get_page: "i < 512 \<Longrightarrow> tbl_get t i s = rd64 (page_bytes (vm_mem s) t) (8 * i)"
  unfolding tbl_get_def load64_def rd64_def by (subst load_page) simp_all

lemma rd64_blit_other:
  "8 * i + 8 \<le> length bs \<Longrightarrow> 8 * j + 8 \<le> length bs \<Longrightarrow> i \<noteq> j \<Longrightarrow> rd64 (blit bs (8 * i) (le_enc 8 e)) (8 * j) = rd64 bs (8 * j)"
proof -
  assume a: "8 * i + 8 \<le> length bs" "8 * j + 8 \<le> length bs" "i \<noteq> j"
  then consider "8 * j + 8 \<le> 8 * i" | "8 * i + 8 \<le> 8 * j" by linarith
  then show ?thesis using a by cases (simp_all add: rd64_def take_drop_blit)
qed

lemma tbl_get_set:
  assumes "page_aligned t" "page_aligned u" "i < 512" "j < 512"
  shows "tbl_get u j (tbl_set t i e s) = (if u = t \<and> j = i then e else tbl_get u j s)"
proof (cases "u = t")
  case True
  have p: "page_bytes (vm_mem (tbl_set t i e s)) t = blit (page_bytes (vm_mem s) t) (8 * i) (le_enc 8 e)"
    using assms(3) page_store[of "8 * i" "le_enc 8 e" "vm_mem s" t] by (simp add: tbl_set_def)
  have "rd64 (blit (page_bytes (vm_mem s) t) (8 * i) (le_enc 8 e)) (8 * i) = e"
    using rd64_wr64[of "8 * i" "page_bytes (vm_mem s) t" e] assms(3) by (simp add: wr64_def)
  then show ?thesis using True p assms(3,4) rd64_blit_other[of i "page_bytes (vm_mem s) t" j e] by (simp add: tbl_get_page)
next
  case False
  then show ?thesis using assms page_store_other[of t u "8 * i" "le_enc 8 e" "vm_mem s"] by (simp add: tbl_get_page tbl_set_def)
qed

lemma tbl_get_zero:
  assumes "page_aligned x" "page_aligned u" "j < 512"
  shows "tbl_get u j (zero_page x s) = (if u = x then 0 else tbl_get u j s)"
proof (cases "u = x")
  case True
  have "page_bytes (vm_mem (zero_page x s)) x = replicate 4096 0"
    using page_store_start[of "replicate 4096 0" "vm_mem s" x] by (simp add: zero_page_def blit_def)
  moreover have "rd64 (replicate 4096 0) (8 * j) = 0"
  proof -
    have z: "le_dec (replicate n 0) = (0 :: u64)" for n by (induction n) simp_all
    show ?thesis using assms(3) by (simp add: rd64_def drop_replicate take_replicate z)
  qed
  ultimately show ?thesis using True assms(3) by (simp add: tbl_get_page)
next
  case False
  then show ?thesis using assms page_store_other[of x u 0 "replicate 4096 0" "vm_mem s"] by (simp add: tbl_get_page zero_page_def)
qed

lemma tbl_frame [frame_simps]:
  "vm_pmm (tbl_set t i e s) = vm_pmm s" "vm_pmm (zero_page x s) = vm_pmm s"
  "vm_cr3 (tbl_set t i e s) = vm_cr3 s" "vm_cr3 (zero_page x s) = vm_cr3 s"
  by (simp_all add: tbl_set_def zero_page_def)

lemma split_huge_get:
  assumes "page_aligned x" "page_aligned u" "j < 512"
  shows "tbl_get u j (split_huge x huge s) =
    (if u = x then (huge AND NOT (push_bit 21 1 - 1)) + of_nat j * 0x1000 OR huge_flags huge else tbl_get u j s)"
    and "vm_pmm (split_huge x huge s) = vm_pmm s" "vm_cr3 (split_huge x huge s) = vm_cr3 s"
proof -
  let ?f = "\<lambda>i. (huge AND NOT (push_bit 21 1 - 1)) + of_nat i * 0x1000 OR huge_flags huge"
  have "tbl_get u j (fold (\<lambda>i. tbl_set x i (?f i)) is t) = (if u = x \<and> j \<in> set is then ?f j else tbl_get u j t)"
    if "\<forall>i\<in>set is. i < 512" for "is" t
    using that
  proof (induction "is" arbitrary: t)
    case (Cons i "is")
    then show ?case using assms by (auto simp: tbl_get_set)
  qed simp
  from this[of "[0..<512]"] show "tbl_get u j (split_huge x huge s) = (if u = x then ?f j else tbl_get u j s)"
    using assms by (simp add: split_huge_def tbl_get_zero)
  have "vm_pmm (fold (\<lambda>i. tbl_set x i (?f i)) is t) = vm_pmm t \<and> vm_cr3 (fold (\<lambda>i. tbl_set x i (?f i)) is t) = vm_cr3 t"
    for "is" t by (induction "is" arbitrary: t) (simp_all add: frame_simps)
  then show "vm_pmm (split_huge x huge s) = vm_pmm s" "vm_cr3 (split_huge x huge s) = vm_cr3 s"
    by (simp_all add: split_huge_def frame_simps)
qed

section \<open>Tables as a tree\<close>

fun node :: "mmu \<Rightarrow> u64 \<Rightarrow> nat list \<Rightarrow> u64 option" where
  "node s t [] = Some t"
| "node s t (i # p) =
     (let e = tbl_get t i s in if present e \<and> e AND PG_HUGE = 0 then node s (frame_addr e) p else None)"

definition is_path :: "nat list \<Rightarrow> bool" where
  "is_path p \<longleftrightarrow> length p \<le> 3 \<and> (\<forall>i\<in>set p. i < 512)"

definition vm_inv :: "u64 \<Rightarrow> mmu \<Rightarrow> bool" where
  "vm_inv root s \<longleftrightarrow> page_inv (vm_pmm s) \<and>
     (\<forall>p a. is_path p \<and> node s root p = Some a \<longrightarrow> page_aligned a \<and> a \<in> page_live (vm_pmm s)) \<and>
     (\<forall>p q a. is_path p \<and> is_path q \<and> node s root p = Some a \<and> node s root q = Some a \<longrightarrow> p = q) \<and>
     (\<forall>p a i. is_path p \<and> length p < 2 \<and> i < 512 \<and> node s root p = Some a \<and> present (tbl_get a i s) \<longrightarrow> tbl_get a i s AND PG_HUGE = 0)"

lemma node_snoc: "node s t (p @ [i]) =
   (case node s t p of None \<Rightarrow> None | Some a \<Rightarrow>
      (let e = tbl_get a i s in if present e \<and> e AND PG_HUGE = 0 then Some (frame_addr e) else None))"
  by (induction p arbitrary: t) (simp_all add: Let_def)

text \<open>What the processor finds for the page at the end of a path of four indices.\<close>

definition xlat :: "u64 \<Rightarrow> nat list \<Rightarrow> nat \<Rightarrow> nat \<Rightarrow> mmu \<Rightarrow> u64 option" where
  "xlat root ij k l s =
     (case node s root ij of None \<Rightarrow> None
      | Some pd \<Rightarrow>
          let e = tbl_get pd k s in
          if \<not> present e then None
          else if e AND PG_HUGE \<noteq> 0 then Some ((e AND NOT (push_bit 21 1 - 1)) + of_nat l * 0x1000 OR huge_flags e)
          else let pte = tbl_get (frame_addr e) l s in if present pte then Some pte else None)"

lemma vm_invD:
  assumes "vm_inv root s"
  shows "page_inv (vm_pmm s)"
    and "is_path p \<Longrightarrow> node s root p = Some a \<Longrightarrow> page_aligned a \<and> a \<in> page_live (vm_pmm s)"
    and "is_path p \<Longrightarrow> is_path q \<Longrightarrow> node s root p = Some a \<Longrightarrow> node s root q = Some a \<Longrightarrow> p = q"
    and "is_path p \<Longrightarrow> length p < 2 \<Longrightarrow> i < 512 \<Longrightarrow> node s root p = Some a \<Longrightarrow> present (tbl_get a i s) \<Longrightarrow> tbl_get a i s AND PG_HUGE = 0"
  using assms unfolding vm_inv_def by blast+

section \<open>Adding a table\<close>

lemma PG_bits:
  "bit PG_PRESENT n \<longleftrightarrow> n = 0" "bit PG_WRITE n \<longleftrightarrow> n = 1" "bit PG_USER n \<longleftrightarrow> n = 2"
  "bit PG_HUGE n \<longleftrightarrow> n = 7" "bit PG_NX n \<longleftrightarrow> n = 63"
proof -
  have e: "PG_PRESENT = 2 ^ 0" "PG_WRITE = 2 ^ 1" "PG_USER = 2 ^ 2" "PG_HUGE = 2 ^ 7" "PG_NX = 2 ^ 63"
    by (simp_all add: PG_PRESENT_def PG_WRITE_def PG_USER_def PG_HUGE_def PG_NX_def)
  show "bit PG_PRESENT n \<longleftrightarrow> n = 0" "bit PG_WRITE n \<longleftrightarrow> n = 1" "bit PG_USER n \<longleftrightarrow> n = 2"
    "bit PG_HUGE n \<longleftrightarrow> n = 7" "bit PG_NX n \<longleftrightarrow> n = 63"
    by (auto simp only: e bit_exp_iff possible_bit_word) simp_all
qed

lemma and_flag_bit: "e AND PG_PRESENT \<noteq> 0 \<longleftrightarrow> bit e 0" "e AND PG_USER \<noteq> 0 \<longleftrightarrow> bit e 2"
  "e AND PG_HUGE \<noteq> 0 \<longleftrightarrow> bit e 7" "e AND PG_NX \<noteq> 0 \<longleftrightarrow> bit e 63"
  by (auto simp: bit_eq_iff[of _ "0::u64"] bit_and_iff PG_bits)

lemma bit_frame_addr: "bit (frame_addr e) n \<longleftrightarrow> 12 \<le> n \<and> bit e n"
  by (auto simp: frame_addr_def mask_12 bit_simps dest: bit_imp_le_length)

lemma page_aligned_bits: "page_aligned x \<Longrightarrow> n < 12 \<Longrightarrow> \<not> bit x n"
proof -
  assume a: "page_aligned x" "n < 12"
  have "take_bit 12 x = 0" using a(1) by (simp add: page_aligned_def word_unat_eq_iff unat_take_bit)
  then have "\<not> bit (take_bit 12 x) n" by simp
  with a(2) show ?thesis by (simp add: bit_simps)
qed

lemma frame_addr_aligned: "page_aligned x \<Longrightarrow> frame_addr x = x"
  by (rule bit_word_eqI) (auto simp: bit_frame_addr dest: page_aligned_bits intro: leI)

lemma page_aligned_frame: "page_aligned (frame_addr e)"
  unfolding page_aligned_def frame_addr_def unat_align4096 by simp

lemma bit_table_entry: "bit (table_entry x user) n \<longleftrightarrow> bit x n \<or> n = 0 \<or> n = 1 \<or> (user \<and> n = 2)"
  by (auto simp: table_entry_def bit_or_iff PG_bits)

lemma table_entry_props:
  assumes "page_aligned x"
  shows "present (table_entry x user)" "table_entry x user AND PG_HUGE = 0" "frame_addr (table_entry x user) = x"
proof -
  show "present (table_entry x user)" by (simp add: present_def and_flag_bit bit_table_entry)
  show "table_entry x user AND PG_HUGE = 0"
    using page_aligned_bits[OF assms, of 7] and_flag_bit(3)[of "table_entry x user"] by (simp add: bit_table_entry)
  show "frame_addr (table_entry x user) = x"
    by (rule bit_word_eqI) (auto simp: bit_frame_addr bit_table_entry dest: page_aligned_bits[OF assms] intro: leI)
qed

definition free_pages :: "mmu \<Rightarrow> nat" where
  "free_pages s = zeros (bitmap_test (bitmap (vm_pmm s))) (unat (last_phys_page (vm_pmm s)))"

lemma vm_page_alloc_fresh:
  assumes "page_inv (vm_pmm s)" "0 < free_pages s" "vm_page_alloc s = (x, s1)"
  shows "x \<noteq> 0" "page_aligned x" "x \<notin> page_live (vm_pmm s)" "page_live (vm_pmm s1) = insert x (page_live (vm_pmm s))"
    "page_inv (vm_pmm s1)" "tbl_get u j s1 = tbl_get u j s" "vm_cr3 s1 = vm_cr3 s" "free_pages s1 = free_pages s - 1"
proof -
  let ?p = "vm_pmm s"
  have inv: "pmm_inv ?p" using assms(1) by (simp add: page_inv_def)
  have al: "page_alloc ?p = (x, vm_pmm s1)" and s1: "s1 = s\<lparr>vm_pmm := vm_pmm s1\<rparr>"
    using assms(3) by (auto simp: vm_page_alloc_def split: prod.splits)
  obtain p where p: "find (\<lambda>i. \<not> bitmap_test (bitmap ?p) i) [0..<unat (last_phys_page ?p)] = Some p"
    using assms(2) pm.scan_fails[of "bitmap ?p" "unat (last_phys_page ?p)"] by (auto simp: free_pages_def)
  have p1: "vm_pmm s1 = ?p\<lparr>bitmap := bitmap_set (bitmap ?p) p, free_page_count := free_page_count ?p - 1\<rparr>"
    and x: "x = of_nat p * PAGE_SIZE" using al p by (simp_all add: page_alloc_def)
  have cap: "8 * length (bitmap ?p) = MAX_PAGES" "unat (last_phys_page ?p) \<le> MAX_PAGES"
    using inv by (simp_all add: pmm_inv_def)
  note sc = pm.scan_takes_one[OF p, unfolded cap(1), OF cap(2)]
  have pM: "p < MAX_PAGES" "0 < p" using sc(1,2) cap(2) assms(1) by (auto simp: page_inv_def intro: gr0I)
  show "x \<noteq> 0" using of_nat_page_inject[OF pM(1) MAX_PAGES_pos] pM(2) by (simp add: x)
  have "unat x = p * 4096"
    using pM(1) by (simp add: x PAGE_SIZE_def MAX_PAGES_def unat_word_ariths take_bit_nat_eq_self unat_of_nat)
  then show "page_aligned x" by (simp add: page_aligned_def)
  show "x \<notin> page_live ?p" using sc(2) pM of_nat_page_inject by (auto simp: page_live_def x)
  show "page_live (vm_pmm s1) = insert x (page_live ?p)"
    using sc(4) pM by (auto simp: page_live_def x p1)
  show "page_inv (vm_pmm s1)" using pa.alloc_inv[OF assms(1)] al by simp
  show "tbl_get u j s1 = tbl_get u j s" by (subst s1) (simp add: tbl_get_def)
  show "vm_cr3 s1 = vm_cr3 s" by (subst s1) simp
  show "free_pages s1 = free_pages s - 1" using sc(5) by (simp add: free_pages_def p1)
qed

text \<open>
  A fresh table \<open>x\<close> hung below entry \<open>i\<close> of the table at path \<open>p\<close>: the tree gains one node, and no
  translation changes, whether the new table is empty or holds the pieces of the large page it replaces.
\<close>

definition new_table :: "u64 \<Rightarrow> nat list \<Rightarrow> nat \<Rightarrow> u64 \<Rightarrow> u64 \<Rightarrow> bool \<Rightarrow> (nat \<Rightarrow> u64) \<Rightarrow> mmu \<Rightarrow> mmu \<Rightarrow> bool" where
  "new_table root p i a x user f s s' \<longleftrightarrow>
     is_path (p @ [i]) \<and> node s root p = Some a \<and> page_aligned x \<and> x \<notin> page_live (vm_pmm s) \<and>
     page_inv (vm_pmm s') \<and> page_live (vm_pmm s') = insert x (page_live (vm_pmm s)) \<and>
     (let e = tbl_get a i s in
      if present e then length p = 2 \<and> e AND PG_HUGE \<noteq> 0 \<and>
          (\<forall>l<512. f l = ((e AND NOT (push_bit 21 1 - 1)) + of_nat l * 0x1000 OR huge_flags e))
      else \<forall>l. f l = 0) \<and>
     (\<forall>u j. page_aligned u \<longrightarrow> j < 512 \<longrightarrow> tbl_get u j s' =
        (if u = a \<and> j = i then table_entry x user else if u = x then f j else tbl_get u j s))"

lemma is_path_snoc: "is_path (p @ [i]) \<longleftrightarrow> is_path p \<and> length p < 3 \<and> i < 512"
  by (auto simp: is_path_def)

lemma not_present_0: "\<not> present 0"
  by (simp add: present_def)

lemma new_table_node:
  assumes "vm_inv root s" "new_table root p i a x user f s s'" "is_path q"
  shows "node s' root q = (if q = p @ [i] then Some x else node s root q)"
  using assms(3)
proof (induction q rule: rev_induct)
  case (snoc j q)
  have q: "is_path q" "length q < 3" "j < 512" using snoc.prems by (simp_all add: is_path_snoc)
  have n: "is_path (p @ [i])" "is_path p" "node s root p = Some a" "page_aligned x" "x \<notin> page_live (vm_pmm s)"
    and g: "\<And>u j. page_aligned u \<Longrightarrow> j < 512 \<Longrightarrow> tbl_get u j s' =
        (if u = a \<and> j = i then table_entry x user else if u = x then f j else tbl_get u j s)"
    using assms(2) by (auto simp: new_table_def is_path_snoc)
  have a: "page_aligned a" "a \<in> page_live (vm_pmm s)" using vm_invD(2)[OF assms(1) n(2,3)] by auto
  have none: "node s root (p @ [i]) = None"
    using assms(2) n(3) by (auto simp: new_table_def node_snoc Let_def split: if_splits)
  show ?case
  proof (cases "q = p @ [i]")
    case True
    then have "length p < 2" using q(2) by simp
    then have "\<forall>l. f l = 0" using assms(2) by (auto simp: new_table_def Let_def split: if_splits)
    then have "tbl_get x j s' = 0" using g[OF n(4) q(3)] a n(5) by auto
    moreover have "node s' root q = Some x" using True snoc.IH[OF q(1)] by simp
    moreover have "node s root q = None" using True none by simp
    ultimately show ?thesis using True node_snoc[of s' root q j] node_snoc[of s root q j] by (simp add: not_present_0)
  next
    case False
    then have IH: "node s' root q = node s root q" using snoc.IH[OF q(1)] by simp
    show ?thesis
    proof (cases "node s root q")
      case None
      then show ?thesis using IH n(3) by (auto simp: node_snoc)
    next
      case (Some b)
      then have b: "page_aligned b" "b \<in> page_live (vm_pmm s)" using vm_invD(2)[OF assms(1) q(1)] by auto
      have "b = a \<Longrightarrow> q = p" using vm_invD(3)[OF assms(1) q(1) n(2)] Some n(3) by simp
      then show ?thesis
        using g[OF b(1) q(3)] Some IH n b a table_entry_props[OF n(4), of user] by (auto simp: node_snoc Let_def)
    qed
  qed
qed simp

lemma new_table_inv:
  assumes "vm_inv root s" "new_table root p i a x user f s s'"
  shows "vm_inv root s'"
proof -
  note nd = new_table_node[OF assms]
  have n: "is_path p" "length p < 3" "node s root p = Some a" "page_aligned x" "x \<notin> page_live (vm_pmm s)"
    and live: "page_inv (vm_pmm s')" "page_live (vm_pmm s') = insert x (page_live (vm_pmm s))"
    and g: "\<And>u j. page_aligned u \<Longrightarrow> j < 512 \<Longrightarrow> tbl_get u j s' =
        (if u = a \<and> j = i then table_entry x user else if u = x then f j else tbl_get u j s)"
    using assms(2) by (auto simp: new_table_def is_path_snoc)
  have old: "page_aligned b" "b \<in> page_live (vm_pmm s)" "b \<noteq> x" if "is_path q" "node s root q = Some b" for q b
    using vm_invD(2)[OF assms(1) that] n(5) by auto
  show ?thesis
    unfolding vm_inv_def
  proof (intro conjI allI impI; (elim conjE)?)
    fix q b assume q: "is_path q" "node s' root q = Some b"
    then show "page_aligned b" "b \<in> page_live (vm_pmm s')"
      using nd[OF q(1)] n(4) old live by (auto split: if_splits)
  next
    fix q q' b assume q: "is_path q" "is_path q'" "node s' root q = Some b" "node s' root q' = Some b"
    then show "q = q'"
      using nd[OF q(1)] nd[OF q(2)] vm_invD(3)[OF assms(1) q(1,2)] old(3)[OF q(1)] old(3)[OF q(2)]
      by (auto split: if_splits)
  next
    fix q b j assume q: "is_path q" "length q < 2" "j < 512" "node s' root q = Some b" "present (tbl_get b j s')"
    show "tbl_get b j s' AND PG_HUGE = 0"
    proof (cases "q = p @ [i]")
      case True
      then have "\<forall>l. f l = 0" using q(2) assms(2) by (auto simp: new_table_def Let_def split: if_splits)
      moreover have "b = x" "b \<noteq> a" using True q(4) nd[OF q(1)] old(3)[OF n(1,3)] by auto
      ultimately show ?thesis using q(5) g[OF n(4) q(3)] by (simp add: not_present_0)
    next
      case False
      then have b: "node s root q = Some b" using q(4) nd[OF q(1)] by simp
      note o = old[OF q(1) b]
      show ?thesis
        using g[OF o(1) q(3)] o(3) q(5) vm_invD(4)[OF assms(1) q(1-3) b] table_entry_props(2)[OF n(4)]
        by (auto split: if_splits)
    qed
  qed (rule live)
qed

lemma split_present: "present e \<Longrightarrow> present ((e AND NOT (push_bit 21 1 - 1)) + of_nat l * 0x1000 OR huge_flags e)"
  by (simp add: present_def and_flag_bit bit_or_iff huge_flags_def Let_def bit_and_iff bit_not_iff PG_bits)

lemma new_table_xlat:
  assumes "vm_inv root s" "new_table root p i a x user f s s'" "is_path q" "length q = 2" "k < 512" "l < 512"
  shows "xlat root q k l s' = xlat root q k l s"
proof -
  note nd = new_table_node[OF assms(1,2)]
  have n: "is_path p" "length p < 3" "node s root p = Some a" "page_aligned x" "x \<notin> page_live (vm_pmm s)"
    and g: "\<And>u j. page_aligned u \<Longrightarrow> j < 512 \<Longrightarrow> tbl_get u j s' =
        (if u = a \<and> j = i then table_entry x user else if u = x then f j else tbl_get u j s)"
    and e: "let e = tbl_get a i s in
      if present e then length p = 2 \<and> e AND PG_HUGE \<noteq> 0 \<and>
          (\<forall>l<512. f l = ((e AND NOT (push_bit 21 1 - 1)) + of_nat l * 0x1000 OR huge_flags e))
      else \<forall>l. f l = 0"
    using assms(2) by (auto simp: new_table_def is_path_snoc)
  have a: "page_aligned a" "a \<noteq> x" using vm_invD(2)[OF assms(1) n(1,3)] n(5) by auto
  consider (new) "q = p @ [i]" | (here) "q = p" "k = i" | (other) "q \<noteq> p @ [i]" "\<not> (q = p \<and> k = i)" by blast
  then show ?thesis
  proof cases
    case new
    then have "length p = 1" using assms(4) by simp
    with e have z: "\<not> present (tbl_get a i s)" "\<forall>l. f l = 0" by (auto simp: Let_def split: if_splits)
    then have "tbl_get x k s' = 0" using g[OF n(4) assms(5)] a by auto
    then show ?thesis using new nd[OF assms(3)] z n(3) by (simp add: xlat_def node_snoc not_present_0)
  next
    case here
    then have "node s' root p = Some a" using nd[OF n(1)] n(3) by simp
    moreover have "tbl_get a i s' = table_entry x user" using g[OF a(1)] here assms(5) by simp
    moreover have "tbl_get x l s' = f l" using g[OF n(4) assms(6)] a by auto
    ultimately show ?thesis
      using here n(3) e assms(6) table_entry_props[OF n(4), of user] split_present[of "tbl_get a i s" l]
      by (auto simp: xlat_def Let_def not_present_0 split: if_splits)
  next
    case other
    then have q: "node s' root q = node s root q" using nd[OF assms(3)] by simp
    show ?thesis
    proof (cases "node s root q")
      case None
      then show ?thesis using q by (simp add: xlat_def)
    next
      case (Some b)
      have b: "page_aligned b" "b \<noteq> x" using vm_invD(2)[OF assms(1,3) Some] n(5) by auto
      have "b = a \<Longrightarrow> q = p" using vm_invD(3)[OF assms(1,3) n(1) Some] n(3) by simp
      then have e1: "tbl_get b k s' = tbl_get b k s" using g[OF b(1) assms(5)] b(2) other(2) by auto
      have path: "is_path (q @ [k])" using assms(3-5) by (simp add: is_path_snoc)
      have "tbl_get (frame_addr (tbl_get b k s)) l s' = tbl_get (frame_addr (tbl_get b k s)) l s"
        if "present (tbl_get b k s)" "tbl_get b k s AND PG_HUGE = 0"
      proof -
        have nk: "node s root (q @ [k]) = Some (frame_addr (tbl_get b k s))" using Some that by (simp add: node_snoc Let_def)
        have c: "page_aligned (frame_addr (tbl_get b k s))" "frame_addr (tbl_get b k s) \<noteq> x"
          using vm_invD(2)[OF assms(1) path nk] n(5) by auto
        have "length (q @ [k]) = 3" using assms(4) by simp
        then have "q @ [k] \<noteq> p" using n(2) by (metis less_irrefl)
        then have "frame_addr (tbl_get b k s) \<noteq> a" using vm_invD(3)[OF assms(1) path n(1) nk] n(3) by auto
        then show ?thesis using g[OF c(1) assms(6)] c(2) by simp
      qed
      then show ?thesis using q Some e1 by (simp add: xlat_def Let_def)
    qed
  qed
qed

section \<open>Mapping a page\<close>

text \<open>What one call of \<open>get_or_alloc_table\<close> on a table of the tree does, when a page is left to take.\<close>

lemma get_or_alloc_table_new:
  assumes inv: "vm_inv root s" and p: "is_path (p @ [i])" "node s root p = Some a" "is_pd \<longleftrightarrow> length p = 2"
    and fr: "0 < free_pages s" and r: "get_or_alloc_table a i is_pd user s = (t, s')"
    and none: "\<not> (present (tbl_get a i s) \<and> \<not> (is_pd \<and> tbl_get a i s AND PG_HUGE \<noteq> 0))" and al: "vm_page_alloc s = (x, s1)"
  shows "t = x \<and> vm_pmm s' = vm_pmm s1 \<and> vm_cr3 s' = vm_cr3 s \<and>
    s' = tbl_set a i (table_entry x user) (if present (tbl_get a i s) then split_huge x (tbl_get a i s) s1 else zero_page x s1) \<and>
    (\<exists>f. new_table root p i a x user f s s')"
proof -
  let ?e = "tbl_get a i s"
  note fresh = vm_page_alloc_fresh[OF vm_invD(1)[OF inv] fr al]
  define s2 where "s2 = (if present ?e then split_huge x ?e s1 else zero_page x s1)"
  have rs: "t = x" "s' = tbl_set a i (table_entry x user) s2"
    using r none fresh(1) by (auto simp: get_or_alloc_table_def Let_def al s2_def split: if_splits)
  define f where "f = (\<lambda>l. if present ?e then (?e AND NOT (push_bit 21 1 - 1)) + of_nat l * 0x1000 OR huge_flags ?e else 0)"
  have a: "page_aligned a" "a \<noteq> x" "i < 512"
    using vm_invD(2)[OF inv _ p(2)] p(1) fresh(3) by (auto simp: is_path_snoc)
  have s2: "tbl_get u j s2 = (if u = x then f j else tbl_get u j s)" if "page_aligned u" "j < 512" for u j
    using fresh(6) split_huge_get(1)[OF fresh(2) that, of ?e s1] tbl_get_zero[OF fresh(2) that, of s1]
    by (simp only: s2_def f_def split: if_split) blast
  have fr2: "vm_pmm s' = vm_pmm s1" "vm_cr3 s' = vm_cr3 s"
    using fresh(7) split_huge_get(2,3)[OF fresh(2) fresh(2), of 0] by (simp_all add: rs s2_def frame_simps)
  have "tbl_get u j s' = (if u = a \<and> j = i then table_entry x user else if u = x then f j else tbl_get u j s)"
    if "page_aligned u" "j < 512" for u j
    using tbl_get_set[OF a(1) that(1) a(3) that(2), of "table_entry x user" s2] s2[OF that] by (auto simp: rs)
  then have "new_table root p i a x user f s s'"
    using p fresh(2-5) fr2(1) none by (auto simp: new_table_def f_def Let_def)
  then show ?thesis using rs fr2 by (auto simp: s2_def)
qed

lemma get_or_alloc_table_ok:
  assumes inv: "vm_inv root s" and p: "is_path (p @ [i])" "node s root p = Some a" "is_pd \<longleftrightarrow> length p = 2"
    and fr: "n < free_pages s" and r: "get_or_alloc_table a i is_pd user s = (t, s')"
  shows "vm_inv root s' \<and> node s' root (p @ [i]) = Some t \<and> t \<noteq> 0 \<and> n \<le> free_pages s' \<and> vm_cr3 s' = vm_cr3 s \<and>
    (\<forall>q k l. is_path q \<longrightarrow> length q = 2 \<longrightarrow> k < 512 \<longrightarrow> l < 512 \<longrightarrow> xlat root q k l s' = xlat root q k l s)"
proof (cases "present (tbl_get a i s) \<and> \<not> (is_pd \<and> tbl_get a i s AND PG_HUGE \<noteq> 0)")
  case True
  then have eq: "t = frame_addr (tbl_get a i s)" "s' = s"
    using r by (auto simp: get_or_alloc_table_def Let_def split: if_splits)
  have "tbl_get a i s AND PG_HUGE = 0"
    using True vm_invD(4)[OF inv, of p i a] p by (auto simp: is_path_snoc)
  then have nd: "node s root (p @ [i]) = Some t" using True p(2) by (simp add: eq node_snoc Let_def)
  then have "t \<in> page_live (vm_pmm s)" using vm_invD(2)[OF inv p(1)] by blast
  then have "t \<noteq> 0" using of_nat_page_inject[OF _ MAX_PAGES_pos] by (auto simp: page_live_def)
  then show ?thesis using nd inv fr eq by simp
next
  case False
  obtain x s1 where al: "vm_page_alloc s = (x, s1)" by (cases "vm_page_alloc s")
  have fr0: "0 < free_pages s" using fr by simp
  note fresh = vm_page_alloc_fresh[OF vm_invD(1)[OF inv] fr0 al]
  from get_or_alloc_table_new[OF inv p fr0 r False al] obtain f where t: "t = x" "vm_pmm s' = vm_pmm s1" "vm_cr3 s' = vm_cr3 s"
    and new: "new_table root p i a x user f s s'" by blast
  have "free_pages s' = free_pages s - 1" using fresh(8) t(2) by (simp add: free_pages_def)
  then show ?thesis
    using new_table_inv[OF inv new] new_table_node[OF inv new p(1)] new_table_xlat[OF inv new] fresh(1) fr t
    by simp
qed

text \<open>Writing a last-level entry changes the translation of its page and of no other.\<close>

lemma leaf_set_frame:
  assumes inv: "vm_inv root s" and t: "is_path t" "length t = 3" "node s root t = Some pt" and l: "l < 512"
    and q: "is_path q" "length q < 3" "node s root q = Some b" "j < 512"
  shows "tbl_get b j (tbl_set pt l v s) = tbl_get b j s"
proof -
  have pt: "page_aligned pt" using vm_invD(2)[OF inv t(1,3)] by simp
  have "b \<noteq> pt" using vm_invD(3)[OF inv q(1) t(1) q(3)] t q(2) by auto
  then show ?thesis using tbl_get_set[OF pt _ l q(4)] vm_invD(2)[OF inv q(1,3)] by simp
qed

lemma leaf_set_node:
  assumes "vm_inv root s" "is_path t" "length t = 3" "node s root t = Some pt" "l < 512" "is_path q"
  shows "node (tbl_set pt l v s) root q = node s root q"
  using assms(6)
proof (induction q rule: rev_induct)
  case (snoc j q)
  then show ?case using leaf_set_frame[OF assms(1-5), of q _ j v] by (auto simp: node_snoc is_path_snoc split: option.splits)
qed simp

lemma leaf_set:
  assumes inv: "vm_inv root s" and t: "is_path t" "length t = 3" "node s root t = Some pt" and l: "l < 512"
  shows "vm_inv root (tbl_set pt l v s)"
    and "is_path (q @ [k]) \<Longrightarrow> length q = 2 \<Longrightarrow> m < 512 \<Longrightarrow>
      xlat root q k m (tbl_set pt l v s) =
        (if q @ [k] = t \<and> m = l then (if present v then Some v else None) else xlat root q k m s)"
proof -
  let ?s = "tbl_set pt l v s"
  have pt: "page_aligned pt" using vm_invD(2)[OF inv t(1,3)] by simp
  note g = leaf_set_frame[OF inv t l] and nd = leaf_set_node[OF inv t l]
  show "vm_inv root ?s"
    unfolding vm_inv_def
  proof (intro conjI allI impI; (elim conjE)?)
    fix q b j assume q: "is_path q" "length q < 2" "j < 512" "node ?s root q = Some b" "present (tbl_get b j ?s)"
    then show "tbl_get b j ?s AND PG_HUGE = 0"
      using nd[OF q(1)] g[OF q(1) _ _ q(3), of b] vm_invD(4)[OF inv q(1-3), of b] by simp
  qed (use inv nd vm_invD[OF inv] in \<open>auto simp: frame_simps\<close>)
  assume q: "is_path (q @ [k])" "length q = 2" and m: "m < 512"
  then have qk: "is_path q" "k < 512" by (simp_all add: is_path_snoc)
  show "xlat root q k m ?s = (if q @ [k] = t \<and> m = l then (if present v then Some v else None) else xlat root q k m s)"
  proof (cases "node s root q")
    case None
    then have "q @ [k] \<noteq> t" using t(3) by (auto simp: node_snoc)
    then show ?thesis using None nd[OF qk(1)] by (simp add: xlat_def)
  next
    case (Some b)
    have e: "tbl_get b k ?s = tbl_get b k s" using g[OF qk(1) _ Some qk(2)] q(2) by simp
    show ?thesis
    proof (cases "present (tbl_get b k s) \<and> tbl_get b k s AND PG_HUGE = 0")
      case True
      then have c: "node s root (q @ [k]) = Some (frame_addr (tbl_get b k s))" using Some by (simp add: node_snoc Let_def)
      then have "frame_addr (tbl_get b k s) = pt \<longleftrightarrow> q @ [k] = t"
        using t(3) vm_invD(3)[OF inv q(1) t(1) c] by auto
      then show ?thesis
        using True Some e nd[OF qk(1)] tbl_get_set[OF pt page_aligned_frame l m, of "tbl_get b k s" v s]
        by (auto simp: xlat_def Let_def)
    next
      case False
      then have "node s root (q @ [k]) = None" using Some by (auto simp: node_snoc Let_def)
      then have "q @ [k] \<noteq> t" using t(3) by auto
      then show ?thesis using False Some e nd[OF qk(1)] by (auto simp: xlat_def Let_def)
    qed
  qed
qed

section \<open>The address space of a root table\<close>

text \<open>The four indices of an address, and the entry the processor finds for it.\<close>

definition vpage :: "u64 \<Rightarrow> nat \<times> nat \<times> nat \<times> nat" where
  "vpage va = (pml4_lookup va, pdpt_lookup va, pd_lookup va, pt_lookup va)"

definition translate :: "u64 \<Rightarrow> u64 \<Rightarrow> mmu \<Rightarrow> u64 option" where
  "translate root va s = xlat root [pml4_lookup va, pdpt_lookup va] (pd_lookup va) (pt_lookup va) s"

lemma lookup_bounds: "pml4_lookup va < 512" "pdpt_lookup va < 512" "pd_lookup va < 512" "pt_lookup va < 512"
proof -
  have m: "(0x1FF :: u64) = mask 9" by (simp add: mask_numeral mask_Suc_double)
  have "unat (w AND 0x1FF :: u64) < 512" for w
    unfolding m take_bit_eq_mask[symmetric] unat_take_bit by simp
  then show "pml4_lookup va < 512" "pdpt_lookup va < 512" "pd_lookup va < 512" "pt_lookup va < 512"
    by (simp_all only: pml4_lookup_def pdpt_lookup_def pd_lookup_def pt_lookup_def)
qed

lemma present_pte_value: "present (pte_value phys flags)"
  by (simp add: present_def and_flag_bit pte_value_def Let_def bit_or_iff PG_bits)

text \<open>The three table lookups of a mapping, one below the other.\<close>

lemma vmm_map_chain:
  assumes inv: "vm_inv cr3 s" and fr: "3 \<le> free_pages s"
  obtains t1 s1 t2 s2 t3 s3 where
    "get_or_alloc_table cr3 (pml4_lookup virt) False (pml4_lookup virt < 256) s = (t1, s1)"
    "get_or_alloc_table t1 (pdpt_lookup virt) False (pml4_lookup virt < 256) s1 = (t2, s2)"
    "get_or_alloc_table t2 (pd_lookup virt) True (pml4_lookup virt < 256) s2 = (t3, s3)"
    "vm_inv cr3 s1" "vm_inv cr3 s2" "vm_inv cr3 s3" "node s1 cr3 [pml4_lookup virt] = Some t1" "node s2 cr3 [pml4_lookup virt, pdpt_lookup virt] = Some t2"
    "node s3 cr3 [pml4_lookup virt, pdpt_lookup virt, pd_lookup virt] = Some t3" "2 \<le> free_pages s1" "1 \<le> free_pages s2"
    "vm_cr3 s3 = vm_cr3 s" "\<And>phys flags. vmm_map_in_cr3 cr3 virt phys flags s = tbl_set t3 (pt_lookup virt) (pte_value phys flags) s3"
    "\<And>q k l. is_path q \<Longrightarrow> length q = 2 \<Longrightarrow> k < 512 \<Longrightarrow> l < 512 \<Longrightarrow> xlat cr3 q k l s3 = xlat cr3 q k l s"
proof -
  let ?i = "pml4_lookup virt" and ?j = "pdpt_lookup virt" and ?k = "pd_lookup virt"
  let ?u = "?i < 256"
  obtain t1 s1 where g1: "get_or_alloc_table cr3 ?i False ?u s = (t1, s1)" by fastforce
  obtain t2 s2 where g2: "get_or_alloc_table t1 ?j False ?u s1 = (t2, s2)" by fastforce
  obtain t3 s3 where g3: "get_or_alloc_table t2 ?k True ?u s2 = (t3, s3)" by fastforce
  have path: "is_path ([] @ [?i])" "is_path ([?i] @ [?j])" "is_path ([?i, ?j] @ [?k])"
    using lookup_bounds by (simp_all add: is_path_def)
  have r1: "vm_inv cr3 s1 \<and> node s1 cr3 ([] @ [?i]) = Some t1 \<and> t1 \<noteq> 0 \<and> 2 \<le> free_pages s1 \<and> vm_cr3 s1 = vm_cr3 s \<and>
    (\<forall>q k l. is_path q \<longrightarrow> length q = 2 \<longrightarrow> k < 512 \<longrightarrow> l < 512 \<longrightarrow> xlat cr3 q k l s1 = xlat cr3 q k l s)"
    by (rule get_or_alloc_table_ok[OF inv path(1) _ _ _ g1]) (use fr in simp_all)
  have r2: "vm_inv cr3 s2 \<and> node s2 cr3 ([?i] @ [?j]) = Some t2 \<and> t2 \<noteq> 0 \<and> 1 \<le> free_pages s2 \<and> vm_cr3 s2 = vm_cr3 s1 \<and>
    (\<forall>q k l. is_path q \<longrightarrow> length q = 2 \<longrightarrow> k < 512 \<longrightarrow> l < 512 \<longrightarrow> xlat cr3 q k l s2 = xlat cr3 q k l s1)"
    by (rule get_or_alloc_table_ok[OF _ path(2) _ _ _ g2]) (use r1 in simp_all)
  have r3: "vm_inv cr3 s3 \<and> node s3 cr3 ([?i, ?j] @ [?k]) = Some t3 \<and> t3 \<noteq> 0 \<and> 0 \<le> free_pages s3 \<and> vm_cr3 s3 = vm_cr3 s2 \<and>
    (\<forall>q k l. is_path q \<longrightarrow> length q = 2 \<longrightarrow> k < 512 \<longrightarrow> l < 512 \<longrightarrow> xlat cr3 q k l s3 = xlat cr3 q k l s2)"
    by (rule get_or_alloc_table_ok[OF _ path(3) _ _ _ g3]) (use r2 in simp_all)
  have "vmm_map_in_cr3 cr3 virt phys flags s = tbl_set t3 (pt_lookup virt) (pte_value phys flags) s3" for phys flags
    using r3 by (simp add: vmm_map_in_cr3_def g1 g2 g3 Let_def)
  then show thesis using r1 r2 r3 by (intro that[OF g1 g2 g3]) (simp_all del: node.simps)
qed

lemma vmm_map_in_cr3_effect:
  assumes inv: "vm_inv cr3 s" and fr: "3 \<le> free_pages s" and s': "s' = vmm_map_in_cr3 cr3 virt phys flags s"
  shows "vm_inv cr3 s' \<and> vm_cr3 s' = vm_cr3 s \<and>
    (\<exists>pt. node s' cr3 [pml4_lookup virt, pdpt_lookup virt, pd_lookup virt] = Some pt \<and>
       tbl_get pt (pt_lookup virt) s' = pte_value phys flags) \<and>
    (\<forall>va. translate cr3 va s' = (if vpage va = vpage virt then Some (pte_value phys flags) else translate cr3 va s))"
proof -
  let ?i = "pml4_lookup virt" and ?j = "pdpt_lookup virt" and ?k = "pd_lookup virt" and ?l = "pt_lookup virt"
  obtain t3 s3 where r3: "vm_inv cr3 s3" "node s3 cr3 [?i, ?j, ?k] = Some t3" "vm_cr3 s3 = vm_cr3 s"
    and s'_eq: "s' = tbl_set t3 ?l (pte_value phys flags) s3"
    and x: "\<And>q k l. is_path q \<Longrightarrow> length q = 2 \<Longrightarrow> k < 512 \<Longrightarrow> l < 512 \<Longrightarrow> xlat cr3 q k l s3 = xlat cr3 q k l s"
    using vmm_map_chain[OF inv fr, of virt] s' by metis
  have path: "is_path [?i, ?j, ?k]" using lookup_bounds by (simp add: is_path_def)
  note lf = leaf_set[OF r3(1) path _ r3(2) lookup_bounds(4)[of virt], simplified]
  have "translate cr3 va s' = (if vpage va = vpage virt then Some (pte_value phys flags) else translate cr3 va s)" for va
  proof -
    let ?q = "[pml4_lookup va, pdpt_lookup va]"
    have q: "is_path (?q @ [pd_lookup va])" "is_path ?q" using lookup_bounds by (simp_all add: is_path_def)
    have "xlat cr3 ?q (pd_lookup va) (pt_lookup va) s3 = xlat cr3 ?q (pd_lookup va) (pt_lookup va) s"
      using x[OF q(2)] lookup_bounds(3,4)[of va] by simp
    then show ?thesis
      using lf(2)[of ?q "pd_lookup va" "pt_lookup va" "pte_value phys flags"] q(1) lookup_bounds(4)[of va] present_pte_value
      by (auto simp: translate_def s'_eq vpage_def)
  qed
  moreover have "node s' cr3 [?i, ?j, ?k] = Some t3" "tbl_get t3 ?l s' = pte_value phys flags"
    using leaf_set_node[OF r3(1) path _ r3(2) lookup_bounds(4)[of virt] path] r3
      vm_invD(2)[OF r3(1) path r3(2)] lookup_bounds(4)[of virt] by (simp_all add: s'_eq tbl_get_set)
  ultimately show ?thesis using lf(1) r3 by (simp add: s'_eq frame_simps)
qed

section \<open>Unmapping a page\<close>

lemma page_free_live:
  assumes "page_inv p" "page_aligned a" "a \<noteq> 0"
  shows "page_inv (page_free a p)" "page_live (page_free a p) = page_live p - {a}"
proof -
  let ?n = "unat (a div PAGE_SIZE)"
  have div: "?n = unat a div 4096" by (simp add: PAGE_SIZE_def unat_div)
  have a: "a = of_nat ?n * PAGE_SIZE"
  proof -
    have "unat a = ?n * 4096" using assms(2) div by (auto simp: page_aligned_def)
    then have "of_nat (unat a) = (of_nat (?n * 4096) :: u64)" by simp
    then show ?thesis by (simp add: PAGE_SIZE_def)
  qed
  have "page_inv (page_free a p) \<and> page_live (page_free a p) = page_live p - {a}"
  proof (cases "?n < MAX_PAGES \<and> bitmap_test (bitmap p) ?n")
    case True
    then have "0 < ?n" using a assms(3) by (metis gr0I mult_zero_left of_nat_0)
    then have "a \<in> page_live p" unfolding page_live_def using True a by blast
    then show ?thesis using pa.release_inv[OF assms(1)] pa.release_live[OF assms(1)] by blast
  next
    case False
    then have "page_free a p = p" by (auto simp: page_free_def Let_def)
    moreover have "a \<notin> page_live p" using False page_number by (auto simp: page_live_def)
    ultimately show ?thesis using assms(1) by simp
  qed
  then show "page_inv (page_free a p)" "page_live (page_free a p) = page_live p - {a}" by simp_all
qed

lemma page_free_NX: "bit a 63 \<Longrightarrow> page_free a p = p"
proof -
  assume a: "bit a 63"
  have "odd (unat a div 2 ^ 63)" using a by (subst bit_iff_odd[symmetric]) (simp add: bit_unsigned_iff)
  then have "2 ^ 63 \<le> unat a" by (metis div_less even_zero not_less)
  then have "MAX_PAGES \<le> unat (a div PAGE_SIZE)" by (simp add: MAX_PAGES_def PAGE_SIZE_def unat_div)
  then show ?thesis by (simp add: page_free_def)
qed

lemma node_pmm: "node (s\<lparr>vm_pmm := p\<rparr>) t q = node s t q"
  by (induction q arbitrary: t) (simp_all add: tbl_get_def Let_def)

lemma vmm_walk_node:
  assumes "node s root [pml4_lookup virt, pdpt_lookup virt, pd_lookup virt] = Some pt"
  shows "vmm_walk root virt s = Some pt"
  using assms by (auto simp: vmm_walk_def Let_def split: if_splits)

lemma vmm_unmap_effect:
  assumes inv: "vm_inv (vm_page_pml4 s) s"
    and pt: "node s (vm_page_pml4 s) [pml4_lookup virt, pdpt_lookup virt, pd_lookup virt] = Some pt"
    and pte: "pte = tbl_get pt (pt_lookup virt) s" "frame_addr pte \<noteq> 0"
      "\<And>p. is_path p \<Longrightarrow> node s (vm_page_pml4 s) p \<noteq> Some (frame_addr pte)"
    and s': "s' = vmm_unmap virt s"
  shows "vm_inv (vm_page_pml4 s) s'"
    and "translate (vm_page_pml4 s) va s' = (if vpage va = vpage virt then None else translate (vm_page_pml4 s) va s)"
    and "page_live (vm_pmm s') = page_live (vm_pmm s) -
      (if pte AND PG_USER \<noteq> 0 \<and> pte AND PG_NX = 0 then {frame_addr pte} else {})"
proof -
  let ?root = "vm_page_pml4 s" and ?t = "[pml4_lookup virt, pdpt_lookup virt, pd_lookup virt]"
  define p where "p = (if pte AND PG_USER \<noteq> 0 then page_free (frame_addr pte) (vm_pmm s) else vm_pmm s)"
  define s1 where "s1 = s\<lparr>vm_pmm := p\<rparr>"
  have e: "s' = tbl_set pt (pt_lookup virt) 0 s1"
    unfolding s' vmm_unmap_def vmm_walk_node[OF pt] using pte(1) by (simp add: Let_def vm_page_free_def s1_def p_def)
  note pf = page_free_live[OF vm_invD(1)[OF inv] page_aligned_frame pte(2)]
  have p: "page_inv p" "page_live (vm_pmm s) - {frame_addr pte} \<subseteq> page_live p"
    using pf vm_invD(1)[OF inv] by (auto simp: p_def)
  have g: "tbl_get u j s1 = tbl_get u j s" "node s1 t q = node s t q" for u j t q
    by (simp_all add: s1_def tbl_get_def node_pmm)
  have inv1: "vm_inv ?root s1"
    using inv p pte(3) unfolding vm_inv_def g by (auto simp: s1_def)
  have path: "is_path ?t" "is_path ([pml4_lookup va, pdpt_lookup va] @ [pd_lookup va])"
    using lookup_bounds by (simp_all add: is_path_def)
  have pt1: "node s1 ?root ?t = Some pt" using pt by (simp only: g(2))
  note lf = leaf_set[OF inv1 path(1) _ pt1 lookup_bounds(4)[of virt], simplified]
  show "vm_inv ?root s'" using lf(1) by (simp add: e)
  have x: "xlat r q k l s1 = xlat r q k l s" for r q k l by (simp only: xlat_def g)
  show "translate ?root va s' = (if vpage va = vpage virt then None else translate ?root va s)"
    using lf(2)[of "[pml4_lookup va, pdpt_lookup va]" "pd_lookup va" "pt_lookup va" 0] path(2) lookup_bounds(4)[of va] not_present_0
    by (auto simp: translate_def e vpage_def x)
  have "vm_pmm s' = p" by (simp add: e frame_simps s1_def)
  then show "page_live (vm_pmm s') = page_live (vm_pmm s) -
      (if pte AND PG_USER \<noteq> 0 \<and> pte AND PG_NX = 0 then {frame_addr pte} else {})"
    using pf(2) page_free_NX[of "frame_addr pte" "vm_pmm s"] by (auto simp: p_def and_flag_bit bit_frame_addr)
qed

end
