(* ===== verification/Fault.thy ===== *)
theory Fault
  imports Vma VmmMap
begin

text \<open>
  Page faults, \<open>exception_handler\<close> in \<open>src/kernel/arch/x86_64/idt.c\<close>, and memory as the kernel sees it through
  the page tables in force. The processor runs kernel code with \<open>CR0.WP\<close> clear, so that a kernel access to a
  present page succeeds whatever its permissions; an access to a page that is not present raises a page
  fault and is tried again when the handler returns. The register dump and the other exceptions, which only
  print and halt, are the value \<^const>\<open>None\<close>: the access never ends.
\<close>

section \<open>Addresses\<close>

definition phys_of :: "mmu \<Rightarrow> u64 \<Rightarrow> u64 option" where
  "phys_of m va = map_option (\<lambda>e. (e AND 0x000FFFFFFFFFF000) + (va AND 0xFFF)) (translate (vm_cr3 m) va m)"

definition set_mem :: "memory \<Rightarrow> 'fs kernel \<Rightarrow> 'fs kernel" where
  "set_mem mem k = k\<lparr>k_mmu := (k_mmu k)\<lparr>vm_mem := mem\<rparr>\<rparr>"

abbreviation mem_of :: "'fs kernel \<Rightarrow> memory" where "mem_of k \<equiv> vm_mem (k_mmu k)"

section \<open>The page fault handler\<close>

text \<open>A write to a page that is present: the page is copied to a new frame, through a buffer on the stack.\<close>

definition pf_copy :: "u64 \<Rightarrow> 'fs kernel \<Rightarrow> 'fs kernel option" where
  "pf_copy cr2 k =
     (let page = cr2 AND NOT 0xFFF; cur_cr3 = vmm_read_cr3 (k_mmu k); (new_phys, m1) = vm_page_alloc (k_mmu k) in
      if new_phys = 0 then None
      else
        case phys_of m1 page of None \<Rightarrow> None
        | Some old \<Rightarrow>
            let bounce = load_bytes 4096 (vm_mem m1) old;
                m2 = vmm_map_in_cr3 cur_cr3 page new_phys (PG_PRESENT OR PG_WRITE OR PG_USER OR PG_NX) m1
            in case phys_of m2 page of None \<Rightarrow> None
               | Some p \<Rightarrow> Some (k\<lparr>k_mmu := m2\<lparr>vm_mem := store_bytes (vm_mem m2) p bounce\<rparr>\<rparr>))"

text \<open>A write to a page that is not present: a new page of zeros.\<close>

definition pf_zero :: "bool \<Rightarrow> u64 \<Rightarrow> 'fs kernel \<Rightarrow> 'fs kernel option" where
  "pf_zero pf_user cr2 k =
     (let (phys, m1) = vmm_alloc_page (k_mmu k) in
      if phys = 0 then None
      else Some (k\<lparr>k_mmu := vmm_map (cr2 AND NOT 0xFFF) phys
                   (PG_PRESENT OR PG_WRITE OR PG_NX OR (if pf_user then PG_USER else 0)) m1\<rparr>))"

text \<open>
  A read of a page of an area: the page is filled from the file of the area, if it has one. The bytes that
  \<open>vfs_read\<close> delivers go to the page that was just mapped.
\<close>

definition pf_flags :: "bool \<Rightarrow> int \<Rightarrow> u64" where
  "pf_flags pf_write prot =
     (let f = PG_PRESENT OR PG_USER; f1 = (if pf_write \<and> prot AND 2 \<noteq> 0 then f OR PG_WRITE else f)
      in if prot AND 4 = 0 then f1 OR PG_NX else f1)"

definition pf_fill :: "(pipe \<Rightarrow> pipe) list \<Rightarrow> vma \<Rightarrow> u64 \<Rightarrow> 'fs kernel \<Rightarrow> 'fs kernel option" where
  "pf_fill ys v page k =
     (if v_fd v \<ge> 0 then
        let foff = v_foff v + (page - v_start v); (r, v1) = vfs_lseek (v_fd v) foff 0 (vfs_view k)
        in case vfs_read ys (v_fd v) 4096 v1 of
             Returns (n, out, v2) \<Rightarrow>
               (let k1 = vfs_put v2 k in
                case phys_of (k_mmu k1) page of None \<Rightarrow> None
                | Some p \<Rightarrow> Some (set_mem (store_bytes (mem_of k1) p out) k1))
           | Blocks \<Rightarrow> None | Undef \<Rightarrow> None
      else Some k)"

definition pf_demand :: "(pipe \<Rightarrow> pipe) list \<Rightarrow> bool \<Rightarrow> u64 \<Rightarrow> 'fs kernel \<Rightarrow> 'fs kernel option" where
  "pf_demand ys pf_write cr2 k =
     (let i = vma_find cr2 (p_vmas (cur k)) in
      if i < 0 then None
      else
        let v = p_vmas (cur k) ! nat i; page = cr2 AND NOT 0xFFF; (phys, m1) = vmm_alloc_page (k_mmu k) in
        if phys = 0 then None
        else pf_fill ys v page (k\<lparr>k_mmu := vmm_map page phys (pf_flags pf_write (v_prot v)) m1\<rparr>))"

definition page_fault :: "(pipe \<Rightarrow> pipe) list \<Rightarrow> u64 \<Rightarrow> u64 \<Rightarrow> 'fs kernel \<Rightarrow> 'fs kernel option" where
  "page_fault ys error_code cr2 k =
     (let pf_present = (error_code AND 1 \<noteq> 0); pf_write = (error_code AND 2 \<noteq> 0); pf_user = (error_code AND 4 \<noteq> 0) in
      if pf_present \<and> pf_write \<and> cr2 \<ge> 0x1000000 then pf_copy cr2 k
      else if \<not> pf_present \<and> pf_write \<and> cr2 \<ge> 0x1000000 then pf_zero pf_user cr2 k
      else if \<not> pf_present \<and> cr2 \<ge> 0x1000000 then pf_demand ys pf_write cr2 k
      else None)"

definition exception_handler :: "(pipe \<Rightarrow> pipe) list \<Rightarrow> u64 \<Rightarrow> u64 \<Rightarrow> u64 \<Rightarrow> 'fs kernel \<Rightarrow> 'fs kernel option" where
  "exception_handler ys vector error_code cr2 k = (if vector = 14 then page_fault ys error_code cr2 k else None)"

section \<open>Kernel accesses through the page tables\<close>

definition resolve :: "(pipe \<Rightarrow> pipe) list \<Rightarrow> bool \<Rightarrow> u64 \<Rightarrow> 'fs kernel \<Rightarrow> (u64 \<times> 'fs kernel) option" where
  "resolve ys wr va k =
     (case phys_of (k_mmu k) va of Some p \<Rightarrow> Some (p, k)
      | None \<Rightarrow>
          (case exception_handler ys 14 (if wr then 2 else 0) va k of None \<Rightarrow> None
           | Some k1 \<Rightarrow> (case phys_of (k_mmu k1) va of None \<Rightarrow> None | Some p \<Rightarrow> Some (p, k1))))"

definition uload :: "(pipe \<Rightarrow> pipe) list \<Rightarrow> u64 \<Rightarrow> 'fs kernel \<Rightarrow> (u8 \<times> 'fs kernel) option" where
  "uload ys va k = map_option (\<lambda>(p, k1). (mem_of k1 p, k1)) (resolve ys False va k)"

definition ustore :: "(pipe \<Rightarrow> pipe) list \<Rightarrow> u64 \<Rightarrow> u8 \<Rightarrow> 'fs kernel \<Rightarrow> 'fs kernel option" where
  "ustore ys va b k = map_option (\<lambda>(p, k1). set_mem ((mem_of k1)(p := b)) k1) (resolve ys True va k)"

primrec uload_bytes :: "(pipe \<Rightarrow> pipe) list \<Rightarrow> nat \<Rightarrow> u64 \<Rightarrow> 'fs kernel \<Rightarrow> (u8 list \<times> 'fs kernel) option" where
  "uload_bytes ys 0 va k = Some ([], k)"
| "uload_bytes ys (Suc n) va k =
     (case uload ys va k of None \<Rightarrow> None
      | Some (b, k1) \<Rightarrow> map_option (\<lambda>(bs, k2). (b # bs, k2)) (uload_bytes ys n (va + 1) k1))"

primrec ustore_bytes :: "(pipe \<Rightarrow> pipe) list \<Rightarrow> u64 \<Rightarrow> u8 list \<Rightarrow> 'fs kernel \<Rightarrow> 'fs kernel option" where
  "ustore_bytes ys va [] k = Some k"
| "ustore_bytes ys va (b # bs) k = Option.bind (ustore ys va b k) (ustore_bytes ys (va + 1) bs)"

text \<open>The C string at an address: the bytes before the first zero.\<close>

partial_function (option) ucstr :: "(pipe \<Rightarrow> pipe) list \<Rightarrow> u64 \<Rightarrow> 'fs kernel \<Rightarrow> (u8 list \<times> 'fs kernel) option" where
  "ucstr ys va k =
     Option.bind (uload ys va k) (\<lambda>(b, k1).
       if b = 0 then Some ([], k1)
       else Option.bind (ucstr ys (va + 1) k1) (\<lambda>(bs, k2). Some (b # bs, k2)))"

end
