(* ===== verification/Elf.thy ===== *)
theory Elf
  imports Fault
begin

text \<open>
  The program loader, \<open>src/kernel/elf.c\<close> and \<open>elf.h\<close>: checks of the ELF header, the loadable segments, the stack
  and argument pages. The image is read where it lies in kernel memory, relative to its start, and is taken to
  stay as it is while the segments are mapped. Pages are mapped in the address space in force.
\<close>

section \<open>Header\<close>

definition ELF_MAGIC :: u32 where "ELF_MAGIC = 0x464C457F"
definition ELFCLASS64 :: u8 where "ELFCLASS64 = 2"
definition ET_EXEC :: u16 where "ET_EXEC = 2"
definition EM_X86_64 :: u16 where "EM_X86_64 = 62"
definition PT_LOAD :: u32 where "PT_LOAD = 1"

definition load16 :: "memory \<Rightarrow> u64 \<Rightarrow> u16" where "load16 m a = le_dec (load_bytes 2 m a)"

record elf64_hdr =
  e_magic :: u32
  e_class :: u8
  e_type :: u16
  e_machine :: u16
  e_entry :: u64
  e_phoff :: u64
  e_phnum :: u16

definition elf_hdr :: "memory \<Rightarrow> elf64_hdr" where
  "elf_hdr img = \<lparr>e_magic = load32 img 0, e_class = img 4, e_type = load16 img 16, e_machine = load16 img 18,
     e_entry = load64 img 24, e_phoff = load64 img 32, e_phnum = load16 img 56\<rparr>"

record elf64_phdr =
  p_type :: u32
  p_flags :: u32
  p_offset :: u64
  p_vaddr :: u64
  p_filesz :: u64
  p_memsz :: u64

definition elf_phdr :: "memory \<Rightarrow> u64 \<Rightarrow> elf64_phdr" where
  "elf_phdr img a = \<lparr>p_type = load32 img a, p_flags = load32 img (a + 4), p_offset = load64 img (a + 8),
     p_vaddr = load64 img (a + 16), p_filesz = load64 img (a + 32), p_memsz = load64 img (a + 40)\<rparr>"

section \<open>Segments\<close>

definition page_alloc_zero :: "mmu \<Rightarrow> u64 \<times> mmu" where
  "page_alloc_zero m = (let (p, m1) = vm_page_alloc m in if p \<noteq> 0 then (p, zero_page p m1) else (p, m1))"

text \<open>\<open>int vm_flags\<close>: a 32-bit variable, widened with its sign when it is passed on.\<close>

definition elf_flags :: "u32 \<Rightarrow> u64" where
  "elf_flags pflags =
     (let vm0 = ucast (PG_PRESENT OR PG_USER) :: u32;
          vm1 = (if pflags AND 2 \<noteq> 0 then ucast (scast vm0 OR PG_WRITE) else vm0);
          vm2 = (if pflags AND 1 = 0 then ucast (scast vm1 OR PG_NX) else vm1)
      in scast vm2)"

text \<open>The result is whether no allocation failed; the loop does not end when the addresses wrap around.\<close>

partial_function (option) elf_map_pages :: "u64 \<Rightarrow> u64 \<Rightarrow> u64 \<Rightarrow> mmu \<Rightarrow> (bool \<times> mmu) option" where
  "elf_map_pages flags fin page m =
     (if page < fin then
        (case page_alloc_zero m of (phys, m1) \<Rightarrow>
           if phys = 0 then Some (False, m1)
           else elf_map_pages flags fin (page + 0x1000) (vmm_map page phys flags m1))
      else Some (True, m))"

definition elf_segment :: "(pipe \<Rightarrow> pipe) list \<Rightarrow> memory \<Rightarrow> elf64_phdr \<Rightarrow> 'fs kernel \<Rightarrow> (bool \<times> 'fs kernel) option" where
  "elf_segment ys img ph k =
     (if p_type ph \<noteq> PT_LOAD then Some (True, k)
      else
        case elf_map_pages (elf_flags (p_flags ph)) (p_vaddr ph + p_memsz ph) (p_vaddr ph AND NOT 0xFFF) (k_mmu k) of
          None \<Rightarrow> None
        | Some (ok, m) \<Rightarrow>
            if \<not> ok then Some (False, k\<lparr>k_mmu := m\<rparr>)
            else
              let copy = (if p_filesz ph < p_memsz ph then p_filesz ph else p_memsz ph)
              in map_option (Pair True)
                   (ustore_bytes ys (p_vaddr ph) (map (\<lambda>j. img (p_offset ph + of_nat j)) [0..<unat copy]) (k\<lparr>k_mmu := m\<rparr>)))"

primrec elf_segments :: "(pipe \<Rightarrow> pipe) list \<Rightarrow> memory \<Rightarrow> elf64_phdr list \<Rightarrow> 'fs kernel \<Rightarrow> (bool \<times> 'fs kernel) option" where
  "elf_segments ys img [] k = Some (True, k)"
| "elf_segments ys img (ph # phs) k =
     (case elf_segment ys img ph k of None \<Rightarrow> None
      | Some (ok, k1) \<Rightarrow> if ok then elf_segments ys img phs k1 else Some (False, k1))"

text \<open>Three stack pages, a gap and the page of the arguments.\<close>

primrec elf_stack :: "u64 list \<Rightarrow> mmu \<Rightarrow> bool \<times> mmu" where
  "elf_stack [] m = (True, m)"
| "elf_stack (va # vas) m =
     (let (phys, m1) = page_alloc_zero m in
      if phys = 0 then (False, m1)
      else elf_stack vas (vmm_map va phys (PG_PRESENT OR PG_WRITE OR PG_USER OR PG_NX) m1))"

definition elf64_load :: "(pipe \<Rightarrow> pipe) list \<Rightarrow> memory \<Rightarrow> 'fs kernel \<Rightarrow> (int \<times> u64 option \<times> 'fs kernel) option" where
  "elf64_load ys img k =
     (let hdr = elf_hdr img in
      if e_magic hdr \<noteq> ELF_MAGIC then Some (-1, None, k)
      else if e_class hdr \<noteq> ELFCLASS64 then Some (-1, None, k)
      else if e_type hdr \<noteq> ET_EXEC then Some (-1, None, k)
      else if e_machine hdr \<noteq> EM_X86_64 then Some (-1, None, k)
      else
        case elf_segments ys img (map (\<lambda>i. elf_phdr img (e_phoff hdr + 56 * of_nat i)) [0..<unat (e_phnum hdr)]) k of
          None \<Rightarrow> None
        | Some (ok, k1) \<Rightarrow>
            if \<not> ok then Some (-1, None, k1)
            else
              let (ok, m) = elf_stack [0x7F000000, 0x7F001000, 0x7F002000, 0x7F004000] (k_mmu k1); k2 = k1\<lparr>k_mmu := m\<rparr>
              in if \<not> ok then Some (-1, None, k2) else Some (0, Some (e_entry hdr), k2))"

end
