(* ===== verification/Console.thy ===== *)
theory Console
  imports Prelude
begin

text \<open>
  The console, \<open>src/kernel/hal/serial.c\<close> and \<open>src/kernel/hal/log.c\<close>: the bytes that are sent to the serial port. The wait
  for the transmitter is left out. The arguments of a format are a list of typed values; a format that asks for an
  argument that is not there, or of another type, or that ends in a percent sign, reads memory it must not and is
  \<^const>\<open>None\<close>. The negation of a signed number wraps around, as the compiled code does.
\<close>

section \<open>Numbers\<close>

definition serial_putc :: "u8 \<Rightarrow> u8 list" where "serial_putc c = [c]"

primrec puts_bytes :: "u8 list \<Rightarrow> u8 list" where
  "puts_bytes [] = []"
| "puts_bytes (c # s) = (if c = 10 then serial_putc 13 else []) @ serial_putc c @ puts_bytes s"

definition hex_char :: "nat \<Rightarrow> u8" where
  "hex_char d = (if d < 10 then 48 + of_nat d else 65 + of_nat d - 10)"

text \<open>The loops that fill a buffer from its end.\<close>

primrec hex_loop :: "nat \<Rightarrow> 'a::len word \<Rightarrow> u8 list \<Rightarrow> u8 list" where
  "hex_loop 0 n buf = buf"
| "hex_loop (Suc i) n buf = hex_loop i (drop_bit 4 n) (hex_char (unat (n AND 0xF)) # buf)"

function dec_loop :: "int \<Rightarrow> u8 list \<Rightarrow> u8 list" where
  "dec_loop n buf = (if n > 0 then dec_loop (n div 10) ((48 + of_int (n mod 10)) # buf) else buf)"
  by pat_completeness auto
termination by (relation "measure (\<lambda>(n, buf). nat n)") auto

declare dec_loop.simps [simp del]

definition fmt_unsigned :: "u32 \<Rightarrow> u8 list" where
  "fmt_unsigned n = (if n = 0 then [48] else dec_loop (uint n) [])"

definition fmt_signed :: "u32 \<Rightarrow> u8 list" where
  "fmt_signed n =
     (let neg = (sint n < 0); m = (if neg then sint (- n) else sint n);
          buf = dec_loop m (if m = 0 then [48] else [])
      in if neg then 45 # buf else buf)"

section \<open>Formats\<close>

datatype va_arg = Va_str "u8 list" | Va_int u32 | Va_ptr u64

fun serial_vprintf :: "u8 list \<Rightarrow> va_arg list \<Rightarrow> u8 list option" where
  "serial_vprintf [] args = Some []"
| "serial_vprintf (c # p) args =
     (if c \<noteq> 37 then map_option ((@) (serial_putc c)) (serial_vprintf p args)
      else case p of [] \<Rightarrow> None
        | d # q \<Rightarrow>
            if d = 115 then
              (case args of Va_str s # as \<Rightarrow> map_option ((@) (puts_bytes s)) (serial_vprintf q as) | _ \<Rightarrow> None)
            else if d = 120 \<or> d = 88 then
              (case args of Va_int n # as \<Rightarrow> map_option ((@) (puts_bytes (hex_loop 8 n []))) (serial_vprintf q as) | _ \<Rightarrow> None)
            else if d = 112 \<or> d = 80 then
              (case args of Va_ptr n # as \<Rightarrow> map_option ((@) (puts_bytes (hex_loop 16 n []))) (serial_vprintf q as) | _ \<Rightarrow> None)
            else if d = 100 \<or> d = 105 then
              (case args of Va_int n # as \<Rightarrow> map_option ((@) (puts_bytes (fmt_signed n))) (serial_vprintf q as) | _ \<Rightarrow> None)
            else if d = 117 then
              (case args of Va_int n # as \<Rightarrow> map_option ((@) (puts_bytes (fmt_unsigned n))) (serial_vprintf q as) | _ \<Rightarrow> None)
            else if d = 99 then
              (case args of Va_int n # as \<Rightarrow> map_option ((@) (serial_putc (ucast n))) (serial_vprintf q as) | _ \<Rightarrow> None)
            else map_option ((@) (serial_putc 37 @ serial_putc d)) (serial_vprintf q args))"

definition serial_printf :: "u8 list \<Rightarrow> va_arg list \<Rightarrow> u8 list option" where
  "serial_printf fmt args = serial_vprintf fmt args"

section \<open>The log\<close>

abbreviation ascii :: "string \<Rightarrow> u8 list" where "ascii s \<equiv> map of_char s"

definition ANSI_RESET :: "u8 list" where "ANSI_RESET = 27 # ascii ''[0m''"
definition ANSI_GREEN :: "u8 list" where "ANSI_GREEN = 27 # ascii ''[32m''"
definition ANSI_RED :: "u8 list" where "ANSI_RED = 27 # ascii ''[31m''"
definition ANSI_YELLOW :: "u8 list" where "ANSI_YELLOW = 27 # ascii ''[33m''"

primrec pad_loop :: "nat \<Rightarrow> u32 \<Rightarrow> u8 list \<Rightarrow> u8 list" where
  "pad_loop 0 n buf = buf"
| "pad_loop (Suc i) n buf = pad_loop i (n div 10) ((48 + ucast (n mod 10)) # buf)"

text \<open>The buffer has room for eleven digits.\<close>

definition pad_uint32 :: "u32 \<Rightarrow> nat \<Rightarrow> u8 list option" where
  "pad_uint32 n digits = (if digits \<le> 11 then Some (puts_bytes (pad_loop digits n [])) else None)"

definition log_timestamp :: "u64 \<Rightarrow> u8 list option" where
  "log_timestamp jiffies =
     (let sec = ucast (jiffies div 100) :: u32; us = ucast (jiffies mod 100) * 10000 :: u32 in
      case (serial_printf (ascii ''%u'') [Va_int sec], pad_uint32 us 6) of
        (Some s, Some u) \<Rightarrow> Some (puts_bytes (ascii ''[  '') @ s @ serial_putc 46 @ u @ puts_bytes (ascii ''] ''))
      | _ \<Rightarrow> None)"

definition log_line :: "u8 list \<Rightarrow> u64 \<Rightarrow> u8 list \<Rightarrow> va_arg list \<Rightarrow> u8 list option" where
  "log_line mark jiffies fmt args =
     (case (log_timestamp jiffies, serial_vprintf fmt args) of
        (Some t, Some s) \<Rightarrow> Some (t @ puts_bytes mark @ s @ serial_putc 10) | _ \<Rightarrow> None)"

definition log_info :: "u64 \<Rightarrow> u8 list \<Rightarrow> va_arg list \<Rightarrow> u8 list option" where
  "log_info = log_line []"

definition log_ok :: "u64 \<Rightarrow> u8 list \<Rightarrow> va_arg list \<Rightarrow> u8 list option" where
  "log_ok = log_line (ascii '' '' @ ANSI_GREEN @ ascii ''[  OK  ]'' @ ANSI_RESET @ ascii '' '')"

definition log_fail :: "u64 \<Rightarrow> u8 list \<Rightarrow> va_arg list \<Rightarrow> u8 list option" where
  "log_fail = log_line (ascii '' '' @ ANSI_RED @ ascii ''[ FAIL ]'' @ ANSI_RESET @ ascii '' '')"

definition log_warn :: "u64 \<Rightarrow> u8 list \<Rightarrow> va_arg list \<Rightarrow> u8 list option" where
  "log_warn = log_line (ascii '' '' @ ANSI_YELLOW @ ascii ''[ WARN ]'' @ ANSI_RESET @ ascii '' '')"

definition log_raw :: "u8 list \<Rightarrow> va_arg list \<Rightarrow> u8 list option" where
  "log_raw fmt args = serial_vprintf fmt args"

section \<open>Reading numbers back\<close>

definition dec_value :: "u8 list \<Rightarrow> int" where
  "dec_value ds = fold (\<lambda>d v. 10 * v + (uint d - 48)) ds 0"

definition signed_value :: "u8 list \<Rightarrow> int" where
  "signed_value ds = (case ds of d # r \<Rightarrow> if d = 45 then - dec_value r else dec_value ds | [] \<Rightarrow> 0)"

definition hex_digit :: "u8 \<Rightarrow> nat" where
  "hex_digit c = (if c < 58 then unat c - 48 else unat c - 55)"

definition hex_value :: "u8 list \<Rightarrow> nat" where
  "hex_value ds = fold (\<lambda>d v. 16 * v + hex_digit d) ds 0"

lemma dec_value_snoc: "dec_value (ds @ [d]) = 10 * dec_value ds + (uint d - 48)"
  by (simp add: dec_value_def)

lemma dec_fold: "fold (\<lambda>d v. 10 * v + (uint (d :: u8) - 48)) ds a = dec_value ds + a * 10 ^ length ds"
  by (induction ds rule: rev_induct) (simp_all add: dec_value_snoc algebra_simps, simp add: dec_value_def)

lemma digit_value: "0 \<le> k \<Longrightarrow> k < 10 \<Longrightarrow> uint (48 + of_int k :: u8) = 48 + k"
  by (simp add: uint_word_ariths uint_word_of_int)

lemma dec_loop_value:
  "0 \<le> n \<Longrightarrow> n < 10 ^ k \<Longrightarrow> dec_value (dec_loop n buf) = n * 10 ^ length buf + dec_value buf \<and> length (dec_loop n buf) \<le> k + length buf \<and>
     (\<forall>d\<in>set (dec_loop n buf). d \<in> set buf \<or> 48 \<le> d \<and> d \<le> 57)"
proof (induction n buf arbitrary: k rule: dec_loop.induct)
  case (1 n buf)
  show ?case
  proof (cases "n > 0")
    case True
    let ?d = "48 + of_int (n mod 10) :: u8"
    from True "1.prems" obtain j where k: "k = Suc j" by (cases k) auto
    have j: "n div 10 < 10 ^ j" using "1.prems"(2) unfolding k power_Suc by linarith
    have dv: "uint ?d = 48 + n mod 10" by (rule digit_value) simp_all
    have "dec_value (?d # buf) = (n mod 10) * 10 ^ length buf + dec_value buf"
      using dec_fold[of buf "uint ?d - 48"] dv by (simp add: dec_value_def)
    moreover have "48 \<le> ?d \<and> ?d \<le> 57"
      using dv pos_mod_bound[of 10 n] by (simp add: word_le_def)
    moreover have e: "dec_loop n buf = dec_loop (n div 10) (?d # buf)" using True by (subst dec_loop.simps) simp
    moreover have "n * 10 ^ length buf = (n div 10) * 10 ^ length (?d # buf) + (n mod 10) * 10 ^ length buf"
    proof -
      have "(10 * q + r) * 10 ^ length buf = q * 10 ^ length (?d # buf) + r * 10 ^ length buf" for q r :: int by (simp add: algebra_simps)
      from this[of "n div 10" "n mod 10"] show ?thesis by (simp only: mult_div_mod_eq)
    qed
    moreover have "0 \<le> n div 10" using True by simp
    note ih = "1.IH"[OF True this j]
    ultimately show ?thesis using True ih by (auto simp: k)
  next
    case False
    then show ?thesis using "1.prems" by (simp add: dec_loop.simps)
  qed
qed

lemma hex_char_digit: "d < 16 \<Longrightarrow> hex_digit (hex_char d) = d"
proof -
  assume d: "d < 16"
  have "\<forall>d\<in>set [0..<16]. hex_digit (hex_char d) = d" by code_simp
  then show ?thesis using d by simp
qed

lemma hex_fold: "fold (\<lambda>d v. 16 * v + hex_digit d) ds a = hex_value ds + a * 16 ^ length ds"
proof (induction ds rule: rev_induct)
  case (snoc d ds)
  have "hex_value (ds @ [d]) = 16 * hex_value ds + hex_digit d" by (simp add: hex_value_def)
  then show ?case using snoc by (simp add: algebra_simps)
qed (simp add: hex_value_def)

lemma unat_nibble: "unat (n AND 0xF) = unat n mod 16" for n :: "'a::len word"
proof -
  have "(0xF :: 'a word) = mask 4" by (simp add: mask_eq_exp_minus_1)
  then show ?thesis using unat_take_bit[of 4 n] by (simp add: take_bit_eq_mask)
qed

lemma unat_drop_nibble: "unat (drop_bit 4 n) = unat n div 16" for n :: "'a::len word"
  by (simp only: unsigned_drop_bit_eq) (simp add: drop_bit_eq_div take_bit_nat_eq_self)

lemma hex_loop_value:
  "hex_value (hex_loop i n buf) = (unat n mod 16 ^ i) * 16 ^ length buf + hex_value buf \<and> length (hex_loop i n buf) = i + length buf"
proof (induction i arbitrary: n buf)
  case (Suc i)
  let ?d = "unat (n AND 0xF)"
  have d: "?d = unat n mod 16" by (rule unat_nibble)
  have d2: "?d < 16" by (simp add: d)
  have "hex_value (hex_char ?d # buf) = ?d * 16 ^ length buf + hex_value buf"
    using hex_fold[of buf ?d] hex_char_digit[OF d2] by (simp add: hex_value_def)
  moreover have "unat (drop_bit 4 n) = unat n div 16" by (rule unat_drop_nibble)
  moreover have "unat n mod 16 ^ Suc i = unat n mod 16 + 16 * (unat n div 16 mod 16 ^ i)" by (simp add: mod_mult2_eq)
  ultimately show ?case using Suc[of "drop_bit 4 n" "hex_char ?d # buf"] d by (simp add: algebra_simps)
qed simp

lemma fmt_unsigned_value: "dec_value (fmt_unsigned u) = uint u" "length (fmt_unsigned u) \<le> 10"
proof -
  have "uint u < 10 ^ 10" using uint_lt2p[of u] by simp
  from dec_loop_value[OF _ this, of "[]"] show "dec_value (fmt_unsigned u) = uint u" "length (fmt_unsigned u) \<le> 10"
    by (auto simp: fmt_unsigned_def dec_value_def)
qed

text \<open>The digits are none of them a minus sign.\<close>

lemma dec_loop_signed:
  assumes "0 \<le> m" "m < 2 ^ 31" "buf = dec_loop m (if m = 0 then [48] else [])"
  shows "dec_value buf = m" "length buf \<le> 10" "signed_value buf = m"
proof -
  have b: "dec_value buf = m \<and> length buf \<le> 10 \<and> (\<forall>d\<in>set buf. 48 \<le> d \<and> d \<le> 57)"
  proof (cases "m = 0")
    case True
    then show ?thesis by (simp add: assms(3) dec_loop.simps dec_value_def)
  next
    case False
    have "m < 10 ^ 10" using assms(2) by simp
    from dec_loop_value[OF assms(1) this, of "[]"] show ?thesis using False by (simp add: assms(3) dec_value_def)
  qed
  then show "dec_value buf = m" "length buf \<le> 10" by simp_all
  have "(48 :: u8) \<le> 45 \<longleftrightarrow> False" by simp
  then show "signed_value buf = m" using b by (cases buf) (auto simp: signed_value_def dec_value_def)
qed

lemma fmt_signed_value:
  assumes "sint s \<noteq> - (2 ^ 31)"
  shows "signed_value (fmt_signed s) = sint s" "length (fmt_signed s) \<le> 11"
proof -
  have r: "- (2 ^ 31) \<le> sint s" "sint s < 2 ^ 31" using sint_ge[of s] sint_lt[of s] by simp_all
  define m where "m = (if sint s < 0 then - sint s else sint s)"
  have m: "0 \<le> m" "m < 2 ^ 31" using r assms by (auto simp: m_def)
  have n: "(if sint s < 0 then sint (- s) else sint s) = m"
    using r assms by (auto simp: m_def sint_word_ariths signed_take_bit_int_eq_self)
  note d = dec_loop_signed[OF m refl]
  have f: "fmt_signed s = (if sint s < 0 then 45 # dec_loop m (if m = 0 then [48] else []) else dec_loop m (if m = 0 then [48] else []))"
    unfolding fmt_signed_def Let_def n by simp
  have neg: "signed_value (45 # b) = - dec_value b" for b by (simp add: signed_value_def)
  show "signed_value (fmt_signed s) = sint s" "length (fmt_signed s) \<le> 11"
    using d by (simp_all add: f neg) (simp_all add: m_def)
qed

section \<open>Properties\<close>


end
