(* ===== verification/Syscall.thy ===== *)
theory Syscall
  imports Elf Console "HOL-Library.Monad_Syntax"
begin

text \<open>
  System calls, \<open>src/kernel/user/syscall_handler.c\<close>. A call ends with a value for the caller, with the jump into a
  new program, or never, because the process is dead or the machine halted. A call that waits beyond the given
  yields, faults for ever or calls through a null pointer is \<^const>\<open>None\<close>. Console messages other than the text
  of \<open>SC_PUTS\<close> are left out. A buffer of the caller is read before the bytes are written and stored after they are read.
\<close>

section \<open>Call numbers\<close>

definition SC_PUTS :: u64 where "SC_PUTS = 0"
definition SC_NOP :: u64 where "SC_NOP = 1"
definition SC_YIELD :: u64 where "SC_YIELD = 2"
definition SC_OPEN :: u64 where "SC_OPEN = 3"
definition SC_READ :: u64 where "SC_READ = 4"
definition SC_WRITE :: u64 where "SC_WRITE = 5"
definition SC_CLOSE :: u64 where "SC_CLOSE = 6"
definition SC_EXEC :: u64 where "SC_EXEC = 7"
definition SC_EXIT :: u64 where "SC_EXIT = 8"
definition SC_FSTAT :: u64 where "SC_FSTAT = 9"
definition SC_HALT :: u64 where "SC_HALT = 10"
definition SC_MEMINFO :: u64 where "SC_MEMINFO = 11"
definition SC_FORK :: u64 where "SC_FORK = 12"
definition SC_WAIT :: u64 where "SC_WAIT = 13"
definition SC_GETPID :: u64 where "SC_GETPID = 14"
definition SC_BRK :: u64 where "SC_BRK = 15"
definition SC_MMAP :: u64 where "SC_MMAP = 16"
definition SC_MUNMAP :: u64 where "SC_MUNMAP = 17"
definition SC_MSYNC :: u64 where "SC_MSYNC = 18"
definition SC_PIPE :: u64 where "SC_PIPE = 19"
definition SC_DUP :: u64 where "SC_DUP = 20"
definition SC_DUP2 :: u64 where "SC_DUP2 = 21"
definition SC_MPROTECT :: u64 where "SC_MPROTECT = 22"

lemmas sc_defs = SC_PUTS_def SC_NOP_def SC_YIELD_def SC_OPEN_def SC_READ_def SC_WRITE_def SC_CLOSE_def SC_EXEC_def SC_EXIT_def SC_FSTAT_def SC_HALT_def SC_MEMINFO_def SC_FORK_def SC_WAIT_def SC_GETPID_def SC_BRK_def SC_MMAP_def SC_MUNMAP_def SC_MSYNC_def SC_PIPE_def SC_DUP_def SC_DUP2_def SC_MPROTECT_def

section \<open>Calls and their environment\<close>

datatype sys_end = Sys_ret u64 | Sys_user u64 u64 | Sys_stop

text \<open>
  What a call finds outside the kernel state: what other processes do to a pipe and to the kernel at each yield,
  and what uninitialised memory holds, on the stack, in the heap behind a loaded file and in a new pipe.
\<close>

record 'fs sys_env =
  en_pipe :: "(pipe \<Rightarrow> pipe) list"
  en_yield :: "('fs kernel \<Rightarrow> 'fs kernel) list"
  en_stat :: "u8 list"
  en_offset :: u64
  en_heap :: memory
  en_ring :: "u8 list"

abbreviation c_int :: "u64 \<Rightarrow> int" where "c_int a \<equiv> sint (ucast a :: u32)"

definition sys_int :: "int \<Rightarrow> sys_end" where "sys_int r = Sys_ret (of_int r)"

definition sys_vfs :: "('fs vfs \<Rightarrow> ('a \<times> 'fs vfs) outcome) \<Rightarrow> 'fs kernel \<Rightarrow> ('a \<times> 'fs kernel) option" where
  "sys_vfs f k = (case f (vfs_view k) of Returns (r, v) \<Rightarrow> Some (r, vfs_put v k) | Blocks \<Rightarrow> None | Undef \<Rightarrow> None)"

definition k_kmalloc :: "u64 \<Rightarrow> 'fs kernel \<Rightarrow> u64 \<times> 'fs kernel" where
  "k_kmalloc sz k =
     (let w = v_world (k_vfs k); (p, h) = kmalloc sz (w_heap w)
      in (p, k\<lparr>k_vfs := (k_vfs k)\<lparr>v_world := w\<lparr>w_heap := h\<rparr>\<rparr>\<rparr>))"

definition k_kfree :: "u64 \<Rightarrow> 'fs kernel \<Rightarrow> 'fs kernel" where
  "k_kfree p k =
     (let w = v_world (k_vfs k) in k\<lparr>k_vfs := (k_vfs k)\<lparr>v_world := w\<lparr>w_heap := kfree p (w_heap w)\<rparr>\<rparr>\<rparr>)"

definition serial_puts :: "u8 list \<Rightarrow> 'fs kernel \<Rightarrow> 'fs kernel" where
  "serial_puts s k =
     (let w = v_world (k_vfs k)
      in k\<lparr>k_vfs := (k_vfs k)\<lparr>v_world := w\<lparr>w_sout := w_sout w @ puts_bytes s\<rparr>\<rparr>\<rparr>)"

definition sys_read :: "(pipe \<Rightarrow> pipe) list \<Rightarrow> int \<Rightarrow> u32 \<Rightarrow> 'fs kernel \<Rightarrow> ((int \<times> u8 list) \<times> 'fs kernel) option" where
  "sys_read ys fd sz = sys_vfs (\<lambda>v. case vfs_read ys fd sz v of Returns (r, out, v') \<Rightarrow> Returns ((r, out), v') | Blocks \<Rightarrow> Blocks | Undef \<Rightarrow> Undef)"

section \<open>Areas of the current process\<close>

definition get_vt :: "'fs kernel \<Rightarrow> vtab" where
  "get_vt k = (p_vmas (cur k), p_vma_count (cur k))"

definition put_vt :: "vtab \<Rightarrow> 'fs kernel \<Rightarrow> 'fs kernel" where
  "put_vt vt k = put_proc (current_idx k) ((cur k)\<lparr>p_vmas := fst vt, p_vma_count := snd vt\<rparr>) k"

text \<open>A loop over the pages from \<open>p\<close> below \<open>fin\<close>; it does not end when \<open>p\<close> wraps around.\<close>

partial_function (option) each_page :: "(u64 \<Rightarrow> 'fs kernel \<Rightarrow> 'fs kernel option) \<Rightarrow> u64 \<Rightarrow> u64 \<Rightarrow> 'fs kernel \<Rightarrow> 'fs kernel option" where
  "each_page f p fin k = (if p < fin then do { k1 \<leftarrow> f p k; each_page f (p + 0x1000) fin k1 } else Some k)"

text \<open>The entry at the address \<open>pt\<close> that \<open>vmm_pt_lookup\<close> gave.\<close>

definition pte_store :: "u64 \<Rightarrow> u64 \<Rightarrow> 'fs kernel \<Rightarrow> 'fs kernel" where
  "pte_store pt e k = set_mem (store_bytes (mem_of k) pt (le_enc 8 e)) k"

definition writeback_page :: "(pipe \<Rightarrow> pipe) list \<Rightarrow> vma \<Rightarrow> u64 \<Rightarrow> 'fs kernel \<Rightarrow> 'fs kernel option" where
  "writeback_page ys v p k =
     (let pt = vmm_pt_lookup p (k_mmu k) in
      if pt \<noteq> 0 \<and> load64 (mem_of k) pt AND PG_DIRTY \<noteq> 0 then
        do { (r, k1) \<leftarrow> sys_vfs (\<lambda>w. Returns (vfs_lseek (v_fd v) (v_foff v + (p - v_start v)) 0 w)) k;
             (tmp, k2) \<leftarrow> uload_bytes ys 4096 p k1;
             (n, k3) \<leftarrow> sys_vfs (vfs_write ys (v_fd v) tmp 4096) k2;
             Some (pte_store pt (load64 (mem_of k3) pt AND NOT PG_DIRTY) k3) }
      else Some k)"

definition vma_writeback_dirty :: "(pipe \<Rightarrow> pipe) list \<Rightarrow> u64 \<Rightarrow> u64 \<Rightarrow> vma \<Rightarrow> 'fs kernel \<Rightarrow> 'fs kernel option" where
  "vma_writeback_dirty ys start fin v k =
     (if v_fd v < 0 \<or> v_flags v AND 1 = 0 then Some k else each_page (writeback_page ys v) start fin k)"

definition vma_unmap_pages :: "u64 \<Rightarrow> u64 \<Rightarrow> 'fs kernel \<Rightarrow> 'fs kernel option" where
  "vma_unmap_pages start fin = each_page (\<lambda>p k. Some (k\<lparr>k_mmu := vmm_unmap p (k_mmu k)\<rparr>)) start fin"

text \<open>The page-aligned end of a range of system call arguments.\<close>

definition range_end :: "u64 \<Rightarrow> u64 \<Rightarrow> u64" where
  "range_end addr len = addr + ((len + 0xFFF) AND NOT 0xFFF)"

definition outside :: "u64 \<Rightarrow> u64 \<Rightarrow> vma \<Rightarrow> bool" where
  "outside addr fin v \<longleftrightarrow> \<not> v_used v \<or> addr \<ge> v_end v \<or> fin \<le> v_start v"

text \<open>
  Cutting the area in slot \<open>i\<close> to the range: the slot of the part to work on, negative if there was no slot for
  it, and the areas. A failure of the second cut goes unnoticed.
\<close>

definition vma_cut :: "u64 \<Rightarrow> u64 \<Rightarrow> nat \<Rightarrow> vtab \<Rightarrow> int \<times> vtab" where
  "vma_cut addr fin i vt =
     (let (r, vt1) = (if addr > v_start (fst vt ! i) then vma_split i addr vt else (int i, vt)) in
      if r < 0 then (r, vt1)
      else (r, if fin < v_end (fst vt1 ! nat r) then snd (vma_split (nat r) fin vt1) else vt1))"

section \<open>Memory calls\<close>

definition brk_map :: "u64 \<Rightarrow> 'fs kernel \<Rightarrow> (bool \<times> 'fs kernel)" where
  "brk_map va k =
     (let (phys, m) = vm_page_alloc (k_mmu k) in
      if phys = 0 then (False, k\<lparr>k_mmu := m\<rparr>)
      else (True, k\<lparr>k_mmu := vmm_map va phys (PG_PRESENT OR PG_WRITE OR PG_USER OR PG_NX) m\<rparr>))"

partial_function (option) brk_grow :: "u64 \<Rightarrow> u64 \<Rightarrow> 'fs kernel \<Rightarrow> (bool \<times> 'fs kernel) option" where
  "brk_grow va new_page k =
     (if va < new_page then
        (case brk_map va k of (ok, k1) \<Rightarrow> if ok then brk_grow (va + 0x1000) new_page k1 else Some (False, k1))
      else Some (True, k))"

definition sys_brk :: "u64 \<Rightarrow> 'fs kernel \<Rightarrow> (sys_end \<times> 'fs kernel) option" where
  "sys_brk new_brk k =
     (if new_brk = 0 then Some (Sys_ret (p_heap_break (cur k)), k)
      else if new_brk < p_heap_start (cur k) then Some (sys_int (-1), k)
      else
        let old_page = p_heap_break (cur k) AND NOT 0xFFF; new_page = (new_brk + 0xFFF) AND NOT 0xFFF;
            finish = (\<lambda>k. (Sys_ret new_brk, put_proc (current_idx k) ((cur k)\<lparr>p_heap_break := new_brk\<rparr>) k))
        in if new_page > old_page then
             do { (ok, k1) \<leftarrow> brk_grow old_page new_page k;
                  Some (if ok then finish k1 else (sys_int (-1), k1)) }
           else if new_page < old_page then
             do { k1 \<leftarrow> vma_unmap_pages new_page old_page k; Some (finish k1) }
           else Some (finish k))"

text \<open>
  \<open>SC_MMAP\<close> reads its flags and descriptor through a pointer to its third argument, whose two halves they are,
  and the offset from the stack behind it.
\<close>

definition sys_mmap :: "'fs sys_env \<Rightarrow> u64 \<Rightarrow> u64 \<Rightarrow> u64 \<Rightarrow> 'fs kernel \<Rightarrow> (sys_end \<times> 'fs kernel) option" where
  "sys_mmap en addr len arg3 k =
     (let prot = c_int arg3; flags = c_int arg3; fd = c_int (drop_bit 32 arg3); offset = en_offset en in
      if len = 0 then Some (sys_int (-1), k)
      else
        let len = (len + 0xFFF) AND NOT 0xFFF; (v, n) = get_vt k; idx = vma_alloc_slot v in
        if idx < 0 then Some (sys_int (-1), k)
        else
          let addr = (if addr = 0 then vma_hint v else addr);
              a = \<lparr>v_start = addr, v_end = addr + len, v_prot = prot, v_flags = flags, v_fd = fd,
                   v_foff = (if fd \<ge> 0 then offset else 0), v_used = True\<rparr>
          in Some (Sys_ret addr, put_vt (v[nat idx := a], n + 1) k))"

partial_function (option) munmap_loop :: "(pipe \<Rightarrow> pipe) list \<Rightarrow> u64 \<Rightarrow> u64 \<Rightarrow> nat \<Rightarrow> 'fs kernel \<Rightarrow> (sys_end \<times> 'fs kernel) option" where
  "munmap_loop ys addr fin i k =
     (if i \<ge> VMA_MAX then Some (Sys_ret 0, k)
      else if outside addr fin (fst (get_vt k) ! i) then munmap_loop ys addr fin (i + 1) k
      else
        (case vma_cut addr fin i (get_vt k) of (r, vt1) \<Rightarrow>
           if r < 0 then Some (sys_int (-1), put_vt vt1 k)
           else
             do { k2 \<leftarrow> vma_writeback_dirty ys (v_start (fst vt1 ! nat r)) (v_end (fst vt1 ! nat r)) (fst vt1 ! nat r) (put_vt vt1 k);
                  k3 \<leftarrow> vma_unmap_pages (v_start (fst vt1 ! nat r)) (v_end (fst vt1 ! nat r)) k2;
                  (case get_vt k3 of (v, n) \<Rightarrow>
                     munmap_loop ys addr fin (nat r + 1)
                       (put_vt (vma_try_merge (nat r) (v[nat r := (v ! nat r)\<lparr>v_used := False\<rparr>], n - 1)) k3)) }))"

definition sys_munmap :: "(pipe \<Rightarrow> pipe) list \<Rightarrow> u64 \<Rightarrow> u64 \<Rightarrow> 'fs kernel \<Rightarrow> (sys_end \<times> 'fs kernel) option" where
  "sys_munmap ys addr len k = (if len = 0 then Some (Sys_ret 0, k) else munmap_loop ys addr (range_end addr len) 0 k)"

primrec msync_loop :: "(pipe \<Rightarrow> pipe) list \<Rightarrow> u64 \<Rightarrow> u64 \<Rightarrow> nat list \<Rightarrow> 'fs kernel \<Rightarrow> (sys_end \<times> 'fs kernel) option" where
  "msync_loop ys addr fin [] k = Some (Sys_ret 0, k)"
| "msync_loop ys addr fin (i # is) k =
     (let v = fst (get_vt k) ! i in
      if outside addr fin v then msync_loop ys addr fin is k
      else
        do { k1 \<leftarrow> vma_writeback_dirty ys (if addr > v_start v then addr else v_start v) (if fin < v_end v then fin else v_end v) v k;
             msync_loop ys addr fin is k1 })"

definition sys_msync :: "(pipe \<Rightarrow> pipe) list \<Rightarrow> u64 \<Rightarrow> u64 \<Rightarrow> 'fs kernel \<Rightarrow> (sys_end \<times> 'fs kernel) option" where
  "sys_msync ys addr len k = (if len = 0 then Some (Sys_ret 0, k) else msync_loop ys addr (range_end addr len) [0..<VMA_MAX] k)"

definition prot_entry :: "int \<Rightarrow> u64 \<Rightarrow> u64" where
  "prot_entry prot e =
     (let paddr = e AND 0x0000FFFFFFFFF000; keep = e AND (PG_ACCESSED OR PG_DIRTY);
          f = PG_PRESENT OR PG_USER OR keep;
          f1 = (if prot AND 2 \<noteq> 0 then f OR PG_WRITE else f);
          f2 = (if prot AND 4 = 0 then f1 OR PG_NX else f1)
      in paddr OR f2)"

definition protect_page :: "int \<Rightarrow> u64 \<Rightarrow> 'fs kernel \<Rightarrow> 'fs kernel option" where
  "protect_page prot p k =
     (let pt = vmm_pt_lookup p (k_mmu k); e = load64 (mem_of k) pt in
      if pt \<noteq> 0 \<and> e AND PG_PRESENT \<noteq> 0 then Some (pte_store pt (prot_entry prot e) k) else Some k)"

partial_function (option) mprotect_loop :: "u64 \<Rightarrow> u64 \<Rightarrow> int \<Rightarrow> nat \<Rightarrow> 'fs kernel \<Rightarrow> (sys_end \<times> 'fs kernel) option" where
  "mprotect_loop addr fin prot i k =
     (if i \<ge> VMA_MAX then Some (Sys_ret 0, k)
      else if outside addr fin (fst (get_vt k) ! i) then mprotect_loop addr fin prot (i + 1) k
      else
        (case vma_cut addr fin i (get_vt k) of (r, (v, n)) \<Rightarrow>
           if r < 0 then Some (sys_int (-1), put_vt (v, n) k)
           else
             do { k2 \<leftarrow> each_page (protect_page prot) (v_start (v ! nat r)) (v_end (v ! nat r))
                         (put_vt (v[nat r := (v ! nat r)\<lparr>v_prot := prot\<rparr>], n) k);
                  mprotect_loop addr fin prot (nat r + 1) (put_vt (vma_try_merge (nat r) (get_vt k2)) k2) }))"

definition sys_mprotect :: "u64 \<Rightarrow> u64 \<Rightarrow> int \<Rightarrow> 'fs kernel \<Rightarrow> (sys_end \<times> 'fs kernel) option" where
  "sys_mprotect addr len prot k = (if len = 0 then Some (Sys_ret 0, k) else mprotect_loop addr (range_end addr len) prot 0 k)"

section \<open>Starting a program\<close>

text \<open>At most 255 bytes of the arguments.\<close>

primrec exec_args :: "(pipe \<Rightarrow> pipe) list \<Rightarrow> nat \<Rightarrow> u64 \<Rightarrow> 'fs kernel \<Rightarrow> (u8 list \<times> 'fs kernel) option" where
  "exec_args ys 0 va k = Some ([], k)"
| "exec_args ys (Suc n) va k =
     do { (b, k1) \<leftarrow> uload ys va k;
          if b = 0 then Some ([], k1)
          else do { (bs, k2) \<leftarrow> exec_args ys n (va + 1) k1; Some (b # bs, k2) } }"

text \<open>
  The loop that reads the file: the address of the buffer in the heap, its capacity and the bytes read so far.
  The bytes of a buffer at address 0, which a failed \<open>kmalloc\<close> gives, are lost: the loop is then undefined.
\<close>

partial_function (option) exec_read ::
  "(pipe \<Rightarrow> pipe) list \<Rightarrow> int \<Rightarrow> u64 \<Rightarrow> u32 \<Rightarrow> u8 list \<Rightarrow> 'fs kernel \<Rightarrow> (u64 \<times> u8 list \<times> 'fs kernel) option" where
  "exec_read ys fd buf cap data k =
     do { ((n, out), k1) \<leftarrow> sys_read ys fd 512 k;
          if n \<le> 0 then Some (buf, data, k1)
          else if of_nat (length data) + (of_int n :: u32) > cap then
            (case k_kmalloc (ucast (2 * cap)) k1 of (np, k2) \<Rightarrow>
               if np = 0 then None
               else exec_read ys fd np (2 * cap) (data @ take (nat n) out) (k_kfree buf k2))
          else exec_read ys fd buf cap (data @ take (nat n) out) k1 }"

definition exec_image :: "'fs sys_env \<Rightarrow> u8 list \<Rightarrow> memory" where
  "exec_image en data = (\<lambda>a. if unat a < length data then data ! unat a else en_heap en a)"

definition sys_exec :: "'fs sys_env \<Rightarrow> u64 \<Rightarrow> u64 \<Rightarrow> 'fs kernel \<Rightarrow> (sys_end \<times> 'fs kernel) option" where
  "sys_exec en arg1 arg2 k =
     do { (args, k1) \<leftarrow> (if arg2 \<noteq> 0 then exec_args (en_pipe en) 255 arg2 k else Some ([], k));
          (path, k2) \<leftarrow> ucstr (en_pipe en) arg1 k1;
          (fd, k3) \<leftarrow> sys_vfs (vfs_open path 0) k2;
          if fd < 0 then Some (sys_int (-1), k3)
          else case k_kmalloc 65536 k3 of (buf0, k4) \<Rightarrow>
            if buf0 = 0 then do { (r, k5) \<leftarrow> sys_vfs (vfs_close fd) k4; Some (sys_int (-1), k5) }
            else
              do { (buf, data, k5) \<leftarrow> exec_read (en_pipe en) fd buf0 65536 [] k4;
                   (r, k6) \<leftarrow> sys_vfs (vfs_close fd) k5;
                   if data = [] then Some (sys_int (-1), k_kfree buf k6)
                   else
                     do { (ret, entry, k7) \<leftarrow> elf64_load (en_pipe en) (exec_image en data) k6;
                          if ret < 0 then Some (sys_int (-1), k_kfree buf k7)
                          else
                            do { k8 \<leftarrow> ustore_bytes (en_pipe en) 0x7F004000 (args @ [0]) (k_kfree buf k7);
                                 Some (if entry = Some 0 then Sys_stop else Sys_user (the entry) 0x7F003000, k8) } } } }"

section \<open>The handler\<close>

text \<open>\<open>struct stat\<close> as it is copied to the caller: mode, six bytes of padding, size.\<close>

definition stat_bytes :: "u8 list \<Rightarrow> stat option \<Rightarrow> u8 list" where
  "stat_bytes stk st = (case st of None \<Rightarrow> stk | Some s \<Rightarrow> blit (blit stk 0 (le_enc 2 (st_mode s))) 8 (le_enc 8 (st_size s)))"

definition sys_fstat :: "'fs sys_env \<Rightarrow> u64 \<Rightarrow> u64 \<Rightarrow> 'fs kernel \<Rightarrow> (sys_end \<times> 'fs kernel) option" where
  "sys_fstat en arg1 arg2 k =
     do { ((ret, st), k1) \<leftarrow> sys_vfs (\<lambda>v. case vfs_fstat (c_int arg1) v of Returns (r, st, v') \<Rightarrow> Returns ((r, st), v') | Blocks \<Rightarrow> Blocks | Undef \<Rightarrow> Undef) k;
          if ret = 0 \<and> arg2 \<noteq> 0
          then do { k2 \<leftarrow> ustore_bytes (en_pipe en) arg2 (stat_bytes (en_stat en) st) k1; Some (sys_int ret, k2) }
          else Some (sys_int ret, k1) }"

definition sys_wait :: "'fs sys_env \<Rightarrow> u64 \<Rightarrow> 'fs kernel \<Rightarrow> (sys_end \<times> 'fs kernel) option" where
  "sys_wait en arg1 k =
     do { (ret, code, k1) \<leftarrow> proc_wait (en_yield en) k;
          if ret > 0 \<and> arg1 \<noteq> 0
          then do { k2 \<leftarrow> ustore_bytes (en_pipe en) arg1 (le_enc 4 (of_int (the code) :: u32)) k1; Some (sys_int ret, k2) }
          else Some (sys_int ret, k1) }"

definition sys_pipe :: "'fs sys_env \<Rightarrow> u64 \<Rightarrow> 'fs kernel \<Rightarrow> (sys_end \<times> 'fs kernel) option" where
  "sys_pipe en arg1 k =
     do { ((ret, fds), k1) \<leftarrow> sys_vfs (\<lambda>v. case vfs_pipe (en_ring en) v of (r, fds, v') \<Rightarrow> Returns ((r, fds), v')) k;
          case fds of
            Some (a, b) \<Rightarrow>
              if ret = 0 \<and> arg1 \<noteq> 0
              then do { k2 \<leftarrow> ustore_bytes (en_pipe en) arg1 (le_enc 4 (of_int a :: u32) @ le_enc 4 (of_int b :: u32)) k1;
                        Some (sys_int ret, k2) }
              else Some (sys_int ret, k1)
          | None \<Rightarrow> Some (sys_int ret, k1) }"

definition sys_yield :: "'fs sys_env \<Rightarrow> 'fs kernel \<Rightarrow> (sys_end \<times> 'fs kernel) option" where
  "sys_yield en k = (case en_yield en of [] \<Rightarrow> None | z # zs \<Rightarrow> Some (Sys_ret 0, z k))"

definition syscall_handler :: "'fs sys_env \<Rightarrow> u64 \<Rightarrow> u64 \<Rightarrow> u64 \<Rightarrow> u64 \<Rightarrow> 'fs kernel \<Rightarrow> (sys_end \<times> 'fs kernel) option" where
  "syscall_handler en num arg1 arg2 arg3 k =
     (if num = SC_PUTS then do { (s, k1) \<leftarrow> ucstr (en_pipe en) arg1 k; Some (Sys_ret 0, serial_puts s k1) }
      else if num = SC_NOP then Some (Sys_ret 0, k)
      else if num = SC_YIELD then sys_yield en k
      else if num = SC_OPEN then
        do { (path, k1) \<leftarrow> ucstr (en_pipe en) arg1 k;
             (fd, k2) \<leftarrow> sys_vfs (vfs_open path (c_int arg2)) k1;
             Some (sys_int fd, k2) }
      else if num = SC_READ then
        do { ((n, out), k1) \<leftarrow> sys_read (en_pipe en) (c_int arg1) (ucast arg3) k;
             k2 \<leftarrow> ustore_bytes (en_pipe en) arg2 out k1;
             Some (sys_int n, k2) }
      else if num = SC_WRITE then
        if fd_bad (c_int arg1) (g_fds (vfs_view k)) then Some (sys_int (-1), k)
        else do { (buf, k1) \<leftarrow> uload_bytes (en_pipe en) (unat (ucast arg3 :: u32)) arg2 k;
             (n, k2) \<leftarrow> sys_vfs (vfs_write (en_pipe en) (c_int arg1) buf (ucast arg3)) k1;
             Some (sys_int n, k2) }
      else if num = SC_CLOSE then do { (r, k1) \<leftarrow> sys_vfs (vfs_close (c_int arg1)) k; Some (sys_int r, k1) }
      else if num = SC_EXEC then sys_exec en arg1 arg2 k
      else if num = SC_EXIT then Some (Sys_stop, proc_exit (c_int arg1) k)
      else if num = SC_FSTAT then sys_fstat en arg1 arg2 k
      else if num = SC_HALT then Some (Sys_stop, k)
      else if num = SC_MEMINFO then
        do { k1 \<leftarrow> ustore_bytes (en_pipe en) arg1 (le_enc 8 (pmm_total_mem (vm_pmm (k_mmu k)))) k;
             k2 \<leftarrow> ustore_bytes (en_pipe en) (arg1 + 8) (le_enc 8 (pmm_free_count (vm_pmm (k_mmu k1)))) k1;
             Some (Sys_ret 0, k2) }
      else if num = SC_FORK then case proc_fork k of (pid, k1) \<Rightarrow> Some (sys_int pid, k1)
      else if num = SC_WAIT then sys_wait en arg1 k
      else if num = SC_GETPID then Some (sys_int (p_pid (cur k)), k)
      else if num = SC_BRK then sys_brk arg1 k
      else if num = SC_MMAP then sys_mmap en arg1 arg2 arg3 k
      else if num = SC_MUNMAP then sys_munmap (en_pipe en) arg1 arg2 k
      else if num = SC_MSYNC then sys_msync (en_pipe en) arg1 arg2 k
      else if num = SC_PIPE then sys_pipe en arg1 k
      else if num = SC_DUP then do { (r, k1) \<leftarrow> sys_vfs (\<lambda>v. Returns (vfs_dup (c_int arg1) v)) k; Some (sys_int r, k1) }
      else if num = SC_DUP2 then do { (r, k1) \<leftarrow> sys_vfs (vfs_dup2 (c_int arg1) (c_int arg2)) k; Some (sys_int r, k1) }
      else if num = SC_MPROTECT then sys_mprotect arg1 arg2 (c_int arg3) k
      else Some (Sys_ret 0, k))"

end
