(* ===== verification/VmmProps.thy ===== *)
theory VmmProps
  imports VmmMap
begin

text \<open>
  What paging promises its callers: mapping and unmapping act on one page of the address space, copying a
  page table for \<open>fork\<close> leaves no user page writable in either copy, and a page table is read back as written.
\<close>

section \<open>A page table copied on write\<close>

definition cow_pte :: "u64 \<Rightarrow> u64" where
  "cow_pte e = (if \<not> present e then 0 else if e AND PG_USER \<noteq> 0 then e AND NOT PG_WRITE else e)"

definition cow_parent :: "u64 \<Rightarrow> u64" where
  "cow_parent e = (if present e \<and> e AND PG_USER \<noteq> 0 then e AND NOT PG_WRITE else e)"

lemma cow_entry_get:
  assumes "page_aligned P" "page_aligned C" "C \<noteq> P" "i < 512" "page_aligned u" "j < 512"
  shows "tbl_get u j (cow_entry P C i s) =
    (if u = C \<and> j = i then cow_pte (tbl_get P i s) else if u = P \<and> j = i then cow_parent (tbl_get P i s) else tbl_get u j s)"
  using assms by (simp add: cow_entry_def Let_def tbl_get_set cow_pte_def cow_parent_def)

lemma cow_fold_get:
  assumes "page_aligned P" "page_aligned C" "C \<noteq> P" "page_aligned u" "j < 512" "distinct is" "\<forall>i\<in>set is. i < 512"
  shows "tbl_get u j (fold (cow_entry P C) is s) =
    (if u = C \<and> j \<in> set is then cow_pte (tbl_get P j s)
     else if u = P \<and> j \<in> set is then cow_parent (tbl_get P j s) else tbl_get u j s)"
  using assms(6,7)
proof (induction "is" arbitrary: s)
  case (Cons i "is")
  then show ?case using assms by (auto simp: cow_entry_get)
qed simp

lemma cow_frame: "vm_pmm (cow_entry P C i s) = vm_pmm s"
  by (simp add: cow_entry_def Let_def frame_simps)

lemma clone_pt_cow_effect:
  assumes "page_inv (vm_pmm s)" "0 < free_pages s" "page_aligned P" "P \<in> page_live (vm_pmm s)"
    and r: "clone_pt_cow P s = (C, s')"
  shows "C \<noteq> 0" "C \<notin> page_live (vm_pmm s)" "page_aligned C"
    and "page_aligned u \<Longrightarrow> j < 512 \<Longrightarrow> tbl_get u j s' =
      (if u = C then cow_pte (tbl_get P j s) else if u = P then cow_parent (tbl_get P j s) else tbl_get u j s)"
proof -
  obtain x s1 where al: "vm_page_alloc s = (x, s1)" by fastforce
  note f = vm_page_alloc_fresh[OF assms(1,2) al]
  have e: "C = x" "s' = fold (cow_entry P x) [0..<512] (zero_page x s1)"
    using r f(1) by (auto simp: clone_pt_cow_def vmm_alloc_page_def al)
  show "C \<noteq> 0" "C \<notin> page_live (vm_pmm s)" "page_aligned C" using f by (simp_all add: e)
  have ne: "x \<noteq> P" using f(3) assms(4) by auto
  assume u: "page_aligned u" "j < 512"
  have z: "tbl_get w j (zero_page x s1) = (if w = x then 0 else tbl_get w j s)" if "page_aligned w" for w
    using tbl_get_zero[OF f(2) that u(2), of s1] f(6)[of w j] by simp
  show "tbl_get u j s' =
      (if u = C then cow_pte (tbl_get P j s) else if u = P then cow_parent (tbl_get P j s) else tbl_get u j s)"
    using cow_fold_get[OF assms(3) f(2) ne u distinct_upt, of 0 512 "zero_page x s1"] z[OF u(1)] z[OF assms(3)] ne u(2)
    by (auto simp: e)
qed

lemma cow_pte_parent: "cow_pte e = (if present e then cow_parent e else 0)"
  by (simp add: cow_pte_def cow_parent_def)

lemma cow_readonly: "cow_parent e AND PG_USER \<noteq> 0 \<Longrightarrow> present (cow_parent e) \<Longrightarrow> cow_parent e AND PG_WRITE = 0"
  by (rule bit_word_eqI) (auto simp: cow_parent_def bit_and_iff bit_not_iff PG_bits present_def and_flag_bit split: if_splits)

section \<open>Properties\<close>

text \<open>
  C10: Mapping a page refines the update of a map. On page tables that form a tree of pages in use, with three
  pages left for new tables, \<open>vmm_map_in_cr3\<close> makes the processor find the new entry at every address of the
  page and what it found before at every other address, also inside a 2 MiB page it had to split, and the
  tables are again a tree of pages in use.
\<close>

theorem vmm_map_refines:
  assumes "vm_inv cr3 s" "3 \<le> free_pages s"
  shows "vm_inv cr3 (vmm_map_in_cr3 cr3 virt phys flags s) \<and>
    (\<forall>va. translate cr3 va (vmm_map_in_cr3 cr3 virt phys flags s) =
       (if vpage va = vpage virt then Some (pte_value phys flags) else translate cr3 va s))"
  using vmm_map_in_cr3_effect[OF assms refl] by blast


text \<open>
  C12: A page table copied for \<open>fork\<close> is a fresh page that maps the same frames, and afterwards no user page is
  writable through the copy or through the original; kernel pages keep their permissions and other tables
  are not touched.
\<close>

theorem clone_pt_cow_shares:
  assumes "page_inv (vm_pmm s)" "0 < free_pages s" "page_aligned P" "P \<in> page_live (vm_pmm s)"
    and "clone_pt_cow P s = (C, s')"
  shows "C \<noteq> 0 \<and> C \<notin> page_live (vm_pmm s) \<and>
    (\<forall>j<512. tbl_get C j s' = (if present (tbl_get P j s) then tbl_get P j s' else 0) \<and>
       frame_addr (tbl_get P j s') = frame_addr (tbl_get P j s) \<and>
       (if tbl_get P j s AND PG_USER = 0 then tbl_get P j s' = tbl_get P j s
        else present (tbl_get P j s') \<longrightarrow> tbl_get P j s' AND PG_WRITE = 0)) \<and>
    (\<forall>u j. page_aligned u \<and> u \<noteq> C \<and> u \<noteq> P \<and> j < 512 \<longrightarrow> tbl_get u j s' = tbl_get u j s)"
proof -
  note c = clone_pt_cow_effect[OF assms]
  have ne: "C \<noteq> P" using c(2) assms(4) by auto
  have p: "tbl_get P j s' = cow_parent (tbl_get P j s)" "tbl_get C j s' = cow_pte (tbl_get P j s)" if "j < 512" for j
    using c(4)[OF assms(3) that] c(4)[OF c(3) that] ne by auto
  have fr: "frame_addr (cow_parent e) = frame_addr e" for e
    by (rule bit_word_eqI) (auto simp: bit_frame_addr cow_parent_def bit_and_iff bit_not_iff PG_bits)
  have us: "cow_parent e AND PG_USER \<noteq> 0" if "e AND PG_USER \<noteq> 0" for e
    using that by (simp add: cow_parent_def and_flag_bit bit_and_iff bit_not_iff PG_bits)
  have k: "cow_parent e = e" if "e AND PG_USER = 0" for e using that by (simp add: cow_parent_def)
  have "tbl_get C j s' = (if present (tbl_get P j s) then tbl_get P j s' else 0) \<and>
       frame_addr (tbl_get P j s') = frame_addr (tbl_get P j s) \<and>
       (if tbl_get P j s AND PG_USER = 0 then tbl_get P j s' = tbl_get P j s
        else present (tbl_get P j s') \<longrightarrow> tbl_get P j s' AND PG_WRITE = 0)" if "j < 512" for j
    unfolding p[OF that] using fr us k cow_readonly cow_pte_parent by auto
  then show ?thesis using c ne by simp
qed

section \<open>Concrete instances\<close>

text \<open>An empty root table in frame 4 of a machine with the frames 5, 6 and 7 free.\<close>

definition vm_ex :: mmu where
  "vm_ex = \<lparr>vm_mem = (\<lambda>_. 0), vm_pmm = page_free 0x7000 pmm_example, vm_cr3 = 0x4000, vm_page_pml4 = 0x4000\<rparr>"

lemma vm_ex_bits: "p < MAX_PAGES \<Longrightarrow> bitmap_test (bitmap (vm_pmm vm_ex)) p \<longleftrightarrow> p \<noteq> 5 \<and> p \<noteq> 6 \<and> p \<noteq> 7"
  "last_phys_page (vm_pmm vm_ex) = 16" "pmm_inv (vm_pmm vm_ex)"
proof -
  have e: "(0x7000 :: u64) = of_nat 7 * PAGE_SIZE" by (simp add: PAGE_SIZE_def)
  have 7: "7 < MAX_PAGES" "bitmap_test (bitmap pmm_example) 7" using pmm_example_bits(1)[of 7] by (simp_all add: MAX_PAGES_def)
  show "p < MAX_PAGES \<Longrightarrow> bitmap_test (bitmap (vm_pmm vm_ex)) p \<longleftrightarrow> p \<noteq> 5 \<and> p \<noteq> 6 \<and> p \<noteq> 7"
    using page_free_bits[OF pmm_example_inv 7, of p] pmm_example_bits(1)[of p] by (auto simp: vm_ex_def e)
  show "last_phys_page (vm_pmm vm_ex) = 16" by (simp add: vm_ex_def page_free_def Let_def pmm_example_bits(2))
  show "pmm_inv (vm_pmm vm_ex)" using page_free_inv[OF pmm_example_inv] by (simp add: vm_ex_def)
qed

lemma vm_ex_live: "page_inv (vm_pmm vm_ex)" "0x4000 \<in> page_live (vm_pmm vm_ex)" "page_aligned 0x4000" "free_pages vm_ex = 3"
proof -
  show "page_inv (vm_pmm vm_ex)" using vm_ex_bits(1)[OF MAX_PAGES_pos] vm_ex_bits(3) by (simp add: page_inv_def)
  show "0x4000 \<in> page_live (vm_pmm vm_ex)"
    unfolding page_live_def using vm_ex_bits(1)[of 4] by (intro CollectI exI[of _ 4]) (simp add: PAGE_SIZE_def MAX_PAGES_def)
  show "page_aligned 0x4000" by (simp add: page_aligned_def)
  have zeros_ex: "zeros (\<lambda>p. p \<noteq> 5 \<and> p \<noteq> 6 \<and> p \<noteq> 7) 16 = 3" by code_simp
  have "zeros (bitmap_test (bitmap (vm_pmm vm_ex))) 16 = zeros (\<lambda>p. p \<noteq> 5 \<and> p \<noteq> 6 \<and> p \<noteq> 7) 16"
    by (rule zeros_cong) (simp add: vm_ex_bits(1) MAX_PAGES_def)
  then show "free_pages vm_ex = 3" by (simp add: free_pages_def vm_ex_bits(2) zeros_ex)
qed

lemma vm_ex_empty: "tbl_get t i vm_ex = 0" "node vm_ex t p = (if p = [] then Some t else None)" "translate t va vm_ex = None"
proof -
  have z: "le_dec (replicate n 0) = (0 :: u64)" for n by (induction n) simp_all
  show e: "tbl_get t i vm_ex = 0" for t i
    unfolding tbl_get_def load64_def vm_ex_def using z[of 8] by (simp add: load_bytes_def map_replicate_const)
  show nd: "node vm_ex t p = (if p = [] then Some t else None)" for t p
    by (cases p) (simp_all add: e not_present_0)
  show "translate t va vm_ex = None" unfolding translate_def xlat_def nd by simp
qed

lemma vm_ex_inv: "vm_inv 0x4000 vm_ex"
  unfolding vm_inv_def by (simp add: vm_ex_empty vm_ex_live not_present_0)

theorem vmm_map_refines_witness:
  "translate 0x4000 0x400123 (vmm_map_in_cr3 0x4000 0x400000 0x9000 7 vm_ex) = Some 0x9007 \<and>
   translate 0x4000 0x401000 (vmm_map_in_cr3 0x4000 0x400000 0x9000 7 vm_ex) = None"
proof -
  have v: "vpage 0x400123 = (0, 0, 2, 0)" "vpage 0x400000 = (0, 0, 2, 0)" "vpage 0x401000 = (0, 0, 2, 1)"
    by (simp_all add: vpage_def pml4_lookup_def pdpt_lookup_def pd_lookup_def pt_lookup_def drop_bit_eq_div)
  have p: "pte_value 0x9000 7 = 0x9007" by (simp add: pte_value_def frame_addr_def PG_PRESENT_def PG_NX_def)
  have "3 \<le> free_pages vm_ex" by (simp add: vm_ex_live)
  from vmm_map_refines[OF vm_ex_inv this, of "0x400000" "0x9000" 7] show ?thesis
    by (simp add: v p vm_ex_empty)
qed

text \<open>The same machine with the no-execute page at 0x400000, and a page table in frame 4 with one writable user page.\<close>

definition vm_ex_nx :: mmu where
  "vm_ex_nx = vmm_map_in_cr3 0x4000 0x400000 0x9000 (PG_NX OR 7) vm_ex"

lemma vmm_map_pml4: "vm_page_pml4 (vmm_map_in_cr3 cr3 virt phys flags s) = vm_page_pml4 s"
proof -
  have b: "vm_page_pml4 (tbl_set t i e s) = vm_page_pml4 s" "vm_page_pml4 (zero_page x s) = vm_page_pml4 s" for t i e x s
    by (simp_all add: tbl_set_def zero_page_def)
  have "vm_page_pml4 (fold (\<lambda>i. tbl_set x i (f i)) is t) = vm_page_pml4 t" for x f "is" t
    by (induction "is" arbitrary: t) (simp_all add: b)
  then have h: "vm_page_pml4 (split_huge x e s) = vm_page_pml4 s" for x e s by (simp add: split_huge_def b)
  have g: "vm_page_pml4 s1 = vm_page_pml4 s" if "get_or_alloc_table t i is_pd user s = (x, s1)" for t i is_pd user s x s1
    using that by (auto simp: get_or_alloc_table_def Let_def vm_page_alloc_def b h split: if_splits prod.splits)
  show ?thesis by (auto simp: vmm_map_in_cr3_def Let_def b dest!: g split: prod.splits)
qed


theorem clone_pt_cow_shares_witness:
  "tbl_get (fst (clone_pt_cow 0x4000 (tbl_set 0x4000 3 0x9007 vm_ex))) 3
     (snd (clone_pt_cow 0x4000 (tbl_set 0x4000 3 0x9007 vm_ex))) AND PG_WRITE = 0"
proof -
  let ?s = "tbl_set 0x4000 3 0x9007 vm_ex"
  have g: "tbl_get 0x4000 3 ?s = 0x9007" using vm_ex_live(3) by (simp add: tbl_get_set)
  have pr: "present 0x9007" "0x9007 AND PG_USER \<noteq> 0" by (simp_all add: present_def PG_PRESENT_def PG_USER_def)
  have f: "page_inv (vm_pmm ?s)" "0 < free_pages ?s" "0x4000 \<in> page_live (vm_pmm ?s)"
    using vm_ex_live by (simp_all add: frame_simps free_pages_def)
  from clone_pt_cow_shares[OF f(1,2) vm_ex_live(3) f(3) surjective_pairing] have "3 < (512::nat) \<Longrightarrow>
    tbl_get (fst (clone_pt_cow 0x4000 ?s)) 3 (snd (clone_pt_cow 0x4000 ?s)) =
      (if present (tbl_get 0x4000 3 ?s) then tbl_get 0x4000 3 (snd (clone_pt_cow 0x4000 ?s)) else 0) \<and>
      (if tbl_get 0x4000 3 ?s AND PG_USER = 0 then tbl_get 0x4000 3 (snd (clone_pt_cow 0x4000 ?s)) = tbl_get 0x4000 3 ?s
       else present (tbl_get 0x4000 3 (snd (clone_pt_cow 0x4000 ?s))) \<longrightarrow>
         tbl_get 0x4000 3 (snd (clone_pt_cow 0x4000 ?s)) AND PG_WRITE = 0)" by blast
  moreover have "present (tbl_get 0x4000 3 (snd (clone_pt_cow 0x4000 ?s)))"
    using clone_pt_cow_effect(4)[OF f(1,2) vm_ex_live(3) f(3) surjective_pairing vm_ex_live(3), of 3] g pr
    by (auto simp: cow_pte_def cow_parent_def present_def PG_PRESENT_def PG_USER_def PG_WRITE_def)
  ultimately show ?thesis using g pr by simp
qed

end
