(* ===== verification/RoundRobin.thy ===== *)
theory RoundRobin
  imports Prelude
begin

text \<open>
  The interface of a cyclic scheduler, as the timer interrupt of \<open>src/kernel/sched/sched.c\<close> implements it: every
  step moves a position forward, cyclically, to the first ready slot. The locale proves once that a slot that
  stays ready is reached within one round.
\<close>

primrec run_steps :: "('f \<Rightarrow> 's \<Rightarrow> 's) \<Rightarrow> 'f list \<Rightarrow> 's \<Rightarrow> 's" where
  "run_steps step [] s = s"
| "run_steps step (f # fs) s = run_steps step fs (step f s)"

locale round_robin =
  fixes n :: nat
    and pos :: "'s \<Rightarrow> nat"
    and ready :: "'s \<Rightarrow> nat \<Rightarrow> bool"
    and step :: "'f \<Rightarrow> 's \<Rightarrow> 's"
    and inv :: "'s \<Rightarrow> bool"
  assumes pos_lt: "inv s \<Longrightarrow> pos s < n"
    and step_inv: "inv s \<Longrightarrow> inv (step f s)"
    and step_ready: "inv s \<Longrightarrow> ready (step f s) j = ready s j"
    and step_next: "inv s \<Longrightarrow> 0 < d \<Longrightarrow> ready s ((pos s + d) mod n) \<Longrightarrow>
      \<exists>e. 0 < e \<and> e \<le> d \<and> pos (step f s) = (pos s + e) mod n"
begin

lemma run_inv: "inv s \<Longrightarrow> inv (run_steps step fs s)"
  by (induction fs arbitrary: s) (simp_all add: step_inv)

lemma run_ready: "inv s \<Longrightarrow> ready (run_steps step fs s) j = ready s j"
  by (induction fs arbitrary: s) (simp_all add: step_inv step_ready)

lemma reached:
  "inv s \<Longrightarrow> ready s j \<Longrightarrow> 0 < d \<Longrightarrow> (pos s + d) mod n = j \<Longrightarrow> d \<le> length fs \<Longrightarrow>
   \<exists>m. 0 < m \<and> m \<le> d \<and> pos (run_steps step (take m fs) s) = j"
proof (induction d arbitrary: s fs rule: less_induct)
  case (less d)
  obtain f fs' where fs: "fs = f # fs'" using less.prems(3,5) by (cases fs) auto
  obtain e where e: "0 < e" "e \<le> d" "pos (step f s) = (pos s + e) mod n"
    using step_next[OF less.prems(1,3)] less.prems(2,4) by blast
  show ?case
  proof (cases "e = d")
    case True
    then show ?thesis using e less.prems(3,4) by (intro exI[of _ 1]) (simp add: fs)
  next
    case False
    have "((pos s + e) mod n + (d - e)) mod n = (pos s + e + (d - e)) mod n" by (rule mod_add_left_eq)
    then have "(pos (step f s) + (d - e)) mod n = j" using less.prems(4) e by simp
    moreover have "d - e < d" "0 < d - e" "d - e \<le> length fs'" using e False less.prems(5) by (auto simp: fs)
    moreover have "inv (step f s)" "ready (step f s) j" using less.prems(1,2) step_inv step_ready by simp_all
    ultimately obtain m where m: "0 < m" "m \<le> d - e" "pos (run_steps step (take m fs') (step f s)) = j"
      using less.IH[of "d - e" "step f s" fs'] by blast
    then show ?thesis using e by (intro exI[of _ "Suc m"]) (auto simp: fs)
  qed
qed

lemma fair:
  assumes "inv s" "j < n" "ready s j" "length fs = n"
  shows "\<exists>m. 0 < m \<and> m \<le> n \<and> pos (run_steps step (take m fs) s) = j"
proof -
  define d where "d = (if pos s < j then j - pos s else j + n - pos s)"
  have d: "0 < d" "d \<le> n" "(pos s + d) mod n = j" using pos_lt[OF assms(1)] assms(2) by (auto simp: d_def)
  obtain m where "0 < m" "m \<le> d" "pos (run_steps step (take m fs) s) = j"
    using reached[OF assms(1,3) d(1,3)] d(2) assms(4) by auto
  then show ?thesis using d(2) by auto
qed

end

end
