(* ===== verification/ProcessProps.thy ===== *)
theory ProcessProps
  imports Process VmmMap RoundRobin
begin

text \<open>
  What the process table and the scheduler promise: process numbers are positive, unique and never run out,
  the table stays well formed, every runnable process is chosen within one round, and \<open>wait\<close> takes exactly
  one dead child.
\<close>

section \<open>The invariant\<close>

definition proc_ok :: "'fs process \<Rightarrow> bool" where
  "proc_ok p \<longleftrightarrow> length (p_vmas p) = VMA_MAX \<and> length (p_fds p) = VFS_MAX_FILES \<and>
     (p_used p \<longrightarrow> 0 < p_pid p \<and> (p_state p = PROC_READY \<or> p_state p = PROC_ZOMBIE))"

definition pids_unique :: "'fs process list \<Rightarrow> bool" where
  "pids_unique ps \<longleftrightarrow> (\<forall>i<length ps. \<forall>j<length ps. p_used (ps ! i) \<and> p_used (ps ! j) \<and> p_pid (ps ! i) = p_pid (ps ! j) \<longrightarrow> i = j)"

definition proc_inv :: "'fs kernel \<Rightarrow> bool" where
  "proc_inv k \<longleftrightarrow> length (procs k) = MAX_PROCS \<and> current_idx k < MAX_PROCS \<and> 0 < sint (next_pid k) \<and>
     (\<forall>p\<in>set (procs k). proc_ok p) \<and> pids_unique (procs k) \<and>
     nr_procs k = int (length (filter p_used (procs k)))"

lemma proc_invD:
  assumes "proc_inv k"
  shows "length (procs k) = MAX_PROCS" "current_idx k < MAX_PROCS" "0 < sint (next_pid k)" "pids_unique (procs k)"
    and "i < MAX_PROCS \<Longrightarrow> proc_ok (procs k ! i)"
  using assms by (auto simp: proc_inv_def)

section \<open>Process numbers\<close>

definition pid_succ :: "u32 \<Rightarrow> u32" where
  "pid_succ n = (if sint (n + 1) \<le> 0 then 1 else n + 1)"

lemma sint_pid_succ: "0 < sint n \<Longrightarrow> sint (pid_succ n) = sint n mod (2 ^ 31 - 1) + 1"
proof -
  assume n: "0 < sint n"
  have lt: "sint n < 2 ^ 31" using sint_lt[of n] by simp
  show ?thesis
  proof (cases "sint n = 2 ^ 31 - 1")
    case True
    then have "n = word_of_int (2 ^ 31 - 1)" by (intro signed_word_eqI) simp
    then show ?thesis by (simp add: pid_succ_def)
  next
    case False
    then have "sint (n + 1) = sint n + 1"
      using n lt by (simp add: sint_word_ariths signed_take_bit_int_eq_self)
    then show ?thesis using n lt False by (simp add: pid_succ_def)
  qed
qed

lemma sint_pid_iter: "0 < sint n \<Longrightarrow> sint ((pid_succ ^^ j) n) = (sint n - 1 + int j) mod (2 ^ 31 - 1) + 1"
proof (induction j)
  case 0
  then show ?case using sint_lt[of n] by simp
next
  case (Suc j)
  then have "0 < sint ((pid_succ ^^ j) n)" by simp
  from sint_pid_succ[OF this] Suc
  have "sint ((pid_succ ^^ Suc j) n) = ((sint n - 1 + int j) mod (2 ^ 31 - 1) + 1) mod (2 ^ 31 - 1) + 1" by simp
  also have "\<dots> = (sint n - 1 + int (Suc j)) mod (2 ^ 31 - 1) + 1" by (simp only: mod_add_left_eq) (simp add: algebra_simps)
  finally show ?case .
qed

lemma pid_iter_pos: "0 < sint n \<Longrightarrow> 0 < sint ((pid_succ ^^ j) n)"
  by (simp add: sint_pid_iter)

lemma pid_iter_inj:
  assumes "0 < sint n"
  shows "inj_on (\<lambda>j. sint ((pid_succ ^^ j) n)) {0..<65}"
proof (rule inj_onI)
  fix i j assume ij: "i \<in> {0..<65::nat}" "j \<in> {0..<65}" and e: "sint ((pid_succ ^^ i) n) = sint ((pid_succ ^^ j) n)"
  then have "(sint n - 1 + int i) mod (2 ^ 31 - 1) = (sint n - 1 + int j) mod (2 ^ 31 - 1)"
    using assms by (simp add: sint_pid_iter)
  then have "(2 ^ 31 - 1) dvd (int i - int j)" by (simp add: mod_eq_dvd_iff)
  then obtain q where q: "int i - int j = 2147483647 * q" by (auto elim: dvdE)
  have "-65 < int i - int j" "int i - int j < 65" using ij by auto
  then have "q < 1" "-1 < q" using q by linarith+
  then show "i = j" using q by simp
qed

lemma pid_taken_iff: "pid_taken pid k \<longleftrightarrow> (\<exists>i<MAX_PROCS. p_used (procs k ! i) \<and> p_pid (procs k ! i) = pid)"
  by (auto simp: pid_taken_def list_ex_iff)

lemma pid_taken_next [simp]: "pid_taken pid (k\<lparr>next_pid := n\<rparr>) = pid_taken pid k"
  by (simp add: pid_taken_def)

text \<open>At most 64 numbers are taken, so one of 65 successive candidates is free.\<close>

lemma pid_free_candidate:
  assumes "0 < sint n"
  shows "\<exists>j<65. \<not> pid_taken (sint ((pid_succ ^^ j) n)) k"
proof (rule ccontr)
  let ?f = "\<lambda>j. sint ((pid_succ ^^ j) n)"
  assume "\<not> ?thesis"
  then have t: "\<exists>i<64. p_pid (procs k ! i) = ?f j" if "j < 65" for j using that by (auto simp: pid_taken_iff MAX_PROCS_def)
  have "?f ` {0..<65} \<subseteq> (\<lambda>i. p_pid (procs k ! i)) ` {0..<64}" using t by (auto simp: image_iff) (metis atLeastLessThan_iff zero_le)
  then have "card (?f ` {0..<65}) \<le> card ((\<lambda>i. p_pid (procs k ! i)) ` {0..<64})" by (intro card_mono) auto
  also have "\<dots> \<le> 64" by (metis card_atLeastLessThan card_image_le diff_zero finite_atLeastLessThan)
  finally show False using card_image[OF pid_iter_inj[OF assms]] by simp
qed

lemma pid_try_found:
  "j < m \<Longrightarrow> \<not> pid_taken (sint ((pid_succ ^^ j) (next_pid k))) k \<Longrightarrow> pid_try m k = (pid, k') \<Longrightarrow>
    \<not> pid_taken pid k \<and> (\<exists>i. pid = sint ((pid_succ ^^ i) (next_pid k)) \<and> k' = k\<lparr>next_pid := (pid_succ ^^ Suc i) (next_pid k)\<rparr>)"
proof (induction m arbitrary: j k)
  case (Suc m)
  let ?k = "k\<lparr>next_pid := pid_succ (next_pid k)\<rparr>"
  have e: "pid_try (Suc m) k = (if pid_taken (sint (next_pid k)) k then pid_try m ?k else (sint (next_pid k), ?k))"
    by (simp add: Let_def pid_succ_def)
  show ?case
  proof (cases "pid_taken (sint (next_pid k)) k")
    case True
    then obtain i where j: "j = Suc i" using Suc.prems(2) by (cases j) auto
    have "\<not> pid_taken pid ?k \<and> (\<exists>i. pid = sint ((pid_succ ^^ i) (next_pid ?k)) \<and> k' = ?k\<lparr>next_pid := (pid_succ ^^ Suc i) (next_pid ?k)\<rparr>)"
      using Suc.IH[of i ?k] Suc.prems True e j by (simp add: funpow_swap1)
    then obtain i' where "\<not> pid_taken pid k" "pid = sint ((pid_succ ^^ Suc i') (next_pid k))"
      "k' = k\<lparr>next_pid := (pid_succ ^^ Suc (Suc i')) (next_pid k)\<rparr>" by (auto simp: funpow_swap1)
    then show ?thesis by blast
  next
    case False
    then show ?thesis using Suc.prems(3) e by (auto intro: exI[of _ 0])
  qed
qed simp

lemma pid_alloc_fresh:
  assumes "0 < sint (next_pid k)" "pid_alloc k = (pid, k')"
  shows "0 < pid" "\<not> pid_taken pid k" "\<exists>n. k' = k\<lparr>next_pid := n\<rparr> \<and> 0 < sint n"
proof -
  obtain j where "j < 65" "\<not> pid_taken (sint ((pid_succ ^^ j) (next_pid k))) k" using pid_free_candidate[OF assms(1)] by blast
  from pid_try_found[of j 65536 k pid k', OF _ this(2)] this(1) assms(2)
  obtain i where i: "\<not> pid_taken pid k" "pid = sint ((pid_succ ^^ i) (next_pid k))"
    "k' = k\<lparr>next_pid := (pid_succ ^^ Suc i) (next_pid k)\<rparr>" by (auto simp: pid_alloc_def)
  then show "0 < pid" "\<not> pid_taken pid k" using pid_iter_pos[OF assms(1)] by simp_all
  show "\<exists>n. k' = k\<lparr>next_pid := n\<rparr> \<and> 0 < sint n" using i(3) pid_iter_pos[OF assms(1)] by blast
qed

section \<open>Changes of one slot\<close>

lemma filter_update_length:
  "i < length xs \<Longrightarrow> length (filter P (xs[i := x])) + (if P (xs ! i) then 1 else 0) = length (filter P xs) + (if P x then 1 else 0)"
proof (induction xs arbitrary: i)
  case (Cons y xs)
  then show ?case by (cases i) (auto split: if_splits)
qed simp

lemma proc_inv_frame [simp]:
  "proc_inv (k\<lparr>k_mmu := m\<rparr>) = proc_inv k" "proc_inv (k\<lparr>k_fds := f\<rparr>) = proc_inv k" "proc_inv (k\<lparr>k_vfs := v\<rparr>) = proc_inv k"
  "proc_inv (set_kernel_stack x k) = proc_inv k" "proc_inv (set_cr3_of q k) = proc_inv k"
  "proc_inv (k\<lparr>syscall_kernel_rsp := x\<rparr>) = proc_inv k"
  by (simp_all add: proc_inv_def set_kernel_stack_def set_cr3_of_def)

lemma proc_inv_next: "proc_inv k \<Longrightarrow> 0 < sint n \<Longrightarrow> proc_inv (k\<lparr>next_pid := n\<rparr>)"
  by (simp add: proc_inv_def)

lemma proc_inv_current: "proc_inv k \<Longrightarrow> c < MAX_PROCS \<Longrightarrow> proc_inv (k\<lparr>current_idx := c\<rparr>)"
  by (simp add: proc_inv_def)

lemma put_proc_ok:
  assumes "proc_inv k" "proc_ok p"
  shows "\<forall>q\<in>set (procs (put_proc i p k)). proc_ok q"
  using assms by (auto simp: put_proc_def proc_inv_def dest!: set_update_subset_insert[THEN subsetD])

lemma pids_unique_update:
  assumes u: "pids_unique ps" and i: "i < length ps"
    and n: "\<And>j. j < length ps \<Longrightarrow> j \<noteq> i \<Longrightarrow> p_used p \<Longrightarrow> p_used (ps ! j) \<Longrightarrow> p_pid (ps ! j) \<noteq> p_pid p"
  shows "pids_unique (ps[i := p])"
  unfolding pids_unique_def
proof (intro allI impI)
  fix a b assume "a < length (ps[i := p])" "b < length (ps[i := p])"
    and ab: "p_used (ps[i := p] ! a) \<and> p_used (ps[i := p] ! b) \<and> p_pid (ps[i := p] ! a) = p_pid (ps[i := p] ! b)"
  then have l: "a < length ps" "b < length ps" by simp_all
  show "a = b"
  proof (cases "a = i \<or> b = i")
    case True
    then show ?thesis using ab l i n[of a] n[of b] by (cases "a = b") auto
  next
    case False
    then have "p_used (ps ! a)" "p_used (ps ! b)" "p_pid (ps ! a) = p_pid (ps ! b)" using ab by auto
    then show ?thesis using u l unfolding pids_unique_def by blast
  qed
qed

lemma keep_slot_inv:
  assumes "proc_inv k" "i < MAX_PROCS" "proc_ok p" "p_used p = p_used (procs k ! i)" "p_pid p = p_pid (procs k ! i)"
  shows "proc_inv (put_proc i p k)"
proof -
  have "pids_unique (procs (put_proc i p k))"
  proof -
    note u = proc_invD(1,4)[OF assms(1)]
    have "p_pid (procs k ! j) \<noteq> p_pid p" if "j < length (procs k)" "j \<noteq> i" "p_used p" "p_used (procs k ! j)" for j
      using that u assms(2,4,5) unfolding pids_unique_def by metis
    then show ?thesis using pids_unique_update[of "procs k" i p] u assms(2) by (simp add: put_proc_def)
  qed
  moreover have "length (filter p_used ((procs k)[i := p])) = length (filter p_used (procs k))"
    using filter_update_length[of i "procs k" p_used p] assms(2,4) proc_invD(1)[OF assms(1)] by (simp split: if_splits)
  ultimately show ?thesis
    using assms(1) put_proc_ok[OF assms(1,3), of i] by (simp add: proc_inv_def) (simp add: put_proc_def)
qed

lemma fill_slot_inv:
  assumes "proc_inv k" "i < MAX_PROCS" "proc_ok p" "\<not> p_used (procs k ! i)" "p_used p" "\<not> pid_taken (p_pid p) k"
  shows "proc_inv ((put_proc i p k)\<lparr>nr_procs := nr_procs k + 1\<rparr>)"
proof -
  have "pids_unique (procs (put_proc i p k))"
    unfolding put_proc_def using proc_invD(1,4)[OF assms(1)] assms(2,6) by (simp add: pids_unique_update pid_taken_iff)
  moreover have "length (filter p_used ((procs k)[i := p])) = Suc (length (filter p_used (procs k)))"
    using filter_update_length[of i "procs k" p_used p] assms(2,4,5) proc_invD(1)[OF assms(1)] by (simp split: if_splits)
  ultimately show ?thesis
    using assms(1) put_proc_ok[OF assms(1,3), of i] by (simp add: proc_inv_def) (simp add: put_proc_def)
qed

lemma reap_inv:
  assumes "proc_inv k" "i < MAX_PROCS" "p_used (procs k ! i)"
  shows "proc_inv (reap i k)"
proof -
  let ?p = "(procs k ! i)\<lparr>p_used := False\<rparr>"
  have ok: "proc_ok ?p" using proc_invD(5)[OF assms(1,2)] by (simp add: proc_ok_def)
  have "pids_unique (procs (put_proc i ?p k))"
    using pids_unique_update[of "procs k" i ?p] proc_invD(1,4)[OF assms(1)] assms(2) by (simp add: put_proc_def)
  moreover have "Suc (length (filter p_used ((procs k)[i := ?p]))) = length (filter p_used (procs k))"
    using filter_update_length[of i "procs k" p_used ?p] assms(2,3) proc_invD(1)[OF assms(1)] by simp
  ultimately show ?thesis
    using assms(1) put_proc_ok[OF assms(1) ok, of i] by (simp add: proc_inv_def reap_def) (simp add: put_proc_def)
qed

lemma slot_alloc_free:
  assumes "slot_alloc k \<ge> 0"
  shows "nat (slot_alloc k) < MAX_PROCS" "\<not> p_used (procs k ! nat (slot_alloc k))"
proof -
  from assms obtain i where "find (\<lambda>i. \<not> p_used (procs k ! i)) [0..<MAX_PROCS] = Some i" "slot_alloc k = int i"
    by (auto simp: slot_alloc_def split: option.splits)
  then show "nat (slot_alloc k) < MAX_PROCS" "\<not> p_used (procs k ! nat (slot_alloc k))" by (auto simp: find_upt_Some)
qed

section \<open>Every operation keeps the invariant\<close>

lemma sched_init_inv:
  assumes "length (procs k) = MAX_PROCS" "\<forall>p\<in>set (procs k). length (p_vmas p) = VMA_MAX \<and> length (p_fds p) = VFS_MAX_FILES"
  shows "proc_inv (sched_init k)"
proof -
  have "filter p_used (map (\<lambda>p. p\<lparr>p_used := False\<rparr>) (procs k)) = []" by (simp add: filter_empty_conv)
  then show ?thesis
    using assms by (auto simp: sched_init_def proc_inv_def proc_ok_def pids_unique_def MAX_PROCS_def)
qed

lemma proc_create_inv:
  assumes "proc_inv k" "proc_create entry rsp cr3 kstack k = (r, k')"
  shows "proc_inv k'"
proof -
  obtain pid k1 where pa: "pid_alloc k = (pid, k1)" by fastforce
  note fr = pid_alloc_fresh[OF proc_invD(3)[OF assms(1)] pa]
  then obtain n where k1: "k1 = k\<lparr>next_pid := n\<rparr>" "0 < sint n" by blast
  have inv1: "proc_inv k1" using proc_inv_next[OF assms(1) k1(2)] by (simp add: k1)
  show ?thesis
  proof (cases "slot_alloc k < 0")
    case True
    then show ?thesis using assms by (simp add: proc_create_def)
  next
    case False
    let ?i = "nat (slot_alloc k)"
    have sl: "?i < MAX_PROCS" "\<not> p_used (procs k ! ?i)" using slot_alloc_free[of k] False by simp_all
    obtain m p where k': "k' = (put_proc ?i p (k1\<lparr>k_mmu := m\<rparr>))\<lparr>k_fds := Some ?i, nr_procs := nr_procs k1 + 1\<rparr>"
      and p: "p_used p" "p_pid p = pid" "p_state p = PROC_READY" "length (p_vmas p) = length (p_vmas (procs k1 ! ?i))"
        "length (p_fds p) = length (p_fds (procs k1 ! ?i))"
      using assms(2) False fr(1) pa by (auto simp: proc_create_def Let_def vfs_init_def)
    have ok: "proc_ok p" using p proc_invD(5)[OF inv1 sl(1)] fr(1) by (simp add: proc_ok_def)
    have "proc_inv ((put_proc ?i p (k1\<lparr>k_mmu := m\<rparr>))\<lparr>nr_procs := nr_procs (k1\<lparr>k_mmu := m\<rparr>) + 1\<rparr>)"
      by (rule fill_slot_inv) (use inv1 sl ok p fr(2) in \<open>simp_all add: k1 pid_taken_def\<close>)
    moreover have "k' = ((put_proc ?i p (k1\<lparr>k_mmu := m\<rparr>))\<lparr>nr_procs := nr_procs (k1\<lparr>k_mmu := m\<rparr>) + 1\<rparr>)\<lparr>k_fds := Some ?i\<rparr>"
      by (simp add: k')
    ultimately show ?thesis by simp
  qed
qed

lemma proc_fork_cases:
  assumes "proc_inv k" "proc_fork k = (r, k')"
  obtains (fail) m n where "r = -1" "k' = k\<lparr>k_mmu := m, next_pid := n\<rparr>" "0 < sint n"
  | (ok) i m n pid cr3 kstack frame where "r = pid" "0 < pid" "\<not> pid_taken pid k" "i < MAX_PROCS" "\<not> p_used (procs k ! i)" "0 < sint n"
      "cr3 \<noteq> 0" "kstack \<noteq> 0"
      "k' = (put_proc i ((procs k ! i)\<lparr>p_used := True, p_pid := pid, p_state := PROC_READY, p_exit_code := 0,
                        p_parent := p_pid (cur k), p_cr3 := cr3, p_kstack := kstack, p_frame := frame,
                        p_heap_start := p_heap_start (cur k), p_heap_break := p_heap_break (cur k),
                        p_vmas := p_vmas (cur k), p_vma_count := p_vma_count (cur k), p_fds := p_fds (cur k)\<rparr>)
               (k\<lparr>k_mmu := m, next_pid := n\<rparr>))\<lparr>nr_procs := nr_procs k + 1\<rparr>"
proof -
  have self: "k\<lparr>k_mmu := m\<rparr> = k\<lparr>k_mmu := m, next_pid := next_pid k\<rparr>" for m by simp
  have np: "0 < sint (next_pid k)" by (rule proc_invD(3)[OF assms(1)])
  let ?root = "if p_cr3 (cur k) = 0 then vm_page_pml4 (k_mmu k) else p_cr3 (cur k)"
  obtain c m1 where cl: "vmm_clone_pml4 ?root (k_mmu k) = (c, m1)" by fastforce
  obtain ks m2 where al: "vm_page_alloc m1 = (ks, m2)" by fastforce
  obtain f k3 where bf: "build_irq_frame (syscall_frame_ptr k) 0 ks (k\<lparr>k_mmu := m2\<rparr>) = (f, k3)" by fastforce
  then obtain m3 where k3: "k3 = k\<lparr>k_mmu := m3\<rparr>" by (auto simp: build_irq_frame_def Let_def)
  obtain pid k4 where pa: "pid_alloc k3 = (pid, k4)" by fastforce
  have "0 < sint (next_pid k3)" using np by (simp add: k3)
  note fr = pid_alloc_fresh[OF this pa]
  then obtain n where k4: "k4 = k\<lparr>k_mmu := m3, next_pid := n\<rparr>" "0 < sint n" by (auto simp: k3)
  note eq = assms(2)[unfolded proc_fork_def Let_def cl prod.case al]
  consider (a) "c = 0" | (b) "c \<noteq> 0" "ks = 0" | (c) "c \<noteq> 0" "ks \<noteq> 0" "slot_alloc k3 < 0" | (d) "c \<noteq> 0" "ks \<noteq> 0" "slot_alloc k3 \<ge> 0"
    by linarith
  then show thesis
  proof cases
    case a
    then show thesis using fail[where m = m1 and n = "next_pid k"] eq np by simp
  next
    case b
    then show thesis using fail[where m = m2 and n = "next_pid k"] eq np by simp
  next
    case c
    then show thesis using fail[where m = m3 and n = "next_pid k"] eq np by (simp add: bf) (simp add: k3)
  next
    case d
    note sl = slot_alloc_free[OF d(3)]
    let ?i = "nat (slot_alloc k3)"
    have e: "r = pid" "k' = (put_proc ?i ((procs k4 ! ?i)\<lparr>p_used := True, p_pid := pid, p_state := PROC_READY, p_exit_code := 0,
        p_parent := p_pid (cur k), p_cr3 := c, p_kstack := ks, p_frame := f, p_heap_start := p_heap_start (cur k),
        p_heap_break := p_heap_break (cur k), p_vmas := p_vmas (cur k), p_vma_count := p_vma_count (cur k),
        p_fds := p_fds (cur k)\<rparr>) k4)\<lparr>nr_procs := nr_procs k4 + 1\<rparr>"
      using eq d fr(1) by (auto simp: bf pa)
    have "\<not> pid_taken pid k" "\<not> p_used (procs k ! ?i)" using fr(2) sl(2) by (simp_all add: k3 pid_taken_def)
    with e show thesis
      by (intro ok[OF _ fr(1) _ sl(1) _ k4(2) d(1,2)]) (simp_all add: k4(1))
  qed
qed

lemma proc_fork_inv:
  assumes "proc_inv k" "proc_fork k = (r, k')"
  shows "proc_inv k'"
  using assms
proof (cases rule: proc_fork_cases)
  case (fail m n)
  then show ?thesis using proc_inv_next[of "k\<lparr>k_mmu := m\<rparr>" n] assms(1) by simp
next
  case (ok i m n pid cr3 kstack frame)
  let ?k = "k\<lparr>k_mmu := m, next_pid := n\<rparr>"
  have inv: "proc_inv ?k" using proc_inv_next[of "k\<lparr>k_mmu := m\<rparr>" n] assms(1) ok(6) by simp
  have parent: "proc_ok (cur k)" using proc_invD(2,5)[OF assms(1)] by blast
  show ?thesis unfolding ok(9)
    by (rule fill_slot_inv[OF inv ok(4), of _, simplified])
       (use ok parent in \<open>simp_all add: proc_ok_def pid_taken_def\<close>)
qed

lemma proc_exit_inv: "proc_inv k \<Longrightarrow> proc_inv (proc_exit code k)"
  unfolding proc_exit_def
  by (rule keep_slot_inv) (use proc_invD(2,5)[of k] in \<open>auto simp: proc_ok_def\<close>)

lemma wait_zombie_Some:
  "wait_zombie my_pid k = Some i \<Longrightarrow> i < MAX_PROCS \<and> p_used (procs k ! i) \<and> p_state (procs k ! i) = PROC_ZOMBIE \<and>
     p_parent (procs k ! i) = my_pid"
  by (simp add: wait_zombie_def find_upt_Some)

lemma wait_zombie_None:
  "wait_zombie my_pid k = None \<longleftrightarrow> (\<forall>i<MAX_PROCS. p_used (procs k ! i) \<and> p_state (procs k ! i) = PROC_ZOMBIE \<longrightarrow> p_parent (procs k ! i) \<noteq> my_pid)"
  by (auto simp: wait_zombie_def find_upt_None)

text \<open>The saved frame of the interrupted process is the only change of the table at a timer interrupt.\<close>

definition save_frame :: "u64 \<Rightarrow> 'fs kernel \<Rightarrow> 'fs kernel" where
  "save_frame frame k = (if p_used (cur k) then put_proc (current_idx k) ((cur k)\<lparr>p_frame := frame\<rparr>) k else k)"

lemma save_frame_inv: "proc_inv k \<Longrightarrow> proc_inv (save_frame frame k)"
  unfolding save_frame_def using proc_invD(2,5)[of k]
  by (auto intro!: keep_slot_inv simp: proc_ok_def)

lemma save_frame_simps [simp]:
  "current_idx (save_frame f k) = current_idx k" "length (procs (save_frame f k)) = length (procs k)"
  "k_mmu (save_frame f k) = k_mmu k" "k_fds (save_frame f k) = k_fds k"
  by (simp_all add: save_frame_def put_proc_def)

lemma save_frame_proc:
  "procs (save_frame f k) ! i = (if i = current_idx k \<and> p_used (cur k) \<and> i < length (procs k) then (cur k)\<lparr>p_frame := f\<rparr> else procs k ! i)"
  by (cases "current_idx k < length (procs k)") (auto simp: save_frame_def put_proc_def nth_list_update list_update_beyond)

lemma runnable_frame [simp]: "runnable (p\<lparr>p_frame := f\<rparr>) = runnable p"
  by (simp add: runnable_def)

lemma save_frame_runnable [simp]: "runnable (procs (save_frame f k) ! i) = runnable (procs k ! i)"
  by (simp add: save_frame_proc)

lemma sched_scan_lt: "fst (sched_scan ps c t) < MAX_PROCS"
proof (induction ps c t rule: sched_scan.induct)
  case (1 ps c t)
  then show ?case by (subst sched_scan.simps) (simp add: Let_def MAX_PROCS_def)
qed

lemma sched_irq_return_eq:
  "sched_irq_return frame k =
     (case sched_scan (procs (save_frame frame k)) (current_idx k) 0 of (c, tries) \<Rightarrow>
        let k2 = (save_frame frame k)\<lparr>current_idx := c\<rparr>; p = procs k2 ! c in
        if tries > MAX_PROCS \<or> c = current_idx k then (frame, k2)
        else (p_frame p, set_cr3_of p ((set_kernel_stack (p_kstack p) k2)\<lparr>k_fds := Some c\<rparr>)))"
proof -
  have e: "(if p_used (cur k) then put_proc (current_idx k) ((cur k)\<lparr>p_frame := frame\<rparr>) k else k) = save_frame frame k"
    by (simp add: save_frame_def)
  show ?thesis unfolding sched_irq_return_def Let_def e by (simp add: split_beta)
qed

lemma sched_irq_return_inv: "proc_inv k \<Longrightarrow> proc_inv (snd (sched_irq_return frame k))"
proof -
  assume "proc_inv k"
  then have "proc_inv ((save_frame frame k)\<lparr>current_idx := fst (sched_scan (procs (save_frame frame k)) (current_idx k) 0)\<rparr>)"
    by (intro proc_inv_current save_frame_inv sched_scan_lt)
  then show ?thesis by (simp add: sched_irq_return_eq split_beta Let_def)
qed

section \<open>The scheduler's choice\<close>

lemma sched_scan_finds:
  "0 < d \<Longrightarrow> t + d \<le> MAX_PROCS \<Longrightarrow> runnable (ps ! ((c + d) mod MAX_PROCS)) \<Longrightarrow>
   (\<And>e. 0 < e \<Longrightarrow> e < d \<Longrightarrow> \<not> runnable (ps ! ((c + e) mod MAX_PROCS))) \<Longrightarrow>
   sched_scan ps c t = ((c + d) mod MAX_PROCS, t + d)"
proof (induction d arbitrary: c t)
  case (Suc d)
  show ?case
  proof (cases d)
    case 0
    then show ?thesis using Suc.prems by (subst sched_scan.simps) (simp add: Let_def)
  next
    case (Suc e)
    let ?c = "(c + 1) mod MAX_PROCS"
    have m: "(?c + x) mod MAX_PROCS = (c + Suc x) mod MAX_PROCS" for x by (simp add: mod_add_left_eq)
    have "\<not> runnable (ps ! ?c)" using Suc.prems(4)[of 1] \<open>d = Suc e\<close> by simp
    then have "sched_scan ps c t = sched_scan ps ?c (t + 1)"
      using Suc.prems(2) by (subst sched_scan.simps) (simp add: Let_def)
    also have "\<dots> = ((?c + d) mod MAX_PROCS, t + 1 + d)"
    proof (rule Suc.IH)
      show "runnable (ps ! ((?c + d) mod MAX_PROCS))" unfolding m by (rule Suc.prems(3))
      show "\<not> runnable (ps ! ((?c + x) mod MAX_PROCS))" if "0 < x" "x < d" for x
        unfolding m by (rule Suc.prems(4)) (use that in simp_all)
    qed (use Suc.prems(2) \<open>d = Suc e\<close> in simp_all)
    finally show ?thesis unfolding m by simp
  qed
qed simp

lemma sched_scan_none:
  "t + d = MAX_PROCS \<Longrightarrow> (\<And>e. 0 < e \<Longrightarrow> e \<le> d \<Longrightarrow> \<not> runnable (ps ! ((c + e) mod MAX_PROCS))) \<Longrightarrow>
   sched_scan ps c t = ((c + Suc d) mod MAX_PROCS, Suc MAX_PROCS)"
proof (induction d arbitrary: c t)
  case 0
  then show ?case by (subst sched_scan.simps) (simp add: Let_def)
next
  case (Suc d)
  let ?c = "(c + 1) mod MAX_PROCS"
  have m: "(?c + x) mod MAX_PROCS = (c + Suc x) mod MAX_PROCS" for x by (simp add: mod_add_left_eq)
  have "\<not> runnable (ps ! ?c)" using Suc.prems(2)[of 1] by simp
  then have "sched_scan ps c t = sched_scan ps ?c (t + 1)"
    using Suc.prems(1) by (subst sched_scan.simps) (simp add: Let_def)
  also have "\<dots> = ((?c + Suc d) mod MAX_PROCS, Suc MAX_PROCS)"
  proof (rule Suc.IH)
    show "\<not> runnable (ps ! ((?c + x) mod MAX_PROCS))" if "0 < x" "x \<le> d" for x
      unfolding m by (rule Suc.prems(2)) (use that in simp_all)
  qed (use Suc.prems(1) in simp)
  finally show ?case unfolding m .
qed

text \<open>The first runnable process behind the current one, cyclically and ending with the current one itself.\<close>

definition next_dist :: "'fs kernel \<Rightarrow> nat" where
  "next_dist k = (LEAST d. 0 < d \<and> runnable (procs k ! ((current_idx k + d) mod MAX_PROCS)))"

lemma next_dist_props:
  assumes "proc_inv k" "j < MAX_PROCS" "runnable (procs k ! j)"
  shows "0 < next_dist k" "next_dist k \<le> MAX_PROCS" "runnable (procs k ! ((current_idx k + next_dist k) mod MAX_PROCS))"
    "\<And>e. 0 < e \<Longrightarrow> e < next_dist k \<Longrightarrow> \<not> runnable (procs k ! ((current_idx k + e) mod MAX_PROCS))"
    "\<And>d. 0 < d \<Longrightarrow> (current_idx k + d) mod MAX_PROCS = j \<Longrightarrow> next_dist k \<le> d"
proof -
  let ?P = "\<lambda>d. 0 < d \<and> runnable (procs k ! ((current_idx k + d) mod MAX_PROCS))"
  have c: "current_idx k < MAX_PROCS" by (rule proc_invD(2)[OF assms(1)])
  define d where "d = (if current_idx k < j then j - current_idx k else j + MAX_PROCS - current_idx k)"
  have d: "0 < d" "d \<le> MAX_PROCS" "(current_idx k + d) mod MAX_PROCS = j" using c assms(2) by (auto simp: d_def)
  then have P: "?P d" using assms(3) by simp
  show "0 < next_dist k" "runnable (procs k ! ((current_idx k + next_dist k) mod MAX_PROCS))"
    using LeastI[of ?P, OF P] by (simp_all add: next_dist_def)
  show "next_dist k \<le> MAX_PROCS" using Least_le[of ?P, OF P] d(2) by (simp add: next_dist_def)
  show "\<not> runnable (procs k ! ((current_idx k + e) mod MAX_PROCS))" if "0 < e" "e < next_dist k" for e
    using not_less_Least[of e ?P] that by (auto simp: next_dist_def)
  show "next_dist k \<le> d" if "0 < d" "(current_idx k + d) mod MAX_PROCS = j" for d
    using Least_le[of ?P d] that assms(3) by (simp add: next_dist_def)
qed

lemma sched_picks_next:
  assumes "proc_inv k" "j < MAX_PROCS" "runnable (procs k ! j)" "sched_irq_return frame k = (f, k')"
  shows "current_idx k' = (current_idx k + next_dist k) mod MAX_PROCS" "procs k' = procs (save_frame frame k)"
    "f = p_frame (procs k' ! current_idx k')"
    "current_idx k' \<noteq> current_idx k \<Longrightarrow> k_fds k' = Some (current_idx k') \<and> tss_rsp0 k' = p_kstack (cur k') + KSTACK_SIZE \<and>
      (p_cr3 (cur k') \<noteq> 0 \<longrightarrow> vm_cr3 (k_mmu k') = p_cr3 (cur k'))"
proof -
  note nd = next_dist_props[OF assms(1-3)]
  let ?c = "(current_idx k + next_dist k) mod MAX_PROCS"
  have "sched_scan (procs (save_frame frame k)) (current_idx k) 0 = (?c, 0 + next_dist k)"
    by (rule sched_scan_finds) (use nd in simp_all)
  then have e: "sched_irq_return frame k = (let k2 = (save_frame frame k)\<lparr>current_idx := ?c\<rparr>; p = procs k2 ! ?c in
        if ?c = current_idx k then (frame, k2)
        else (p_frame p, set_cr3_of p ((set_kernel_stack (p_kstack p) k2)\<lparr>k_fds := Some ?c\<rparr>)))"
    using nd(2) by (simp add: sched_irq_return_eq Let_def)
  have fr: "procs (set_cr3_of p q) = procs q" "current_idx (set_cr3_of p q) = current_idx q" "k_fds (set_cr3_of p q) = k_fds q"
    "tss_rsp0 (set_cr3_of p q) = tss_rsp0 q" "procs (set_kernel_stack x q) = procs q" "current_idx (set_kernel_stack x q) = current_idx q"
    "tss_rsp0 (set_kernel_stack x q) = x + KSTACK_SIZE" for p q x
    by (simp_all add: set_cr3_of_def set_kernel_stack_def)
  show c: "current_idx k' = ?c" "procs k' = procs (save_frame frame k)"
    using assms(4) unfolding e by (auto simp: Let_def fr split: if_splits)
  have u: "p_used (procs k ! ?c)" using nd(3) by (simp add: runnable_def)
  have l: "?c < length (procs k)" using proc_invD(1)[OF assms(1)] by (simp add: MAX_PROCS_def)
  show "f = p_frame (procs k' ! current_idx k')"
    using assms(4) u l unfolding e c by (auto simp: Let_def save_frame_proc split: if_splits)
  show "current_idx k' \<noteq> current_idx k \<Longrightarrow> k_fds k' = Some (current_idx k') \<and> tss_rsp0 k' = p_kstack (cur k') + KSTACK_SIZE \<and>
      (p_cr3 (cur k') \<noteq> 0 \<longrightarrow> vm_cr3 (k_mmu k') = p_cr3 (cur k'))"
    using assms(4) unfolding e c by (auto simp: Let_def fr set_cr3_of_def vmm_set_cr3_def)
qed

section \<open>Fairness\<close>

definition tick :: "u64 \<Rightarrow> 'fs kernel \<Rightarrow> 'fs kernel" where
  "tick frame k = snd (sched_irq_return frame k)"

text \<open>With nothing to run the interrupted context goes on, but the number of the current process moves on.\<close>

lemma sched_idle:
  assumes "proc_inv k" "\<forall>j<MAX_PROCS. \<not> runnable (procs k ! j)"
  shows "sched_irq_return frame k = (frame, (save_frame frame k)\<lparr>current_idx := (current_idx k + 1) mod MAX_PROCS\<rparr>)"
proof -
  have "sched_scan (procs (save_frame frame k)) (current_idx k) 0 = ((current_idx k + Suc MAX_PROCS) mod MAX_PROCS, Suc MAX_PROCS)"
    by (rule sched_scan_none) (use assms(2) in \<open>simp_all add: MAX_PROCS_def\<close>)
  moreover have "(current_idx k + Suc MAX_PROCS) mod MAX_PROCS = (current_idx k + 1) mod MAX_PROCS"
    using mod_add_self2[of "current_idx k + 1" MAX_PROCS] by simp
  ultimately show ?thesis by (simp add: sched_irq_return_eq Let_def)
qed

lemma tick_ready: "proc_inv k \<Longrightarrow> runnable (procs (tick f k) ! j) = runnable (procs k ! j)"
proof (cases "\<exists>i<MAX_PROCS. runnable (procs k ! i)")
  case True
  assume inv: "proc_inv k"
  from True obtain i where "i < MAX_PROCS" "runnable (procs k ! i)" by blast
  from sched_picks_next(2)[OF inv this surjective_pairing] show ?thesis by (simp add: tick_def)
next
  case False
  assume "proc_inv k"
  with False show ?thesis by (simp add: tick_def sched_idle)
qed

interpretation sched: round_robin MAX_PROCS current_idx "\<lambda>k j. runnable (procs k ! j)" tick proc_inv
proof (unfold_locales, goal_cases)
  case (1 k)
  then show ?case by (rule proc_invD(2))
next
  case (2 k f)
  then show ?case unfolding tick_def by (rule sched_irq_return_inv)
next
  case (3 k f j)
  then show ?case by (rule tick_ready)
next
  case (4 k d f)
  have j: "(current_idx k + d) mod MAX_PROCS < MAX_PROCS" by (simp add: MAX_PROCS_def)
  note nd = next_dist_props[OF 4(1) j 4(3)]
  show ?case
    using sched_picks_next(1)[OF 4(1) j 4(3) surjective_pairing] nd(1) nd(5)[OF 4(2) refl]
    by (intro exI[of _ "next_dist k"]) (simp add: tick_def)
qed

section \<open>Histories\<close>

text \<open>
  The changes of the process table: a step is one call of an operation, one timer interrupt, one attempt of
  \<open>wait\<close>, or other work of the kernel on memory and files.
\<close>

inductive kstep :: "'fs kernel \<Rightarrow> 'fs kernel \<Rightarrow> bool" where
  create: "proc_create entry rsp cr3 kstack k = (r, k') \<Longrightarrow> kstep k k'"
| fork: "proc_fork k = (r, k') \<Longrightarrow> kstep k k'"
| exit: "kstep k (proc_exit code k)"
| tick: "kstep k (tick frame k)"
| wait: "proc_wait [] k = Some (r, code, k') \<Longrightarrow> kstep k k'"
| other: "kstep k (k\<lparr>k_mmu := m, k_vfs := v\<rparr>)"

lemma wait_loop_inv:
  assumes "\<And>y k. y \<in> set ys \<Longrightarrow> proc_inv k \<Longrightarrow> proc_inv (y k)" "proc_inv k" "wait_loop my_pid ys k = Some (r, code, k')"
  shows "proc_inv k'"
proof -
  have one: "proc_inv k'" if "proc_inv k" "wait_zombie my_pid k = Some i" "k' = reap i k" for k i
    using reap_inv[OF that(1)] wait_zombie_Some[OF that(2)] that(3) by simp
  show ?thesis using assms
  proof (induction ys arbitrary: k)
    case Nil
    then show ?case using one by (auto split: option.splits if_splits)
  next
    case (Cons y ys)
    have "proc_inv (y k)" using Cons.prems(1)[of y k] Cons.prems(2) by simp
    moreover have "proc_inv k'" if "proc_inv (y k)" "wait_loop my_pid ys (y k) = Some (r, code, k')"
      by (rule Cons.IH) (use Cons.prems(1) that in auto)
    ultimately show ?case using one[OF Cons.prems(2)] Cons.prems by (auto split: option.splits if_splits)
  qed
qed

lemma kstep_inv: "kstep k k' \<Longrightarrow> proc_inv k \<Longrightarrow> proc_inv k'"
proof (induction rule: kstep.induct)
  case (wait k r code k')
  then show ?case using wait_loop_inv[of "[]" k] by (auto simp: proc_wait_def)
next
  case (other k m v)
  then show ?case by (simp add: proc_inv_def)
next
  case (tick k frame)
  then show ?case unfolding tick_def by (rule sched_irq_return_inv)
qed (auto intro: proc_create_inv proc_fork_inv proc_exit_inv)

lemma ksteps_inv: "kstep\<^sup>*\<^sup>* k k' \<Longrightarrow> proc_inv k \<Longrightarrow> proc_inv k'"
  by (induction rule: rtranclp_induct) (auto intro: kstep_inv)

section \<open>Exit and wait\<close>

lemma wait_now:
  assumes "wait_zombie my_pid k = Some i"
  shows "wait_loop my_pid ys k = Some (p_pid (procs k ! i), Some (p_exit_code (procs k ! i)), reap i k)"
  using assms by (cases ys) simp_all

lemma reap_frees:
  assumes "proc_inv k" "i < MAX_PROCS" "p_used (procs k ! i)"
  shows "\<not> pid_taken (p_pid (procs k ! i)) (reap i k)"
proof
  assume "pid_taken (p_pid (procs k ! i)) (reap i k)"
  then obtain j where j: "j < MAX_PROCS" "p_used (procs (reap i k) ! j)" "p_pid (procs (reap i k) ! j) = p_pid (procs k ! i)"
    by (auto simp: pid_taken_iff)
  then have "j \<noteq> i" using proc_invD(1)[OF assms(1)] assms(2) by (auto simp: reap_def put_proc_def)
  then have "p_used (procs k ! j)" "p_pid (procs k ! j) = p_pid (procs k ! i)" using j by (simp_all add: reap_def put_proc_def)
  then show False
    using proc_invD(1,4)[OF assms(1)] assms(2,3) j(1) \<open>j \<noteq> i\<close> unfolding pids_unique_def by metis
qed

text \<open>A caller that counts as its own child never learns that it has no children.\<close>

lemma wait_self_blocks:
  assumes keep: "\<And>y k. y \<in> set ys \<Longrightarrow> P k \<Longrightarrow> P (y k)"
    and P: "\<And>k. P k \<Longrightarrow> wait_zombie my_pid k = None \<and> has_child my_pid k" and k: "P k"
  shows "wait_loop my_pid ys k = None"
  using keep k
proof (induction ys arbitrary: k)
  case Nil
  then show ?case using P by simp
next
  case (Cons y ys)
  then show ?case using P[OF Cons.prems(2)] by simp
qed

section \<open>The frame of a forked child\<close>

lemma store_bytes_append:
  assumes "length xs + length ys < 2 ^ 64"
  shows "store_bytes m a (xs @ ys) = store_bytes (store_bytes m a xs) (a + of_nat (length xs)) ys"
proof
  fix x :: u64
  let ?d = "x - a"
  have l: "unat (of_nat (length xs) :: u64) = length xs" using assms by (simp add: unat_of_nat_small)
  have e: "x - (a + of_nat (length xs)) = ?d - of_nat (length xs)" by simp
  show "store_bytes m a (xs @ ys) x = store_bytes (store_bytes m a xs) (a + of_nat (length xs)) ys x"
  proof (cases "unat ?d < length xs")
    case True
    then have "unat (?d - of_nat (length xs)) = 2 ^ 64 - (length xs - unat ?d)"
      using l by (simp add: unat_sub_if' word_size)
    then have "\<not> unat (?d - of_nat (length xs)) < length ys" using True assms by linarith
    then show ?thesis using True by (simp add: store_bytes_def e nth_append)
  next
    case False
    then have "unat (?d - of_nat (length xs)) = unat ?d - length xs" using l by (simp add: unat_sub_if')
    moreover from False have "unat ?d < length xs + length ys \<longleftrightarrow> unat ?d - length xs < length ys" by linarith
    ultimately show ?thesis using False by (simp add: store_bytes_def e nth_append)
  qed
qed

lemma length_concat_enc: "length (concat (map (le_enc 8) ws)) = 8 * length ws"
  by (induction ws) simp_all

lemma next_page: "page_aligned P \<Longrightarrow> page_aligned (P + 4096)"
proof -
  assume "page_aligned P"
  then have "4096 dvd unat P" by (auto simp: page_aligned_def)
  moreover have "(4096 :: nat) dvd 2 ^ 64" by simp
  ultimately have "(4096 :: nat) dvd (unat P + 4096) mod 2 ^ 64" by (intro dvd_mod) auto
  then show ?thesis by (simp add: page_aligned_def unat_word_ariths take_bit_eq_mod)
qed

lemma build_irq_frame_spill:
  assumes "page_aligned K" "build_irq_frame sf rax K k = (frame, k')"
  shows "page_bytes (vm_mem (k_mmu k')) (K + 4096) = blit (page_bytes (vm_mem (k_mmu k)) (K + 4096)) 0
    (concat (map (le_enc 8) [load64 (vm_mem (k_mmu k)) (sf + 32), 0x23, 0x202, user_rsp_save k, 0x1B]))"
    and "frame = K + 3960"
proof -
  let ?m = "vm_mem (k_mmu k)"
  define ws where "ws = irq_frame (map (\<lambda>i. load64 ?m (sf + of_nat (8 * i))) [0..<8]) rax (user_rsp_save k)"
  have fr: "frame = K + 3960" "vm_mem (k_mmu k') = store_bytes ?m (K + 3960) (concat (map (le_enc 8) ws))"
    using assms(2) by (auto simp: build_irq_frame_def Let_def KSTACK_SIZE_def store64s_def ws_def algebra_simps)
  then show "frame = K + 3960" by simp
  have ws: "ws = take 17 ws @ [load64 ?m (sf + 32), 0x23, 0x202, user_rsp_save k, 0x1B]" "length (take 17 ws) = 17"
    by (simp_all add: ws_def irq_frame_def)
  define hi where "hi = concat (map (le_enc 8) [load64 ?m (sf + 32), 0x23, 0x202, user_rsp_save k, 0x1B])"
  define lo where "lo = concat (map (le_enc 8) (take 17 ws))"
  have c: "concat (map (le_enc 8) ws) = lo @ hi" unfolding lo_def hi_def by (subst ws(1)) simp
  have len: "length lo = 136" "length hi = 40" using ws(2) by (simp_all add: lo_def hi_def length_concat_enc)
  have "store_bytes ?m (K + 3960) (lo @ hi) = store_bytes (store_bytes ?m (K + 3960) lo) (K + 3960 + of_nat (length lo)) hi"
    by (rule store_bytes_append) (simp add: len)
  then have m': "vm_mem (k_mmu k') = store_bytes (store_bytes ?m (K + of_nat 3960) lo) (K + 4096) hi"
    by (simp add: fr c len algebra_simps)
  have "K \<noteq> K + 4096" by simp
  then have "page_bytes (store_bytes ?m (K + of_nat 3960) lo) (K + 4096) = page_bytes ?m (K + 4096)"
    by (intro page_store_other[OF assms(1) next_page[OF assms(1)]]) (simp_all add: len)
  then show "page_bytes (vm_mem (k_mmu k')) (K + 4096) = blit (page_bytes ?m (K + 4096)) 0
      (concat (map (le_enc 8) [load64 ?m (sf + 32), 0x23, 0x202, user_rsp_save k, 0x1B]))"
    unfolding m' hi_def[symmetric] using page_store_start[of hi _ "K + 4096"] len by simp
qed

section \<open>Properties\<close>

text \<open>
  The process table stays well formed through every history of creations, forks, exits, waits, timer
  interrupts and other kernel work after \<open>sched_init\<close>: the current slot exists, no two live processes share a
  number, numbers are positive, and the count of processes is exact.
\<close>

theorem process_table_invariant:
  assumes "length (procs k) = MAX_PROCS" "\<forall>p\<in>set (procs k). length (p_vmas p) = VMA_MAX \<and> length (p_fds p) = VFS_MAX_FILES"
    and "kstep\<^sup>*\<^sup>* (sched_init k) k'"
  shows "proc_inv k'"
  using ksteps_inv[OF assms(3) sched_init_inv[OF assms(1,2)]] .

text \<open>
  C15: The search for a process number ends with one: however the 64 slots are used and wherever the counter
  stands, \<open>pid_alloc\<close> returns a positive number that no live process has, across the wrap-around of the
  counter, and changes nothing but the counter.
\<close>

theorem pid_alloc_succeeds:
  assumes "0 < sint (next_pid k)"
  shows "\<exists>pid n. pid_alloc k = (pid, k\<lparr>next_pid := n\<rparr>) \<and> 0 < pid \<and> \<not> pid_taken pid k \<and> 0 < sint n"
  using pid_alloc_fresh[OF assms surjective_pairing] by (metis prod.collapse)

text \<open>
  C14: The scheduler is fair: a process that is runnable becomes the current process within 64 timer
  interrupts, whatever the other processes are and whatever frames are interrupted.
\<close>

theorem sched_fair:
  assumes "proc_inv k" "j < MAX_PROCS" "runnable (procs k ! j)" "length frames = MAX_PROCS"
  shows "\<exists>m. 0 < m \<and> m \<le> MAX_PROCS \<and> current_idx (run_steps tick (take m frames) k) = j"
  using assms by (rule sched.fair)

text \<open>
  A timer interrupt with a runnable process saves the interrupted frame in the current process and goes on
  with the saved frame of the next runnable one, whose file table, kernel stack and page tables are in force;
  with none it goes on with the interrupted frame and moves the number of the current process to the next slot.
\<close>

theorem sched_switch_correct:
  assumes "proc_inv k" "sched_irq_return frame k = (f, k')"
  shows "procs k' = procs (save_frame frame k) \<and>
    (if \<exists>j<MAX_PROCS. runnable (procs k ! j)
     then runnable (cur k') \<and> f = p_frame (cur k') \<and>
       (\<forall>e. 0 < e \<and> e < next_dist k \<longrightarrow> \<not> runnable (procs k ! ((current_idx k + e) mod MAX_PROCS))) \<and>
       current_idx k' = (current_idx k + next_dist k) mod MAX_PROCS \<and>
       (current_idx k' \<noteq> current_idx k \<longrightarrow> k_fds k' = Some (current_idx k') \<and> tss_rsp0 k' = p_kstack (cur k') + KSTACK_SIZE \<and>
         (p_cr3 (cur k') \<noteq> 0 \<longrightarrow> vm_cr3 (k_mmu k') = p_cr3 (cur k')))
     else f = frame \<and> current_idx k' = (current_idx k + 1) mod MAX_PROCS)"
proof (cases "\<exists>j<MAX_PROCS. runnable (procs k ! j)")
  case True
  then obtain j where j: "j < MAX_PROCS" "runnable (procs k ! j)" by blast
  note s = sched_picks_next[OF assms(1) j assms(2)] and n = next_dist_props[OF assms(1) j]
  have "runnable (cur k')" using n(3) by (simp add: s(1,2))
  then show ?thesis using True s n(4) by auto
next
  case False
  then show ?thesis using sched_idle[OF assms(1), of frame] assms(2) by auto
qed

text \<open>
  C16: What a child passes to \<open>exit\<close> is what its parent gets from \<open>wait\<close>: once the child is the only dead child
  of the caller, \<open>wait\<close> returns without blocking, with the child's number and its code, frees the child's slot
  and number, and gives back none of the child's memory.
\<close>

theorem exit_wait_roundtrip:
  assumes "proc_inv k" "i < MAX_PROCS" "j < MAX_PROCS" "i \<noteq> j" "p_used (procs k ! i)" "p_parent (procs k ! i) = p_pid (procs k ! j)"
    and "wait_zombie (p_pid (procs k ! j)) k = None"
    and "k1 = (proc_exit code (k\<lparr>current_idx := i\<rparr>))\<lparr>current_idx := j\<rparr>"
  shows "proc_wait ys k1 = Some (p_pid (procs k ! i), Some code, reap i k1) \<and>
    \<not> pid_taken (p_pid (procs k ! i)) (reap i k1) \<and> k_mmu (reap i k1) = k_mmu k"
proof -
  have len: "length (procs k) = MAX_PROCS" by (rule proc_invD(1)[OF assms(1)])
  have inv: "proc_inv k1"
    unfolding assms(8) using assms(1-3) by (intro proc_inv_current proc_exit_inv)
  have pk: "procs k1 ! l = (if l = i then (procs k ! i)\<lparr>p_exit_code := code, p_state := PROC_ZOMBIE\<rparr> else procs k ! l)" for l
    using assms(2) len by (auto simp: assms(8) proc_exit_def put_proc_def nth_list_update)
  have cur: "current_idx k1 = j" by (simp add: assms(8))
  have other: "p_parent (procs k ! l) \<noteq> p_pid (procs k ! j)" if "l < MAX_PROCS" "p_used (procs k ! l)" "p_state (procs k ! l) = PROC_ZOMBIE" for l
    using assms(7) that unfolding wait_zombie_None by blast
  have "wait_zombie (p_pid (procs k ! j)) k1 = Some i"
    unfolding wait_zombie_def find_upt_Some using assms(2,5,6) other by (auto simp: pk split: if_splits)
  moreover have "p_pid (cur k1) = p_pid (procs k ! j)" using assms(4) by (simp add: cur pk)
  ultimately have w: "proc_wait ys k1 = Some (p_pid (procs k ! i), Some code, reap i k1)"
    using wait_now[of "p_pid (procs k ! j)" k1 i ys] by (simp add: proc_wait_def pk)
  have "\<not> pid_taken (p_pid (procs k ! i)) (reap i k1)"
    using reap_frees[OF inv assms(2)] assms(5) by (simp add: pk)
  moreover have "k_mmu (reap i k1) = k_mmu k" by (simp add: reap_def put_proc_def assms(8) proc_exit_def)
  ultimately show ?thesis using w by simp
qed

text \<open>
  C17: The frame that \<open>fork\<close> builds for the child does not fit its kernel stack page: its last five words, with
  the address at which the child starts, overwrite the first 40 bytes of the page frame that follows.
\<close>

theorem fork_frame_overflows:
  assumes "page_aligned kstack" "build_irq_frame sysframe rax_val kstack k = (frame, k')"
  shows "frame = kstack + 3960 \<and>
    page_bytes (vm_mem (k_mmu k')) (kstack + 4096) = blit (page_bytes (vm_mem (k_mmu k)) (kstack + 4096)) 0
      (concat (map (le_enc 8) [load64 (vm_mem (k_mmu k)) (sysframe + 32), 0x23, 0x202, user_rsp_save k, 0x1B]))"
  using build_irq_frame_spill[OF assms] by blast

text \<open>
  The first process is its own parent, so that it counts as its own child: with no dead child its \<open>wait\<close>
  never returns, as long as its own entry and the absence of dead children last, instead of reporting that
  there is nothing to wait for.
\<close>

theorem init_wait_never_returns:
  assumes "\<And>y k. y \<in> set ys \<Longrightarrow> (p_used (procs k ! 0) \<and> p_parent (procs k ! 0) = 1 \<and> wait_zombie 1 k = None) \<Longrightarrow>
      p_used (procs (y k) ! 0) \<and> p_parent (procs (y k) ! 0) = 1 \<and> wait_zombie 1 (y k) = None"
    and "current_idx k = 0" "p_pid (procs k ! 0) = 1" "p_used (procs k ! 0)" "p_parent (procs k ! 0) = 1" "wait_zombie 1 k = None"
  shows "proc_wait ys k = None"
proof -
  let ?P = "\<lambda>k. p_used (procs k ! 0) \<and> p_parent (procs k ! 0) = 1 \<and> wait_zombie 1 k = None"
  have c: "has_child 1 k" if "?P k" for k
    using that by (auto simp: has_child_def list_ex_iff MAX_PROCS_def intro!: bexI[of _ 0])
  have "wait_loop 1 ys k = None"
    by (rule wait_self_blocks[where P = ?P]) (use assms c in auto)
  then show ?thesis using assms(2,3) by (simp add: proc_wait_def)
qed

section \<open>Concrete instances\<close>

definition proc_ex :: "bool \<Rightarrow> int \<Rightarrow> int \<Rightarrow> unit process" where
  "proc_ex used pid parent = \<lparr>p_used = used, p_pid = pid, p_state = PROC_READY, p_exit_code = 0, p_parent = parent,
     p_frame = 0, p_cr3 = 0x4000, p_kstack = 0, p_heap_start = 0, p_heap_break = 0,
     p_vmas = replicate 64 \<lparr>v_start = 0, v_end = 0, v_prot = 0, v_flags = 0, v_fd = 0, v_foff = 0, v_used = False\<rparr>,
     p_vma_count = 0, p_fds = g_fds vfs_example\<rparr>"

text \<open>A kernel with the processes \<open>ps\<close> in its first slots, the first of them current.\<close>

definition kern_ex :: "unit process list \<Rightarrow> unit kernel" where
  "kern_ex ps = \<lparr>procs = ps @ replicate (64 - length ps) (proc_ex False 0 0), current_idx = 0, next_pid = 3,
     nr_procs = int (length ps),
     k_mmu = \<lparr>vm_mem = (\<lambda>_. 0), vm_pmm = pmm_example, vm_cr3 = 0x4000, vm_page_pml4 = 0x4000\<rparr>, k_vfs = vfs_example, k_fds = Some 0,
     syscall_kernel_rsp = 0, syscall_frame_ptr = 0, user_rsp_save = 0, tss_rsp0 = 0\<rparr>"

abbreviation kern_init :: "unit kernel" where "kern_init \<equiv> kern_ex [proc_ex True 1 1]"
abbreviation kern_pair :: "unit kernel" where "kern_pair \<equiv> kern_ex [proc_ex True 1 1, proc_ex True 2 1]"

lemma length_fds_example: "length (g_fds vfs_example) = 64"
  by (simp add: vfs_example_def vfs_init_def Let_def)

lemma proc_ex_ok: "0 < pid \<or> \<not> used \<Longrightarrow> proc_ok (proc_ex used pid parent)"
  by (auto simp: proc_ok_def proc_ex_def VMA_MAX_def VFS_MAX_FILES_def length_fds_example)

lemma proc_ex_simps [simp]: "p_used (proc_ex u pid par) = u" "p_pid (proc_ex u pid par) = pid" "p_parent (proc_ex u pid par) = par"
  "p_state (proc_ex u pid par) = PROC_READY"
  by (simp_all add: proc_ex_def)

lemma kern_pair_procs: "procs kern_pair ! i = (if i = 0 then proc_ex True 1 1 else if i = 1 then proc_ex True 2 1 else proc_ex False 0 0)"
  if "i < 64" for i
  using that by (auto simp: kern_ex_def nth_append)

lemma kern_pair_inv: "proc_inv kern_pair"
proof -
  have "length (procs kern_pair) = 64" "filter p_used (procs kern_pair) = [proc_ex True 1 1, proc_ex True 2 1]"
    by (simp_all add: kern_ex_def)
  moreover have "pids_unique (procs kern_pair)"
    unfolding pids_unique_def using calculation(1) by (auto simp: kern_pair_procs)
  ultimately show ?thesis
    by (simp add: proc_inv_def MAX_PROCS_def kern_ex_def proc_ex_ok)
qed

lemma kern_pair_zombies: "wait_zombie p kern_pair = None"
  unfolding wait_zombie_None by (auto simp: MAX_PROCS_def kern_pair_procs PROC_READY_def PROC_ZOMBIE_def)

theorem process_table_invariant_witness:
  "proc_inv (snd (proc_create 0x8000000 0x7F003000 0x4000 0x5000 (sched_init kern_pair)))"
proof (rule process_table_invariant)
  show "length (procs kern_pair) = MAX_PROCS" by (rule proc_invD(1)[OF kern_pair_inv])
  show "\<forall>p\<in>set (procs kern_pair). length (p_vmas p) = VMA_MAX \<and> length (p_fds p) = VFS_MAX_FILES"
    using kern_pair_inv by (auto simp: proc_inv_def proc_ok_def)
  show "kstep\<^sup>*\<^sup>* (sched_init kern_pair) (snd (proc_create 0x8000000 0x7F003000 0x4000 0x5000 (sched_init kern_pair)))"
    by (rule r_into_rtranclp, rule kstep.create[OF surjective_pairing])
qed

theorem pid_alloc_succeeds_witness: "\<exists>pid n. pid_alloc (kern_pair\<lparr>next_pid := 0x7FFFFFFF\<rparr>) = (pid, kern_pair\<lparr>next_pid := n\<rparr>) \<and> 0 < pid"
  using pid_alloc_succeeds[of "kern_pair\<lparr>next_pid := 0x7FFFFFFF\<rparr>"] by auto

theorem sched_fair_witness: "\<exists>m. 0 < m \<and> m \<le> MAX_PROCS \<and> current_idx (run_steps tick (take m (replicate 64 0)) kern_pair) = 1"
  by (rule sched_fair[OF kern_pair_inv]) (simp_all add: MAX_PROCS_def kern_pair_procs runnable_def)

theorem sched_switch_correct_witness: "runnable (cur (snd (sched_irq_return 0x9000 kern_pair)))"
proof -
  have "\<exists>j<MAX_PROCS. runnable (procs kern_pair ! j)"
    by (intro exI[of _ 1]) (simp add: MAX_PROCS_def kern_pair_procs runnable_def)
  note r = sched_switch_correct[OF kern_pair_inv surjective_pairing, of "0x9000", unfolded if_P[OF this]]
  from r[THEN conjunct2, THEN conjunct1] show ?thesis .
qed

theorem exit_wait_roundtrip_witness:
  "\<exists>k'. proc_wait [] ((proc_exit 7 (kern_pair\<lparr>current_idx := 1\<rparr>))\<lparr>current_idx := 0\<rparr>) = Some (2, Some 7, k')"
  using exit_wait_roundtrip[OF kern_pair_inv, of 1 0 _ 7 "[]", OF _ _ _ _ _ _ refl]
  by (simp add: MAX_PROCS_def kern_pair_procs kern_pair_zombies)

theorem fork_frame_overflows_witness:
  "take 8 (page_bytes (vm_mem (k_mmu (snd (build_irq_frame 0x100000 0 0x5000 (kern_pair\<lparr>user_rsp_save := 0x7F002FF0\<rparr>))))) 0x6000) =
   le_enc 8 (load64 (vm_mem (k_mmu kern_pair)) 0x100020)"
proof -
  have "page_aligned 0x5000" by (simp add: page_aligned_def)
  from fork_frame_overflows[OF this surjective_pairing, of "0x100000" 0 "kern_pair\<lparr>user_rsp_save := 0x7F002FF0\<rparr>"]
  show ?thesis by (simp add: blit_def)
qed

theorem init_wait_never_returns_witness: "proc_wait [id, id, id] kern_init = None"
proof (rule init_wait_never_returns)
  have p: "procs kern_init ! i = (if i = 0 then proc_ex True 1 1 else proc_ex False 0 0)" if "i < 64" for i
    using that by (auto simp: kern_ex_def nth_append)
  show "wait_zombie 1 kern_init = None"
    unfolding wait_zombie_None by (auto simp: MAX_PROCS_def p PROC_READY_def PROC_ZOMBIE_def)
  show "p_pid (procs kern_init ! 0) = 1" "p_used (procs kern_init ! 0)" "p_parent (procs kern_init ! 0) = 1" by (simp_all add: p)
qed (simp_all add: kern_ex_def)

end
