(* ===== verification/FaultProps.thy ===== *)
theory FaultProps
  imports Fault VmmProps ProcessProps
begin

text \<open>
  What a page fault leaves behind: a write to a page shared after \<open>fork\<close> gives the faulting address space a
  private copy and touches no other page, and a first write to an area gives a page of zeros. Tables and
  ordinary pages are kept apart by \<open>plain\<close>: a page in use that is not a table of the address space.
\<close>

section \<open>Pages that are not tables\<close>

definition plain :: "u64 \<Rightarrow> mmu \<Rightarrow> u64 \<Rightarrow> bool" where
  "plain root s P \<longleftrightarrow> page_aligned P \<and> P \<in> page_live (vm_pmm s) \<and> (\<forall>q. is_path q \<longrightarrow> node s root q \<noteq> Some P)"

lemma plainD: "plain root s P \<Longrightarrow> page_aligned P" "plain root s P \<Longrightarrow> P \<in> page_live (vm_pmm s)"
  "plain root s P \<Longrightarrow> is_path q \<Longrightarrow> node s root q = Some a \<Longrightarrow> a \<noteq> P"
  by (auto simp: plain_def)

definition tables_agree :: "u64 \<Rightarrow> mmu \<Rightarrow> mmu \<Rightarrow> bool" where
  "tables_agree root s s' \<longleftrightarrow> (\<forall>q b j. is_path q \<and> node s root q = Some b \<and> j < 512 \<longrightarrow> tbl_get b j s' = tbl_get b j s)"

lemma agree_node: "tables_agree root s s' \<Longrightarrow> is_path q \<Longrightarrow> node s' root q = node s root q"
proof (induction q rule: rev_induct)
  case (snoc j q)
  have "tbl_get b j s' = tbl_get b j s" if "node s root q = Some b" for b
    using snoc.prems that unfolding tables_agree_def is_path_snoc by blast
  then show ?case using snoc by (auto simp: node_snoc is_path_snoc split: option.splits)
qed simp

lemma agree_xlat:
  assumes ag: "tables_agree root s s'" and q: "is_path (q @ [k])" "l < 512"
  shows "xlat root q k l s' = xlat root q k l s"
proof -
  have qk: "is_path q" "k < 512" using q(1) by (simp_all add: is_path_snoc)
  show ?thesis
  proof (cases "node s root q")
    case None
    then show ?thesis using agree_node[OF ag qk(1)] by (simp add: xlat_def)
  next
    case (Some b)
    have e: "tbl_get b k s' = tbl_get b k s" using ag qk Some unfolding tables_agree_def by blast
    have "tbl_get (frame_addr (tbl_get b k s)) l s' = tbl_get (frame_addr (tbl_get b k s)) l s"
      if "present (tbl_get b k s)" "tbl_get b k s AND PG_HUGE = 0"
    proof -
      have "node s root (q @ [k]) = Some (frame_addr (tbl_get b k s))" using Some that by (simp add: node_snoc Let_def)
      then show ?thesis using ag q unfolding tables_agree_def by blast
    qed
    then show ?thesis using Some e agree_node[OF ag qk(1)] by (simp add: xlat_def Let_def)
  qed
qed

lemma agree_translate: "tables_agree root s s' \<Longrightarrow> translate root va s' = translate root va s"
  unfolding translate_def by (rule agree_xlat) (use lookup_bounds in \<open>simp_all add: is_path_def\<close>)

lemma agree_inv:
  assumes inv: "vm_inv root s" and ag: "tables_agree root s s'" and p: "page_inv (vm_pmm s')" "page_live (vm_pmm s) \<subseteq> page_live (vm_pmm s')"
  shows "vm_inv root s'"
  unfolding vm_inv_def
proof (intro conjI allI impI; (elim conjE)?)
  fix q b j assume q: "is_path q" "length q < 2" "j < 512" "node s' root q = Some b" "present (tbl_get b j s')"
  then have b: "node s root q = Some b" using agree_node[OF ag] by simp
  then have "tbl_get b j s' = tbl_get b j s" using ag q unfolding tables_agree_def by blast
  then show "tbl_get b j s' AND PG_HUGE = 0" using vm_invD(4)[OF inv q(1-3) b] q(5) by simp
next
  fix q b assume q: "is_path q" "node s' root q = Some b"
  then show "page_aligned b" "b \<in> page_live (vm_pmm s')"
    using vm_invD(2)[OF inv q(1)] agree_node[OF ag q(1)] p(2) by auto
next
  fix q q' b assume q: "is_path q" "is_path q'" "node s' root q = Some b" "node s' root q' = Some b"
  then show "q = q'" using vm_invD(3)[OF inv q(1,2)] agree_node[OF ag] by simp
qed (rule p(1))

text \<open>Storing into a page that is not a table.\<close>

lemma plain_store_agree:
  assumes inv: "vm_inv root s" and P: "plain root s P" and bs: "length bs \<le> 4096"
  shows "tables_agree root s (s\<lparr>vm_mem := store_bytes (vm_mem s) P bs\<rparr>)"
  unfolding tables_agree_def
proof (intro allI impI, elim conjE)
  fix q b j assume q: "is_path q" "node s root q = Some b" "j < (512::nat)"
  have b: "page_aligned b" "P \<noteq> b" using vm_invD(2)[OF inv q(1,2)] plainD(3)[OF P q(1,2)] by auto
  have "page_bytes (store_bytes (vm_mem s) (P + of_nat 0) bs) b = page_bytes (vm_mem s) b"
    by (rule page_store_other[OF plainD(1)[OF P] b]) (use bs in simp)
  then show "tbl_get b j (s\<lparr>vm_mem := store_bytes (vm_mem s) P bs\<rparr>) = tbl_get b j s" using q(3) by (simp add: tbl_get_page)
qed

lemma alloc_agree:
  assumes "page_inv (vm_pmm s)" "0 < free_pages s" "vm_page_alloc s = (x, s1)"
  shows "tables_agree root s s1"
  unfolding tables_agree_def using vm_page_alloc_fresh(6)[OF assms] by blast

section \<open>Mapping leaves other pages alone\<close>

lemma tbl_set_page: "page_aligned t \<Longrightarrow> page_aligned P \<Longrightarrow> t \<noteq> P \<Longrightarrow> i < 512 \<Longrightarrow> page_bytes (vm_mem (tbl_set t i e s)) P = page_bytes (vm_mem s) P"
  unfolding tbl_set_def by (simp del: of_nat_mult) (rule page_store_other, simp_all)

lemma zero_page_page: "page_aligned x \<Longrightarrow> page_aligned P \<Longrightarrow> x \<noteq> P \<Longrightarrow> page_bytes (vm_mem (zero_page x s)) P = page_bytes (vm_mem s) P"
  using page_store_other[of x P 0 "replicate 4096 0" "vm_mem s"] by (simp add: zero_page_def)

lemma split_huge_page:
  assumes "page_aligned x" "page_aligned P" "x \<noteq> P"
  shows "page_bytes (vm_mem (split_huge x e s)) P = page_bytes (vm_mem s) P"
proof -
  have "page_bytes (vm_mem (fold (\<lambda>i. tbl_set x i (f i)) is t)) P = page_bytes (vm_mem t) P" if "\<forall>i\<in>set is. i < 512" for f "is" t
    using that by (induction "is" arbitrary: t) (simp_all add: tbl_set_page[OF assms])
  then show ?thesis by (simp add: split_huge_def zero_page_page[OF assms])
qed

lemma vm_page_alloc_mem: "vm_page_alloc s = (x, s1) \<Longrightarrow> vm_mem s1 = vm_mem s"
  by (auto simp: vm_page_alloc_def split: prod.splits)

lemma get_or_alloc_table_plain:
  assumes inv: "vm_inv root s" and p: "is_path (p @ [i])" "node s root p = Some a" "is_pd \<longleftrightarrow> length p = 2"
    and fr: "0 < free_pages s" and r: "get_or_alloc_table a i is_pd user s = (t, s')" and P: "plain root s P"
  shows "plain root s' P \<and> page_bytes (vm_mem s') P = page_bytes (vm_mem s) P"
proof (cases "present (tbl_get a i s) \<and> \<not> (is_pd \<and> tbl_get a i s AND PG_HUGE \<noteq> 0)")
  case True
  then have "s' = s" using r by (auto simp: get_or_alloc_table_def Let_def split: if_splits)
  then show ?thesis using P by simp
next
  case False
  obtain x s1 where al: "vm_page_alloc s = (x, s1)" by (cases "vm_page_alloc s")
  note fresh = vm_page_alloc_fresh[OF vm_invD(1)[OF inv] fr al]
  from get_or_alloc_table_new[OF inv p fr r False al] obtain f where
    new: "new_table root p i a x user f s s'" and s': "s' = tbl_set a i (table_entry x user)
      (if present (tbl_get a i s) then split_huge x (tbl_get a i s) s1 else zero_page x s1)" by blast
  have P': "page_aligned P" "P \<noteq> x" "a \<noteq> P" "page_aligned a" "i < 512"
    using P fresh(3) p vm_invD(2)[OF inv _ p(2)] by (auto simp: plain_def is_path_snoc)
  have "plain root s' P"
    using P new_table_node[OF inv new] new P'(2) unfolding plain_def new_table_def by auto
  moreover have "page_bytes (vm_mem s') P = page_bytes (vm_mem s) P"
    using P' fresh(2) by (simp add: s' tbl_set_page split_huge_page zero_page_page vm_page_alloc_mem[OF al])
  ultimately show ?thesis by blast
qed

lemma vmm_map_plain:
  assumes inv: "vm_inv cr3 s" and fr: "3 \<le> free_pages s" and P: "plain cr3 s P"
  shows "plain cr3 (vmm_map_in_cr3 cr3 virt phys flags s) P \<and>
    page_bytes (vm_mem (vmm_map_in_cr3 cr3 virt phys flags s)) P = page_bytes (vm_mem s) P"
proof -
  let ?i = "pml4_lookup virt" and ?j = "pdpt_lookup virt" and ?k = "pd_lookup virt"
  obtain t1 s1 t2 s2 t3 s3 where g: "get_or_alloc_table cr3 ?i False (?i < 256) s = (t1, s1)"
    "get_or_alloc_table t1 ?j False (?i < 256) s1 = (t2, s2)" "get_or_alloc_table t2 ?k True (?i < 256) s2 = (t3, s3)"
    and iv: "vm_inv cr3 s1" "vm_inv cr3 s2" "vm_inv cr3 s3"
    and nd: "node s1 cr3 [?i] = Some t1" "node s2 cr3 [?i, ?j] = Some t2" "node s3 cr3 [?i, ?j, ?k] = Some t3"
    and fp: "2 \<le> free_pages s1" "1 \<le> free_pages s2"
    and m: "vmm_map_in_cr3 cr3 virt phys flags s = tbl_set t3 (pt_lookup virt) (pte_value phys flags) s3"
    using vmm_map_chain[OF inv fr, of virt] by metis
  have path: "is_path ([] @ [?i])" "is_path ([?i] @ [?j])" "is_path ([?i, ?j] @ [?k])" "is_path [?i, ?j, ?k]"
    using lookup_bounds by (simp_all add: is_path_def)
  have p1: "plain cr3 s1 P \<and> page_bytes (vm_mem s1) P = page_bytes (vm_mem s) P"
    by (rule get_or_alloc_table_plain[OF inv path(1) _ _ _ g(1) P]) (use fr in simp_all)
  have p2: "plain cr3 s2 P \<and> page_bytes (vm_mem s2) P = page_bytes (vm_mem s1) P"
    by (rule get_or_alloc_table_plain[OF iv(1) path(2) nd(1) _ _ g(2)]) (use fp p1 in simp_all)
  have p3: "plain cr3 s3 P \<and> page_bytes (vm_mem s3) P = page_bytes (vm_mem s2) P"
    by (rule get_or_alloc_table_plain[OF iv(2) path(3) nd(2) _ _ g(3)]) (use fp p2 in simp_all)
  have t3: "page_aligned t3" "t3 \<noteq> P" using vm_invD(2)[OF iv(3) path(4) nd(3)] plainD(3)[OF conjunct1[OF p3] path(4) nd(3)] by auto
  have "plain cr3 (tbl_set t3 (pt_lookup virt) (pte_value phys flags) s3) P"
    using p3 leaf_set_node[OF iv(3) path(4) _ nd(3) lookup_bounds(4)[of virt]] by (auto simp: plain_def frame_simps)
  then show ?thesis
    using p1 p2 p3 tbl_set_page[OF t3(1) plainD(1)[OF P] t3(2) lookup_bounds(4)[of virt]] by (simp add: m)
qed

lemma alloc_plain:
  assumes inv: "vm_inv root s" and fr: "0 < free_pages s" and al: "vm_page_alloc s = (x, s1)"
  shows "vm_inv root s1" "plain root s1 x" "plain root s P \<Longrightarrow> plain root s1 P \<and> P \<noteq> x" "vm_mem s1 = vm_mem s"
    "translate root va s1 = translate root va s"
proof -
  note fresh = vm_page_alloc_fresh[OF vm_invD(1)[OF inv] fr al]
  note ag = alloc_agree[OF vm_invD(1)[OF inv] fr al, of root]
  show "vm_inv root s1" by (rule agree_inv[OF inv ag fresh(5)]) (auto simp: fresh(4))
  show "plain root s1 x"
    using fresh vm_invD(2)[OF inv] agree_node[OF ag] by (fastforce simp: plain_def)
  show "plain root s P \<Longrightarrow> plain root s1 P \<and> P \<noteq> x" using fresh agree_node[OF ag] by (auto simp: plain_def)
  show "vm_mem s1 = vm_mem s" by (rule vm_page_alloc_mem[OF al])
  show "translate root va s1 = translate root va s" by (rule agree_translate[OF ag])
qed

section \<open>Physical addresses\<close>

lemma addr_mask_bits: "bit (0x000FFFFFFFFFF000 :: u64) n \<longleftrightarrow> 12 \<le> n \<and> n < 52"
proof -
  have e: "(0x000FFFFFFFFFF000 :: u64) = mask 52 AND NOT (mask 12)" by (simp add: mask_eq_exp_minus_1)
  show ?thesis unfolding e by (auto simp: bit_and_iff bit_not_iff bit_mask_iff)
qed

lemma page_live_bits:
  assumes "x \<in> page_live p" "bit x n"
  shows "12 \<le> n" "n < 29"
proof -
  obtain q where q: "x = of_nat q * PAGE_SIZE" "q < MAX_PAGES" using assms(1) by (auto simp: page_live_def)
  have u: "unat x = q * 4096" using q(2) by (simp add: q(1) PAGE_SIZE_def MAX_PAGES_def unat_word_ariths take_bit_nat_eq_self unat_of_nat)
  then have "page_aligned x" by (simp add: page_aligned_def)
  then show "12 \<le> n" using assms(2) page_aligned_bits by (meson not_le)
  have "odd (unat x div 2 ^ n)" using assms(2) by (subst bit_iff_odd[symmetric]) (simp add: bit_unsigned_iff)
  then have "2 ^ n \<le> unat x" by (metis div_less even_zero not_less)
  also have "unat x < 2 ^ 29" using u q(2) by (simp add: MAX_PAGES_def)
  finally have "2 ^ n < (2 :: nat) ^ 29" .
  then show "n < 29" by (rule power_less_imp_less_exp[rotated]) simp
qed

lemma pte_frame: "x \<in> page_live p \<Longrightarrow> pte_value x flags AND 0x000FFFFFFFFFF000 = x"
proof (rule bit_word_eqI)
  fix n assume x: "x \<in> page_live p" and "n < LENGTH(64)"
  have f: "bit (flags AND 0xFFF) n \<Longrightarrow> n < 12" by (auto simp: mask_12 bit_simps)
  show "bit (pte_value x flags AND 0x000FFFFFFFFFF000) n = bit x n"
    using page_live_bits[OF x, of n] f addr_mask_bits[of n]
    by (auto simp: pte_value_def Let_def bit_and_iff bit_or_iff PG_bits bit_frame_addr)
qed

lemma page_of_aligned: "(va AND NOT 0xFFF) AND 0xFFF = (0 :: u64)"
  by (rule bit_word_eqI) (auto simp: mask_12 bit_simps)

lemma vpage_page: "vpage (va AND NOT 0xFFF) = vpage va"
proof -
  have d: "drop_bit n (va AND NOT 0xFFF) = drop_bit n va" if "12 \<le> n" for n
    using that by (intro bit_word_eqI) (auto simp: mask_12 bit_simps dest: bit_imp_le_length)
  have "drop_bit 12 (va AND NOT 0xFFF) = drop_bit 12 va" "drop_bit 21 (va AND NOT 0xFFF) = drop_bit 21 va"
    "drop_bit 30 (va AND NOT 0xFFF) = drop_bit 30 va" "drop_bit 39 (va AND NOT 0xFFF) = drop_bit 39 va"
    by (rule d, simp)+
  then show ?thesis by (simp only: vpage_def pml4_lookup_def pdpt_lookup_def pd_lookup_def pt_lookup_def)
qed

lemma translate_page: "vpage va = vpage vb \<Longrightarrow> translate root va s = translate root vb s"
  by (simp add: vpage_def translate_def)

section \<open>Copy on write\<close>

lemma pf_copy_effect:
  assumes inv: "vm_inv (vm_cr3 (k_mmu k)) (k_mmu k)" and fr: "4 \<le> free_pages (k_mmu k)"
    and tr: "translate (vm_cr3 (k_mmu k)) cr2 (k_mmu k) = Some e"
    and F: "plain (vm_cr3 (k_mmu k)) (k_mmu k) (e AND 0x000FFFFFFFFFF000)"
  obtains k' x where "pf_copy cr2 k = Some k'" "x \<notin> page_live (vm_pmm (k_mmu k))" "vm_inv (vm_cr3 (k_mmu k)) (k_mmu k')"
    "\<And>va. translate (vm_cr3 (k_mmu k)) va (k_mmu k') =
       (if vpage va = vpage cr2 then Some (pte_value x (PG_PRESENT OR PG_WRITE OR PG_USER OR PG_NX))
        else translate (vm_cr3 (k_mmu k)) va (k_mmu k))"
    "page_bytes (mem_of k') x = page_bytes (mem_of k) (e AND 0x000FFFFFFFFFF000)"
    "\<And>P. plain (vm_cr3 (k_mmu k)) (k_mmu k) P \<Longrightarrow> page_bytes (mem_of k') P = page_bytes (mem_of k) P"
proof -
  let ?m = "k_mmu k" and ?cr3 = "vm_cr3 (k_mmu k)" and ?F = "e AND 0x000FFFFFFFFFF000"
  let ?page = "cr2 AND NOT 0xFFF" and ?fl = "PG_PRESENT OR PG_WRITE OR PG_USER OR PG_NX"
  obtain x m1 where al: "vm_page_alloc ?m = (x, m1)" by fastforce
  have fr0: "0 < free_pages ?m" using fr by simp
  note fresh = vm_page_alloc_fresh[OF vm_invD(1)[OF inv] fr0 al] and ap = alloc_plain[OF inv fr0 al]
  have x: "x \<in> page_live (vm_pmm m1)" by (simp add: fresh(4))
  define m2 where "m2 = vmm_map_in_cr3 ?cr3 ?page x ?fl m1"
  have fr1: "3 \<le> free_pages m1" using fresh(8) fr by simp
  note eff = vmm_map_in_cr3_effect[OF ap(1) fr1 m2_def] and pl = vmm_map_plain[OF ap(1) fr1, of _ ?page x ?fl, folded m2_def]
  have tr1: "translate ?cr3 ?page m1 = Some e" using tr ap(5) translate_page[OF vpage_page] by metis
  have tr2: "translate ?cr3 ?page m2 = Some (pte_value x ?fl)" using eff by simp
  have ph1: "phys_of m1 ?page = Some ?F" using tr1 fresh(7) page_of_aligned by (simp add: phys_of_def)
  have cr3: "vm_cr3 m2 = ?cr3" using eff fresh(7) by simp
  have ph2: "phys_of m2 ?page = Some x" unfolding phys_of_def cr3 tr2 using page_of_aligned pte_frame[OF x, of ?fl] by simp
  define b where "b = page_bytes (vm_mem ?m) ?F"
  define k' where "k' = k\<lparr>k_mmu := m2\<lparr>vm_mem := store_bytes (vm_mem m2) x b\<rparr>\<rparr>"
  have run: "pf_copy cr2 k = Some k'"
    unfolding pf_copy_def Let_def al prod.case vmm_read_cr3_def ph1 option.case m2_def[symmetric] ph2
    using fresh(1) by (simp add: k'_def b_def page_bytes_def ap(4))
  have px: "plain ?cr3 m2 x" using pl ap(2) by blast
  have lb: "length b \<le> 4096" by (simp add: b_def)
  have ag: "tables_agree ?cr3 m2 (k_mmu k')" unfolding k'_def using plain_store_agree[OF _ px lb] eff by simp
  show thesis
  proof (rule that[OF run fresh(3)])
    show "vm_inv ?cr3 (k_mmu k')"
      by (rule agree_inv[OF _ ag]) (use eff vm_invD(1) in \<open>auto simp: k'_def\<close>)
    show "translate ?cr3 va (k_mmu k') = (if vpage va = vpage cr2 then Some (pte_value x ?fl) else translate ?cr3 va ?m)" for va
      using agree_translate[OF ag, of va] eff[THEN conjunct2, THEN conjunct2, THEN conjunct2, rule_format, of va, unfolded vpage_page] ap(5)[of va]
      by simp
    show "page_bytes (mem_of k') x = page_bytes (mem_of k) ?F"
      using page_store_start[OF lb, of "vm_mem m2" x] by (simp add: k'_def b_def blit_def)
    fix P assume P: "plain ?cr3 ?m P"
    then have P1: "plain ?cr3 m1 P" "P \<noteq> x" using ap(3) by auto
    have "page_bytes (store_bytes (vm_mem m2) (x + of_nat 0) b) P = page_bytes (vm_mem m2) P"
      by (rule page_store_other[OF fresh(2) plainD(1)[OF P]]) (use P1(2) lb in auto)
    then show "page_bytes (mem_of k') P = page_bytes (mem_of k) P" using pl[OF P1(1)] ap(4) by (simp add: k'_def)
  qed
qed

section \<open>New pages\<close>

text \<open>A zeroed page, mapped at an address: what a first write, \<open>brk\<close> and the program loader do.\<close>

lemma map_new_page:
  assumes inv: "vm_inv (vm_cr3 m) m" and fr: "4 \<le> free_pages m" and al: "vmm_alloc_page m = (x, m1)"
    and m2_def: "m2 = vmm_map page x flags m1"
  shows "x \<noteq> 0" "x \<notin> page_live (vm_pmm m)" "vm_inv (vm_cr3 m) m2" "vm_cr3 m2 = vm_cr3 m" "plain (vm_cr3 m) m2 x"
    "translate (vm_cr3 m) va m2 = (if vpage va = vpage page then Some (pte_value x flags) else translate (vm_cr3 m) va m)"
    "page_bytes (vm_mem m2) x = replicate 4096 0"
    "plain (vm_cr3 m) m P \<Longrightarrow> plain (vm_cr3 m) m2 P \<and> page_bytes (vm_mem m2) P = page_bytes (vm_mem m) P"
proof -
  let ?cr3 = "vm_cr3 m"
  obtain y m0 where al0: "vm_page_alloc m = (y, m0)" by fastforce
  have fr0: "0 < free_pages m" using fr by simp
  note fresh = vm_page_alloc_fresh[OF vm_invD(1)[OF inv] fr0 al0] and ap = alloc_plain[OF inv fr0 al0]
  have x: "x = y" "m1 = zero_page y m0" using al fresh(1) by (auto simp: vmm_alloc_page_def al0)
  show "x \<noteq> 0" "x \<notin> page_live (vm_pmm m)" using fresh x by simp_all
  have z: "zero_page y m0 = m0\<lparr>vm_mem := store_bytes (vm_mem m0) y (replicate 4096 0)\<rparr>" by (simp add: zero_page_def)
  have ag: "tables_agree ?cr3 m0 m1" unfolding x(2) z by (rule plain_store_agree[OF ap(1,2)]) simp
  have pm: "vm_pmm m1 = vm_pmm m0" "vm_cr3 m1 = ?cr3" using fresh(7) by (simp_all add: x(2) zero_page_def)
  have inv1: "vm_inv ?cr3 m1" by (rule agree_inv[OF ap(1) ag]) (simp_all add: pm fresh(5))
  have fr1: "3 \<le> free_pages m1" using fresh(8) fr by (simp add: free_pages_def pm)
  have m2: "m2 = vmm_map_in_cr3 ?cr3 page x flags m1" by (simp add: m2_def vmm_map_def vmm_read_cr3_def pm)
  note eff = vmm_map_in_cr3_effect[OF inv1 fr1 m2] and pl = vmm_map_plain[OF inv1 fr1, of _ page x flags, folded m2]
  show "vm_inv ?cr3 m2" "vm_cr3 m2 = ?cr3" using eff pm by simp_all
  have tr: "translate ?cr3 va m1 = translate ?cr3 va m" using agree_translate[OF ag] ap(5) by simp
  show "translate ?cr3 va m2 = (if vpage va = vpage page then Some (pte_value x flags) else translate ?cr3 va m)"
    using eff[THEN conjunct2, THEN conjunct2, THEN conjunct2, rule_format, of va] tr by simp
  have keep: "plain ?cr3 m1 Q" if "plain ?cr3 m0 Q" for Q
    using that agree_node[OF ag] by (auto simp: plain_def pm)
  show "plain ?cr3 m2 x" using pl[OF keep[OF ap(2)]] x by simp
  have "page_bytes (vm_mem m1) y = replicate 4096 0"
    using page_store_start[of "replicate 4096 0" "vm_mem m0" y] by (simp add: x(2) z blit_def)
  then show "page_bytes (vm_mem m2) x = replicate 4096 0" using pl[OF keep[OF ap(2)]] x(1) by simp
  assume P: "plain ?cr3 m P"
  then have P0: "plain ?cr3 m0 P" "P \<noteq> y" using ap(3) by auto
  have "page_bytes (vm_mem m1) P = page_bytes (vm_mem m0) P"
    unfolding x(2) by (rule zero_page_page[OF fresh(2) plainD(1)[OF P]]) (use P0(2) in auto)
  then show "plain ?cr3 m2 P \<and> page_bytes (vm_mem m2) P = page_bytes (vm_mem m) P"
    using pl[OF keep[OF P0(1)]] ap(4) by simp
qed

section \<open>Properties\<close>


text \<open>
  A write fault on a page that is not present gives the address space a fresh page of zeros at that page and
  changes no other translation and no other page.
\<close>

theorem zero_fault_correct:
  assumes "vm_inv (vm_cr3 (k_mmu k)) (k_mmu k)" "4 \<le> free_pages (k_mmu k)"
    and "error_code AND 1 = 0" "error_code AND 2 \<noteq> 0" "0x1000000 \<le> cr2"
  shows "\<exists>k' x flags. exception_handler ys 14 error_code cr2 k = Some k' \<and> x \<notin> page_live (vm_pmm (k_mmu k)) \<and>
    (\<forall>va. translate (vm_cr3 (k_mmu k)) va (k_mmu k') =
       (if vpage va = vpage cr2 then Some (pte_value x flags) else translate (vm_cr3 (k_mmu k)) va (k_mmu k))) \<and>
    page_bytes (mem_of k') x = replicate 4096 0 \<and>
    (\<forall>P. plain (vm_cr3 (k_mmu k)) (k_mmu k) P \<longrightarrow> page_bytes (mem_of k') P = page_bytes (mem_of k) P)"
proof -
  define fl where "fl = PG_PRESENT OR PG_WRITE OR PG_NX OR (if error_code AND 4 \<noteq> 0 then PG_USER else 0)"
  obtain x m1 where al: "vmm_alloc_page (k_mmu k) = (x, m1)" by fastforce
  define m2 where "m2 = vmm_map (cr2 AND NOT 0xFFF) x fl m1"
  note mp = map_new_page[OF assms(1,2) al m2_def]
  have run: "exception_handler ys 14 error_code cr2 k = Some (k\<lparr>k_mmu := m2\<rparr>)"
    unfolding exception_handler_def page_fault_def Let_def pf_zero_def al m2_def using assms(3-5) mp(1) by (simp add: fl_def)
  show ?thesis
    by (rule exI[of _ "k\<lparr>k_mmu := m2\<rparr>"], rule exI[of _ x], rule exI[of _ fl])
       (use run mp(2,7,8) mp(6)[unfolded vpage_page] in simp)
qed

section \<open>Concrete instances\<close>

lemma vmm_map_free:
  assumes inv: "vm_inv cr3 s" and fr: "n + 3 \<le> free_pages s"
  shows "n \<le> free_pages (vmm_map_in_cr3 cr3 virt phys flags s)"
proof -
  let ?i = "pml4_lookup virt" and ?j = "pdpt_lookup virt" and ?k = "pd_lookup virt"
  have fr3: "3 \<le> free_pages s" using fr by simp
  obtain t1 s1 t2 s2 t3 s3 where g: "get_or_alloc_table cr3 ?i False (?i < 256) s = (t1, s1)"
    "get_or_alloc_table t1 ?j False (?i < 256) s1 = (t2, s2)" "get_or_alloc_table t2 ?k True (?i < 256) s2 = (t3, s3)"
    and iv: "vm_inv cr3 s1" "vm_inv cr3 s2" and nd: "node s1 cr3 [?i] = Some t1" "node s2 cr3 [?i, ?j] = Some t2"
    and m: "vmm_map_in_cr3 cr3 virt phys flags s = tbl_set t3 (pt_lookup virt) (pte_value phys flags) s3"
    using vmm_map_chain[OF inv fr3, of virt] by metis
  have path: "is_path ([] @ [?i])" "is_path ([?i] @ [?j])" "is_path ([?i, ?j] @ [?k])"
    using lookup_bounds by (simp_all add: is_path_def)
  have "n + 2 \<le> free_pages s1" using get_or_alloc_table_ok[OF inv path(1) _ _ _ g(1), of "n + 2"] fr by simp
  then have "n + 1 \<le> free_pages s2" using get_or_alloc_table_ok[OF iv(1) path(2) nd(1) _ _ g(2), of "n + 1"] by simp
  then have "n \<le> free_pages s3" using get_or_alloc_table_ok[OF iv(2) path(3) nd(2) _ _ g(3), of n] by simp
  then show ?thesis by (simp add: m free_pages_def frame_simps)
qed

text \<open>An empty root table in frame 4 of a machine with the frames from 5 to 15 free, except 9.\<close>

definition frames_ex :: "nat list" where "frames_ex = [5, 6, 7, 8, 10, 11, 12, 13, 14, 15]"

definition vm_big :: mmu where
  "vm_big = \<lparr>vm_mem = (\<lambda>_. 0), vm_pmm = release_pages frames_ex (pmm_reset\<lparr>last_phys_page := 16\<rparr>), vm_cr3 = 0x4000, vm_page_pml4 = 0x4000\<rparr>"

lemma vm_big_pmm:
  "pmm_inv (vm_pmm vm_big)" "last_phys_page (vm_pmm vm_big) = 16"
  "p < MAX_PAGES \<Longrightarrow> bitmap_test (bitmap (vm_pmm vm_big)) p \<longleftrightarrow> p \<notin> set frames_ex"
proof -
  let ?r = "pmm_reset\<lparr>last_phys_page := 16\<rparr>"
  have r: "pmm_inv ?r" using pmm_reset_inv by (simp add: pmm_inv_def MAX_PAGES_def)
  have f: "distinct frames_ex" "\<forall>p\<in>set frames_ex. p < MAX_PAGES \<and> bitmap_test (bitmap ?r) p"
    by (auto simp: frames_ex_def MAX_PAGES_def pmm_reset_full)
  note e = release_pages_effect[OF r f]
  show "pmm_inv (vm_pmm vm_big)" "last_phys_page (vm_pmm vm_big) = 16" using e by (simp_all add: vm_big_def)
  show "p < MAX_PAGES \<Longrightarrow> bitmap_test (bitmap (vm_pmm vm_big)) p \<longleftrightarrow> p \<notin> set frames_ex"
    using e by (simp add: vm_big_def pmm_reset_full)
qed

lemma vm_big_live: "page_inv (vm_pmm vm_big)" "0x4000 \<in> page_live (vm_pmm vm_big)" "0x9000 \<in> page_live (vm_pmm vm_big)" "free_pages vm_big = 10"
proof -
  show "page_inv (vm_pmm vm_big)" using vm_big_pmm(1) vm_big_pmm(3)[OF MAX_PAGES_pos] by (simp add: page_inv_def frames_ex_def)
  have "4 < MAX_PAGES" "9 < MAX_PAGES" by (simp_all add: MAX_PAGES_def)
  then have "of_nat 4 * PAGE_SIZE \<in> page_live (vm_pmm vm_big)" "of_nat 9 * PAGE_SIZE \<in> page_live (vm_pmm vm_big)"
    unfolding page_live_def using vm_big_pmm(3)[of 4] vm_big_pmm(3)[of 9] by (auto simp: frames_ex_def simp del: of_nat_numeral)
  then show "0x4000 \<in> page_live (vm_pmm vm_big)" "0x9000 \<in> page_live (vm_pmm vm_big)" by (simp_all add: PAGE_SIZE_def)
  have z: "zeros (\<lambda>p. p \<notin> set frames_ex) 16 = 10" by code_simp
  have "zeros (bitmap_test (bitmap (vm_pmm vm_big))) 16 = zeros (\<lambda>p. p \<notin> set frames_ex) 16"
    by (rule zeros_cong) (simp add: vm_big_pmm(3) MAX_PAGES_def)
  then show "free_pages vm_big = 10" by (simp add: free_pages_def vm_big_pmm(2) z)
qed

lemma vm_big_node: "node vm_big t p = (if p = [] then Some t else None)" "translate t va vm_big = None" "tbl_get t i vm_big = 0"
proof -
  have e: "tbl_get t i vm_big = tbl_get t i vm_ex" for t i by (simp add: tbl_get_def vm_big_def vm_ex_def)
  show z: "tbl_get t i vm_big = 0" for t i using e vm_ex_empty(1) by simp
  show nd: "node vm_big t p = (if p = [] then Some t else None)" for t p by (cases p) (simp_all add: z not_present_0)
  show "translate t va vm_big = None" unfolding translate_def xlat_def nd by simp
qed

lemma vm_big_inv: "vm_inv 0x4000 vm_big"
  unfolding vm_inv_def by (simp add: vm_big_node vm_big_live vm_ex_live(3) not_present_0)

lemma vm_big_plain: "plain 0x4000 vm_big 0x9000"
  using vm_big_live(3) by (auto simp: plain_def vm_big_node page_aligned_def)

text \<open>The same machine with frame 9 mapped, read-only, at 0x2000000.\<close>

definition vm_cow :: mmu where
  "vm_cow = vmm_map_in_cr3 0x4000 0x2000000 0x9000 (PG_PRESENT OR PG_USER) vm_big"

lemma vm_cow_facts: "vm_inv 0x4000 vm_cow" "vm_cr3 vm_cow = 0x4000" "4 \<le> free_pages vm_cow" "plain 0x4000 vm_cow 0x9000"
  "translate 0x4000 0x2000000 vm_cow = Some 0x9005" "page_bytes (vm_mem vm_cow) 0x9000 = replicate 4096 0"
proof -
  have fr: "3 \<le> free_pages vm_big" "4 + 3 \<le> free_pages vm_big" by (simp_all add: vm_big_live)
  note eff = vmm_map_in_cr3_effect[OF vm_big_inv fr(1) vm_cow_def]
  have p: "pte_value 0x9000 (PG_PRESENT OR PG_USER) = 0x9005"
    by (simp add: pte_value_def frame_addr_def PG_PRESENT_def PG_NX_def PG_USER_def)
  show "vm_inv 0x4000 vm_cow" "vm_cr3 vm_cow = 0x4000" using eff by (simp_all add: vm_big_def)
  show "translate 0x4000 0x2000000 vm_cow = Some 0x9005"
    using eff[THEN conjunct2, THEN conjunct2, THEN conjunct2, rule_format, of "0x2000000"] p by simp
  show "4 \<le> free_pages vm_cow" using vmm_map_free[OF vm_big_inv fr(2)] by (simp add: vm_cow_def)
  have "page_bytes (vm_mem vm_big) 0x9000 = replicate 4096 0"
    by (simp add: page_bytes_def load_bytes_def vm_big_def map_replicate_const)
  then show "plain 0x4000 vm_cow 0x9000" "page_bytes (vm_mem vm_cow) 0x9000 = replicate 4096 0"
    using vmm_map_plain[OF vm_big_inv fr(1) vm_big_plain] by (simp_all add: vm_cow_def)
qed


theorem zero_fault_correct_witness:
  "\<exists>k' x flags. exception_handler [] 14 6 0x3000123 (kern_init\<lparr>k_mmu := vm_cow\<rparr>) = Some k' \<and>
     translate 0x4000 0x3000123 (k_mmu k') = Some (pte_value x flags) \<and> page_bytes (mem_of k') x = replicate 4096 0"
proof -
  let ?k = "kern_init\<lparr>k_mmu := vm_cow\<rparr>"
  obtain k' x flags where "exception_handler [] 14 6 0x3000123 ?k = Some k'" "page_bytes (mem_of k') x = replicate 4096 0"
    "translate 0x4000 0x3000123 (k_mmu k') = Some (pte_value x flags)"
    using zero_fault_correct[of ?k 6 "0x3000123" "[]"] vm_cow_facts by auto
  then show ?thesis by blast
qed

end
