(* ===== verification/SyscallProps.thy ===== *)
theory SyscallProps
  imports Syscall FaultProps
begin

text \<open>
  System calls and the rest of the kernel: every call keeps the process table and all descriptor tables well
  formed, whatever the other processes do meanwhile.
\<close>

section \<open>The invariant of the kernel\<close>

definition kernel_inv :: "'fs kernel \<Rightarrow> bool" where
  "kernel_inv k \<longleftrightarrow> proc_inv k \<and> (\<forall>p\<in>set (procs k). \<forall>f\<in>set (p_fds p). file_ok f) \<and> vfs_inv (k_vfs k) \<and>
     (\<forall>i. k_fds k = Some i \<longrightarrow> i < MAX_PROCS)"

lemma kernel_invD: "kernel_inv k \<Longrightarrow> proc_inv k" "kernel_inv k \<Longrightarrow> vfs_inv (k_vfs k)"
  "kernel_inv k \<Longrightarrow> k_fds k = Some i \<Longrightarrow> i < MAX_PROCS"
  "kernel_inv k \<Longrightarrow> i < MAX_PROCS \<Longrightarrow> f \<in> set (p_fds (procs k ! i)) \<Longrightarrow> file_ok f"
  by (auto simp: kernel_inv_def proc_inv_def)

lemma kernel_inv_mmu [simp]: "kernel_inv (k\<lparr>k_mmu := m\<rparr>) = kernel_inv k"
  by (simp add: kernel_inv_def)

lemma kernel_inv_mem [simp]: "kernel_inv (set_mem m k) = kernel_inv k"
  by (simp add: set_mem_def)

lemma kernel_inv_pte [simp]: "kernel_inv (pte_store pt e k) = kernel_inv k"
  by (simp add: pte_store_def)

lemma kernel_inv_world [simp]: "kernel_inv (k\<lparr>k_vfs := (k_vfs k)\<lparr>v_world := w\<rparr>\<rparr>) = kernel_inv k"
  by (simp add: kernel_inv_def)

lemma kernel_inv_heap [simp]: "kernel_inv (k_kfree p k) = kernel_inv k" "kernel_inv (snd (k_kmalloc sz k)) = kernel_inv k"
  "kernel_inv (serial_puts s k) = kernel_inv k"
  by (simp_all add: k_kfree_def k_kmalloc_def serial_puts_def Let_def split_beta)

lemma put_files_ok:
  assumes "kernel_inv k" "\<forall>f\<in>set (p_fds p). file_ok f"
  shows "\<forall>q\<in>set (procs (put_proc i p k)). \<forall>f\<in>set (p_fds q). file_ok f"
  using assms by (auto simp: kernel_inv_def put_proc_def dest!: set_update_subset_insert[THEN subsetD])

text \<open>Changing fields of a process other than its state and number.\<close>

lemma keep_proc_inv:
  assumes "kernel_inv k" "i < MAX_PROCS" "proc_ok p" "p_used p = p_used (procs k ! i)" "p_pid p = p_pid (procs k ! i)"
    and "\<forall>f\<in>set (p_fds p). file_ok f"
  shows "kernel_inv (put_proc i p k)"
  using keep_slot_inv[OF kernel_invD(1)[OF assms(1)] assms(2-5)] put_files_ok[OF assms(1,6), of i] assms(1)
  by (simp add: kernel_inv_def) (simp add: put_proc_def)

lemma cur_ok: "kernel_inv k \<Longrightarrow> current_idx k < MAX_PROCS \<and> proc_ok (cur k) \<and> (\<forall>f\<in>set (p_fds (cur k)). file_ok f)"
  using proc_invD(2,5)[of k] kernel_invD(1,4)[of k] by blast

lemma put_vt_inv: "kernel_inv k \<Longrightarrow> length (fst vt) = VMA_MAX \<Longrightarrow> kernel_inv (put_vt vt k)"
  unfolding put_vt_def using cur_ok[of k] by (intro keep_proc_inv) (auto simp: proc_ok_def)

lemma get_vt_len: "kernel_inv k \<Longrightarrow> length (fst (get_vt k)) = VMA_MAX"
  using cur_ok[of k] by (simp add: get_vt_def proc_ok_def)

lemma vfs_view_inv: "kernel_inv k \<Longrightarrow> vfs_inv (vfs_view k)"
  using kernel_invD(2-4)[of k] proc_invD(5)[of k] kernel_invD(1)[of k]
  by (auto simp: vfs_view_def vfs_inv_def proc_ok_def split: option.splits)

lemma vfs_put_inv: "kernel_inv k \<Longrightarrow> vfs_inv v \<Longrightarrow> kernel_inv (vfs_put v k)"
proof (cases "k_fds k")
  case None
  assume "kernel_inv k" "vfs_inv v"
  with None show ?thesis by (simp add: vfs_put_def kernel_inv_def proc_inv_def)
next
  case (Some i)
  assume k: "kernel_inv k" and v: "vfs_inv v"
  let ?k = "k\<lparr>k_vfs := v\<lparr>g_fds := g_fds (k_vfs k)\<rparr>\<rparr>"
  have "kernel_inv ?k" using k by (simp add: kernel_inv_def vfs_inv_def)
  then have "kernel_inv (put_proc i ((procs k ! i)\<lparr>p_fds := g_fds v\<rparr>) ?k)"
    by (rule keep_proc_inv) (use k v Some kernel_invD(1,3)[OF k] proc_invD(5)[of k i] in \<open>auto simp: vfs_inv_def proc_ok_def\<close>)
  then show ?thesis using Some by (simp add: vfs_put_def)
qed

lemma sys_vfs_inv:
  assumes "kernel_inv k" "sys_vfs f k = Some (r, k')" "\<And>v r v'. vfs_inv v \<Longrightarrow> f v = Returns (r, v') \<Longrightarrow> vfs_inv v'"
  shows "kernel_inv k'"
  using assms vfs_view_inv[OF assms(1)] by (auto simp: sys_vfs_def split: outcome.splits intro!: vfs_put_inv)

section \<open>Memory accesses and page faults\<close>

lemma pf_copy_inv: "pf_copy cr2 k = Some k' \<Longrightarrow> kernel_inv k \<Longrightarrow> kernel_inv k'"
  by (auto simp: pf_copy_def Let_def split: prod.splits if_splits option.splits)

lemma pf_zero_inv: "pf_zero u cr2 k = Some k' \<Longrightarrow> kernel_inv k \<Longrightarrow> kernel_inv k'"
  by (auto simp: pf_zero_def split: prod.splits if_splits)

lemma pf_fill_inv: "pf_fill ys v page k = Some k' \<Longrightarrow> kernel_inv k \<Longrightarrow> kernel_inv k'"
  using vfs_lseek_inv[OF vfs_view_inv, of k "v_fd v" "v_foff v + (page - v_start v)" 0]
  by (auto simp: pf_fill_def Let_def split: prod.splits if_splits option.splits outcome.splits
      intro!: vfs_put_inv elim: vfs_read_inv)

lemma pf_demand_inv: "pf_demand ys w cr2 k = Some k' \<Longrightarrow> kernel_inv k \<Longrightarrow> kernel_inv k'"
  by (auto simp: pf_demand_def Let_def split: prod.splits if_splits dest!: pf_fill_inv)

lemma resolve_inv: "resolve ys w va k = Some (p, k') \<Longrightarrow> kernel_inv k \<Longrightarrow> kernel_inv k'"
  by (auto simp: resolve_def exception_handler_def page_fault_def Let_def split: option.splits if_splits
      intro: pf_copy_inv pf_zero_inv pf_demand_inv)

lemma uload_inv [inv_intros]: "uload ys va k = Some (b, k') \<Longrightarrow> kernel_inv k \<Longrightarrow> kernel_inv k'"
  by (auto simp: uload_def intro: resolve_inv)

lemma ustore_inv: "ustore ys va b k = Some k' \<Longrightarrow> kernel_inv k \<Longrightarrow> kernel_inv k'"
  by (auto simp: ustore_def intro: resolve_inv)

lemma uload_bytes_inv [inv_intros]: "uload_bytes ys n va k = Some (bs, k') \<Longrightarrow> kernel_inv k \<Longrightarrow> kernel_inv k'"
proof (induction n arbitrary: va k bs)
  case (Suc n)
  from Suc.prems obtain b k1 bs' where "uload ys va k = Some (b, k1)" "uload_bytes ys n (va + 1) k1 = Some (bs', k')"
    by (auto split: option.splits)
  then show ?case using Suc.IH uload_inv Suc.prems(2) by blast
qed simp

lemma ustore_bytes_inv [inv_intros]: "ustore_bytes ys va bs k = Some k' \<Longrightarrow> kernel_inv k \<Longrightarrow> kernel_inv k'"
  by (induction bs arbitrary: va k) (auto simp: bind_eq_Some_conv intro: ustore_inv)

lemma ucstr_inv [inv_intros]: "ucstr ys va k = Some (s, k') \<Longrightarrow> kernel_inv k \<Longrightarrow> kernel_inv k'"
proof -
  have "kernel_inv k \<longrightarrow> kernel_inv (snd r)" if "ucstr ys va k = Some r" for r
  proof (rule ucstr.raw_induct[where P = "\<lambda>ys va k r. kernel_inv k \<longrightarrow> kernel_inv (snd r)", OF _ that])
    fix f ys' va' k' r'
    assume IH: "\<And>ys va k r. f ys va k = Some r \<Longrightarrow> kernel_inv k \<longrightarrow> kernel_inv (snd r)"
      and e: "Option.bind (uload ys' va' k') (\<lambda>(b, k1). if b = 0 then Some ([], k1)
        else Option.bind (f ys' (va' + 1) k1) (\<lambda>(bs, k2). Some (b # bs, k2))) = Some r'"
    then show "kernel_inv k' \<longrightarrow> kernel_inv (snd r')"
      using uload_inv[of ys' va' k'] IH[of ys' "va' + 1"] by (fastforce simp: bind_eq_Some_conv split: if_splits)
  qed
  then show "ucstr ys va k = Some (s, k') \<Longrightarrow> kernel_inv k \<Longrightarrow> kernel_inv k'" by fastforce
qed

section \<open>Loops over pages and areas\<close>

lemma split_length [simp]: "length (fst (snd (vma_split i x vt))) = length (fst vt)"
  by (auto simp: vma_split_def Let_def split: prod.splits)

lemma cut_length [simp]: "length (fst (snd (vma_cut a b i vt))) = length (fst vt)"
  by (simp add: vma_cut_def Let_def split_beta)

lemma merge_pair_length: "merge_pair a b vt = Some vt' \<Longrightarrow> length (fst vt') = length (fst vt)"
  by (auto simp: merge_pair_def Let_def split: prod.splits if_splits)

lemma try_merge_length [simp]: "length (fst (vma_try_merge i vt)) = length (fst vt)"
  by (auto simp: vma_try_merge_def split: option.splits if_splits dest: merge_pair_length)

lemma each_page_inv:
  assumes "each_page f p fin k = Some k'" "kernel_inv k" "\<And>p k k'. f p k = Some k' \<Longrightarrow> kernel_inv k \<Longrightarrow> kernel_inv k'"
  shows "kernel_inv k'"
proof -
  have "(\<forall>p k k'. f p k = Some k' \<longrightarrow> kernel_inv k \<longrightarrow> kernel_inv k') \<longrightarrow> kernel_inv k \<longrightarrow> kernel_inv k'"
  proof (rule each_page.raw_induct[where P = "\<lambda>f p fin k k'. (\<forall>p k k'. f p k = Some k' \<longrightarrow> kernel_inv k \<longrightarrow> kernel_inv k') \<longrightarrow> kernel_inv k \<longrightarrow> kernel_inv k'",
        OF _ assms(1)])
    fix g f and p fin :: u64 and k k' :: "'a kernel"
    assume "\<And>f p fin k k'. g f p fin k = Some k' \<Longrightarrow>
        (\<forall>p k k'. f p k = Some k' \<longrightarrow> kernel_inv k \<longrightarrow> kernel_inv k') \<longrightarrow> kernel_inv k \<longrightarrow> kernel_inv k'"
      and "(if p < fin then f p k \<bind> (\<lambda>k1. g f (p + 0x1000) fin k1) else Some k) = Some k'"
    then show "(\<forall>p k k'. f p k = Some k' \<longrightarrow> kernel_inv k \<longrightarrow> kernel_inv k') \<longrightarrow> kernel_inv k \<longrightarrow> kernel_inv k'"
      by (auto simp: bind_eq_Some_conv split: if_splits)
  qed
  then show ?thesis using assms(2,3) by blast
qed

lemma sys_lseek_inv: "sys_vfs (\<lambda>w. Returns (vfs_lseek fd off wh w)) k = Some (r, k') \<Longrightarrow> kernel_inv k \<Longrightarrow> kernel_inv k'"
  by (rule sys_vfs_inv) (auto dest: vfs_lseek_inv[of _ fd off wh])

lemma sys_write_inv: "sys_vfs (vfs_write ys fd buf n) k = Some (r, k') \<Longrightarrow> kernel_inv k \<Longrightarrow> kernel_inv k'"
  by (rule sys_vfs_inv) (auto intro: vfs_write_inv)

lemma writeback_page_inv: "writeback_page ys v p k = Some k' \<Longrightarrow> kernel_inv k \<Longrightarrow> kernel_inv k'"
  by (auto simp: writeback_page_def Let_def bind_eq_Some_conv split: if_splits
      dest!: sys_write_inv uload_bytes_inv sys_lseek_inv)

lemma writeback_inv: "vma_writeback_dirty ys a b v k = Some k' \<Longrightarrow> kernel_inv k \<Longrightarrow> kernel_inv k'"
  by (auto simp: vma_writeback_dirty_def split: if_splits elim: each_page_inv writeback_page_inv)

lemma unmap_pages_inv: "vma_unmap_pages a b k = Some k' \<Longrightarrow> kernel_inv k \<Longrightarrow> kernel_inv k'"
  by (auto simp: vma_unmap_pages_def elim!: each_page_inv)

lemma protect_pages_inv: "each_page (protect_page prot) a b k = Some k' \<Longrightarrow> kernel_inv k \<Longrightarrow> kernel_inv k'"
  by (erule each_page_inv) (auto simp: protect_page_def Let_def split: if_splits)

lemma brk_map_inv: "brk_map va k = (ok, k') \<Longrightarrow> kernel_inv k \<Longrightarrow> kernel_inv k'"
  by (auto simp: brk_map_def split: prod.splits if_splits)

lemma brk_grow_inv:
  assumes "brk_grow va fin k = Some (ok, k')" "kernel_inv k"
  shows "kernel_inv k'"
proof -
  have "kernel_inv k \<longrightarrow> kernel_inv (snd (ok, k'))"
    by (rule brk_grow.raw_induct[where P = "\<lambda>va fin k r. kernel_inv k \<longrightarrow> kernel_inv (snd r)", OF _ assms(1)])
      (auto split: if_splits prod.splits dest!: brk_map_inv)
  then show ?thesis using assms(2) by simp
qed

lemma munmap_loop_inv:
  assumes "munmap_loop ys addr fin i k = Some (r, k')" "kernel_inv k"
  shows "kernel_inv k'"
proof -
  have "kernel_inv k \<longrightarrow> kernel_inv (snd (r, k'))"
  proof (rule munmap_loop.raw_induct[where P = "\<lambda>ys addr fin i k r. kernel_inv k \<longrightarrow> kernel_inv (snd r)", OF _ assms(1)], intro impI)
    fix g ys addr fin i k r
    assume IH: "\<And>ys addr fin i k r. g ys addr fin i k = Some r \<Longrightarrow> kernel_inv k \<longrightarrow> kernel_inv (snd r)" and k: "kernel_inv k"
      and e: "(if VMA_MAX \<le> i then Some (Sys_ret 0, k) else if outside addr fin (fst (get_vt k) ! i) then g ys addr fin (i + 1) k
        else case vma_cut addr fin i (get_vt k) of (r, vt1) \<Rightarrow>
          if r < 0 then Some (sys_int (-1), put_vt vt1 k)
          else do { k2 \<leftarrow> vma_writeback_dirty ys (v_start (fst vt1 ! nat r)) (v_end (fst vt1 ! nat r)) (fst vt1 ! nat r) (put_vt vt1 k);
                  k3 \<leftarrow> vma_unmap_pages (v_start (fst vt1 ! nat r)) (v_end (fst vt1 ! nat r)) k2;
                  (case get_vt k3 of (v, n) \<Rightarrow> g ys addr fin (nat r + 1)
                       (put_vt (vma_try_merge (nat r) (v[nat r := (v ! nat r)\<lparr>v_used := False\<rparr>], n - 1)) k3)) }) = Some r"
    obtain q vt1 where c: "vma_cut addr fin i (get_vt k) = (q, vt1)" by (rule prod.exhaust)
    have k1: "kernel_inv (put_vt vt1 k)" using cut_length[of addr fin i "get_vt k"] k by (intro put_vt_inv) (simp_all add: c get_vt_len)
    show "kernel_inv (snd r)"
    proof (cases "VMA_MAX \<le> i \<or> outside addr fin (fst (get_vt k) ! i) \<or> q < 0")
      case True
      then show ?thesis using e IH k k1 by (auto simp: c split: if_splits)
    next
      case False
      with e obtain k2 k3 where k2: "vma_writeback_dirty ys (v_start (fst vt1 ! nat q)) (v_end (fst vt1 ! nat q)) (fst vt1 ! nat q) (put_vt vt1 k) = Some k2"
        "vma_unmap_pages (v_start (fst vt1 ! nat q)) (v_end (fst vt1 ! nat q)) k2 = Some k3"
        and g: "g ys addr fin (nat q + 1) (put_vt (vma_try_merge (nat q) ((fst (get_vt k3))[nat q := (fst (get_vt k3) ! nat q)\<lparr>v_used := False\<rparr>], snd (get_vt k3) - 1)) k3) = Some r"
        by (auto simp: c bind_eq_Some_conv split_beta)
      have "kernel_inv k3" using k2 k1 by (blast intro: writeback_inv unmap_pages_inv)
      then show ?thesis using IH[OF g] by (simp add: put_vt_inv get_vt_len)
    qed
  qed
  then show ?thesis using assms(2) by simp
qed

lemma mprotect_loop_inv:
  assumes "mprotect_loop addr fin prot i k = Some (r, k')" "kernel_inv k"
  shows "kernel_inv k'"
proof -
  have "kernel_inv k \<longrightarrow> kernel_inv (snd (r, k'))"
  proof (rule mprotect_loop.raw_induct[where P = "\<lambda>addr fin prot i k r. kernel_inv k \<longrightarrow> kernel_inv (snd r)", OF _ assms(1)], intro impI)
    fix g addr fin prot i k r
    assume IH: "\<And>addr fin prot i k r. g addr fin prot i k = Some r \<Longrightarrow> kernel_inv k \<longrightarrow> kernel_inv (snd r)" and k: "kernel_inv k"
      and e: "(if VMA_MAX \<le> i then Some (Sys_ret 0, k) else if outside addr fin (fst (get_vt k) ! i) then g addr fin prot (i + 1) k
        else case vma_cut addr fin i (get_vt k) of (r, v, n) \<Rightarrow>
          if r < 0 then Some (sys_int (-1), put_vt (v, n) k)
          else do { k2 \<leftarrow> each_page (protect_page prot) (v_start (v ! nat r)) (v_end (v ! nat r))
                         (put_vt (v[nat r := (v ! nat r)\<lparr>v_prot := prot\<rparr>], n) k);
                  g addr fin prot (nat r + 1) (put_vt (vma_try_merge (nat r) (get_vt k2)) k2) }) = Some r"
    obtain q v n where c: "vma_cut addr fin i (get_vt k) = (q, v, n)" by (metis prod.collapse)
    have l: "length v = VMA_MAX" using cut_length[of addr fin i "get_vt k"] get_vt_len[OF k] by (simp add: c)
    show "kernel_inv (snd r)"
    proof (cases "VMA_MAX \<le> i \<or> outside addr fin (fst (get_vt k) ! i) \<or> q < 0")
      case True
      then show ?thesis using e IH k l by (auto simp: c put_vt_inv split: if_splits)
    next
      case False
      with e obtain k2 where k2: "each_page (protect_page prot) (v_start (v ! nat q)) (v_end (v ! nat q)) (put_vt (v[nat q := (v ! nat q)\<lparr>v_prot := prot\<rparr>], n) k) = Some k2"
        and g: "g addr fin prot (nat q + 1) (put_vt (vma_try_merge (nat q) (get_vt k2)) k2) = Some r"
        by (auto simp: c bind_eq_Some_conv split: prod.splits)
      have "kernel_inv k2" using protect_pages_inv[OF k2] k l by (simp add: put_vt_inv)
      then show ?thesis using IH[OF g] by (simp add: put_vt_inv get_vt_len)
    qed
  qed
  then show ?thesis using assms(2) by simp
qed

lemma msync_loop_inv: "msync_loop ys addr fin is k = Some (r, k') \<Longrightarrow> kernel_inv k \<Longrightarrow> kernel_inv k'"
proof (induction "is" arbitrary: k)
  case (Cons i "is")
  then show ?case by (auto simp: Let_def bind_eq_Some_conv split: if_splits dest: writeback_inv)
qed simp

section \<open>Starting a program\<close>

lemma exec_args_inv [inv_intros]: "exec_args ys n va k = Some (bs, k') \<Longrightarrow> kernel_inv k \<Longrightarrow> kernel_inv k'"
proof (induction n arbitrary: va k bs)
  case (Suc n)
  then show ?case using uload_inv[of ys va k] by (fastforce simp: bind_eq_Some_conv split: if_splits)
qed simp

lemma sys_read_inv [inv_intros]: "sys_read ys fd sz k = Some (r, k') \<Longrightarrow> kernel_inv k \<Longrightarrow> kernel_inv k'"
  unfolding sys_read_def by (rule sys_vfs_inv) (auto split: outcome.splits prod.splits intro: vfs_read_inv)

lemma k_kmalloc_inv: "k_kmalloc sz k = (p, k') \<Longrightarrow> kernel_inv k \<Longrightarrow> kernel_inv k'"
  using kernel_inv_heap(2)[of sz k] by simp

lemma exec_read_inv [inv_intros]:
  assumes "exec_read ys fd buf cap data k = Some (b, d, k')" "kernel_inv k"
  shows "kernel_inv k'"
proof -
  have "kernel_inv k \<longrightarrow> kernel_inv (snd (snd (b, d, k')))"
  proof (rule exec_read.raw_induct[where P = "\<lambda>ys fd buf cap data k r. kernel_inv k \<longrightarrow> kernel_inv (snd (snd r))", OF _ assms(1)], intro impI)
    fix g ys fd buf cap data k r
    assume IH: "\<And>ys fd buf cap data k r. g ys fd buf cap data k = Some r \<Longrightarrow> kernel_inv k \<longrightarrow> kernel_inv (snd (snd r))" and k: "kernel_inv k"
      and e: "do { ((n, out), k1) \<leftarrow> sys_read ys fd 512 k;
          if n \<le> 0 then Some (buf, data, k1)
          else if of_nat (length data) + (of_int n :: u32) > cap then
            (case k_kmalloc (ucast (2 * cap)) k1 of (np, k2) \<Rightarrow>
               if np = 0 then None
               else g ys fd np (2 * cap) (data @ take (nat n) out) (k_kfree buf k2))
          else g ys fd buf cap (data @ take (nat n) out) k1 } = Some r"
    then obtain n out k1 where k1: "sys_read ys fd 512 k = Some ((n, out), k1)" by (auto simp: bind_eq_Some_conv)
    have i: "kernel_inv k1" by (rule sys_read_inv[OF k1 k])
    obtain np k2 where k2: "k_kmalloc (ucast (2 * cap)) k1 = (np, k2)" by (rule prod.exhaust)
    have "kernel_inv (k_kfree buf k2)" using k_kmalloc_inv[OF k2 i] by simp
    then show "kernel_inv (snd (snd r))" using e i by (auto simp: k1 k2 split: if_splits dest!: IH)
  qed
  then show ?thesis using assms(2) by simp
qed

lemma elf_segment_inv: "elf_segment ys img ph k = Some (ok, k') \<Longrightarrow> kernel_inv k \<Longrightarrow> kernel_inv k'"
  by (auto simp: elf_segment_def Let_def split: if_splits option.splits dest!: ustore_bytes_inv)

lemma elf_segments_inv: "elf_segments ys img phs k = Some (ok, k') \<Longrightarrow> kernel_inv k \<Longrightarrow> kernel_inv k'"
proof (induction phs arbitrary: k)
  case (Cons ph phs)
  then show ?case by (auto split: option.splits if_splits dest: elf_segment_inv)
qed simp

lemma elf64_load_inv [inv_intros]: "elf64_load ys img k = Some (r, e, k') \<Longrightarrow> kernel_inv k \<Longrightarrow> kernel_inv k'"
  by (auto simp: elf64_load_def Let_def split: if_splits option.splits prod.splits dest!: elf_segments_inv)

lemma sys_open_inv [inv_intros]: "sys_vfs (vfs_open path fl) k = Some (r, k') \<Longrightarrow> kernel_inv k \<Longrightarrow> kernel_inv k'"
  by (rule sys_vfs_inv) (auto intro: vfs_open_inv)

lemma sys_close_inv [inv_intros]: "sys_vfs (vfs_close fd) k = Some (r, k') \<Longrightarrow> kernel_inv k \<Longrightarrow> kernel_inv k'"
  by (rule sys_vfs_inv) (auto intro: vfs_close_inv)

lemma exec_load_inv:
  assumes "do { (ret, entry, k7) \<leftarrow> elf64_load ys img k;
      if ret < 0 then Some (sys_int (-1), k_kfree buf k7)
      else do { k8 \<leftarrow> ustore_bytes ys va bs (k_kfree buf k7); Some (f entry, k8) } } = Some (r, k')" "kernel_inv k"
  shows "kernel_inv k'"
proof -
  obtain ret entry k7 where k7: "elf64_load ys img k = Some (ret, entry, k7)" using assms(1) by (auto simp: bind_eq_Some_conv)
  have "kernel_inv (k_kfree buf k7)" using elf64_load_inv[OF k7 assms(2)] by simp
  then show ?thesis using assms(1) by (auto simp: k7 bind_eq_Some_conv split: if_splits dest: ustore_bytes_inv)
qed

lemma sys_exec_inv:
  assumes "sys_exec en arg1 arg2 k = Some (r, k')" "kernel_inv k"
  shows "kernel_inv k'"
proof -
  obtain args k1 path k2 fd k3 where
    k1: "(if arg2 \<noteq> 0 then exec_args (en_pipe en) 255 arg2 k else Some ([], k)) = Some (args, k1)"
    and k2: "ucstr (en_pipe en) arg1 k1 = Some (path, k2)" and k3: "sys_vfs (vfs_open path 0) k2 = Some (fd, k3)"
    using assms(1) unfolding sys_exec_def bind_eq_Some_conv by (auto simp: bind_eq_Some_conv)
  have i3: "kernel_inv k3"
    using k1 assms(2) by (intro sys_open_inv[OF k3] ucstr_inv[OF k2]) (auto split: if_splits dest: exec_args_inv)
  obtain buf0 k4 where k4: "k_kmalloc 65536 k3 = (buf0, k4)" by (rule prod.exhaust)
  note i4 = k_kmalloc_inv[OF k4 i3]
  note eq = assms(1)[unfolded sys_exec_def k1 bind.bind_lunit k2 prod.case k3 k4]
  show ?thesis
  proof (cases "fd < 0 \<or> buf0 = 0")
    case True
    then show ?thesis using eq i3 i4 by (auto simp: bind_eq_Some_conv split: if_splits dest: sys_close_inv)
  next
    case False
    then obtain buf data k5 r6 k6 where k5: "exec_read (en_pipe en) fd buf0 65536 [] k4 = Some (buf, data, k5)"
      and k6: "sys_vfs (vfs_close fd) k5 = Some (r6, k6)"
      using eq by (auto simp: bind_eq_Some_conv)
    have i6: "kernel_inv k6" by (rule sys_close_inv[OF k6 exec_read_inv[OF k5 i4]])
    show ?thesis
      using eq False i6 unfolding k5 k6 bind.bind_lunit prod.case
      by (auto split: if_splits dest: exec_load_inv)
  qed
qed

section \<open>The other calls\<close>

lemma sys_brk_inv: "sys_brk b k = Some (r, k') \<Longrightarrow> kernel_inv k \<Longrightarrow> kernel_inv k'"
proof -
  have f: "kernel_inv (put_proc (current_idx k) ((cur k)\<lparr>p_heap_break := b\<rparr>) k)" if "kernel_inv k" for k :: "'a kernel"
    using that cur_ok[OF that] by (intro keep_proc_inv) (auto simp: proc_ok_def)
  then show "sys_brk b k = Some (r, k') \<Longrightarrow> kernel_inv k \<Longrightarrow> kernel_inv k'"
    by (auto simp: sys_brk_def Let_def bind_eq_Some_conv split: if_splits dest: brk_grow_inv unmap_pages_inv)
qed

lemma sys_mmap_inv: "sys_mmap en a l p k = Some (r, k') \<Longrightarrow> kernel_inv k \<Longrightarrow> kernel_inv k'"
  using get_vt_len[of k] by (auto simp: sys_mmap_def Let_def split: if_splits prod.splits intro!: put_vt_inv)

lemma sys_fstat_inv: "sys_fstat en a b k = Some (r, k') \<Longrightarrow> kernel_inv k \<Longrightarrow> kernel_inv k'"
proof -
  have f: "sys_vfs (\<lambda>v. case vfs_fstat fd v of Returns (r, st, v') \<Rightarrow> Returns ((r, st), v') | Blocks \<Rightarrow> Blocks | Undef \<Rightarrow> Undef) k = Some (x, k1) \<Longrightarrow>
      kernel_inv k \<Longrightarrow> kernel_inv k1" for fd x k1
    by (rule sys_vfs_inv) (auto split: outcome.splits prod.splits intro: vfs_fstat_inv)
  then show "sys_fstat en a b k = Some (r, k') \<Longrightarrow> kernel_inv k \<Longrightarrow> kernel_inv k'"
    by (auto simp: sys_fstat_def bind_eq_Some_conv split: if_splits dest!: f ustore_bytes_inv)
qed

lemma sys_pipe_inv: "sys_pipe en a k = Some (r, k') \<Longrightarrow> kernel_inv k \<Longrightarrow> kernel_inv k'"
proof -
  have f: "sys_vfs (\<lambda>v. case vfs_pipe g v of (r, fds, v') \<Rightarrow> Returns ((r, fds), v')) k = Some (x, k1) \<Longrightarrow>
      kernel_inv k \<Longrightarrow> kernel_inv k1" for g x k1
    by (rule sys_vfs_inv) (auto split: prod.splits dest: vfs_pipe_inv[of _ g])
  then show "sys_pipe en a k = Some (r, k') \<Longrightarrow> kernel_inv k \<Longrightarrow> kernel_inv k'"
    by (auto simp: sys_pipe_def bind_eq_Some_conv split: if_splits option.splits dest!: f ustore_bytes_inv)
qed

lemma reap_kernel_inv: "kernel_inv k \<Longrightarrow> i < MAX_PROCS \<Longrightarrow> p_used (procs k ! i) \<Longrightarrow> kernel_inv (reap i k)"
  using reap_inv[of k i] put_files_ok[of k "(procs k ! i)\<lparr>p_used := False\<rparr>" i] kernel_invD(4)[of k i]
  by (auto simp: kernel_inv_def) (auto simp: reap_def put_proc_def)

lemma wait_loop_kernel_inv:
  assumes "wait_loop p ys k = Some (r, c, k')" "kernel_inv k" "\<forall>y\<in>set ys. \<forall>k. kernel_inv k \<longrightarrow> kernel_inv (y k)"
  shows "kernel_inv k'"
  using assms
proof (induction ys arbitrary: k)
  case Nil
  then show ?case by (auto split: option.splits if_splits dest: wait_zombie_Some intro!: reap_kernel_inv)
next
  case (Cons y ys)
  show ?case
  proof (cases "wait_zombie p k = None \<and> has_child p k")
    case True
    then show ?thesis using Cons.prems by (intro Cons.IH[of "y k"]) auto
  next
    case False
    then show ?thesis using Cons.prems(1,2) by (auto split: option.splits if_splits dest: wait_zombie_Some intro!: reap_kernel_inv)
  qed
qed

lemma sys_wait_inv:
  assumes "sys_wait en a k = Some (r, k')" "kernel_inv k" "\<forall>y\<in>set (en_yield en). \<forall>k. kernel_inv k \<longrightarrow> kernel_inv (y k)"
  shows "kernel_inv k'"
proof -
  obtain ret code k1 where w: "wait_loop (p_pid (cur k)) (en_yield en) k = Some (ret, code, k1)"
    using assms(1) by (auto simp: sys_wait_def proc_wait_def bind_eq_Some_conv)
  have "kernel_inv k1" by (rule wait_loop_kernel_inv[OF w assms(2,3)])
  then show ?thesis
    using assms(1) by (auto simp: sys_wait_def proc_wait_def w bind_eq_Some_conv split: if_splits dest: ustore_bytes_inv)
qed

lemma fork_kernel_inv:
  assumes "proc_fork k = (r, k')" "kernel_inv k"
  shows "kernel_inv k'"
proof -
  have "vfs_inv (k_vfs k') \<and> (\<forall>p\<in>set (procs k'). \<forall>f\<in>set (p_fds p). file_ok f) \<and> (\<forall>i. k_fds k' = Some i \<longrightarrow> i < MAX_PROCS)"
    using kernel_invD(1)[OF assms(2)] assms(1)
  proof (cases rule: proc_fork_cases)
    case (fail m n)
    then show ?thesis using assms(2) by (simp add: kernel_inv_def)
  next
    case (ok i m n pid cr3 kstack frame)
    show ?thesis unfolding ok(9)
      using assms(2) cur_ok[OF assms(2)]
      by (auto simp: kernel_inv_def put_proc_def dest!: set_update_subset_insert[THEN subsetD])
  qed
  then show ?thesis using proc_fork_inv[OF kernel_invD(1)[OF assms(2)] assms(1)] by (simp add: kernel_inv_def)
qed

lemma exit_kernel_inv: "kernel_inv k \<Longrightarrow> kernel_inv (proc_exit c k)"
  unfolding proc_exit_def by (rule keep_proc_inv) (use cur_ok[of k] in \<open>auto simp: proc_ok_def\<close>)

lemma sys_dup_inv: "sys_vfs (\<lambda>v. Returns (vfs_dup fd v)) k = Some (r, k') \<Longrightarrow> kernel_inv k \<Longrightarrow> kernel_inv k'"
  by (rule sys_vfs_inv) (auto dest: vfs_dup_inv[of _ fd])

lemma sys_dup2_inv: "sys_vfs (vfs_dup2 a b) k = Some (r, k') \<Longrightarrow> kernel_inv k \<Longrightarrow> kernel_inv k'"
  by (rule sys_vfs_inv) (auto intro: vfs_dup2_inv)

lemma sys_loops_inv:
  "sys_munmap ys a l k = Some (r, k') \<Longrightarrow> kernel_inv k \<Longrightarrow> kernel_inv k'"
  "sys_msync ys a l k = Some (r, k') \<Longrightarrow> kernel_inv k \<Longrightarrow> kernel_inv k'"
  "sys_mprotect a l prot k = Some (r, k') \<Longrightarrow> kernel_inv k \<Longrightarrow> kernel_inv k'"
  by (auto simp: sys_munmap_def sys_msync_def sys_mprotect_def split: if_splits
      intro: munmap_loop_inv msync_loop_inv mprotect_loop_inv)

lemma syscall_inv:
  assumes "syscall_handler en num arg1 arg2 arg3 k = Some (e, k')" "kernel_inv k"
    and "\<forall>y\<in>set (en_yield en). \<forall>k. kernel_inv k \<longrightarrow> kernel_inv (y k)"
  shows "kernel_inv k'"
proof -
  have y: "kernel_inv k'" if "sys_yield en k = Some (e, k')" using that assms(2,3) by (auto simp: sys_yield_def split: list.splits)
  have w: "kernel_inv k'" if "sys_wait en arg1 k = Some (e, k')" by (rule sys_wait_inv[OF that assms(2,3)])
  have f: "kernel_inv k'" if "(case proc_fork k of (pid, k1) \<Rightarrow> Some (sys_int pid, k1)) = Some (e, k')"
    using that assms(2) by (auto split: prod.splits intro: fork_kernel_inv)
  show ?thesis
    using assms(1,2) y w f exit_kernel_inv[OF assms(2)] unfolding syscall_handler_def
    by (auto simp: bind_eq_Some_conv simp del: case_prod_conv split: if_splits
        dest: ucstr_inv sys_open_inv sys_read_inv ustore_bytes_inv uload_bytes_inv sys_write_inv sys_close_inv
          sys_exec_inv sys_fstat_inv sys_brk_inv sys_mmap_inv sys_loops_inv sys_pipe_inv sys_dup_inv sys_dup2_inv)
qed

section \<open>The kernel as a whole\<close>

lemma fault_kernel_inv: "exception_handler ys v e cr2 k = Some k' \<Longrightarrow> kernel_inv k \<Longrightarrow> kernel_inv k'"
  by (auto simp: exception_handler_def page_fault_def Let_def split: if_splits
      intro: pf_copy_inv pf_zero_inv pf_demand_inv)

lemma tick_kernel_inv:
  assumes "kernel_inv k"
  shows "kernel_inv (snd (sched_irq_return frame k))"
proof -
  let ?k = "save_frame frame k"
  have k: "kernel_inv ?k"
    unfolding save_frame_def using assms cur_ok[OF assms] by (auto intro!: keep_proc_inv simp: proc_ok_def)
  have c: "fst (sched_scan (procs ?k) (current_idx k) 0) < MAX_PROCS" by (rule sched_scan_lt)
  then have k1: "kernel_inv (?k\<lparr>current_idx := fst (sched_scan (procs ?k) (current_idx k) 0)\<rparr>)"
    using k by (auto simp: kernel_inv_def intro: proc_inv_current)
  have s: "kernel_inv (set_cr3_of p ((set_kernel_stack x q)\<lparr>k_fds := Some c\<rparr>))" if "kernel_inv q" "c < MAX_PROCS" for p x c and q :: "'a kernel"
    using that by (auto simp: kernel_inv_def set_cr3_of_def set_kernel_stack_def proc_inv_def)
  show ?thesis using k1 s[OF k1 c] by (simp add: sched_irq_return_eq split_beta Let_def)
qed

text \<open>
  Steps of the running kernel: a system call of the current process during whose waits the others keep the
  invariant, a page fault, a timer interrupt.
\<close>

inductive kernel_step :: "'fs kernel \<Rightarrow> 'fs kernel \<Rightarrow> bool" where
  call: "\<forall>y\<in>set (en_yield en). \<forall>k. kernel_inv k \<longrightarrow> kernel_inv (y k) \<Longrightarrow>
    syscall_handler en num arg1 arg2 arg3 k = Some (e, k') \<Longrightarrow> kernel_step k k'"
| fault: "exception_handler ys vector error_code cr2 k = Some k' \<Longrightarrow> kernel_step k k'"
| tick: "sched_irq_return frame k = (f, k') \<Longrightarrow> kernel_step k k'"

lemma kernel_step_inv: "kernel_step k k' \<Longrightarrow> kernel_inv k \<Longrightarrow> kernel_inv k'"
proof (induction rule: kernel_step.induct)
  case (tick frame k f k')
  then show ?case using tick_kernel_inv[of k frame] by simp
qed (blast intro: syscall_inv fault_kernel_inv)+

section \<open>Properties\<close>


lemma kern_init_inv: "kernel_inv kern_init"
proof -
  have p: "procs kern_init ! i = (if i = 0 then proc_ex True 1 1 else proc_ex False 0 0)" if "i < 64" for i
    using that by (auto simp: kern_ex_def nth_append)
  have l: "length (procs kern_init) = 64" "filter p_used (procs kern_init) = [proc_ex True 1 1]" by (simp_all add: kern_ex_def)
  moreover have "pids_unique (procs kern_init)" unfolding pids_unique_def using l(1) by (auto simp: p)
  ultimately have "proc_inv kern_init" by (simp add: proc_inv_def MAX_PROCS_def kern_ex_def proc_ex_ok)
  moreover have "vfs_inv (k_vfs kern_init)" using vfs_example_inv by (simp add: kern_ex_def)
  ultimately show ?thesis using vfs_example_inv by (auto simp: kernel_inv_def kern_ex_def proc_ex_def MAX_PROCS_def vfs_inv_def)
qed

definition env_ex :: "unit sys_env" where
  "env_ex = \<lparr>en_pipe = [], en_yield = [], en_stat = replicate 16 0, en_offset = 0, en_heap = (\<lambda>_. 0), en_ring = []\<rparr>"


end
