(* ===== verification/MemoryProps.thy ===== *)
theory MemoryProps
  imports SyscallProps
begin

text \<open>
  What the memory calls do to a process: \<open>brk\<close> and \<open>mmap\<close> of \<open>src/kernel/user/syscall_handler.c\<close>, cutting and
  merging areas, and the permissions the program loader gives a segment.
\<close>

section \<open>A page from the allocator, mapped as it is\<close>

lemma get_or_alloc_table_live:
  assumes "page_inv (vm_pmm s)" "0 < free_pages s" "get_or_alloc_table a i is_pd user s = (t, s')"
  shows "page_live (vm_pmm s) \<subseteq> page_live (vm_pmm s')"
proof -
  obtain x s1 where al: "vm_page_alloc s = (x, s1)" by (cases "vm_page_alloc s")
  have "vm_pmm s' = vm_pmm s \<or> vm_pmm s' = vm_pmm s1"
    using assms(3) vm_page_alloc_fresh(2)[OF assms(1,2) al, THEN split_huge_get(2), OF vm_page_alloc_fresh(2)[OF assms(1,2) al], of 0]
    by (auto simp: get_or_alloc_table_def Let_def al frame_simps split: if_splits)
  then show ?thesis using vm_page_alloc_fresh(4)[OF assms(1,2) al] by auto
qed

lemma vmm_map_live:
  assumes inv: "vm_inv cr3 s" and fr: "3 \<le> free_pages s"
  shows "page_live (vm_pmm s) \<subseteq> page_live (vm_pmm (vmm_map_in_cr3 cr3 virt phys flags s))"
proof -
  let ?i = "pml4_lookup virt" and ?j = "pdpt_lookup virt" and ?k = "pd_lookup virt"
  obtain t1 s1 t2 s2 t3 s3 where g: "get_or_alloc_table cr3 ?i False (?i < 256) s = (t1, s1)"
    "get_or_alloc_table t1 ?j False (?i < 256) s1 = (t2, s2)" "get_or_alloc_table t2 ?k True (?i < 256) s2 = (t3, s3)"
    and iv: "vm_inv cr3 s1" "vm_inv cr3 s2" and fp: "2 \<le> free_pages s1" "1 \<le> free_pages s2"
    and m: "vmm_map_in_cr3 cr3 virt phys flags s = tbl_set t3 (pt_lookup virt) (pte_value phys flags) s3"
    using vmm_map_chain[OF inv fr, of virt] by metis
  have "page_live (vm_pmm s) \<subseteq> page_live (vm_pmm s1)" by (rule get_or_alloc_table_live[OF vm_invD(1)[OF inv] _ g(1)]) (use fr in simp)
  moreover have "page_live (vm_pmm s1) \<subseteq> page_live (vm_pmm s2)" by (rule get_or_alloc_table_live[OF vm_invD(1)[OF iv(1)] _ g(2)]) (use fp in simp)
  moreover have "page_live (vm_pmm s2) \<subseteq> page_live (vm_pmm s3)" by (rule get_or_alloc_table_live[OF vm_invD(1)[OF iv(2)] _ g(3)]) (use fp in simp)
  ultimately show ?thesis by (auto simp: m frame_simps)
qed

lemma map_raw_page:
  assumes inv: "vm_inv (vm_cr3 m) m" and fr: "n + 4 \<le> free_pages m" and al: "vm_page_alloc m = (x, m1)"
    and m2_def: "m2 = vmm_map page x flags m1"
  shows "x \<noteq> 0" "x \<notin> page_live (vm_pmm m)" "vm_inv (vm_cr3 m) m2" "vm_cr3 m2 = vm_cr3 m" "n \<le> free_pages m2"
    "page_live (vm_pmm m) \<subseteq> page_live (vm_pmm m2)"
    "translate (vm_cr3 m) va m2 = (if vpage va = vpage page then Some (pte_value x flags) else translate (vm_cr3 m) va m)"
    "page_bytes (vm_mem m2) x = page_bytes (vm_mem m) x"
    "plain (vm_cr3 m) m P \<Longrightarrow> plain (vm_cr3 m) m2 P \<and> page_bytes (vm_mem m2) P = page_bytes (vm_mem m) P"
proof -
  let ?cr3 = "vm_cr3 m"
  have fr0: "0 < free_pages m" using fr by simp
  note fresh = vm_page_alloc_fresh[OF vm_invD(1)[OF inv] fr0 al] and ap = alloc_plain[OF inv fr0 al]
  show "x \<noteq> 0" "x \<notin> page_live (vm_pmm m)" using fresh by simp_all
  have fr1: "3 \<le> free_pages m1" "n + 3 \<le> free_pages m1" using fresh(8) fr by simp_all
  have m2: "m2 = vmm_map_in_cr3 ?cr3 page x flags m1" by (simp add: m2_def vmm_map_def vmm_read_cr3_def fresh(7))
  note eff = vmm_map_in_cr3_effect[OF ap(1) fr1(1) m2] and pl = vmm_map_plain[OF ap(1) fr1(1), of _ page x flags, folded m2]
  show "vm_inv ?cr3 m2" "vm_cr3 m2 = ?cr3" using eff fresh(7) by simp_all
  show "n \<le> free_pages m2" unfolding m2 by (rule vmm_map_free[OF ap(1) fr1(2)])
  show "page_live (vm_pmm m) \<subseteq> page_live (vm_pmm m2)"
    using vmm_map_live[OF ap(1) fr1(1), of page x flags, folded m2] fresh(4) by auto
  show "translate ?cr3 va m2 = (if vpage va = vpage page then Some (pte_value x flags) else translate ?cr3 va m)"
    using eff[THEN conjunct2, THEN conjunct2, THEN conjunct2, rule_format, of va] ap(5)[of va] by simp
  show "page_bytes (vm_mem m2) x = page_bytes (vm_mem m) x" using pl[OF ap(2)] ap(4) by simp
  show "plain ?cr3 m P \<Longrightarrow> plain ?cr3 m2 P \<and> page_bytes (vm_mem m2) P = page_bytes (vm_mem m) P"
    using pl ap(3,4) by simp
qed

section \<open>Growing the heap\<close>

definition brk_flags :: u64 where "brk_flags = PG_PRESENT OR PG_WRITE OR PG_USER OR PG_NX"

text \<open>Addresses of \<open>n\<close> pages from \<open>va\<close> on.\<close>

definition in_pages :: "u64 \<Rightarrow> nat \<Rightarrow> u64 \<Rightarrow> bool" where
  "in_pages va n a \<longleftrightarrow> (\<exists>i<n. vpage a = vpage (va + of_nat (4096 * i)))"

lemma in_pages_Suc: "in_pages va (Suc n) a \<longleftrightarrow> vpage a = vpage va \<or> in_pages (va + 0x1000) n a"
  unfolding in_pages_def Ex_less_Suc2 by (simp add: algebra_simps)

lemma in_pages_0 [simp]: "\<not> in_pages va 0 a"
  by (simp add: in_pages_def)

text \<open>Memory \<open>m\<close> is memory \<open>m0\<close> with \<open>n\<close> fresh pages mapped from \<open>va\<close> on.\<close>

definition grown :: "u64 \<Rightarrow> nat \<Rightarrow> mmu \<Rightarrow> mmu \<Rightarrow> bool" where
  "grown va n m0 m \<longleftrightarrow> vm_inv (vm_cr3 m0) m \<and> vm_cr3 m = vm_cr3 m0 \<and>
     (\<forall>a. in_pages va n a \<longrightarrow> (\<exists>x. x \<notin> page_live (vm_pmm m0) \<and> translate (vm_cr3 m0) a m = Some (pte_value x brk_flags))) \<and>
     (\<forall>a. \<not> in_pages va n a \<longrightarrow> translate (vm_cr3 m0) a m = translate (vm_cr3 m0) a m0) \<and>
     (\<forall>P. plain (vm_cr3 m0) m0 P \<longrightarrow> page_bytes (vm_mem m) P = page_bytes (vm_mem m0) P)"

lemma grown_step:
  assumes "vm_inv (vm_cr3 m) m" "4 \<le> free_pages m" "vm_page_alloc m = (x, m1)" "grown (va + 0x1000) n (vmm_map va x brk_flags m1) m3"
  shows "grown va (Suc n) m m3"
proof -
  have fr: "0 + 4 \<le> free_pages m" using assms(2) by simp
  define m2 where "m2 = vmm_map va x brk_flags m1"
  note mp = map_raw_page[OF assms(1) fr assms(3) m2_def]
  note g = assms(4)[folded m2_def, unfolded grown_def mp(4)]
  have "\<exists>y. y \<notin> page_live (vm_pmm m) \<and> translate (vm_cr3 m) a m3 = Some (pte_value y brk_flags)" if "in_pages va (Suc n) a" for a
  proof (cases "in_pages (va + 0x1000) n a")
    case True
    then show ?thesis using g mp(6) by blast
  next
    case False
    then have "translate (vm_cr3 m) a m3 = Some (pte_value x brk_flags)"
      using that g mp(7)[of a] by (simp add: in_pages_Suc)
    then show ?thesis using mp(2) by blast
  qed
  moreover have "translate (vm_cr3 m) a m3 = translate (vm_cr3 m) a m" if "\<not> in_pages va (Suc n) a" for a
    using that g mp(7)[of a] by (simp add: in_pages_Suc)
  moreover have "page_bytes (vm_mem m3) P = page_bytes (vm_mem m) P" if "plain (vm_cr3 m) m P" for P
    using g mp(9)[OF that] by auto
  ultimately show ?thesis using g unfolding grown_def by blast
qed

lemma brk_grow_effect:
  assumes "vm_inv (vm_cr3 (k_mmu k)) (k_mmu k)" "4 * n \<le> free_pages (k_mmu k)" "unat va + 4096 * n < 2 ^ 64"
  shows "\<exists>m. brk_grow va (va + of_nat (4096 * n)) k = Some (True, k\<lparr>k_mmu := m\<rparr>) \<and> grown va n (k_mmu k) m"
  using assms
proof (induction n arbitrary: va k)
  case 0
  then show ?case by (intro exI[of _ "k_mmu k"]) (simp add: brk_grow.simps grown_def)
next
  case (Suc n)
  let ?fin = "va + of_nat (4096 * Suc n)"
  obtain x m1 where al: "vm_page_alloc (k_mmu k) = (x, m1)" by fastforce
  define m2 where "m2 = vmm_map va x brk_flags m1"
  have fr: "4 * n + 4 \<le> free_pages (k_mmu k)" using Suc.prems(2) by simp
  note mp = map_raw_page[OF Suc.prems(1) fr al m2_def]
  have un: "unat (of_nat (4096 * Suc n) :: u64) = 4096 * Suc n" using Suc.prems(3) by (intro unat_of_nat_small) simp
  have lt: "va < ?fin" using Suc.prems(3) un by (simp only: word_less_nat_alt unat_add_lem[THEN iffD1]) (subst unat_add_lem[THEN iffD1], simp_all)
  have step: "brk_grow va ?fin k = brk_grow (va + 0x1000) ?fin (k\<lparr>k_mmu := m2\<rparr>)"
    by (subst brk_grow.simps) (use lt mp(1) in \<open>simp add: brk_map_def al m2_def brk_flags_def\<close>)
  have fin: "?fin = (va + 0x1000) + of_nat (4096 * n)" by (simp add: algebra_simps)
  have va: "unat (va + 0x1000) + 4096 * n < 2 ^ 64" using Suc.prems(3) by (subst unat_add_lem[THEN iffD1]) simp_all
  obtain m where "brk_grow (va + 0x1000) ?fin (k\<lparr>k_mmu := m2\<rparr>) = Some (True, k\<lparr>k_mmu := m\<rparr>)" "grown (va + 0x1000) n m2 m"
    using Suc.IH[of "k\<lparr>k_mmu := m2\<rparr>" "va + 0x1000"] mp(3-5) va unfolding fin by auto
  then show ?case using grown_step[OF Suc.prems(1) _ al, of va n m] fr step by (auto simp: m2_def)
qed

lemma page_floor: "page_aligned (a AND NOT 0xFFF)"
  using page_aligned_frame[of a] by (simp only: frame_addr_def)

lemma unat_frame_addr: "unat (frame_addr x) = unat x div 4096 * 4096"
  unfolding frame_addr_def by (rule unat_align4096)

lemma aligned_span:
  assumes "page_aligned a" "page_aligned b" "a \<le> b" "n = (unat b - unat a) div 4096"
  shows "b = a + of_nat (4096 * n)" "unat a + 4096 * n < 2 ^ 64"
proof -
  have le: "unat a \<le> unat b" using assms(3) by (simp add: word_le_nat_alt)
  have "4096 dvd unat b - unat a" using assms(1,2) by (auto simp: page_aligned_def mod_eq_0_iff_dvd intro: dvd_diff_nat)
  then have n: "4096 * n = unat b - unat a" using assms(4) by simp
  then show "unat a + 4096 * n < 2 ^ 64" using le unat_bound[of b] by simp
  have "unat (of_nat (unat b - unat a) :: u64) = unat b - unat a"
    by (rule unat_of_nat_small) (use unat_bound[of b] in simp)
  then have "unat (a + of_nat (unat b - unat a)) = unat b"
    using le unat_bound[of b] by (subst unat_add_small) simp_all
  then show "b = a + of_nat (4096 * n)" unfolding n by (metis word_unat_eq_iff)
qed

section \<open>New areas\<close>

lemma hint_above:
  assumes "\<forall>i<VMA_MAX. v_used (v ! i) \<longrightarrow> v_end (v ! i) \<le> 0x7FFFFFFFFFFF"
  shows "\<forall>i<VMA_MAX. v_used (v ! i) \<longrightarrow> v_end (v ! i) \<le> vma_hint v" "page_aligned (vma_hint v)" "0x40000000 \<le> vma_hint v" "vma_hint v \<le> 0x800000000000"
proof -
  let ?f = "\<lambda>i hint. if v_used (v ! i) \<and> v_end (v ! i) > hint then v_end (v ! i) else hint"
  define h where "h = fold ?f [0..<VMA_MAX] 0x40000000"
  have up: "fold ?f is x \<le> 0x7FFFFFFFFFFF" if "x \<le> 0x7FFFFFFFFFFF" "\<forall>i\<in>set is. i < VMA_MAX" for "is" x
    using that assms by (induction "is" arbitrary: x) auto
  have hb: "h \<le> 0x7FFFFFFFFFFF" unfolding h_def by (rule up) simp_all
  have e: "vma_hint v = frame_addr (h + 0xFFF)" by (simp only: vma_hint_def h_def Let_def frame_addr_def)
  show "page_aligned (vma_hint v)" unfolding e by (rule page_aligned_frame)
  have u: "unat (h + 0xFFF) = unat h + 4095" using hb by (subst unat_add_small) (simp_all add: word_le_nat_alt)
  have ge: "h \<le> vma_hint v" "vma_hint v \<le> 0x800000000000"
    using hb unfolding e word_le_nat_alt unat_frame_addr u by (simp_all add: word_le_nat_alt)
  have "0x40000000 \<le> h" "\<forall>i<VMA_MAX. v_used (v ! i) \<longrightarrow> v_end (v ! i) \<le> h"
    using hint_fold[of "0x40000000" v "[0..<VMA_MAX]"] unfolding h_def by simp_all
  then show "\<forall>i<VMA_MAX. v_used (v ! i) \<longrightarrow> v_end (v ! i) \<le> vma_hint v" "0x40000000 \<le> vma_hint v"
    using ge(1) by (auto intro: order_trans)
  show "vma_hint v \<le> 0x800000000000" by (rule ge(2))
qed

text \<open>Filling a free slot with an area that overlaps no other.\<close>

lemma add_area:
  assumes ok: "vma_ok v" and i: "i < VMA_MAX" "\<not> v_used (v ! i)" and a: "v_used a" "v_start a < v_end a"
    and out: "\<forall>j<VMA_MAX. v_used (v ! j) \<longrightarrow> v_end (v ! j) \<le> v_start a \<or> v_end a \<le> v_start (v ! j)"
  shows "vma_ok (v[i := a])" "vma_attr x (v[i := a]) = (if covers a x then Some (attr_of a x) else vma_attr x v)"
proof -
  have len: "length v = VMA_MAX" by (rule vma_okD(1)[OF ok])
  have el: "v[i := a] ! j = (if j = i then a else v ! j)" if "j < VMA_MAX" for j using that len by (simp add: nth_list_update)
  show ok': "vma_ok (v[i := a])"
    unfolding vma_ok_def
  proof (intro conjI allI impI)
    show "length (v[i := a]) = VMA_MAX" by (simp add: len)
    show "v_start (v[i := a] ! j) < v_end (v[i := a] ! j)" if "j < VMA_MAX" "v_used (v[i := a] ! j)" for j
      using that a vma_okD(2)[OF ok, of j] by (auto simp: el split: if_splits)
    show "v_end (v[i := a] ! j) \<le> v_start (v[i := a] ! l) \<or> v_end (v[i := a] ! l) \<le> v_start (v[i := a] ! j)"
      if "j < VMA_MAX" "l < VMA_MAX" "j \<noteq> l \<and> v_used (v[i := a] ! j) \<and> v_used (v[i := a] ! l)" for j l
      using that out vma_okD(3)[OF ok, of j l] by (auto simp: el split: if_splits)
  qed
  show "vma_attr x (v[i := a]) = (if covers a x then Some (attr_of a x) else vma_attr x v)"
  proof (cases "covers a x")
    case True
    then show ?thesis using vma_attr_Some[OF ok' i(1), of x] by (simp add: el i)
  next
    case False
    have "vma_attr x (v[i := a]) = vma_attr x v"
    proof (rule vma_attr_eqI[OF ok ok'])
      fix j assume j: "j < VMA_MAX" "covers (v ! j) x"
      then have "j \<noteq> i" using i by (auto simp: covers_def)
      then show "\<exists>l<VMA_MAX. covers (v[i := a] ! l) x \<and> attr_of (v[i := a] ! l) x = attr_of (v ! j) x"
        using j by (intro exI[of _ j]) (simp add: el)
    next
      fix j assume "j < VMA_MAX" "covers (v[i := a] ! j) x"
      then show "\<exists>l<VMA_MAX. covers (v ! l) x" using False by (intro exI[of _ j]) (auto simp: el split: if_splits)
    qed
    then show ?thesis using False by simp
  qed
qed

section \<open>Removing areas\<close>

lemma unmap_pages_ends:
  assumes "fin \<le> 0xFFFFFFFFFFFFF000"
  shows "\<exists>m. vma_unmap_pages p fin k = Some (k\<lparr>k_mmu := m\<rparr>)"
proof (induction "unat fin - unat p" arbitrary: p k rule: less_induct)
  case less
  show ?case
  proof (cases "p < fin")
    case True
    let ?k = "k\<lparr>k_mmu := vmm_unmap p (k_mmu k)\<rparr>"
    have "unat (p + 0x1000) = unat p + 4096"
      using True assms by (subst unat_add_small) (simp_all add: word_less_nat_alt word_le_nat_alt)
    then have "unat fin - unat (p + 0x1000) < unat fin - unat p" using True by (simp add: word_less_nat_alt)
    from less[OF this, of ?k] obtain m where "vma_unmap_pages (p + 0x1000) fin ?k = Some (k\<lparr>k_mmu := m\<rparr>)" by auto
    then show ?thesis using True by (auto simp: vma_unmap_pages_def each_page.simps[of _ p])
  next
    case False
    then show ?thesis by (intro exI[of _ "k_mmu k"]) (simp add: vma_unmap_pages_def each_page.simps)
  qed
qed

lemma munmap_skip:
  assumes "j \<le> i" "i \<le> VMA_MAX" "\<And>l. j \<le> l \<Longrightarrow> l < i \<Longrightarrow> outside addr fin (fst (get_vt k) ! l)"
  shows "munmap_loop ys addr fin j k = munmap_loop ys addr fin i k"
  using assms
proof (induction "i - j" arbitrary: j)
  case (Suc d)
  have "j < VMA_MAX" "outside addr fin (fst (get_vt k) ! j)" using Suc.hyps(2) Suc.prems by simp_all
  then have "munmap_loop ys addr fin j k = munmap_loop ys addr fin (j + 1) k" by (subst munmap_loop.simps) simp
  also have "\<dots> = munmap_loop ys addr fin i k" using Suc.hyps(2) Suc.prems by (intro Suc.hyps(1)) simp_all
  finally show ?case .
qed simp

lemma get_put_vt: "current_idx k < length (procs k) \<Longrightarrow> get_vt (put_vt vt k) = vt"
  by (simp add: get_vt_def put_vt_def put_proc_def)

lemma put_vt_simps [simp]: "current_idx (put_vt vt k) = current_idx k" "length (procs (put_vt vt k)) = length (procs k)"
  by (simp_all add: put_vt_def put_proc_def)

lemma get_vt_mmu [simp]: "get_vt (k\<lparr>k_mmu := m\<rparr>) = get_vt k"
  by (simp add: get_vt_def)

text \<open>Joining a freed slot to its left neighbour.\<close>

lemma merge_freed:
  assumes "length v = VMA_MAX" "0 < i" "i < VMA_MAX" "v_used (v ! (i - 1))" "v_end (v ! (i - 1)) = v_start (v ! i)" "vma_compat (v ! (i - 1)) (v ! i)"
  shows "vma_try_merge i (v[i := (v ! i)\<lparr>v_used := False\<rparr>], n - 1) =
    (v[i := (v ! i)\<lparr>v_used := False\<rparr>, i - 1 := (v ! (i - 1))\<lparr>v_end := v_end (v ! i)\<rparr>], n - 2)"
proof -
  obtain j where i: "i = Suc j" using assms(2) by (cases i) auto
  let ?a = "(v ! i)\<lparr>v_used := False\<rparr>" and ?b = "(v ! j)\<lparr>v_end := v_end (v ! i)\<rparr>"
  have n: "v[i := ?a] ! j = v ! j" "v[i := ?a] ! i = ?a" "v[i := ?a, j := ?b] ! i = ?a" using assms(1,3) i by simp_all
  have "v[i := ?a, j := ?b, i := ?a] = v[i := ?a, j := ?b]"
    using n(3) list_update_id[of "v[i := ?a, j := ?b]" i] by argo
  moreover have "vma_compat (v ! j) ?a" "v_end (v ! j) = v_start (v ! i)" using assms(5,6) i by (simp_all add: vma_compat_def)
  ultimately have "merge_pair j i (v[i := ?a], n - 1) = Some (v[i := ?a, j := ?b], n - 2)"
    by (simp add: merge_pair_def Let_def n)
  then show ?thesis using assms(4) n i by (simp add: vma_try_merge_def)
qed

section \<open>Properties\<close>



text \<open>
  C4: Cutting an area in two and joining two areas change no area as a process sees it: for every address, the
  protection, flags, file and file offset of the area that covers it are the same before and after.
\<close>

theorem areas_transparent:
  assumes "vma_ok v" "i < VMA_MAX" "v_used (v ! i)"
  shows "vma_ok (fst (snd (vma_split i x (v, n)))) \<and> vma_ok (fst (vma_try_merge i (v, n))) \<and>
    (\<forall>a. vma_attr a (fst (snd (vma_split i x (v, n)))) = vma_attr a v \<and> vma_attr a (fst (vma_try_merge i (v, n))) = vma_attr a v)"
proof -
  obtain r w m where s: "vma_split i x (v, n) = (r, (w, m))" by (metis prod.collapse)
  obtain w' m' where t: "vma_try_merge i (v, n) = (w', m')" by (metis prod.collapse)
  show ?thesis
    using vma_split_ok[OF assms s] vma_split_transparent[OF assms s] vma_try_merge_transparent[OF assms t] by (simp add: s t)
qed

text \<open>
  Unmapping the second of two adjacent areas of the same kind does not remove it: its slot is freed, but the
  attempt to join neighbours, which does not check that the freed slot is in use, extends the first area over
  it again. The call reports success, the whole range is still covered, and the count of areas drops by two.
\<close>

theorem munmap_restores_area:
  assumes "current_idx k < length (procs k)" "length v = VMA_MAX" "get_vt k = (v, n)" "0 < i" "i < VMA_MAX" "v_used (v ! (i - 1))" "v_used (v ! i)"
    and "v_end (v ! (i - 1)) = v_start (v ! i)" "vma_compat (v ! (i - 1)) (v ! i)" "v_fd (v ! i) < 0"
    and "v_start (v ! (i - 1)) < v_end (v ! (i - 1))" "v_start (v ! i) < v_end (v ! i)" "v_end (v ! i) \<le> 0x7FFFFFFFFFFF"
    and "len \<noteq> 0" "range_end (v_start (v ! i)) len = v_end (v ! i)"
    and "\<forall>j<VMA_MAX. j \<noteq> i \<longrightarrow> outside (v_start (v ! i)) (v_end (v ! i)) (v ! j)"
  shows "\<exists>k' w. sys_munmap ys (v_start (v ! i)) len k = Some (Sys_ret 0, k') \<and> get_vt k' = (w, n - 2) \<and>
    (\<forall>x. v_start (v ! i) \<le> x \<and> x < v_end (v ! i) \<longrightarrow> covers (w ! (i - 1)) x)"
proof -
  let ?s = "v_start (v ! i)" and ?e = "v_end (v ! i)"
  have ep: "?e \<le> 0xFFFFFFFFFFFFF000" using assms(13) by (rule order_trans) simp
  define v1 where "v1 = v[i := (v ! i)\<lparr>v_used := False\<rparr>]"
  define w where "w = v1[i - 1 := (v ! (i - 1))\<lparr>v_end := ?e\<rparr>]"
  have mg: "vma_try_merge i (v1, n - 1) = (w, n - 2)"
    unfolding w_def v1_def by (rule merge_freed) (use assms in simp_all)
  obtain m where um: "vma_unmap_pages ?s ?e (put_vt (v, n) k) = Some ((put_vt (v, n) k)\<lparr>k_mmu := m\<rparr>)"
    using unmap_pages_ends[OF ep] by blast
  let ?k3 = "(put_vt (v, n) k)\<lparr>k_mmu := m\<rparr>" and ?k' = "put_vt (w, n - 2) ((put_vt (v, n) k)\<lparr>k_mmu := m\<rparr>)"
  have c: "vma_cut ?s ?e i (v, n) = (int i, (v, n))" by (simp add: vma_cut_def)
  have in_i: "\<not> outside ?s ?e (v ! i)" using assms(7,12) by (simp add: outside_def)
  have wl: "w ! l = v ! l" if "i < l" for l using that by (simp add: w_def v1_def)
  have g': "get_vt ?k' = (w, n - 2)" using assms(1) by (simp add: get_put_vt)
  have "sys_munmap ys ?s len k = munmap_loop ys ?s ?e 0 k" using assms(14,15) by (simp add: sys_munmap_def)
  also have "\<dots> = munmap_loop ys ?s ?e i k" by (rule munmap_skip) (use assms(3,5,16) in auto)
  also have "\<dots> = munmap_loop ys ?s ?e (i + 1) ?k'"
  proof -
    have f: "fst (get_vt k) = v" "get_vt ?k3 = (v, n)" "vma_writeback_dirty ys ?s ?e (v ! i) (put_vt (v, n) k) = Some (put_vt (v, n) k)"
      using assms(1,3,10) by (simp_all add: get_put_vt vma_writeback_dirty_def)
    have ni: "\<not> VMA_MAX \<le> i" "nat (int i) = i" "\<not> int i < 0" using assms(5) by simp_all
    show ?thesis
      by (subst munmap_loop.simps)
         (simp only: f assms(3) c prod.case fst_conv ni if_False in_i um Option.bind.bind_lunit v1_def[symmetric] mg)
  qed
  also have "\<dots> = munmap_loop ys ?s ?e VMA_MAX ?k'" by (rule munmap_skip) (use assms(5,16) wl g' in auto)
  also have "\<dots> = Some (Sys_ret 0, ?k')" by (subst munmap_loop.simps) simp
  finally have run: "sys_munmap ys ?s len k = Some (Sys_ret 0, ?k')" .
  have "covers (w ! (i - 1)) x" if "?s \<le> x" "x < ?e" for x
    using that assms(2,4,5,6,8,11) by (auto simp: w_def v1_def covers_def)
  then show ?thesis using run g' by blast
qed

text \<open>
  No segment of a program is loaded without execute permission: the flag that forbids execution is lost in a
  32-bit variable, so that a segment that is not executable gets the same entry as one that is.
\<close>

theorem elf_flags_executable:
  "elf_flags pflags = PG_PRESENT OR PG_USER OR (if pflags AND 2 \<noteq> 0 then PG_WRITE else 0)"
  by (simp add: elf_flags_def PG_PRESENT_def PG_USER_def PG_WRITE_def PG_NX_def Let_def)

section \<open>Concrete instances\<close>

definition area_ex :: "u64 \<Rightarrow> u64 \<Rightarrow> vma" where
  "area_ex a b = \<lparr>v_start = a, v_end = b, v_prot = 3, v_flags = 3, v_fd = -1, v_foff = 0, v_used = True\<rparr>"

definition area_free :: vma where
  "area_free = \<lparr>v_start = 0, v_end = 0, v_prot = 0, v_flags = 0, v_fd = 0, v_foff = 0, v_used = False\<rparr>"

text \<open>Two adjacent areas of one page each.\<close>

definition areas_ex :: "vma list" where
  "areas_ex = [area_ex 0x40000000 0x40001000, area_ex 0x40001000 0x40002000] @ replicate 62 area_free"

lemma areas_ex_nth: "i < 64 \<Longrightarrow> areas_ex ! i = (if i = 0 then area_ex 0x40000000 0x40001000 else if i = 1 then area_ex 0x40001000 0x40002000 else area_free)"
  by (auto simp: areas_ex_def nth_append nth_Cons')

lemma areas_ex_ok: "vma_ok areas_ex"
  unfolding vma_ok_def by (auto simp: VMA_MAX_def areas_ex_nth area_ex_def area_free_def) (simp add: areas_ex_def)

definition kern_areas :: "unit kernel" where
  "kern_areas = put_vt (areas_ex, 2) (kern_init\<lparr>k_mmu := vm_cow\<rparr>)"

lemma kern_areas_facts: "current_idx kern_areas < length (procs kern_areas)" "get_vt kern_areas = (areas_ex, 2)" "k_mmu kern_areas = vm_cow"
proof -
  have c: "current_idx (kern_init\<lparr>k_mmu := vm_cow\<rparr>) < length (procs (kern_init\<lparr>k_mmu := vm_cow\<rparr>))" by (simp add: kern_ex_def)
  then show "current_idx kern_areas < length (procs kern_areas)" "get_vt kern_areas = (areas_ex, 2)"
    by (simp_all add: kern_areas_def get_put_vt)
  show "k_mmu kern_areas = vm_cow" by (simp add: kern_areas_def put_vt_def put_proc_def)
qed

lemma kern_areas_heap: "p_heap_start (cur kern_areas) = 0" "p_heap_break (cur kern_areas) = 0"
  by (simp_all add: kern_areas_def put_vt_def put_proc_def kern_ex_def proc_ex_def)



theorem areas_transparent_witness: "vma_attr 0x40001800 (fst (snd (vma_split 1 0x40001800 (areas_ex, 2)))) = vma_attr 0x40001800 areas_ex"
  using areas_transparent[OF areas_ex_ok, of 1 "0x40001800" 2] by (simp add: VMA_MAX_def areas_ex_nth area_ex_def)

theorem munmap_restores_area_witness:
  "\<exists>k' w. sys_munmap [] 0x40001000 0x1000 kern_areas = Some (Sys_ret 0, k') \<and> get_vt k' = (w, 0) \<and> covers (w ! 0) 0x40001000"
proof -
  have s: "areas_ex ! 0 = area_ex 0x40000000 0x40001000" "areas_ex ! 1 = area_ex 0x40001000 0x40002000" "length areas_ex = VMA_MAX"
    "areas_ex ! Suc 0 = area_ex 0x40001000 0x40002000"
    by (simp_all add: areas_ex_nth) (simp add: areas_ex_def VMA_MAX_def)
  have o: "\<forall>j<VMA_MAX. j \<noteq> 1 \<longrightarrow> outside 0x40001000 0x40002000 (areas_ex ! j)"
    by (auto simp: VMA_MAX_def areas_ex_nth outside_def area_ex_def area_free_def)
  show ?thesis
    using munmap_restores_area[of kern_areas areas_ex 2 1 "0x1000" "[]"] kern_areas_facts(1,2) s o
    by (auto simp: VMA_MAX_def area_ex_def vma_compat_def range_end_def)
qed

end
