(* ===== verification/Ahci.thy ===== *)
theory Ahci
  imports SwiftfsCache Pmm
begin

text \<open>
  The AHCI disk driver, \<open>src/kernel/hal/ahci.c\<close>: the registers of the controller are reached through
  \<open>ahci_port_read\<close> and \<open>ahci_port_write\<close>, the command list, the command table and the data buffer of a
  port are pages of physical memory, which is mapped one to one.

  The controller is a parameter \<open>H\<close>: what reading and writing a register at a physical address does
  to the controller's state and, by DMA, to memory. Its documented behaviour is the locale
  \<open>ahci_controller\<close>; under it the driver provides the contract \<open>block_device\<close> the filesystem relies on.
\<close>

section \<open>State\<close>

record 'h hba =
  hba_read :: "u64 \<Rightarrow> 'h \<times> memory \<Rightarrow> u32 \<times> 'h \<times> memory"
  hba_write :: "u64 \<Rightarrow> u32 \<Rightarrow> 'h \<times> memory \<Rightarrow> 'h \<times> memory"

record ahci_port =
  p_regs :: u64
  p_present :: bool
  p_initialized :: bool
  clb_phys :: u64
  fb_phys :: u64
  ct_phys :: u64
  buf_phys :: u64

record 'h ahci =
  abar :: u64
  a_ports :: "ahci_port list"
  nports :: int
  ahci_ok :: bool
  a_hba :: 'h
  a_mem :: memory
  a_pmm :: pmm

definition AHCI_MAX_PORTS :: nat where "AHCI_MAX_PORTS = 32"

definition PORT_CLB :: nat where "PORT_CLB = 0x00"
definition PORT_CLBU :: nat where "PORT_CLBU = 0x04"
definition PORT_FB :: nat where "PORT_FB = 0x08"
definition PORT_FBU :: nat where "PORT_FBU = 0x0C"
definition PORT_IS :: nat where "PORT_IS = 0x10"
definition PORT_CMD :: nat where "PORT_CMD = 0x18"
definition PORT_TFD :: nat where "PORT_TFD = 0x20"
definition PORT_SSTS :: nat where "PORT_SSTS = 0x28"
definition PORT_SERR :: nat where "PORT_SERR = 0x30"
definition PORT_CI :: nat where "PORT_CI = 0x38"

section \<open>Registers and memory\<close>

definition port_reg :: "u64 \<Rightarrow> nat \<Rightarrow> nat \<Rightarrow> u64" where
  "port_reg base p reg = base + of_nat ((0x100 + p * 0x80 + reg) div 4 * 4)"

definition ahci_port_read :: "'h hba \<Rightarrow> nat \<Rightarrow> nat \<Rightarrow> 'h ahci \<Rightarrow> u32 \<times> 'h ahci" where
  "ahci_port_read H p reg a =
     (let (v, h, m) = hba_read H (port_reg (abar a) p reg) (a_hba a, a_mem a) in (v, a\<lparr>a_hba := h, a_mem := m\<rparr>))"

definition ahci_port_write :: "'h hba \<Rightarrow> nat \<Rightarrow> nat \<Rightarrow> u32 \<Rightarrow> 'h ahci \<Rightarrow> 'h ahci" where
  "ahci_port_write H p reg v a =
     (let (h, m) = hba_write H (port_reg (abar a) p reg) v (a_hba a, a_mem a) in a\<lparr>a_hba := h, a_mem := m\<rparr>)"

text \<open>Storing bytes, or consecutive 32-bit words, from an address on.\<close>

definition mem_store :: "u64 \<Rightarrow> u8 list \<Rightarrow> 'h ahci \<Rightarrow> 'h ahci" where
  "mem_store addr bs a = a\<lparr>a_mem := store_bytes (a_mem a) addr bs\<rparr>"

definition mem_store32 :: "u64 \<Rightarrow> u32 list \<Rightarrow> 'h ahci \<Rightarrow> 'h ahci" where
  "mem_store32 addr ws = mem_store addr (enc32s ws)"

definition lo32 :: "u64 \<Rightarrow> u32" where "lo32 x = ucast (x AND 0xFFFFFFFF)"
definition hi32 :: "u64 \<Rightarrow> u32" where "hi32 x = ucast (drop_bit 32 x)"

section \<open>Starting a port\<close>

text \<open>The wait for a device: at most \<open>n\<close> reads of the status.\<close>

fun ahci_detect :: "'h hba \<Rightarrow> nat \<Rightarrow> nat \<Rightarrow> 'h ahci \<Rightarrow> 'h ahci" where
  "ahci_detect H p n a =
     (if n = 0 then a
      else let (ssts, a1) = ahci_port_read H p PORT_SSTS a
           in if ssts AND 0xF = 3 then a1 else ahci_detect H p (n - 1) a1)"

declare ahci_detect.simps [simp del]

definition port_set :: "nat \<Rightarrow> (ahci_port \<Rightarrow> ahci_port) \<Rightarrow> 'h ahci \<Rightarrow> 'h ahci" where
  "port_set p f a = a\<lparr>a_ports := (a_ports a)[p := f (a_ports a ! p)]\<rparr>"

definition ahci_page_alloc :: "'h ahci \<Rightarrow> u64 \<times> 'h ahci" where
  "ahci_page_alloc a = (let (x, s) = page_alloc (a_pmm a) in (x, a\<lparr>a_pmm := s\<rparr>))"

definition ahci_page_free :: "u64 \<Rightarrow> 'h ahci \<Rightarrow> 'h ahci" where
  "ahci_page_free x a = a\<lparr>a_pmm := page_free x (a_pmm a)\<rparr>"

text \<open>The allocation of the port's four pages, each but the data buffer zeroed in part.\<close>

definition ahci_port_pages :: "nat \<Rightarrow> 'h ahci \<Rightarrow> bool \<times> 'h ahci" where
  "ahci_port_pages p a0 =
     (let (clb, a1) = ahci_page_alloc a0; a2 = port_set p (\<lambda>q. q\<lparr>clb_phys := clb\<rparr>) a1 in
      if clb = 0 then (False, a2)
      else
        let a3 = mem_store32 clb (replicate 512 0) a2;
            (fb, a4) = ahci_page_alloc a3; a5 = port_set p (\<lambda>q. q\<lparr>fb_phys := fb\<rparr>) a4 in
        if fb = 0 then (False, ahci_page_free clb a5)
        else
          let a6 = mem_store32 fb (replicate 1024 0) a5;
              (ct, a7) = ahci_page_alloc a6; a8 = port_set p (\<lambda>q. q\<lparr>ct_phys := ct\<rparr>) a7 in
          if ct = 0 then (False, ahci_page_free fb (ahci_page_free clb a8))
          else
            let a9 = mem_store32 ct (replicate 128 0) a8;
                (buf, a10) = ahci_page_alloc a9; a11 = port_set p (\<lambda>q. q\<lparr>buf_phys := buf\<rparr>) a10 in
            if buf = 0 then (False, ahci_page_free ct (ahci_page_free fb (ahci_page_free clb a11)))
            else (True, a11))"

text \<open>Stopping the port and spinning it up, and handing it its pages.\<close>

definition ahci_port_power :: "'h hba \<Rightarrow> nat \<Rightarrow> 'h ahci \<Rightarrow> 'h ahci" where
  "ahci_port_power H p a0 =
     (let (cmd, a1) = ahci_port_read H p PORT_CMD a0;
          cmd1 = (if cmd AND push_bit 15 1 \<noteq> 0 then cmd AND NOT 1 else cmd);
          a2 = (if cmd AND push_bit 15 1 \<noteq> 0 then ahci_port_write H p PORT_CMD cmd1 a1 else a1);
          cmd2 = (if cmd1 AND push_bit 14 1 \<noteq> 0 then cmd1 AND NOT (push_bit 4 1) else cmd1);
          a3 = (if cmd1 AND push_bit 14 1 \<noteq> 0 then ahci_port_write H p PORT_CMD cmd2 a2 else a2)
      in ahci_port_write H p PORT_CMD (cmd2 OR (push_bit 1 1 OR push_bit 2 1)) a3)"

definition ahci_port_start :: "'h hba \<Rightarrow> nat \<Rightarrow> 'h ahci \<Rightarrow> 'h ahci" where
  "ahci_port_start H p a0 =
     (let q = a_ports a0 ! p;
          a1 = ahci_port_write H p PORT_CLB (lo32 (clb_phys q)) a0;
          a2 = ahci_port_write H p PORT_CLBU (hi32 (clb_phys q)) a1;
          a3 = ahci_port_write H p PORT_FB (lo32 (fb_phys q)) a2;
          a4 = ahci_port_write H p PORT_FBU (hi32 (fb_phys q)) a3;
          a5 = ahci_port_write H p PORT_SERR 0xFFFFFFFF a4;
          (cmd, a6) = ahci_port_read H p PORT_CMD a5;
          a7 = ahci_port_write H p PORT_CMD (cmd OR (push_bit 4 1 OR 1)) a6
      in port_set p (\<lambda>q. q\<lparr>p_initialized := True\<rparr>) a7)"

definition ahci_port_init :: "'h hba \<Rightarrow> nat \<Rightarrow> 'h ahci \<Rightarrow> int \<times> 'h ahci" where
  "ahci_port_init H p a0 =
     (let a1 = ahci_detect H p 100000 (ahci_port_power H p a0);
          (ssts, a2) = ahci_port_read H p PORT_SSTS a1
      in if ssts AND 0xF \<noteq> 3 then (0, a2)
         else case ahci_port_pages p a2 of
           (False, a3) \<Rightarrow> (0, a3)
         | (True, a3) \<Rightarrow> (1, ahci_port_start H p a3))"

section \<open>Reading and writing sectors\<close>

text \<open>The wait for a free command slot, at most \<open>n\<close> reads of the issue register.\<close>

fun ahci_slot :: "'h hba \<Rightarrow> nat \<Rightarrow> nat \<Rightarrow> 'h ahci \<Rightarrow> nat option \<times> 'h ahci" where
  "ahci_slot H p n a =
     (if n = 0 then (None, a)
      else
        let (ci, a1) = ahci_port_read H p PORT_CI a in
        if ci = 0 then (Some 0, a1)
        else if ci AND 1 = 0 then (Some 0, a1)
        else if ci AND 2 = 0 then (Some 1, a1)
        else if ci AND 4 = 0 then (Some 2, a1)
        else ahci_slot H p (n - 1) a1)"

declare ahci_slot.simps [simp del]

text \<open>The wait for completion, at most \<open>n\<close> reads.\<close>

fun ahci_wait :: "'h hba \<Rightarrow> nat \<Rightarrow> nat \<Rightarrow> nat \<Rightarrow> 'h ahci \<Rightarrow> 'h ahci" where
  "ahci_wait H p slot n a =
     (if n = 0 then a
      else let (ci, a1) = ahci_port_read H p PORT_CI a
           in if ci AND push_bit slot 1 = 0 then a1 else ahci_wait H p slot (n - 1) a1)"

declare ahci_wait.simps [simp del]

text \<open>The register FIS of a DMA command, and the physical region descriptor.\<close>

definition cmd_fis :: "u8 \<Rightarrow> u64 \<Rightarrow> int \<Rightarrow> u8 list" where
  "cmd_fis op lba batch =
     [0x27, 0x80, op, 0, ucast lba, ucast (drop_bit 8 lba), ucast (drop_bit 16 lba), 0x40,
      ucast (drop_bit 24 lba), ucast (drop_bit 32 lba), ucast (drop_bit 40 lba), 0,
      of_int batch, of_int (batch div 256), 0, 0]"

definition cmd_table :: "u8 \<Rightarrow> u64 \<Rightarrow> int \<Rightarrow> ahci_port \<Rightarrow> 'h ahci \<Rightarrow> 'h ahci" where
  "cmd_table op lba batch q a =
     (let a1 = mem_store32 (ct_phys q) (replicate 32 0) a;
          a2 = mem_store (ct_phys q) (cmd_fis op lba batch) a1
      in mem_store32 (ct_phys q + 128) [lo32 (buf_phys q), hi32 (buf_phys q), 0, of_int (batch * 512 - 1)] a2)"

definition read_header :: "nat \<Rightarrow> ahci_port \<Rightarrow> 'h ahci \<Rightarrow> 'h ahci" where
  "read_header slot q = mem_store32 (clb_phys q + of_nat (32 * slot))
     [5 OR push_bit 16 1, 0, lo32 (ct_phys q), hi32 (ct_phys q), 0, 0, 0, 0]"

definition write_header :: "nat \<Rightarrow> ahci_port \<Rightarrow> 'h ahci \<Rightarrow> 'h ahci" where
  "write_header slot q = mem_store32 (clb_phys q + of_nat (32 * slot))
     [5 OR (push_bit 6 1 OR push_bit 16 1), 0, lo32 (ct_phys q), hi32 (ct_phys q)]"

text \<open>Issuing the command of a slot; the result is whether it is still outstanding after the wait.\<close>

definition ahci_issue :: "'h hba \<Rightarrow> nat \<Rightarrow> nat \<Rightarrow> 'h ahci \<Rightarrow> bool \<times> 'h ahci" where
  "ahci_issue H p slot a =
     (let a1 = ahci_port_write H p PORT_CI (push_bit slot 1) a;
          a2 = ahci_wait H p slot 10000000 a1;
          (ci, a3) = ahci_port_read H p PORT_CI a2
      in (ci AND push_bit slot 1 \<noteq> 0, a3))"

text \<open>One round of the read loop: \<^const>\<open>None\<close> when the function returns -1.\<close>

definition read_batch :: "'h hba \<Rightarrow> nat \<Rightarrow> u64 \<Rightarrow> int \<Rightarrow> 'h ahci \<Rightarrow> u8 list option \<times> 'h ahci" where
  "read_batch H p lba batch a0 =
     (case ahci_slot H p 1000000 a0 of
        (None, a1) \<Rightarrow> (None, a1)
      | (Some slot, a1) \<Rightarrow>
          let q = a_ports a1 ! p;
              a2 = cmd_table 0x25 lba batch q (read_header slot q a1);
              (busy, a3) = ahci_issue H p slot a2
          in if busy then (None, a3)
             else
               let (st, a4) = ahci_port_read H p PORT_IS a3;
                   a5 = (if st \<noteq> 0 then ahci_port_write H p PORT_IS st a4 else a4);
                   (tfd, a6) = ahci_port_read H p PORT_TFD a5
               in if tfd AND 1 \<noteq> 0 then (None, a6)
                  else (Some (load_bytes (nat (batch * 512)) (a_mem a6) (buf_phys q)), a6))"

function ahci_read_loop :: "'h hba \<Rightarrow> nat \<Rightarrow> u64 \<Rightarrow> int \<Rightarrow> u8 list \<Rightarrow> 'h ahci \<Rightarrow> int \<times> u8 list \<times> 'h ahci" where
  "ahci_read_loop H p lba remaining out a =
     (if remaining > 0 then
        let batch = (if remaining > 16 then 16 else remaining) in
        case read_batch H p lba batch a of
          (None, a1) \<Rightarrow> (-1, out, a1)
        | (Some bytes, a1) \<Rightarrow> ahci_read_loop H p (lba + of_int batch) (remaining - batch) (out @ bytes) a1
      else (int (length out), out, a))"
  by pat_completeness auto
termination by (relation "measure (\<lambda>(H, p, lba, remaining, out, a). nat remaining)") auto

declare ahci_read_loop.simps [simp del]

definition port_usable :: "int \<Rightarrow> 'h ahci \<Rightarrow> bool" where
  "port_usable port a \<longleftrightarrow> ahci_ok a \<and> 0 \<le> port \<and> port < nports a \<and> p_initialized (a_ports a ! nat port)"

definition ahci_read :: "'h hba \<Rightarrow> int \<Rightarrow> u64 \<Rightarrow> int \<Rightarrow> 'h ahci \<Rightarrow> int \<times> u8 list \<times> 'h ahci" where
  "ahci_read H port lba count a =
     (if \<not> port_usable port a then (-1, [], a) else ahci_read_loop H (nat port) lba count [] a)"

definition write_batch :: "'h hba \<Rightarrow> nat \<Rightarrow> u64 \<Rightarrow> u8 list \<Rightarrow> int \<Rightarrow> 'h ahci \<Rightarrow> bool \<times> 'h ahci" where
  "write_batch H p lba bytes batch a =
     (case ahci_slot H p 1000000 (mem_store (buf_phys (a_ports a ! p)) bytes a) of
        (None, a1) \<Rightarrow> (False, a1)
      | (Some slot, a1) \<Rightarrow>
          let q = a_ports a1 ! p;
              a2 = cmd_table 0x35 lba batch q (write_header slot q a1);
              (busy, a3) = ahci_issue H p slot a2
          in if busy then (False, a3)
             else let (tfd, a4) = ahci_port_read H p PORT_TFD a3 in (tfd AND 1 = 0, a4))"

function ahci_write_loop :: "'h hba \<Rightarrow> nat \<Rightarrow> u64 \<Rightarrow> u8 list \<Rightarrow> int \<Rightarrow> int \<Rightarrow> 'h ahci \<Rightarrow> int \<times> 'h ahci" where
  "ahci_write_loop H p lba buf remaining offset a =
     (if remaining > 0 then
        let batch = (if remaining > 16 then 16 else remaining) in
        case write_batch H p lba (take (nat (batch * 512)) (drop (nat offset) buf)) batch a of
          (False, a1) \<Rightarrow> (-1, a1)
        | (True, a1) \<Rightarrow> ahci_write_loop H p (lba + of_int batch) buf (remaining - batch) (offset + batch * 512) a1
      else (offset, a))"
  by pat_completeness auto
termination by (relation "measure (\<lambda>(H, p, lba, buf, remaining, offset, a). nat remaining)") auto

declare ahci_write_loop.simps [simp del]

definition ahci_write :: "'h hba \<Rightarrow> int \<Rightarrow> u64 \<Rightarrow> u8 list \<Rightarrow> int \<Rightarrow> 'h ahci \<Rightarrow> int \<times> 'h ahci" where
  "ahci_write H port lba buf count a =
     (if \<not> port_usable port a then (-1, a) else ahci_write_loop H (nat port) lba buf count 0 a)"

definition ahci_port_count :: "'h ahci \<Rightarrow> int" where "ahci_port_count a = nports a"

text \<open>The driver as the filesystem's block device.\<close>

definition ahci_blkdev :: "'h hba \<Rightarrow> 'h ahci blkdev" where
  "ahci_blkdev H = \<lparr>bd_read = \<lambda>port lba count. ahci_read H port lba count,
     bd_write = \<lambda>port lba buf count. ahci_write H port lba buf count\<rparr>"

section \<open>What a command slot asks for\<close>

text \<open>
  The controller's reading of a command, from the AHCI and ATA specifications: header, register FIS
  and one region descriptor. \<open>dma_command\<close> holds when slot \<open>slot\<close> of the command list at \<open>c\<close> asks for \<open>n\<close> sectors
  from \<open>lba\<close> on, from or to the memory at \<open>dba\<close>.
\<close>

definition fis_lba :: "u8 list \<Rightarrow> u64" where
  "fis_lba f = le_dec [f ! 4, f ! 5, f ! 6, f ! 8, f ! 9, f ! 10]"

definition fis_count :: "u8 list \<Rightarrow> nat" where
  "fis_count f = unat (le_dec [f ! 12, f ! 13] :: u16)"

definition dma_command :: "u8 \<Rightarrow> u32 \<Rightarrow> memory \<Rightarrow> u64 \<Rightarrow> nat \<Rightarrow> nat \<Rightarrow> nat \<Rightarrow> u64 \<Rightarrow> bool" where
  "dma_command op flags m c slot lba n dba \<longleftrightarrow>
     (let ct = load64 m (c + of_nat (32 * slot + 8)); f = load_bytes 16 m ct in
      load32 m (c + of_nat (32 * slot)) = flags \<and> f ! 0 = 0x27 \<and> f ! 1 = 0x80 \<and> f ! 2 = op \<and> f ! 7 = 0x40 \<and>
      unat (fis_lba f) = lba \<and> fis_count f = n \<and>
      load64 m (ct + 128) = dba \<and> unat (load32 m (ct + 140)) + 1 = 512 * n)"

definition READ_FLAGS :: u32 where "READ_FLAGS = 5 OR push_bit 16 1"
definition WRITE_FLAGS :: u32 where "WRITE_FLAGS = 5 OR (push_bit 6 1 OR push_bit 16 1)"

lemma load32_page: "k + 4 \<le> 4096 \<Longrightarrow> load32 m (P + of_nat k) = rd32 (page_bytes m P) k"
  by (simp add: load32_def rd32_def load_page)

lemma load64_page: "k + 8 \<le> 4096 \<Longrightarrow> load64 m (P + of_nat k) = rd64 (page_bytes m P) k"
  by (simp add: load64_def rd64_def load_page)

lemma le_dec_append: "le_dec (xs @ ys) = (le_dec xs OR push_bit (8 * length xs) (le_dec ys) :: 'a::len word)"
  by (induction xs) (simp_all add: push_bit_or ac_simps)

lemma mask_32: "(0xFFFFFFFF :: u64) = mask 32"
  by (simp add: mask_eq_exp_minus_1)

lemma lo_hi: "le_dec (le_enc 4 (lo32 x) @ le_enc 4 (hi32 x)) = x"
proof -
  have e: "le_dec (le_enc 4 w) = (ucast w :: u64)" for w :: u32
  proof -
    have "le_enc 4 w = le_enc 4 (ucast w :: u64)"
      by (simp add: numeral_eq_Suc) (intro conjI; rule bit_word_eqI; auto simp: bit_simps)
    then have "le_dec (le_enc 4 w) = take_bit 32 (ucast w :: u64)" using le_dec_enc[of 4 "ucast w :: u64"] by simp
    also have "\<dots> = ucast w" by (rule bit_word_eqI) (auto simp: bit_simps dest: bit_imp_le_length)
    finally show ?thesis .
  qed
  have "ucast (lo32 x) OR push_bit 32 (ucast (hi32 x)) = x"
    unfolding lo32_def hi32_def mask_32 by (rule bit_word_eqI) (auto simp: bit_simps)
  then show ?thesis by (simp add: le_dec_append e)
qed

lemma fis_lba_cmd: "fis_lba (cmd_fis op lba batch) = take_bit 48 lba"
proof -
  have "[ucast lba, ucast (drop_bit 8 lba), ucast (drop_bit 16 lba), ucast (drop_bit 24 lba), ucast (drop_bit 32 lba),
      ucast (drop_bit 40 lba)] = le_enc 6 lba" by (simp add: numeral_eq_Suc drop_bit_drop_bit)
  then show ?thesis using le_dec_enc[of 6 lba] by (simp add: fis_lba_def cmd_fis_def)
qed

lemma fis_count_cmd: "n < 65536 \<Longrightarrow> fis_count (cmd_fis op lba (int n)) = n"
proof -
  assume n: "n < 65536"
  have u: "unat (of_nat n :: u16) = n" using n by (intro unat_of_nat_small) simp
  have "unat (drop_bit 8 (of_nat n :: u16)) = n div 256" unfolding unat_drop_bit_eq u by (simp add: drop_bit_eq_div)
  moreover have "n div 256 < 256" using n by (simp add: div_less_iff_less_mult)
  ultimately have d: "(of_nat (n div 256) :: u8) = ucast (drop_bit 8 (of_nat n :: u16))"
    by (simp only: word_unat_eq_iff unsigned_ucast_eq unat_of_nat take_bit_eq_mod)
  have l: "(of_nat n :: u8) = ucast (of_nat n :: u16)"
    by (simp only: word_unat_eq_iff unsigned_ucast_eq u take_bit_eq_mod) (simp add: unat_of_nat)
  have "int n div 256 = int (n div 256)" by (simp add: zdiv_int)
  moreover have "le_enc 2 (of_nat n :: u16) = [ucast (of_nat n :: u16), ucast (drop_bit 8 (of_nat n :: u16))]"
    by (simp add: numeral_2_eq_2)
  ultimately have "[of_int (int n), of_int (int n div 256)] = le_enc 2 (of_nat n :: u16)" by (simp only: of_int_of_nat_eq d l)
  then have "fis_count (cmd_fis op lba (int n)) = unat (of_nat n :: u16)"
    using le_dec_enc_id[of 2 "of_nat n :: u16"] by (simp add: fis_count_def cmd_fis_def del: le_dec.simps)
  then show ?thesis by (simp only: u)
qed

text \<open>The steps of a command change the controller's state and memory only.\<close>

definition same_driver :: "'h ahci \<Rightarrow> 'h ahci \<Rightarrow> bool" where
  "same_driver a a' \<longleftrightarrow> a' = a\<lparr>a_hba := a_hba a', a_mem := a_mem a'\<rparr>"

lemma same_driverD:
  "same_driver a a' \<Longrightarrow> abar a' = abar a" "same_driver a a' \<Longrightarrow> a_ports a' = a_ports a"
  "same_driver a a' \<Longrightarrow> nports a' = nports a" "same_driver a a' \<Longrightarrow> ahci_ok a' = ahci_ok a" "same_driver a a' \<Longrightarrow> a_pmm a' = a_pmm a"
  by (cases a; cases a'; simp add: same_driver_def)+

lemma same_driver_refl [simp]: "same_driver a a"
  by (simp add: same_driver_def)

lemma same_driver_trans: "same_driver a b \<Longrightarrow> same_driver b c \<Longrightarrow> same_driver a c"
  by (cases a; cases b; cases c) (simp add: same_driver_def)

lemma same_driver_upd [simp]: "same_driver a (a\<lparr>a_hba := h\<rparr>)" "same_driver a (a\<lparr>a_mem := m\<rparr>)"
  "same_driver a (a\<lparr>a_hba := h, a_mem := m\<rparr>)"
  by (simp_all add: same_driver_def)

text \<open>What the driver's stores leave in the command list, in the command table and elsewhere.\<close>

lemma enc32s_Cons [simp]: "enc32s (w # ws) = le_enc 4 w @ enc32s ws"
  by (simp add: enc32s_def)

lemma enc32s_Nil [simp]: "enc32s [] = []"
  by (simp add: enc32s_def)

lemma length_cmd_fis [simp]: "length (cmd_fis op lba batch) = 16"
  by (simp add: cmd_fis_def)

lemma header_words:
  assumes "length bs = 4096" "length rest \<le> 4"
  shows "rd32 (blit bs 0 (enc32s (flags # 0 # lo32 ct # hi32 ct # rest))) 0 = flags"
    and "rd64 (blit bs 0 (enc32s (flags # 0 # lo32 ct # hi32 ct # rest))) 8 = ct"
proof -
  let ?b = "blit bs 0 (enc32s (flags # 0 # lo32 ct # hi32 ct # rest))"
  have t: "take 4 ?b = le_enc 4 flags" "take 8 (drop 8 ?b) = le_enc 4 (lo32 ct) @ le_enc 4 (hi32 ct)"
    by (simp_all add: blit_def)
  show "rd32 ?b 0 = flags" unfolding rd32_def drop_0 t by (simp add: le_dec_enc_id)
  show "rd64 ?b 8 = ct" unfolding rd64_def t by (rule lo_hi)
qed

lemma table_words:
  fixes op lba buf
  assumes "length bs = 4096" "0 < n" "n < 65536"
  defines "t \<equiv> blit (blit (blit bs 0 (enc32s (replicate 32 0))) 0 (cmd_fis op lba (int n)))
      128 (enc32s [lo32 buf, hi32 buf, 0, of_int (int n * 512 - 1)])"
  shows "take 16 t = cmd_fis op lba (int n)" "rd64 t 128 = buf" "unat (rd32 t 140) + 1 = 512 * n"
proof -
  let ?b = "blit (blit bs 0 (enc32s (replicate 32 0))) 0 (cmd_fis op lba (int n))"
  let ?w = "[lo32 buf, hi32 buf, 0, of_int (int n * 512 - 1)] :: u32 list"
  have l: "length (blit bs 0 (enc32s (replicate 32 0))) = 4096" "length ?b = 4096" using assms(1) by simp_all
  have "take 16 t = take 16 (drop 0 ?b)" using take_drop_blit_before[of 128 "enc32s ?w" ?b 0 16] l by (simp add: t_def)
  also have "\<dots> = cmd_fis op lba (int n)" using take_drop_blit_same[of 0 "cmd_fis op lba (int n)" "blit bs 0 (enc32s (replicate 32 0))"] l
    by simp
  finally show "take 16 t = cmd_fis op lba (int n)" .
  have w: "take 16 (drop 128 t) = enc32s ?w" using take_drop_blit_same[of 128 "enc32s ?w" ?b] l by (simp add: t_def)
  have "take 8 (drop 128 t) = take 8 (take 16 (drop 128 t))" by simp
  then show "rd64 t 128 = buf" by (simp add: rd64_def w lo_hi)
  have "take 4 (drop 140 t) = drop 12 (take 16 (drop 128 t))" by (simp add: drop_take)
  then have "rd32 t 140 = of_int (int n * 512 - 1)" by (simp add: rd32_def w le_dec_enc_id)
  also have "\<dots> = of_nat (n * 512 - 1)" using assms(2) by (simp add: of_nat_diff)
  finally have "unat (rd32 t 140) = n * 512 - 1" using assms(3) by (simp only:) (rule unat_of_nat_small, simp)
  then show "unat (rd32 t 140) + 1 = 512 * n" using assms(2) by simp
qed

lemma set_up:
  fixes op lba and a :: "'h ahci"
  assumes al: "page_aligned (clb_phys q)" "page_aligned (ct_phys q)" "clb_phys q \<noteq> ct_phys q"
    and ws: "ws = flags # 0 # lo32 (ct_phys q) # hi32 (ct_phys q) # rest" "length rest \<le> 4" and n: "0 < n" "n < 65536"
  defines "a' \<equiv> cmd_table op lba (int n) q (mem_store32 (clb_phys q + of_nat (32 * 0)) ws a)"
  shows "dma_command op flags (a_mem a') (clb_phys q) 0 (unat (take_bit 48 lba)) n (buf_phys q)"
    "page_aligned P \<Longrightarrow> P \<noteq> clb_phys q \<Longrightarrow> P \<noteq> ct_phys q \<Longrightarrow> page_bytes (a_mem a') P = page_bytes (a_mem a) P"
    "same_driver a a'" "a_hba a' = a_hba a"
proof -
  let ?c = "clb_phys q" and ?t = "ct_phys q"
  let ?p = "[lo32 (buf_phys q), hi32 (buf_phys q), 0, of_int (int n * 512 - 1)] :: u32 list"
  define m1 where "m1 = store_bytes (a_mem a) (?c + of_nat 0) (enc32s ws)"
  define m2 where "m2 = store_bytes m1 (?t + of_nat 0) (enc32s (replicate 32 0))"
  define m3 where "m3 = store_bytes m2 (?t + of_nat 0) (cmd_fis op lba (int n))"
  define m4 where "m4 = store_bytes m3 (?t + of_nat 128) (enc32s ?p)"
  have m': "a_mem a' = m4"
    by (simp add: a'_def cmd_table_def mem_store32_def mem_store_def Let_def m1_def m2_def m3_def m4_def)
  show "same_driver a a'" "a_hba a' = a_hba a"
    by (simp_all add: a'_def cmd_table_def mem_store32_def mem_store_def Let_def same_driver_def)
  have lw: "length (enc32s ws) \<le> 4096" using ws by simp
  show "page_bytes (a_mem a') P = page_bytes (a_mem a) P" if P: "page_aligned P" "P \<noteq> ?c" "P \<noteq> ?t"
    unfolding m' m4_def m3_def m2_def m1_def
    using lw by (subst page_store_other[OF al(2) P(1) P(3)[symmetric]], simp)+
      (subst page_store_other[OF al(1) P(1) P(2)[symmetric]], simp_all)
  have pc: "page_bytes m4 ?c = blit (page_bytes (a_mem a) ?c) 0 (enc32s ws)"
    unfolding m4_def m3_def m2_def
    by (subst page_store_other[OF al(2,1) al(3)[symmetric]], simp)+ (simp add: m1_def page_store_start[OF lw])
  have pt: "page_bytes m4 ?t = blit (blit (blit (page_bytes m1 ?t) 0 (enc32s (replicate 32 0))) 0 (cmd_fis op lba (int n))) 128 (enc32s ?p)"
    unfolding m4_def m3_def m2_def by (subst page_store, simp)+ simp

  note W = header_words[OF length_page_bytes ws(2), of "a_mem a" ?c flags ?t]
  have ct: "load64 m4 (?c + of_nat (32 * 0 + 8)) = ?t" using load64_page[of 8 m4 ?c] W(2) unfolding pc ws(1)[symmetric] by simp
  note T = table_words[OF length_page_bytes n, of m1 ?t op lba "buf_phys q", folded pt]
  have f: "load_bytes 16 m4 ?t = cmd_fis op lba (int n)" by (simp add: load_page_start T(1))
  have "load32 m4 (?c + of_nat (32 * 0)) = flags"
    using load32_page[of 0 m4 ?c] W(1) unfolding pc ws(1)[symmetric] by simp
  moreover have "load64 m4 (?t + of_nat 128) = buf_phys q" using load64_page[of 128 m4 ?t] T(2) by simp
  moreover have "unat (load32 m4 (?t + of_nat 140)) + 1 = 512 * n" using load32_page[of 140 m4 ?t] T(3) by simp
  ultimately show "dma_command op flags (a_mem a') ?c 0 (unat (take_bit 48 lba)) n (buf_phys q)"
    unfolding dma_command_def Let_def m' ct f by (simp add: fis_lba_cmd fis_count_cmd n) (simp add: cmd_fis_def)
qed

text \<open>
  A port of the driver that is ready for a command, given what it means that the controller's port is;
  what a command leaves alone: the driver's variables and every page but the port's four; and the eight
  sectors of a filesystem block.
\<close>

definition ahci_port_ok :: "('h \<Rightarrow> u64 \<Rightarrow> nat \<Rightarrow> u64 \<Rightarrow> u64 \<Rightarrow> bool) \<Rightarrow> nat \<Rightarrow> 'h ahci \<Rightarrow> bool" where
  "ahci_port_ok ready p a \<longleftrightarrow> port_usable (int p) a \<and> p < length (a_ports a) \<and>
     (let q = a_ports a ! p in page_aligned (clb_phys q) \<and> page_aligned (fb_phys q) \<and> page_aligned (ct_phys q) \<and>
        page_aligned (buf_phys q) \<and> distinct [clb_phys q, fb_phys q, ct_phys q, buf_phys q] \<and>
        ready (a_hba a) (abar a) p (clb_phys q) (fb_phys q))"

definition cmd_frame :: "nat \<Rightarrow> 'h ahci \<Rightarrow> 'h ahci \<Rightarrow> bool" where
  "cmd_frame p a a' \<longleftrightarrow> same_driver a a' \<and> (\<forall>P. page_aligned P \<and>
     P \<notin> {clb_phys (a_ports a ! p), fb_phys (a_ports a ! p), ct_phys (a_ports a ! p), buf_phys (a_ports a ! p)} \<longrightarrow>
     page_bytes (a_mem a') P = page_bytes (a_mem a) P)"

definition ahci_disk :: "('h \<Rightarrow> nat \<Rightarrow> nat \<Rightarrow> u8 list) \<Rightarrow> int \<Rightarrow> 'h ahci \<Rightarrow> u32 \<Rightarrow> u8 list" where
  "ahci_disk sector port a b = concat (map (sector (a_hba a) (nat port)) [8 * unat b..<8 * unat b + 8])"

definition ahci_works :: "('h \<Rightarrow> u64 \<Rightarrow> nat \<Rightarrow> u64 \<Rightarrow> u64 \<Rightarrow> bool) \<Rightarrow> int \<Rightarrow> 'h ahci \<Rightarrow> bool" where
  "ahci_works ready port a \<longleftrightarrow> 0 \<le> port \<and> ahci_port_ok ready (nat port) a"

section \<open>The contract of the controller\<close>

text \<open>
  \<open>sector h p l\<close> is the sector \<open>l\<close> of the drive on port \<open>p\<close>. \<open>ready h B p c f\<close>: port \<open>p\<close> of the controller whose
  registers are at \<open>B\<close> runs, its command list is at \<open>c\<close>, its FIS area at \<open>f\<close>, and no command is outstanding.
  \<open>pending h B p c f slot k\<close>: it works on the command in a slot and reports completion after \<open>k\<close> more reads
  of the issue register. A transfer may also change the command list and the FIS area.
\<close>

locale ahci_controller =
  fixes H :: "'h hba"
    and sector :: "'h \<Rightarrow> nat \<Rightarrow> nat \<Rightarrow> u8 list"
    and ready :: "'h \<Rightarrow> u64 \<Rightarrow> nat \<Rightarrow> u64 \<Rightarrow> u64 \<Rightarrow> bool"
    and pending :: "'h \<Rightarrow> u64 \<Rightarrow> nat \<Rightarrow> u64 \<Rightarrow> u64 \<Rightarrow> nat \<Rightarrow> nat \<Rightarrow> bool"
  assumes sector_length: "length (sector h p l) = 512"
    and ci_idle: "ready h B p c f \<Longrightarrow> \<exists>h'. hba_read H (port_reg B p PORT_CI) (h, m) = (0, h', m) \<and>
      ready h' B p c f \<and> sector h' = sector h"
    and ci_issue: "ready h B p c f \<Longrightarrow> slot < 32 \<Longrightarrow> \<exists>h' k. hba_write H (port_reg B p PORT_CI) (push_bit slot 1) (h, m) = (h', m) \<and>
      k < 10000000 \<and> pending h' B p c f slot k \<and> sector h' = sector h"
    and ci_busy: "pending h B p c f slot (Suc k) \<Longrightarrow> \<exists>v h'. hba_read H (port_reg B p PORT_CI) (h, m) = (v, h', m) \<and>
      v AND push_bit slot 1 \<noteq> 0 \<and> pending h' B p c f slot k \<and> sector h' = sector h"
    and ci_read: "pending h B p c f slot 0 \<Longrightarrow> dma_command 0x25 READ_FLAGS m c slot lba n dba \<Longrightarrow> 0 < n \<Longrightarrow>
      \<exists>v h' m'. hba_read H (port_reg B p PORT_CI) (h, m) = (v, h', m') \<and> v AND push_bit slot 1 = 0 \<and>
      ready h' B p c f \<and> sector h' = sector h \<and>
      (\<forall>P. page_aligned P \<and> P \<noteq> c \<and> P \<noteq> f \<longrightarrow>
        page_bytes m' P = page_bytes (store_bytes m dba (concat (map (sector h p) [lba..<lba + n]))) P)"
    and ci_write: "pending h B p c f slot 0 \<Longrightarrow> dma_command 0x35 WRITE_FLAGS m c slot lba n dba \<Longrightarrow> 0 < n \<Longrightarrow>
      \<exists>v h' m'. hba_read H (port_reg B p PORT_CI) (h, m) = (v, h', m') \<and> v AND push_bit slot 1 = 0 \<and>
      ready h' B p c f \<and> (\<forall>l. sector h' p l = (if lba \<le> l \<and> l < lba + n
         then take 512 (drop (512 * (l - lba)) (load_bytes (512 * n) m dba)) else sector h p l)) \<and>
      (\<forall>P. page_aligned P \<and> P \<noteq> c \<and> P \<noteq> f \<longrightarrow> page_bytes m' P = page_bytes m P)"
    and status: "ready h B p c f \<Longrightarrow> reg = PORT_IS \<or> reg = PORT_TFD \<Longrightarrow>
      \<exists>v h'. hba_read H (port_reg B p reg) (h, m) = (v, h', m) \<and> (reg = PORT_TFD \<longrightarrow> v AND 1 = 0) \<and>
      ready h' B p c f \<and> sector h' = sector h"
    and ack: "ready h B p c f \<Longrightarrow> \<exists>h'. hba_write H (port_reg B p PORT_IS) v (h, m) = (h', m) \<and>
      ready h' B p c f \<and> sector h' = sector h"
begin

abbreviation port_ok :: "nat \<Rightarrow> 'h ahci \<Rightarrow> bool" where "port_ok \<equiv> ahci_port_ok ready"

lemma slot_ok:
  assumes "ready (a_hba a) (abar a) p c f" "0 < n"
  obtains h where "ahci_slot H p n a = (Some 0, a\<lparr>a_hba := h\<rparr>)" "ready h (abar a) p c f" "sector h = sector (a_hba a)"
proof -
  from ci_idle[OF assms(1), of "a_mem a"] obtain h where
    h: "hba_read H (port_reg (abar a) p PORT_CI) (a_hba a, a_mem a) = (0, h, a_mem a)" "ready h (abar a) p c f" "sector h = sector (a_hba a)"
    by blast
  then show thesis using assms(2) by (intro that[of h]) (simp_all add: ahci_slot.simps[of H p n a] ahci_port_read_def)
qed

lemma wait_ok:
  assumes fin: "\<And>h. pending h (abar a) p c f slot 0 \<Longrightarrow> sector h = S \<Longrightarrow>
      \<exists>v h' m'. hba_read H (port_reg (abar a) p PORT_CI) (h, a_mem a) = (v, h', m') \<and> v AND push_bit slot 1 = 0 \<and> Q h' m'"
    and "pending (a_hba a) (abar a) p c f slot k" "sector (a_hba a) = S" "k < n"
  shows "\<exists>h' m'. ahci_wait H p slot n a = a\<lparr>a_hba := h', a_mem := m'\<rparr> \<and> Q h' m'"
  using assms
proof (induction k arbitrary: a n)
  case 0
  from "0.prems"(1)[OF "0.prems"(2,3)] obtain v h' m' where
    r: "hba_read H (port_reg (abar a) p PORT_CI) (a_hba a, a_mem a) = (v, h', m')" "v AND push_bit slot 1 = 0" "Q h' m'" by blast
  then have "ahci_wait H p slot n a = a\<lparr>a_hba := h', a_mem := m'\<rparr>"
    using "0.prems"(4) by (subst ahci_wait.simps) (simp add: ahci_port_read_def)
  then show ?case using r(3) by blast
next
  case (Suc k)
  from ci_busy[OF Suc.prems(2), of "a_mem a"] obtain v h where
    h: "hba_read H (port_reg (abar a) p PORT_CI) (a_hba a, a_mem a) = (v, h, a_mem a)" "v AND push_bit slot 1 \<noteq> 0"
      "pending h (abar a) p c f slot k" "sector h = sector (a_hba a)" by blast
  have "\<exists>h' m'. ahci_wait H p slot (n - 1) (a\<lparr>a_hba := h\<rparr>) = a\<lparr>a_hba := h\<rparr>\<lparr>a_hba := h', a_mem := m'\<rparr> \<and> Q h' m'"
    using Suc.prems(1,3,4) h(3,4) by (intro Suc.IH) simp_all
  with h(1,2) Suc.prems(4) show ?case by (subst ahci_wait.simps) (simp add: ahci_port_read_def)
qed

lemma issue_ok:
  assumes r: "ready (a_hba a) (abar a) p c f" "slot < 32"
    and fin: "\<And>h. pending h (abar a) p c f slot 0 \<Longrightarrow> sector h = sector (a_hba a) \<Longrightarrow>
      \<exists>v h' m'. hba_read H (port_reg (abar a) p PORT_CI) (h, a_mem a) = (v, h', m') \<and> v AND push_bit slot 1 = 0 \<and> Q h' m'"
    and Q: "\<And>h m. Q h m \<Longrightarrow> ready h (abar a) p c f" "\<And>h h' m. Q h m \<Longrightarrow> ready h' (abar a) p c f \<Longrightarrow> sector h' = sector h \<Longrightarrow> Q h' m"
  shows "\<exists>h m. ahci_issue H p slot a = (False, a\<lparr>a_hba := h, a_mem := m\<rparr>) \<and> Q h m"
proof -
  from ci_issue[OF r, of "a_mem a"] obtain h k where
    h: "hba_write H (port_reg (abar a) p PORT_CI) (push_bit slot 1) (a_hba a, a_mem a) = (h, a_mem a)" "k < 10000000"
      "pending h (abar a) p c f slot k" "sector h = sector (a_hba a)" by blast
  have "\<exists>h' m'. ahci_wait H p slot 10000000 (a\<lparr>a_hba := h\<rparr>) = a\<lparr>a_hba := h\<rparr>\<lparr>a_hba := h', a_mem := m'\<rparr> \<and> Q h' m'"
    using fin h by (intro wait_ok[where c = c and f = f and k = k and S = "sector (a_hba a)"]) simp_all
  then obtain h1 m1 where w: "ahci_wait H p slot 10000000 (a\<lparr>a_hba := h\<rparr>) = a\<lparr>a_hba := h1, a_mem := m1\<rparr>" "Q h1 m1"
    by auto
  from ci_idle[OF Q(1)[OF w(2)], of m1] obtain h2 where
    h2: "hba_read H (port_reg (abar a) p PORT_CI) (h1, m1) = (0, h2, m1)" "ready h2 (abar a) p c f" "sector h2 = sector h1" by blast
  have "ahci_issue H p slot a = (False, a\<lparr>a_hba := h2, a_mem := m1\<rparr>)"
    using h(1) w(1) h2(1) by (simp add: ahci_issue_def ahci_port_write_def ahci_port_read_def)
  then show ?thesis using Q(2)[OF w(2) h2(2,3)] by blast
qed

lemma port_okD:
  assumes "port_ok p a"
  shows "port_usable (int p) a" "p < length (a_ports a)" "page_aligned (clb_phys (a_ports a ! p))" "page_aligned (fb_phys (a_ports a ! p))"
    "page_aligned (ct_phys (a_ports a ! p))" "page_aligned (buf_phys (a_ports a ! p))"
    "distinct [clb_phys (a_ports a ! p), fb_phys (a_ports a ! p), ct_phys (a_ports a ! p), buf_phys (a_ports a ! p)]"
    "ready (a_hba a) (abar a) p (clb_phys (a_ports a ! p)) (fb_phys (a_ports a ! p))"
  using assms unfolding ahci_port_ok_def Let_def by simp_all

lemma port_ok_same:
  assumes "port_ok p a" "same_driver a a'" "ready (a_hba a') (abar a) p (clb_phys (a_ports a ! p)) (fb_phys (a_ports a ! p))"
  shows "port_ok p a'"
  using port_okD[OF assms(1)] assms(3) unfolding ahci_port_ok_def Let_def port_usable_def by (simp add: same_driverD[OF assms(2)])

lemma length_sectors: "length (concat (map (sector h p) ls)) = 512 * length ls"
  by (induction ls) (simp_all add: sector_length)

lemma command_ok:
  fixes a :: "'h ahci" and p :: nat
  defines "q \<equiv> a_ports a ! p"
  assumes ok: "port_ok p a" and n: "0 < n" "n < 65536"
    and ws: "ws = flags # 0 # lo32 (ct_phys q) # hi32 (ct_phys q) # rest" "length rest \<le> 4"
    and fin: "\<And>h m. pending h (abar a) p (clb_phys q) (fb_phys q) 0 0 \<Longrightarrow> sector h = sector (a_hba a) \<Longrightarrow>
      dma_command op flags m (clb_phys q) 0 (unat (take_bit 48 lba)) n (buf_phys q) \<Longrightarrow>
      (\<And>P. page_aligned P \<Longrightarrow> P \<noteq> clb_phys q \<Longrightarrow> P \<noteq> ct_phys q \<Longrightarrow> page_bytes m P = page_bytes (a_mem a) P) \<Longrightarrow>
      \<exists>v h' m'. hba_read H (port_reg (abar a) p PORT_CI) (h, m) = (v, h', m') \<and> v AND push_bit 0 1 = 0 \<and> Q h' m'"
    and Q: "\<And>h m. Q h m \<Longrightarrow> ready h (abar a) p (clb_phys q) (fb_phys q)"
      "\<And>h h' m. Q h m \<Longrightarrow> ready h' (abar a) p (clb_phys q) (fb_phys q) \<Longrightarrow> sector h' = sector h \<Longrightarrow> Q h' m"
  shows "\<exists>a'. ahci_issue H p 0 (cmd_table op lba (int n) q (mem_store32 (clb_phys q + of_nat (32 * 0)) ws a)) = (False, a') \<and>
    same_driver a a' \<and> Q (a_hba a') (a_mem a')"
proof -
  note O = port_okD[OF ok, folded q_def]
  define a2 where "a2 = cmd_table op lba (int n) q (mem_store32 (clb_phys q + of_nat (32 * 0)) ws a)"
  have neq: "clb_phys q \<noteq> ct_phys q" using O(7) by simp
  note U = set_up[OF O(3,5) neq ws n, where op = op and lba = lba and a = a, folded a2_def]
  note D = same_driverD[OF U(3)]
  have "\<exists>h m. ahci_issue H p 0 a2 = (False, a2\<lparr>a_hba := h, a_mem := m\<rparr>) \<and> Q h m"
  proof (rule issue_ok[where c = "clb_phys q" and f = "fb_phys q"], unfold D(1))
    show "ready (a_hba a2) (abar a) p (clb_phys q) (fb_phys q)" using O(8) U(4) by simp
    fix h assume h: "pending h (abar a) p (clb_phys q) (fb_phys q) 0 0" "sector h = sector (a_hba a2)"
    show "\<exists>v h' m'. hba_read H (port_reg (abar a) p PORT_CI) (h, a_mem a2) = (v, h', m') \<and> v AND push_bit 0 1 = 0 \<and> Q h' m'"
      by (rule fin) (use h U(1,2,4) in simp_all)
  qed (simp, erule Q(1), erule (2) Q(2))
  then obtain h m where "ahci_issue H p 0 a2 = (False, a2\<lparr>a_hba := h, a_mem := m\<rparr>)" "Q h m" by blast
  moreover have "same_driver a (a2\<lparr>a_hba := h, a_mem := m\<rparr>)" by (rule same_driver_trans[OF U(3)]) simp
  ultimately show ?thesis unfolding a2_def[symmetric] by (intro exI[of _ "a2\<lparr>a_hba := h, a_mem := m\<rparr>"]) simp
qed

lemma slot_port_ok:
  assumes "port_ok p a"
  obtains a1 where "ahci_slot H p 1000000 a = (Some 0, a1)" "port_ok p a1" "same_driver a a1" "a_mem a1 = a_mem a"
    "sector (a_hba a1) = sector (a_hba a)" "a_ports a1 = a_ports a"
proof -
  obtain h where h: "ahci_slot H p 1000000 a = (Some 0, a\<lparr>a_hba := h\<rparr>)"
    "ready h (abar a) p (clb_phys (a_ports a ! p)) (fb_phys (a_ports a ! p))" "sector h = sector (a_hba a)"
    using slot_ok[OF port_okD(8)[OF assms], of 1000000] by auto
  then have "port_ok p (a\<lparr>a_hba := h\<rparr>)" by (intro port_ok_same[OF assms]) simp_all
  then show thesis using h by (intro that[of "a\<lparr>a_hba := h\<rparr>"]) simp_all
qed

lemma status_ok:
  assumes "port_ok p a" "reg = PORT_IS \<or> reg = PORT_TFD"
  obtains v a1 where "ahci_port_read H p reg a = (v, a1)" "reg = PORT_TFD \<longrightarrow> v AND 1 = 0" "port_ok p a1" "same_driver a a1"
    "a_mem a1 = a_mem a" "sector (a_hba a1) = sector (a_hba a)"
proof -
  obtain v h where h: "hba_read H (port_reg (abar a) p reg) (a_hba a, a_mem a) = (v, h, a_mem a)" "reg = PORT_TFD \<longrightarrow> v AND 1 = 0"
    "ready h (abar a) p (clb_phys (a_ports a ! p)) (fb_phys (a_ports a ! p))" "sector h = sector (a_hba a)"
    using status[OF port_okD(8)[OF assms(1)] assms(2), of "a_mem a"] by blast
  then have "port_ok p (a\<lparr>a_hba := h\<rparr>)" by (intro port_ok_same[OF assms(1)]) simp_all
  then show thesis using h by (intro that[of v "a\<lparr>a_hba := h\<rparr>"]) (simp_all add: ahci_port_read_def)
qed

lemma ack_ok:
  assumes "port_ok p a"
  obtains a1 where "(if v \<noteq> 0 then ahci_port_write H p PORT_IS v a else a) = a1" "port_ok p a1" "same_driver a a1"
    "a_mem a1 = a_mem a" "sector (a_hba a1) = sector (a_hba a)"
proof (cases "v = 0")
  case True
  then show thesis using assms by (intro that[of a]) simp_all
next
  case False
  obtain h where h: "hba_write H (port_reg (abar a) p PORT_IS) v (a_hba a, a_mem a) = (h, a_mem a)"
    "ready h (abar a) p (clb_phys (a_ports a ! p)) (fb_phys (a_ports a ! p))" "sector h = sector (a_hba a)"
    using ack[OF port_okD(8)[OF assms], of v "a_mem a"] by blast
  then have "port_ok p (a\<lparr>a_hba := h\<rparr>)" by (intro port_ok_same[OF assms]) simp_all
  then show thesis using h False by (intro that[of "a\<lparr>a_hba := h\<rparr>"]) (simp_all add: ahci_port_write_def)
qed

lemma read_command_ok:
  fixes a :: "'h ahci" and p :: nat
  defines "q \<equiv> a_ports a ! p"
  assumes ok: "port_ok p a" and n: "0 < n" "n \<le> 8" and lba: "unat lba < 2 ^ 48"
  obtains a' where "ahci_issue H p 0 (cmd_table 0x25 lba (int n) q (read_header 0 q a)) = (False, a')" "port_ok p a'" "same_driver a a'"
    "sector (a_hba a') = sector (a_hba a)"
    "\<And>P. page_aligned P \<Longrightarrow> P \<notin> {clb_phys q, fb_phys q, ct_phys q} \<Longrightarrow> page_bytes (a_mem a') P =
      (if P = buf_phys q then blit (page_bytes (a_mem a) P) 0 (concat (map (sector (a_hba a) p) [unat lba..<unat lba + n]))
       else page_bytes (a_mem a) P)"
proof -
  let ?data = "concat (map (sector (a_hba a) p) [unat lba..<unat lba + n])"
  note O = port_okD[OF ok, folded q_def]
  define Q where "Q = (\<lambda>h m. ready h (abar a) p (clb_phys q) (fb_phys q) \<and> sector h = sector (a_hba a) \<and>
      (\<forall>P. page_aligned P \<and> P \<notin> {clb_phys q, fb_phys q, ct_phys q} \<longrightarrow>
        page_bytes m P = (if P = buf_phys q then blit (page_bytes (a_mem a) P) 0 ?data else page_bytes (a_mem a) P)))"
  have l48: "unat (take_bit 48 lba) = unat lba" using lba by (simp add: unat_take_bit)
  have len: "length ?data \<le> 4096" using n by (simp add: length_sectors)
  have st: "page_bytes (store_bytes m (buf_phys q) ?data) P = (if P = buf_phys q then blit (page_bytes m P) 0 ?data else page_bytes m P)"
    if "page_aligned P" for m P
    using page_store_start[OF len, of m "buf_phys q"] page_store_other[OF O(6) that, of 0 ?data m] len by auto
  have "\<exists>a'. ahci_issue H p 0 (cmd_table 0x25 lba (int n) q (mem_store32 (clb_phys q + of_nat (32 * 0))
      [READ_FLAGS, 0, lo32 (ct_phys q), hi32 (ct_phys q), 0, 0, 0, 0] a)) = (False, a') \<and> same_driver a a' \<and> Q (a_hba a') (a_mem a')"
    unfolding q_def
  proof (rule command_ok[OF ok n(1) _ refl], unfold q_def[symmetric])
    fix h m assume h: "pending h (abar a) p (clb_phys q) (fb_phys q) 0 0" "sector h = sector (a_hba a)"
        "dma_command 0x25 READ_FLAGS m (clb_phys q) 0 (unat (take_bit 48 lba)) n (buf_phys q)"
      and pg: "\<And>P. page_aligned P \<Longrightarrow> P \<noteq> clb_phys q \<Longrightarrow> P \<noteq> ct_phys q \<Longrightarrow> page_bytes m P = page_bytes (a_mem a) P"
    from ci_read[OF h(1) h(3) n(1)] obtain v h' m' where r: "hba_read H (port_reg (abar a) p PORT_CI) (h, m) = (v, h', m')"
      "v AND push_bit 0 1 = 0" "ready h' (abar a) p (clb_phys q) (fb_phys q)" "sector h' = sector h"
      "\<forall>P. page_aligned P \<and> P \<noteq> clb_phys q \<and> P \<noteq> fb_phys q \<longrightarrow> page_bytes m' P = page_bytes (store_bytes m (buf_phys q) ?data) P"
      unfolding l48 h(2) by blast
    have "Q h' m'" using r(3,4,5) h(2) st pg by (simp add: Q_def)
    with r(1,2) show "\<exists>v h' m'. hba_read H (port_reg (abar a) p PORT_CI) (h, m) = (v, h', m') \<and> v AND push_bit 0 1 = 0 \<and> Q h' m'"
      by blast
  qed (use n in \<open>simp_all add: Q_def\<close>)
  then obtain a' where a': "ahci_issue H p 0 (cmd_table 0x25 lba (int n) q (read_header 0 q a)) = (False, a')" "same_driver a a'"
    "Q (a_hba a') (a_mem a')" unfolding read_header_def READ_FLAGS_def by blast
  have "port_ok p a'" using a'(3) by (intro port_ok_same[OF ok a'(2)]) (simp add: Q_def q_def)
  then show thesis using a' by (intro that[of a']) (simp_all add: Q_def)
qed

lemma read_batch_ok:
  assumes ok: "port_ok p a" and n: "0 < n" "n \<le> 8" and lba: "unat lba < 2 ^ 48"
  shows "\<exists>a'. read_batch H p lba (int n) a = (Some (concat (map (sector (a_hba a) p) [unat lba..<unat lba + n])), a') \<and>
    port_ok p a' \<and> sector (a_hba a') = sector (a_hba a) \<and> cmd_frame p a a'"
proof -
  let ?q = "a_ports a ! p" and ?data = "concat (map (sector (a_hba a) p) [unat lba..<unat lba + n])"
  note O = port_okD[OF ok]
  obtain a1 where a1: "ahci_slot H p 1000000 a = (Some 0, a1)" "port_ok p a1" "same_driver a a1" "a_mem a1 = a_mem a"
    "sector (a_hba a1) = sector (a_hba a)" "a_ports a1 = a_ports a" using slot_port_ok[OF ok] by metis
  obtain a2 where a2: "ahci_issue H p 0 (cmd_table 0x25 lba (int n) ?q (read_header 0 ?q a1)) = (False, a2)" "port_ok p a2" "same_driver a1 a2"
    "sector (a_hba a2) = sector (a_hba a)"
    "\<And>P. page_aligned P \<Longrightarrow> P \<notin> {clb_phys ?q, fb_phys ?q, ct_phys ?q} \<Longrightarrow> page_bytes (a_mem a2) P =
      (if P = buf_phys ?q then blit (page_bytes (a_mem a) P) 0 ?data else page_bytes (a_mem a) P)"
    using read_command_ok[OF a1(2) n lba] unfolding a1(4,5,6) by metis
  obtain st a3 where a3: "ahci_port_read H p PORT_IS a2 = (st, a3)" "port_ok p a3" "same_driver a2 a3" "a_mem a3 = a_mem a2"
    "sector (a_hba a3) = sector (a_hba a2)" using status_ok[OF a2(2), of PORT_IS] by metis
  obtain a4 where a4: "(if st \<noteq> 0 then ahci_port_write H p PORT_IS st a3 else a3) = a4" "port_ok p a4" "same_driver a3 a4"
    "a_mem a4 = a_mem a3" "sector (a_hba a4) = sector (a_hba a3)"
    using ack_ok[OF a3(2), of st] by metis
  obtain tfd a5 where a5: "ahci_port_read H p PORT_TFD a4 = (tfd, a5)" "tfd AND 1 = 0" "port_ok p a5" "same_driver a4 a5"
    "a_mem a5 = a_mem a4" "sector (a_hba a5) = sector (a_hba a4)" using status_ok[OF a4(2), of PORT_TFD] by metis
  have m5: "a_mem a5 = a_mem a2" using a3(4) a4(4) a5(5) by simp
  have len: "length ?data = 512 * n" by (simp add: length_sectors)
  have "load_bytes (512 * n) (a_mem a2) (buf_phys ?q) = take (512 * n) (page_bytes (a_mem a2) (buf_phys ?q))" using n by (intro load_page_start) simp
  also have "page_bytes (a_mem a2) (buf_phys ?q) = blit (page_bytes (a_mem a) (buf_phys ?q)) 0 ?data" using a2(5)[OF O(6)] O(7) by auto
  finally have data: "load_bytes (512 * n) (a_mem a2) (buf_phys ?q) = ?data" using len by (simp add: blit_def)
  have "nat (int n * 512) = 512 * n" by (simp add: nat_mult_distrib)
  then have "read_batch H p lba (int n) a = (Some ?data, a5)"
    using a1(1,6) a2(1) a3(1) a4(1) a5(1,2) data m5 by (simp add: read_batch_def)
  moreover have "same_driver a a5" using a1(3) a2(3) a3(3) a4(3) a5(4) by (meson same_driver_trans)
  then have "cmd_frame p a a5" using a2(5) m5 by (simp add: cmd_frame_def)
  ultimately show ?thesis using a5(3,6) a2(4) a3(5) a4(5) by (intro exI[of _ a5]) simp
qed

lemma write_command_ok:
  fixes a :: "'h ahci" and p :: nat
  defines "q \<equiv> a_ports a ! p"
  assumes ok: "port_ok p a" and n: "0 < n" "n \<le> 8" and lba: "unat lba < 2 ^ 48"
  obtains a' where "ahci_issue H p 0 (cmd_table 0x35 lba (int n) q (write_header 0 q a)) = (False, a')" "port_ok p a'" "same_driver a a'"
    "\<And>l. sector (a_hba a') p l = (if unat lba \<le> l \<and> l < unat lba + n
       then take 512 (drop (512 * (l - unat lba)) (page_bytes (a_mem a) (buf_phys q))) else sector (a_hba a) p l)"
    "\<And>P. page_aligned P \<Longrightarrow> P \<notin> {clb_phys q, fb_phys q, ct_phys q} \<Longrightarrow> page_bytes (a_mem a') P = page_bytes (a_mem a) P"
proof -
  note O = port_okD[OF ok, folded q_def]
  define Q where "Q = (\<lambda>h m. ready h (abar a) p (clb_phys q) (fb_phys q) \<and>
      (\<forall>l. sector h p l = (if unat lba \<le> l \<and> l < unat lba + n
       then take 512 (drop (512 * (l - unat lba)) (page_bytes (a_mem a) (buf_phys q))) else sector (a_hba a) p l)) \<and>
      (\<forall>P. page_aligned P \<and> P \<notin> {clb_phys q, fb_phys q, ct_phys q} \<longrightarrow> page_bytes m P = page_bytes (a_mem a) P))"
  have l48: "unat (take_bit 48 lba) = unat lba" using lba by (simp add: unat_take_bit)
  have tk: "take 512 (drop (512 * k) (load_bytes (512 * n) m P)) = take 512 (drop (512 * k) (page_bytes m P))" if "k < n" for m P k
    using n(2) that by (subst load_page_start) (simp_all add: drop_take min_def)
  have "\<exists>a'. ahci_issue H p 0 (cmd_table 0x35 lba (int n) q (mem_store32 (clb_phys q + of_nat (32 * 0))
      [WRITE_FLAGS, 0, lo32 (ct_phys q), hi32 (ct_phys q)] a)) = (False, a') \<and> same_driver a a' \<and> Q (a_hba a') (a_mem a')"
    unfolding q_def
  proof (rule command_ok[OF ok n(1) _ refl], unfold q_def[symmetric])
    fix h m assume h: "pending h (abar a) p (clb_phys q) (fb_phys q) 0 0" "sector h = sector (a_hba a)"
        "dma_command 0x35 WRITE_FLAGS m (clb_phys q) 0 (unat (take_bit 48 lba)) n (buf_phys q)"
      and pg: "\<And>P. page_aligned P \<Longrightarrow> P \<noteq> clb_phys q \<Longrightarrow> P \<noteq> ct_phys q \<Longrightarrow> page_bytes m P = page_bytes (a_mem a) P"
    from ci_write[OF h(1) h(3) n(1)] obtain v h' m' where r: "hba_read H (port_reg (abar a) p PORT_CI) (h, m) = (v, h', m')"
      "v AND push_bit 0 1 = 0" "ready h' (abar a) p (clb_phys q) (fb_phys q)"
      "\<forall>l. sector h' p l = (if unat lba \<le> l \<and> l < unat lba + n
         then take 512 (drop (512 * (l - unat lba)) (load_bytes (512 * n) m (buf_phys q))) else sector (a_hba a) p l)"
      "\<forall>P. page_aligned P \<and> P \<noteq> clb_phys q \<and> P \<noteq> fb_phys q \<longrightarrow> page_bytes m' P = page_bytes m P"
      unfolding l48 h(2) by blast
    have pb: "page_bytes m (buf_phys q) = page_bytes (a_mem a) (buf_phys q)" using pg[OF O(6)] O(7) by auto
    have "Q h' m'" using r(3,4,5) pg unfolding Q_def by (simp add: tk pb less_diff_conv2)
    with r(1,2) show "\<exists>v h' m'. hba_read H (port_reg (abar a) p PORT_CI) (h, m) = (v, h', m') \<and> v AND push_bit 0 1 = 0 \<and> Q h' m'"
      by blast
  qed (use n in \<open>simp_all add: Q_def\<close>)
  then obtain a' where a': "ahci_issue H p 0 (cmd_table 0x35 lba (int n) q (write_header 0 q a)) = (False, a')" "same_driver a a'"
    "Q (a_hba a') (a_mem a')" unfolding write_header_def WRITE_FLAGS_def by blast
  have "port_ok p a'" using a'(3) by (intro port_ok_same[OF ok a'(2)]) (simp add: Q_def q_def)
  then show thesis using a' by (intro that[of a']) (simp_all add: Q_def)
qed

lemma write_batch_ok:
  assumes ok: "port_ok p a" and n: "0 < n" "n \<le> 8" and lba: "unat lba < 2 ^ 48" and bs: "length bytes = 512 * n"
  shows "\<exists>a'. write_batch H p lba bytes (int n) a = (True, a') \<and> port_ok p a' \<and> cmd_frame p a a' \<and>
    (\<forall>l. sector (a_hba a') p l = (if unat lba \<le> l \<and> l < unat lba + n
       then take 512 (drop (512 * (l - unat lba)) bytes) else sector (a_hba a) p l))"
proof -
  let ?q = "a_ports a ! p"
  note O = port_okD[OF ok]
  define a0 where "a0 = mem_store (buf_phys ?q) bytes a"
  have a0: "port_ok p a0" "same_driver a a0" "a_ports a0 = a_ports a" "a_hba a0 = a_hba a" "a_mem a0 = store_bytes (a_mem a) (buf_phys ?q) bytes"
    using O(8) by (auto intro!: port_ok_same[OF ok] simp: a0_def mem_store_def)
  have pb: "page_bytes (a_mem a0) (buf_phys ?q) = blit (page_bytes (a_mem a) (buf_phys ?q)) 0 bytes"
    using bs n by (simp add: a0 page_store_start)
  obtain a1 where a1: "ahci_slot H p 1000000 a0 = (Some 0, a1)" "port_ok p a1" "same_driver a0 a1" "a_mem a1 = a_mem a0"
    "sector (a_hba a1) = sector (a_hba a)" "a_ports a1 = a_ports a" using slot_port_ok[OF a0(1)] a0(3,4) by metis
  obtain a2 where a2: "ahci_issue H p 0 (cmd_table 0x35 lba (int n) ?q (write_header 0 ?q a1)) = (False, a2)" "port_ok p a2" "same_driver a1 a2"
    "\<And>l. sector (a_hba a2) p l = (if unat lba \<le> l \<and> l < unat lba + n
       then take 512 (drop (512 * (l - unat lba)) (page_bytes (a_mem a0) (buf_phys ?q))) else sector (a_hba a) p l)"
    "\<And>P. page_aligned P \<Longrightarrow> P \<notin> {clb_phys ?q, fb_phys ?q, ct_phys ?q} \<Longrightarrow> page_bytes (a_mem a2) P = page_bytes (a_mem a0) P"
    using write_command_ok[OF a1(2) n lba] unfolding a1(4,5,6) by metis
  obtain tfd a3 where a3: "ahci_port_read H p PORT_TFD a2 = (tfd, a3)" "tfd AND 1 = 0" "port_ok p a3" "same_driver a2 a3"
    "a_mem a3 = a_mem a2" "sector (a_hba a3) = sector (a_hba a2)" using status_ok[OF a2(2), of PORT_TFD] by metis
  have "write_batch H p lba bytes (int n) a = (True, a3)"
    using a1(1,6) a2(1) a3(1,2) by (simp add: write_batch_def a0_def[symmetric])
  moreover have "same_driver a a3" using a0(2) a1(3) a2(3) a3(4) by (meson same_driver_trans)
  moreover have "page_bytes (a_mem a3) P = page_bytes (a_mem a) P" if P: "page_aligned P" "P \<notin> {clb_phys ?q, fb_phys ?q, ct_phys ?q, buf_phys ?q}" for P
    using a2(5)[OF P(1)] P(2) page_store_other[OF O(6) P(1), of 0 bytes "a_mem a"] bs n by (auto simp: a3(5) a0(5))
  ultimately have "write_batch H p lba bytes (int n) a = (True, a3) \<and> cmd_frame p a a3" by (simp add: cmd_frame_def)
  moreover have "sector (a_hba a3) p l = (if unat lba \<le> l \<and> l < unat lba + n
       then take 512 (drop (512 * (l - unat lba)) bytes) else sector (a_hba a) p l)" for l
    using a2(4)[of l] bs by (auto simp: a3(6) pb blit_def less_diff_conv2)
  ultimately show ?thesis using a3(3) by blast
qed

text \<open>Up to eight sectors take one command.\<close>

lemma ahci_read_ok:
  assumes "port_ok p a" "0 < n" "n \<le> 8" "unat lba < 2 ^ 48"
  shows "\<exists>a'. ahci_read H (int p) lba (int n) a = (int (512 * n), concat (map (sector (a_hba a) p) [unat lba..<unat lba + n]), a') \<and>
    port_ok p a' \<and> sector (a_hba a') = sector (a_hba a) \<and> cmd_frame p a a'"
proof -
  from read_batch_ok[OF assms] obtain a' where
    r: "read_batch H p lba (int n) a = (Some (concat (map (sector (a_hba a) p) [unat lba..<unat lba + n])), a')"
      "port_ok p a'" "sector (a_hba a') = sector (a_hba a)" "cmd_frame p a a'" by blast
  have "ahci_read H (int p) lba (int n) a = (int (512 * n), concat (map (sector (a_hba a) p) [unat lba..<unat lba + n]), a')"
    using port_okD(1)[OF assms(1)] assms(2,3) r(1)
    by (simp add: ahci_read_def ahci_read_loop.simps[of H p lba "int n"] ahci_read_loop.simps[of H p _ 0] length_sectors)
  then show ?thesis using r(2-4) by blast
qed

lemma ahci_write_ok:
  assumes "port_ok p a" "0 < n" "n \<le> 8" "unat lba < 2 ^ 48" "length bytes = 512 * n"
  shows "\<exists>a'. ahci_write H (int p) lba bytes (int n) a = (int (512 * n), a') \<and> port_ok p a' \<and> cmd_frame p a a' \<and>
    (\<forall>l. sector (a_hba a') p l = (if unat lba \<le> l \<and> l < unat lba + n
       then take 512 (drop (512 * (l - unat lba)) bytes) else sector (a_hba a) p l))"
proof -
  from write_batch_ok[OF assms] obtain a' where r: "write_batch H p lba bytes (int n) a = (True, a')" "port_ok p a'" "cmd_frame p a a'"
    "\<forall>l. sector (a_hba a') p l = (if unat lba \<le> l \<and> l < unat lba + n
       then take 512 (drop (512 * (l - unat lba)) bytes) else sector (a_hba a) p l)" by blast
  have "nat (int n * 512) = length bytes" using assms(5) by (simp add: nat_mult_distrib)
  then have "ahci_write H (int p) lba bytes (int n) a = (int (512 * n), a')"
    using port_okD(1)[OF assms(1)] assms(2,3) r(1)
    by (simp add: ahci_write_def ahci_write_loop.simps[of H p lba bytes "int n"] ahci_write_loop.simps[of H p _ _ 0])
  then show ?thesis using r(2-4) by blast
qed

lemma block_lba: "unat (ucast (b :: u32) * 8 :: u64) = 8 * unat b"
proof -
  have "unat (ucast b :: u64) = unat b" by (rule unat_ucast_up) simp
  moreover have "unat b < 2 ^ 32" using unat_bound[of b] by simp
  ultimately show ?thesis by (simp add: unat_word_ariths)
qed

lemma concat_chunks: "length buf = 512 * n \<Longrightarrow> concat (map (\<lambda>l. take 512 (drop (512 * l) buf)) [0..<n]) = buf"
proof (induction n arbitrary: buf)
  case (Suc n)
  have "[0..<Suc n] = 0 # map Suc [0..<n]" by (simp add: upt_conv_Cons map_Suc_upt del: upt_Suc)
  then have "concat (map (\<lambda>l. take 512 (drop (512 * l) buf)) [0..<Suc n]) =
      take 512 buf @ concat (map (\<lambda>l. take 512 (drop (512 * l) (drop 512 buf))) [0..<n])"
    by (simp add: comp_def add.commute del: upt_Suc)
  also have "\<dots> = take 512 buf @ drop 512 buf" using Suc.prems by (subst Suc.IH) simp_all
  finally show ?case by simp
qed simp

lemma ahci_disk_write:
  assumes "length buf = 4096" and h: "\<forall>l. sector (a_hba a') (nat port) l = (if 8 * unat b \<le> l \<and> l < 8 * unat b + 8
       then take 512 (drop (512 * (l - 8 * unat b)) buf) else sector (a_hba a) (nat port) l)"
  shows "ahci_disk sector port a' = (ahci_disk sector port a)(b := buf)"
proof (rule ext)
  fix x
  show "ahci_disk sector port a' x = ((ahci_disk sector port a)(b := buf)) x"
  proof (cases "x = b")
    case True
    have "[8 * unat b..<8 * unat b + 8] = map (\<lambda>k. 8 * unat b + k) [0..<8]" by (simp add: map_add_upt add.commute)
    then have "ahci_disk sector port a' b = concat (map (\<lambda>k. sector (a_hba a') (nat port) (8 * unat b + k)) [0..<8])"
      by (simp add: ahci_disk_def comp_def)
    also have "\<dots> = concat (map (\<lambda>k. take 512 (drop (512 * k) buf)) [0..<8])"
      by (intro arg_cong[where f = concat] map_cong) (simp_all add: h)
    finally have "ahci_disk sector port a' b = concat (map (\<lambda>k. take 512 (drop (512 * k) buf)) [0..<8])" .
    then show ?thesis using concat_chunks[of buf 8] assms(1) True by simp
  next
    case False
    then have "unat x \<noteq> unat b" by (simp add: word_unat_eq_iff)
    then have "\<not> (8 * unat b \<le> l \<and> l < 8 * unat b + 8)" if "l \<in> set [8 * unat x..<8 * unat x + 8]" for l
      using that by auto
    then have "map (sector (a_hba a') (nat port)) [8 * unat x..<8 * unat x + 8] = map (sector (a_hba a) (nat port)) [8 * unat x..<8 * unat x + 8]"
      using h by (intro map_cong) auto
    then show ?thesis using False unfolding ahci_disk_def fun_upd_apply by (simp only: if_False)
  qed
qed

end

sublocale ahci_controller \<subseteq> ad: block_device "ahci_blkdev H" "ahci_disk sector" "ahci_works ready"
proof (unfold_locales, goal_cases)
  case (1 p d b)
  show ?case by (simp add: ahci_disk_def length_sectors)
next
  case (2 p d b)
  then have p: "int (nat p) = p" "port_ok (nat p) d" by (simp_all add: ahci_works_def)
  have "unat (ucast b * 8 :: u64) < 2 ^ 48" using block_lba[of b] unat_bound[of b] by simp
  from ahci_read_ok[OF p(2), of 8 "ucast b * 8", OF _ _ this] obtain d' where
    "ahci_read H p (ucast b * 8) 8 d = (4096, ahci_disk sector p d b, d')" "port_ok (nat p) d'" "sector (a_hba d') = sector (a_hba d)"
    unfolding block_lba p(1) by (auto simp: ahci_disk_def)
  with 2 show ?case by (intro exI[of _ d']) (simp add: ahci_blkdev_def ahci_works_def ahci_disk_def ext)
next
  case (3 p d buf b)
  then have p: "int (nat p) = p" "port_ok (nat p) d" by (simp_all add: ahci_works_def)
  have "unat (ucast b * 8 :: u64) < 2 ^ 48" using block_lba[of b] unat_bound[of b] by simp
  from ahci_write_ok[OF p(2), of 8 "ucast b * 8" buf, OF _ _ this] 3(2) obtain d' where
    d: "ahci_write H p (ucast b * 8) buf 8 d = (4096, d')" "port_ok (nat p) d'"
      "\<forall>l. sector (a_hba d') (nat p) l = (if 8 * unat b \<le> l \<and> l < 8 * unat b + 8
         then take 512 (drop (512 * (l - 8 * unat b)) buf) else sector (a_hba d) (nat p) l)"
    unfolding block_lba p(1) by auto
  from ahci_disk_write[OF 3(2) d(3)] d(1,2) 3(1) show ?case
    by (intro exI[of _ d']) (simp add: ahci_blkdev_def ahci_works_def)
qed

context ahci_controller
begin

lemma is_block_device: "block_device (ahci_blkdev H) (ahci_disk sector) (ahci_works ready)"
  by (rule ad.block_device_axioms)

end

end
