(* ===== verification/AhciEmu.thy ===== *)
theory AhciEmu
  imports Ahci
begin

text \<open>
  An executable model of an AHCI controller with a drive on every port, in the role of the hardware
  parameter of \<open>Ahci\<close>: it decodes the register, takes the command from the command list in memory when
  the issue register is written, and carries it out after two more reads of that register. It obeys the
  laws of \<open>ahci_controller\<close>, so the driver on it is a working block device.
\<close>

section \<open>The controller\<close>

record emu =
  em_base :: u64
  em_data :: "nat \<Rightarrow> nat \<Rightarrow> u8 list"
  em_clb :: "nat \<Rightarrow> u64"
  em_fb :: "nat \<Rightarrow> u64"
  em_job :: "nat \<Rightarrow> (nat \<times> nat) option"

definition em_sector :: "emu \<Rightarrow> nat \<Rightarrow> nat \<Rightarrow> u8 list" where
  "em_sector h p l = take 512 (em_data h p l @ replicate 512 0)"

definition em_decode :: "emu \<Rightarrow> u64 \<Rightarrow> nat \<times> nat" where
  "em_decode h x = (let k = unat (x - em_base h) - 0x100 in (k div 0x80, k mod 0x80))"

definition em_exec :: "nat \<Rightarrow> nat \<Rightarrow> emu \<times> memory \<Rightarrow> emu \<times> memory" where
  "em_exec p slot hm =
     (let (h, m) = hm; c = em_clb h p; ct = load64 m (c + of_nat (32 * slot + 8)); f = load_bytes 16 m ct;
          lba = unat (fis_lba f); n = fis_count f; dba = load64 m (ct + 128)
      in if f ! 2 = 0x25 then (h, store_bytes m dba (concat (map (em_sector h p) [lba..<lba + n])))
         else (h\<lparr>em_data := (em_data h)(p := \<lambda>l. if lba \<le> l \<and> l < lba + n
              then take 512 (drop (512 * (l - lba)) (load_bytes (512 * n) m dba)) else em_sector h p l)\<rparr>, m))"

definition em_read :: "u64 \<Rightarrow> emu \<times> memory \<Rightarrow> u32 \<times> emu \<times> memory" where
  "em_read x hm =
     (let (h, m) = hm; (p, reg) = em_decode h x in
      if reg = PORT_CI then
        (case em_job h p of None \<Rightarrow> (0, h, m)
         | Some (slot, Suc k) \<Rightarrow> (push_bit slot 1, h\<lparr>em_job := (em_job h)(p := Some (slot, k))\<rparr>, m)
         | Some (slot, 0) \<Rightarrow> (0, em_exec p slot (h\<lparr>em_job := (em_job h)(p := None)\<rparr>, m)))
      else if reg = PORT_SSTS then (3, h, m)
      else (0, h, m))"

definition em_write :: "u64 \<Rightarrow> u32 \<Rightarrow> emu \<times> memory \<Rightarrow> emu \<times> memory" where
  "em_write x v hm =
     (let (h, m) = hm; (p, reg) = em_decode h x in
      if reg = PORT_CI then
        (case find (bit v) [0..<32] of Some slot \<Rightarrow> (h\<lparr>em_job := (em_job h)(p := Some (slot, 2))\<rparr>, m) | None \<Rightarrow> (h, m))
      else if reg = PORT_CLB then (h\<lparr>em_clb := (em_clb h)(p := ucast v)\<rparr>, m)
      else if reg = PORT_CLBU then (h\<lparr>em_clb := (em_clb h)(p := em_clb h p OR push_bit 32 (ucast v))\<rparr>, m)
      else if reg = PORT_FB then (h\<lparr>em_fb := (em_fb h)(p := ucast v)\<rparr>, m)
      else if reg = PORT_FBU then (h\<lparr>em_fb := (em_fb h)(p := em_fb h p OR push_bit 32 (ucast v))\<rparr>, m)
      else (h, m))"

definition emu_hba :: "emu hba" where "emu_hba = \<lparr>hba_read = em_read, hba_write = em_write\<rparr>"

definition em_ready :: "emu \<Rightarrow> u64 \<Rightarrow> nat \<Rightarrow> u64 \<Rightarrow> u64 \<Rightarrow> bool" where
  "em_ready h B p c f \<longleftrightarrow> em_base h = B \<and> p < 32 \<and> em_clb h p = c \<and> em_fb h p = f \<and> em_job h p = None"

definition em_pending :: "emu \<Rightarrow> u64 \<Rightarrow> nat \<Rightarrow> u64 \<Rightarrow> u64 \<Rightarrow> nat \<Rightarrow> nat \<Rightarrow> bool" where
  "em_pending h B p c f slot k \<longleftrightarrow> em_base h = B \<and> p < 32 \<and> em_clb h p = c \<and> em_fb h p = f \<and> em_job h p = Some (slot, k)"

section \<open>It is an AHCI controller\<close>

lemma em_decode_reg: "em_base h = B \<Longrightarrow> p < 32 \<Longrightarrow> reg < 0x80 \<Longrightarrow> reg mod 4 = 0 \<Longrightarrow> em_decode h (port_reg B p reg) = (p, reg)"
proof -
  assume a: "em_base h = B" "p < 32" "reg < 0x80" "reg mod 4 = 0"
  have "(0x100 + p * 0x80 + reg) mod 4 = 0" using a(4) by presburger
  then have "(0x100 + p * 0x80 + reg) div 4 * 4 = 0x100 + p * 0x80 + reg" by (metis add.right_neutral div_mult_mod_eq)
  then have "port_reg B p reg - B = of_nat (0x100 + p * 0x80 + reg)" by (simp add: port_reg_def)
  then have "unat (port_reg B p reg - B) = 0x100 + p * 0x80 + reg" using a(2,3) by (simp only:) (rule unat_of_nat_small, simp)
  then show ?thesis using a by (simp add: em_decode_def Let_def)
qed

lemmas port_regs = PORT_CI_def PORT_IS_def PORT_TFD_def PORT_SSTS_def PORT_CLB_def PORT_CLBU_def PORT_FB_def PORT_FBU_def

lemma bit_slot: "(push_bit slot 1 :: u32) AND push_bit slot 1 \<noteq> 0" if "slot < 32"
  using that by (auto simp: bit_eq_iff bit_simps)

lemma find_slot: "slot < 32 \<Longrightarrow> find (bit (push_bit slot 1 :: u32)) [0..<32] = Some slot"
  by (auto simp: find_upt_Some bit_simps)

lemma em_sector_upd [simp]: "em_sector (h\<lparr>em_job := j\<rparr>) = em_sector h"
  by (simp add: em_sector_def fun_eq_iff)

lemma chunk_room: "lba \<le> l \<Longrightarrow> l < lba + n \<Longrightarrow> 512 \<le> 512 * n - 512 * (l - lba)" for l :: nat
  by arith

interpretation emu: ahci_controller emu_hba em_sector em_ready "\<lambda>h B p c f slot k. slot < 32 \<and> em_pending h B p c f slot k"
proof (unfold_locales, goal_cases)
  case (1 h p l)
  show ?case by (simp add: em_sector_def)
next
  case (2 h B p c f m)
  then show ?case by (simp add: emu_hba_def em_read_def em_decode_reg em_ready_def port_regs)
next
  case (3 h B p c f slot m)
  then show ?case using find_slot[of slot]
    by (intro exI[of _ "h\<lparr>em_job := (em_job h)(p := Some (slot, 2))\<rparr>"] exI[of _ 2])
       (simp add: emu_hba_def em_write_def em_decode_reg em_ready_def em_pending_def port_regs)
next
  case (4 h B p c f slot k m)
  then show ?case using bit_slot[of slot] by (simp add: emu_hba_def em_read_def em_decode_reg em_pending_def port_regs)
next
  case (5 h B p c f slot m lba n dba)
  then show ?case
    by (simp add: emu_hba_def em_read_def em_decode_reg em_pending_def em_ready_def port_regs em_exec_def dma_command_def Let_def)
next
  case (6 h B p c f slot m lba n dba)
  then show ?case
    by (simp add: emu_hba_def em_read_def em_decode_reg em_pending_def em_ready_def port_regs em_exec_def dma_command_def Let_def
        em_sector_def chunk_room)
next
  case (7 h B p c f reg m)
  then show ?case by (auto simp: emu_hba_def em_read_def em_decode_reg em_ready_def port_regs)
next
  case (8 h B p c f v m)
  then show ?case by (simp add: emu_hba_def em_write_def em_decode_reg em_ready_def port_regs)
qed

section \<open>The pages of a port\<close>

lemma port_access_frame [frame_simps]:
  "a_pmm (snd (ahci_port_read H p reg a)) = a_pmm a" "a_ports (snd (ahci_port_read H p reg a)) = a_ports a"
  "a_pmm (ahci_port_write H p reg v a) = a_pmm a" "a_ports (ahci_port_write H p reg v a) = a_ports a"
  by (simp_all add: ahci_port_read_def ahci_port_write_def case_prod_beta)

lemma detect_frame [frame_simps]: "a_pmm (ahci_detect H p n a) = a_pmm a \<and> a_ports (ahci_detect H p n a) = a_ports a"
proof (induction n arbitrary: a)
  case (Suc n)
  then show ?case by (subst (1 2) ahci_detect.simps) (simp add: case_prod_beta frame_simps Let_def)
qed (simp add: ahci_detect.simps)

lemma store_frame [frame_simps]:
  "a_pmm (mem_store32 x ws a) = a_pmm a" "a_ports (mem_store32 x ws a) = a_ports a"
  "a_pmm (port_set p f a) = a_pmm a" "a_ports (port_set p f a) = (a_ports a)[p := f (a_ports a ! p)]"
  "a_pmm (ahci_page_free x a) = page_free x (a_pmm a)" "a_ports (ahci_page_free x a) = a_ports a"
  by (simp_all add: mem_store32_def mem_store_def port_set_def ahci_page_free_def)

lemma page_alloc_step:
  assumes "page_inv (a_pmm a)" "ahci_page_alloc a = (x, a')"
  shows "page_inv (a_pmm a')" "a_ports a' = a_ports a" "x \<noteq> 0 \<Longrightarrow> x \<notin> page_live (a_pmm a)"
    "page_live (a_pmm a') = (if x = 0 then page_live (a_pmm a) else insert x (page_live (a_pmm a)))"
  using assms pa.alloc_inv[OF assms(1)] pa.alloc_fresh[OF assms(1)] pa.alloc_live[OF assms(1)]
  by (auto simp: ahci_page_alloc_def case_prod_beta)

text \<open>Giving pages back in any order restores the set of pages in use.\<close>

lemma release_all:
  "page_inv s \<Longrightarrow> set xs \<subseteq> page_live s \<Longrightarrow> distinct xs \<Longrightarrow>
   page_inv (fold page_free xs s) \<and> page_live (fold page_free xs s) = page_live s - set xs"
proof (induction xs arbitrary: s)
  case (Cons x xs)
  have x: "page_inv (page_free x s)" "page_live (page_free x s) = page_live s - {x}"
    using Cons.prems pa.release_inv[of s x] pa.release_live[of s x] by simp_all
  have "page_inv (fold page_free xs (page_free x s)) \<and> page_live (fold page_free xs (page_free x s)) = page_live s - {x} - set xs"
    using Cons.IH[OF x(1)] Cons.prems unfolding x(2) by auto
  then show ?case by auto
qed simp

text \<open>The pages taken so far, and what is left when the next allocation fails.\<close>

definition took :: "'h ahci \<Rightarrow> u64 list \<Rightarrow> 'h ahci \<Rightarrow> bool" where
  "took a ps a' \<longleftrightarrow> page_inv (a_pmm a') \<and> distinct ps \<and> 0 \<notin> set ps \<and> set ps \<inter> page_live (a_pmm a) = {} \<and>
     page_live (a_pmm a') = page_live (a_pmm a) \<union> set ps"

lemma took_alloc: "took a ps b \<Longrightarrow> ahci_page_alloc b = (x, b') \<Longrightarrow> (if x = 0 then took a ps b' else took a (x # ps) b') \<and> a_ports b' = a_ports b"
  using page_alloc_step[of b x b'] by (auto simp: took_def)

lemma took_store [simp]: "took a ps (mem_store32 x ws b) = took a ps b" "took a ps (port_set p f b) = took a ps b"
  by (simp_all add: took_def frame_simps)

lemma took_release:
  assumes "took a ps b" "set xs = set ps" "distinct xs"
  shows "page_inv (fold page_free xs (a_pmm b)) \<and> page_live (fold page_free xs (a_pmm b)) = page_live (a_pmm a)"
  using release_all[of "a_pmm b" xs] assms by (auto simp: took_def)

lemma port_pages_ok:
  assumes inv: "page_inv (a_pmm a)" and p: "p < length (a_ports a)" and r: "ahci_port_pages p a = (ok, a')"
  shows "if ok then (let q = a_ports a' ! p in took a [buf_phys q, ct_phys q, fb_phys q, clb_phys q] a') \<and> length (a_ports a') = length (a_ports a)
     else page_inv (a_pmm a') \<and> page_live (a_pmm a') = page_live (a_pmm a)"
proof -
  have t0: "took a [] a" using inv by (simp add: took_def)
  obtain c a1 where 1: "ahci_page_alloc a = (c, a1)" by force
  note t1 = took_alloc[OF t0 1]
  define b1 where "b1 = mem_store32 c (replicate 512 0) (port_set p (\<lambda>q. q\<lparr>clb_phys := c\<rparr>) a1)"
  obtain f a2 where 2: "ahci_page_alloc b1 = (f, a2)" by force
  define b2 where "b2 = mem_store32 f (replicate 1024 0) (port_set p (\<lambda>q. q\<lparr>fb_phys := f\<rparr>) a2)"
  obtain t a3 where 3: "ahci_page_alloc b2 = (t, a3)" by force
  define b3 where "b3 = mem_store32 t (replicate 128 0) (port_set p (\<lambda>q. q\<lparr>ct_phys := t\<rparr>) a3)"
  obtain d a4 where 4: "ahci_page_alloc b3 = (d, a4)" by force
  have run: "(ok, a') = (if c = 0 then (False, port_set p (\<lambda>q. q\<lparr>clb_phys := c\<rparr>) a1)
      else if f = 0 then (False, ahci_page_free c (port_set p (\<lambda>q. q\<lparr>fb_phys := f\<rparr>) a2))
      else if t = 0 then (False, ahci_page_free f (ahci_page_free c (port_set p (\<lambda>q. q\<lparr>ct_phys := t\<rparr>) a3)))
      else if d = 0 then (False, ahci_page_free t (ahci_page_free f (ahci_page_free c (port_set p (\<lambda>q. q\<lparr>buf_phys := d\<rparr>) a4))))
      else (True, port_set p (\<lambda>q. q\<lparr>buf_phys := d\<rparr>) a4))"
    unfolding r[symmetric] ahci_port_pages_def Let_def 1 prod.case b1_def[symmetric] 2 b2_def[symmetric] 3 b3_def[symmetric] 4 by (rule refl)
  show ?thesis
  proof (cases "c = 0")
    case True
    then show ?thesis using run t1 by (auto simp: frame_simps took_def)
  next
    case c: False
    have "took a [c] b1" using t1 c by (simp add: b1_def)
    note t2 = took_alloc[OF this 2]
    show ?thesis
    proof (cases "f = 0")
      case True
      then have "\<not> ok" "a_pmm a' = fold page_free [c] (a_pmm a2)" using run c by (auto simp: frame_simps)
      moreover have "took a [c] a2" using t2 True by simp
      ultimately show ?thesis using took_release[of a "[c]" a2 "[c]"] by simp
    next
      case f: False
      have "took a [f, c] b2" using t2 f by (simp add: b2_def)
      note t3 = took_alloc[OF this 3]
      show ?thesis
      proof (cases "t = 0")
        case True
        then have "\<not> ok" "a_pmm a' = fold page_free [c, f] (a_pmm a3)" using run c f by (auto simp: frame_simps)
        moreover have "took a [f, c] a3" using t3 True by simp
        moreover from this have "c \<noteq> f" by (auto simp: took_def)
        ultimately show ?thesis using took_release[of a "[f, c]" a3 "[c, f]"] by (simp add: insert_commute)
      next
        case t: False
        have t3': "took a [t, f, c] b3" using t3 t by (simp add: b3_def)
        note t4 = took_alloc[OF this 4]
        have R: "a_ports b3 = (a_ports a)[p := (a_ports a ! p)\<lparr>clb_phys := c, fb_phys := f, ct_phys := t\<rparr>]"
          using t1 t2 t3 p by (simp add: b1_def b2_def b3_def frame_simps)
        show ?thesis
        proof (cases "d = 0")
          case True
          then have "\<not> ok" "a_pmm a' = fold page_free [c, f, t] (a_pmm a4)" using run c f t by (auto simp: frame_simps)
          moreover have t4': "took a [t, f, c] a4" using t4 True by simp
          moreover from this have "distinct [c, f, t]" by (auto simp: took_def)
          moreover have "set [c, f, t] = set [t, f, c]" by (simp add: insert_commute)
          ultimately show ?thesis using took_release[OF t4', of "[c, f, t]"] by simp
        next
          case False
          then have e: "ok" "a' = port_set p (\<lambda>q. q\<lparr>buf_phys := d\<rparr>) a4" using run c f t by auto
          have "a_ports a' = (a_ports a)[p := (a_ports a ! p)\<lparr>clb_phys := c, fb_phys := f, ct_phys := t, buf_phys := d\<rparr>]"
            using t4 R p by (simp add: e(2) frame_simps)
          then show ?thesis using t4 False p e by simp
        qed
      qed
    qed
  qed
qed

lemma power_frame [frame_simps]: "a_pmm (ahci_port_power H p a) = a_pmm a" "a_ports (ahci_port_power H p a) = a_ports a"
  by (simp_all add: ahci_port_power_def case_prod_beta Let_def frame_simps)

lemma start_frame [frame_simps]: "a_pmm (ahci_port_start H p a) = a_pmm a"
  "a_ports (ahci_port_start H p a) = (a_ports a)[p := (a_ports a ! p)\<lparr>p_initialized := True\<rparr>]"
  by (simp_all add: ahci_port_start_def case_prod_beta Let_def frame_simps)

text \<open>
  \<open>ahci_port_init\<close> either starts the port with four distinct pages that were free before, which are then
  its own, or reports failure with every page it had taken given back to the page allocator.
\<close>

lemma port_init_pages:
  assumes "page_inv (a_pmm a)" "p < length (a_ports a)" "ahci_port_init H p a = (r, a')"
  shows "page_inv (a_pmm a') \<and> (if r = 1
     then let q = a_ports a' ! p; ps = [clb_phys q, fb_phys q, ct_phys q, buf_phys q] in p_initialized q \<and> distinct ps \<and> 0 \<notin> set ps \<and>
       set ps \<inter> page_live (a_pmm a) = {} \<and> page_live (a_pmm a') = page_live (a_pmm a) \<union> set ps
     else r = 0 \<and> page_live (a_pmm a') = page_live (a_pmm a))"
proof -
  define b where "b = snd (ahci_port_read H p PORT_SSTS (ahci_detect H p 100000 (ahci_port_power H p a)))"
  have b: "a_pmm b = a_pmm a" "a_ports b = a_ports a" by (simp_all add: b_def frame_simps)
  have tk: "took b = took a" by (simp add: took_def fun_eq_iff b)
  obtain ok a1 where pp: "ahci_port_pages p b = (ok, a1)" by force
  have ok: "if ok then (let q = a_ports a1 ! p in took a [buf_phys q, ct_phys q, fb_phys q, clb_phys q] a1) \<and> length (a_ports a1) = length (a_ports a)
     else page_inv (a_pmm a1) \<and> page_live (a_pmm a1) = page_live (a_pmm a)"
    using port_pages_ok[OF _ _ pp] assms(1,2) unfolding tk by (simp add: b)
  have "(r, a') = (if fst (ahci_port_read H p PORT_SSTS (ahci_detect H p 100000 (ahci_port_power H p a))) AND 0xF \<noteq> 3 then (0, b)
      else if ok then (1, ahci_port_start H p a1) else (0, a1))"
    unfolding assms(3)[symmetric] by (simp add: ahci_port_init_def Let_def case_prod_beta b_def[symmetric] pp)
  then consider "r = 0" "a' = b" | "ok" "r = 1" "a' = ahci_port_start H p a1" | "\<not> ok" "r = 0" "a' = a1"
    by (simp split: if_splits)
  then show ?thesis
  proof cases
    case 1
    then show ?thesis using assms(1) b by simp
  next
    case 2
    then show ?thesis using ok assms(2) by (auto simp: Let_def took_def frame_simps)
  next
    case 3
    then show ?thesis using ok by simp
  qed
qed

lemma page_alloc_ports [frame_simps]: "a_ports (snd (ahci_page_alloc a)) = a_ports a"
  by (simp add: ahci_page_alloc_def case_prod_beta)

text \<open>Setting up one port leaves the others.\<close>

definition only_port :: "nat \<Rightarrow> 'h ahci \<Rightarrow> 'h ahci \<Rightarrow> bool" where
  "only_port p a b \<longleftrightarrow> length (a_ports b) = length (a_ports a) \<and> (\<forall>j. j \<noteq> p \<longrightarrow> a_ports b ! j = a_ports a ! j) \<and>
     (p < length (a_ports a) \<longrightarrow> p_initialized (a_ports b ! p) = p_initialized (a_ports a ! p))"

lemma only_port_steps:
  "only_port p a a"
  "only_port p a b \<Longrightarrow> only_port p a (snd (ahci_page_alloc b))" "only_port p a b \<Longrightarrow> only_port p a (ahci_page_free x b)"
  "only_port p a b \<Longrightarrow> only_port p a (mem_store32 x ws b)"
  "only_port p a b \<Longrightarrow> (\<And>q. p_initialized (f q) = p_initialized q) \<Longrightarrow> only_port p a (port_set p f b)"
  by (simp_all add: only_port_def frame_simps nth_list_update)

lemma port_pages_others: "only_port p a (snd (ahci_port_pages p a))"
  unfolding ahci_port_pages_def Let_def case_prod_beta by (auto intro!: only_port_steps)

lemma port_init_others:
  assumes "ahci_port_init H p a = (r, a')"
  shows "length (a_ports a') = length (a_ports a)" "j \<noteq> p \<Longrightarrow> a_ports a' ! j = a_ports a ! j"
    "p < length (a_ports a) \<Longrightarrow> r = 0 \<Longrightarrow> p_initialized (a_ports a' ! p) = p_initialized (a_ports a ! p)"
proof -
  define b where "b = snd (ahci_port_read H p PORT_SSTS (ahci_detect H p 100000 (ahci_port_power H p a)))"
  have b: "a_ports b = a_ports a" by (simp add: b_def frame_simps)
  obtain ok a1 where pp: "ahci_port_pages p b = (ok, a1)" by force
  have o: "only_port p a a1" using port_pages_others[of p b] by (simp add: pp only_port_def b)
  have "(r, a') = (if fst (ahci_port_read H p PORT_SSTS (ahci_detect H p 100000 (ahci_port_power H p a))) AND 0xF \<noteq> 3 then (0, b)
      else if ok then (1, ahci_port_start H p a1) else (0, a1))"
    unfolding assms[symmetric] by (simp add: ahci_port_init_def Let_def case_prod_beta b_def[symmetric] pp)
  then show "length (a_ports a') = length (a_ports a)" "j \<noteq> p \<Longrightarrow> a_ports a' ! j = a_ports a ! j"
    "p < length (a_ports a) \<Longrightarrow> r = 0 \<Longrightarrow> p_initialized (a_ports a' ! p) = p_initialized (a_ports a ! p)"
    using o b by (auto simp: only_port_def frame_simps split: if_splits)
qed

section \<open>Properties\<close>

text \<open>
  C27: On any controller that obeys the AHCI laws, the driver's \<open>ahci_read\<close> and \<open>ahci_write\<close> implement the contract of
  a working disk the filesystem is built on: a block read returns the eight sectors of the block and
  changes nothing, a block write changes exactly these sectors, and the port stays ready.
\<close>

theorem ahci_implements_block_device:
  assumes "ahci_controller H sector ready pending"
  shows "block_device (ahci_blkdev H) (ahci_disk sector) (ahci_works ready)"
  by (rule ahci_controller.is_block_device[OF assms])

text \<open>
  A read of one to eight sectors from a ready port returns the number of bytes and exactly the bytes of the
  requested sectors, and the driver's DMA touches no page of memory other than the four of the port.
\<close>

theorem ahci_read_correct:
  assumes "ahci_controller H sector ready pending" "ahci_port_ok ready p a" "0 < n" "n \<le> 8" "unat lba < 2 ^ 48"
  shows "\<exists>a'. ahci_read H (int p) lba (int n) a = (int (512 * n), concat (map (sector (a_hba a) p) [unat lba..<unat lba + n]), a') \<and>
    ahci_port_ok ready p a' \<and> sector (a_hba a') = sector (a_hba a) \<and> cmd_frame p a a'"
  by (rule ahci_controller.ahci_read_ok[OF assms])

section \<open>Concrete instances\<close>

text \<open>A controller whose sector \<open>l\<close> is filled with the byte \<open>l\<close>, port 0 started with the pages 5 to 8.\<close>

definition emu_example :: emu where
  "emu_example = \<lparr>em_base = 0xFEBF0000, em_data = \<lambda>p l. replicate 512 (of_nat l), em_clb = \<lambda>p. 0x5000, em_fb = \<lambda>p. 0x6000, em_job = \<lambda>p. None\<rparr>"

definition ahci_example :: "emu ahci" where
  "ahci_example = \<lparr>abar = 0xFEBF0000, a_ports = [\<lparr>p_regs = 0xFEBF0100, p_present = True, p_initialized = True, clb_phys = 0x5000,
     fb_phys = 0x6000, ct_phys = 0x7000, buf_phys = 0x8000\<rparr>], nports = 1, ahci_ok = True, a_hba = emu_example, a_mem = \<lambda>x. 0,
     a_pmm = pmm_example\<rparr>"

lemma ahci_example_ok: "ahci_port_ok em_ready 0 ahci_example"
  by (simp add: ahci_port_ok_def ahci_example_def port_usable_def page_aligned_def em_ready_def emu_example_def)

theorem ahci_implements_block_device_witness:
  "block_device (ahci_blkdev emu_hba) (ahci_disk em_sector) (ahci_works em_ready)"
  by (rule ahci_implements_block_device[OF emu.ahci_controller_axioms])

theorem ahci_read_correct_witness:
  "\<exists>a'. ahci_read emu_hba 0 3 1 ahci_example = (512, replicate 512 3, a') \<and> ahci_port_ok em_ready 0 a'"
proof -
  have "em_sector (a_hba ahci_example) 0 3 = replicate 512 3"
    by (simp only: em_sector_def ahci_example_def ahci.select_convs emu_example_def emu.select_convs) simp
  then show ?thesis
    using ahci_read_correct[OF emu.ahci_controller_axioms ahci_example_ok, of 1 3] by auto
qed

end
