(* ===== verification/Pci.thy ===== *)
theory Pci
  imports Prelude "HOL-Library.Monad_Syntax"
begin

text \<open>
  The PCI bus, \<open>src/kernel/hal/pci.c\<close>: enumeration of the devices through the configuration ports. The configuration
  space is a parameter: what the data port returns for an address written to the address port, which by the PCI
  specification has no side effect, and what a store does to its state.
\<close>

section \<open>Configuration space\<close>

record 'c pcibus =
  pb_read :: "u32 \<Rightarrow> 'c \<Rightarrow> u32"
  pb_write :: "u32 \<Rightarrow> u32 \<Rightarrow> 'c \<Rightarrow> 'c"

definition config_addr :: "u8 \<Rightarrow> u8 \<Rightarrow> u8 \<Rightarrow> u32 \<Rightarrow> u32" where
  "config_addr bus slot func reg =
     push_bit 31 1 OR push_bit 16 (ucast bus) OR push_bit 11 (ucast slot) OR push_bit 8 (ucast func) OR (reg AND 0xFC)"

definition pci_config_read :: "'c pcibus \<Rightarrow> u8 \<Rightarrow> u8 \<Rightarrow> u8 \<Rightarrow> u32 \<Rightarrow> 'c \<Rightarrow> u32" where
  "pci_config_read P bus slot func reg c = pb_read P (config_addr bus slot func reg) c"

definition pci_config_write :: "'c pcibus \<Rightarrow> u8 \<Rightarrow> u8 \<Rightarrow> u8 \<Rightarrow> u32 \<Rightarrow> u32 \<Rightarrow> 'c \<Rightarrow> 'c" where
  "pci_config_write P bus slot func reg val c = pb_write P (config_addr bus slot func reg) val c"

section \<open>Devices\<close>

definition PCI_MAX_DEVICES :: nat where "PCI_MAX_DEVICES = 64"

record pci_dev =
  d_bus :: u8
  d_slot :: u8
  d_func :: u8
  vendor :: u16
  device :: u16
  class_code :: u8
  sub_class :: u8
  prog_if :: u8
  bar :: "u32 list"
  is_bridge :: bool
  secondary_bus :: u8
  header_type :: u8

record pci =
  devices :: "pci_dev list"
  ndevices :: nat

definition pci_fill :: "'c pcibus \<Rightarrow> 'c \<Rightarrow> u8 \<Rightarrow> u8 \<Rightarrow> u8 \<Rightarrow> pci_dev \<Rightarrow> pci_dev" where
  "pci_fill P c bus slot func d =
     (let cc = pci_config_read P bus slot func 8 c;
          hdr = pci_config_read P bus slot func 0x0C c;
          ht = ucast (drop_bit 16 hdr AND 0xFF) :: u8;
          br = (ht AND 0x7F = 1);
          d1 = d\<lparr>class_code := ucast (drop_bit 24 cc AND 0xFF), sub_class := ucast (drop_bit 16 cc AND 0xFF),
                 prog_if := ucast (drop_bit 8 cc AND 0xFF), header_type := ht,
                 bar := map (\<lambda>i. pci_config_read P bus slot func (0x10 + of_nat i * 4) c) [0..<6], is_bridge := br\<rparr>
      in if br then d1\<lparr>secondary_bus := ucast (drop_bit 8 (pci_config_read P bus slot func 0x18 c) AND 0xFF)\<rparr> else d1)"

text \<open>The entry is filled in place, also when there is no device and it is not counted.\<close>

definition add_device :: "'c pcibus \<Rightarrow> 'c \<Rightarrow> u8 \<Rightarrow> u8 \<Rightarrow> u8 \<Rightarrow> pci \<Rightarrow> pci" where
  "add_device P c bus slot func s =
     (if ndevices s \<ge> PCI_MAX_DEVICES then s
      else
        let n = ndevices s; idr = pci_config_read P bus slot func 0 c;
            d = (devices s ! n)\<lparr>d_bus := bus, d_slot := slot, d_func := func,
                  vendor := ucast (idr AND 0xFFFF), device := ucast (drop_bit 16 idr)\<rparr>
        in if vendor d = 0xFFFF then s\<lparr>devices := (devices s)[n := d]\<rparr>
           else s\<lparr>devices := (devices s)[n := pci_fill P c bus slot func d], ndevices := n + 1\<rparr>)"

definition scan_slot :: "'c pcibus \<Rightarrow> 'c \<Rightarrow> u8 \<Rightarrow> u8 \<Rightarrow> pci \<Rightarrow> pci" where
  "scan_slot P c bus slot s =
     (if pci_config_read P bus slot 0 0 c AND 0xFFFF = 0xFFFF then s
      else
        let s1 = add_device P c bus slot 0 s;
            multifunc = drop_bit 23 (pci_config_read P bus slot 0 0x0C c) AND 1
        in if multifunc \<noteq> 0 then
             fold (\<lambda>func s. if pci_config_read P bus slot (of_nat func) 0 c AND 0xFFFF \<noteq> 0xFFFF
                            then add_device P c bus slot (of_nat func) s else s) [1..<8] s1
           else s1)"

definition scan_bus :: "'c pcibus \<Rightarrow> 'c \<Rightarrow> u8 \<Rightarrow> pci \<Rightarrow> pci" where
  "scan_bus P c bus s = fold (\<lambda>slot. scan_slot P c bus (of_nat slot)) [0..<32] s"

text \<open>
  The loop over the bridges found so far; its bound grows while it runs. Bridges that form a cycle make it call itself
  for ever, so it is a \<open>partial_function\<close>.
\<close>

partial_function (option) bridge_loop :: "'c pcibus \<Rightarrow> 'c \<Rightarrow> u8 \<Rightarrow> nat \<Rightarrow> pci \<Rightarrow> pci option" where
  "bridge_loop P c bus i s =
     (if i < ndevices s then
        let d = devices s ! i; sec = secondary_bus d in
        if is_bridge d \<and> d_bus d = bus \<and> sec \<noteq> 0 \<and> sec \<noteq> bus then
          do { s1 \<leftarrow> bridge_loop P c sec 0 (scan_bus P c sec s);
               bridge_loop P c bus (i + 1) s1 }
        else bridge_loop P c bus (i + 1) s
      else Some s)"

definition scan_bus_recursive :: "'c pcibus \<Rightarrow> 'c \<Rightarrow> u8 \<Rightarrow> pci \<Rightarrow> pci option" where
  "scan_bus_recursive P c bus s = bridge_loop P c bus 0 (scan_bus P c bus s)"

definition pci_init :: "'c pcibus \<Rightarrow> 'c \<Rightarrow> pci \<Rightarrow> (nat \<times> pci) option" where
  "pci_init P c s = map_option (\<lambda>s. (ndevices s, s)) (scan_bus_recursive P c 0 (s\<lparr>ndevices := 0\<rparr>))"

section \<open>Access to devices\<close>

definition pci_device_count :: "pci \<Rightarrow> nat" where "pci_device_count s = ndevices s"

definition pci_device :: "int \<Rightarrow> pci \<Rightarrow> pci_dev option" where
  "pci_device idx s = (if idx \<ge> 0 \<and> idx < int (ndevices s) then Some (devices s ! nat idx) else None)"

definition pci_read_config :: "'c pcibus \<Rightarrow> pci_dev \<Rightarrow> u32 \<Rightarrow> int \<Rightarrow> 'c \<Rightarrow> u32" where
  "pci_read_config P dev reg width c =
     (let v = pci_config_read P (d_bus dev) (d_slot dev) (d_func dev) reg c in
      if width = 1 then v AND 0xFF else if width = 2 then v AND 0xFFFF else v)"

definition pci_write_config :: "'c pcibus \<Rightarrow> pci_dev \<Rightarrow> u32 \<Rightarrow> u32 \<Rightarrow> int \<Rightarrow> 'c \<Rightarrow> 'c" where
  "pci_write_config P dev reg val width c =
     (let v = (if width = 1 \<or> width = 2 then
                 let cur = pci_config_read P (d_bus dev) (d_slot dev) (d_func dev) reg c;
                     m = (if width = 1 then 0xFF else 0xFFFF);
                     sh = unat (reg AND 3) * 8
                 in (cur AND NOT (push_bit sh m)) OR push_bit sh (val AND m)
               else val)
      in pci_config_write P (d_bus dev) (d_slot dev) (d_func dev) reg v c)"

definition pci_find :: "u8 \<Rightarrow> u8 \<Rightarrow> u8 \<Rightarrow> pci \<Rightarrow> nat option" where
  "pci_find cc sc pi s =
     find (\<lambda>i. class_code (devices s ! i) = cc \<and> sub_class (devices s ! i) = sc \<and> prog_if (devices s ! i) = pi) [0..<ndevices s]"

definition pci_enable_bus_master :: "'c pcibus \<Rightarrow> pci_dev \<Rightarrow> 'c \<Rightarrow> 'c" where
  "pci_enable_bus_master P dev c = pci_write_config P dev 4 (pci_read_config P dev 4 4 c OR 4) 4 c"

definition pci_enable_mmio :: "'c pcibus \<Rightarrow> pci_dev \<Rightarrow> 'c \<Rightarrow> 'c" where
  "pci_enable_mmio P dev c = pci_write_config P dev 4 (pci_read_config P dev 4 4 c OR 2) 4 c"

section \<open>What is on the bus\<close>

text \<open>
  A function is present if it answers with a vendor and, unless it is the first one of its slot, the first one says that
  there are several.
\<close>

definition fn_present :: "'c pcibus \<Rightarrow> 'c \<Rightarrow> u8 \<Rightarrow> nat \<Rightarrow> nat \<Rightarrow> bool" where
  "fn_present P c bus slot func \<longleftrightarrow> slot < 32 \<and> func < 8 \<and>
     pci_config_read P bus (of_nat slot) 0 0 c AND 0xFFFF \<noteq> 0xFFFF \<and>
     pci_config_read P bus (of_nat slot) (of_nat func) 0 c AND 0xFFFF \<noteq> 0xFFFF \<and>
     (func = 0 \<or> drop_bit 23 (pci_config_read P bus (of_nat slot) 0 0x0C c) AND 1 \<noteq> 0)"

definition bridge_to :: "'c pcibus \<Rightarrow> 'c \<Rightarrow> u8 \<Rightarrow> nat \<Rightarrow> nat \<Rightarrow> u8 option" where
  "bridge_to P c bus slot func =
     (if (ucast (drop_bit 16 (pci_config_read P bus (of_nat slot) (of_nat func) 0x0C c) AND 0xFF) :: u8) AND 0x7F = 1
      then Some (ucast (drop_bit 8 (pci_config_read P bus (of_nat slot) (of_nat func) 0x18 c) AND 0xFF)) else None)"

inductive reach :: "'c pcibus \<Rightarrow> 'c \<Rightarrow> u8 \<Rightarrow> u8 \<Rightarrow> bool" for P c where
  here: "reach P c b b"
| below: "fn_present P c b slot func \<Longrightarrow> bridge_to P c b slot func = Some sec \<Longrightarrow> sec \<noteq> 0 \<Longrightarrow> sec \<noteq> b \<Longrightarrow> reach P c sec b' \<Longrightarrow> reach P c b b'"

text \<open>The entry of a function: its address, and what the configuration space says of it.\<close>

definition entry_for :: "'c pcibus \<Rightarrow> 'c \<Rightarrow> u8 \<Rightarrow> nat \<Rightarrow> nat \<Rightarrow> pci_dev \<Rightarrow> bool" where
  "entry_for P c bus slot func d \<longleftrightarrow>
     d_bus d = bus \<and> d_slot d = of_nat slot \<and> d_func d = of_nat func \<and>
     vendor d = ucast (pci_config_read P bus (of_nat slot) (of_nat func) 0 c AND 0xFFFF) \<and>
     class_code d = ucast (drop_bit 24 (pci_config_read P bus (of_nat slot) (of_nat func) 8 c) AND 0xFF) \<and>
     bar d = map (\<lambda>i. pci_config_read P bus (of_nat slot) (of_nat func) (0x10 + of_nat i * 4) c) [0..<6] \<and>
     (case bridge_to P c bus slot func of None \<Rightarrow> \<not> is_bridge d | Some sec \<Rightarrow> is_bridge d \<and> secondary_bus d = sec)"

definition pci_inv :: "'c pcibus \<Rightarrow> 'c \<Rightarrow> pci \<Rightarrow> bool" where
  "pci_inv P c s \<longleftrightarrow> length (devices s) = 64 \<and> ndevices s \<le> 64 \<and>
     (\<forall>i<ndevices s. \<exists>bus slot func. fn_present P c bus slot func \<and> entry_for P c bus slot func (devices s ! i))"

text \<open>Entries that are counted stay.\<close>

definition extends :: "pci \<Rightarrow> pci \<Rightarrow> bool" where
  "extends s s' \<longleftrightarrow> ndevices s \<le> ndevices s' \<and> (\<forall>i<ndevices s. devices s' ! i = devices s ! i)"

definition found :: "'c pcibus \<Rightarrow> 'c \<Rightarrow> u8 \<times> nat \<times> nat \<Rightarrow> pci \<Rightarrow> bool" where
  "found P c x s \<longleftrightarrow> (\<exists>i<ndevices s. case x of (bus, slot, func) \<Rightarrow> entry_for P c bus slot func (devices s ! i))"

lemma extends_refl [simp]: "extends s s"
  by (simp add: extends_def)

lemma extends_trans: "extends a b \<Longrightarrow> extends b c \<Longrightarrow> extends a c"
  by (auto simp: extends_def)

lemma found_mono: "found P c x s \<Longrightarrow> extends s s' \<Longrightarrow> found P c x s'"
proof -
  assume "found P c x s" and e: "extends s s'"
  then obtain i where i: "i < ndevices s" "case x of (bus, slot, func) \<Rightarrow> entry_for P c bus slot func (devices s ! i)"
    unfolding found_def by blast
  then have "i < ndevices s'" "devices s' ! i = devices s ! i" using e by (simp_all add: extends_def)
  then show ?thesis unfolding found_def using i(2) by (intro exI[of _ i]) simp
qed

text \<open>One step of the scan: the invariant stays, and unless the table gets full the functions of a set are found.\<close>

definition scans :: "'c pcibus \<Rightarrow> 'c \<Rightarrow> (u8 \<times> nat \<times> nat) set \<Rightarrow> (pci \<Rightarrow> pci) \<Rightarrow> bool" where
  "scans P c S f \<longleftrightarrow> (\<forall>s. pci_inv P c s \<longrightarrow> pci_inv P c (f s) \<and> extends s (f s) \<and>
     (ndevices (f s) < 64 \<longrightarrow> (\<forall>x\<in>S. found P c x (f s))))"

lemma scansD:
  assumes "scans P c S f" "pci_inv P c s"
  shows "pci_inv P c (f s)" "extends s (f s)" "x \<in> S \<Longrightarrow> ndevices (f s) < 64 \<Longrightarrow> found P c x (f s)"
  using assms unfolding scans_def by blast+

lemma scansI:
  assumes "\<And>s. pci_inv P c s \<Longrightarrow> pci_inv P c (f s) \<and> extends s (f s) \<and> (ndevices (f s) < 64 \<longrightarrow> (\<forall>x\<in>S. found P c x (f s)))"
  shows "scans P c S f"
  unfolding scans_def by (intro allI impI) (rule assms)

lemma scans_comp: "scans P c S f \<Longrightarrow> scans P c T g \<Longrightarrow> scans P c (S \<union> T) (\<lambda>s. g (f s))"
proof (rule scansI)
  fix s assume a: "scans P c S f" "scans P c T g" "pci_inv P c s"
  note f = scansD[OF a(1,3)] and g = scansD[OF a(2) scansD(1)[OF a(1,3)]]
  have "found P c x (g (f s))" if x: "x \<in> S \<union> T" "ndevices (g (f s)) < 64" for x
  proof -
    have "ndevices (f s) < 64" using g(2) x(2) by (simp add: extends_def)
    then have "found P c x (g (f s))" if "x \<in> S" by (rule found_mono[OF f(3)[OF that] g(2)])
    then show ?thesis using x g(3)[of x] by (cases "x \<in> S") simp_all
  qed
  then show "pci_inv P c (g (f s)) \<and> extends s (g (f s)) \<and> (ndevices (g (f s)) < 64 \<longrightarrow> (\<forall>x\<in>S \<union> T. found P c x (g (f s))))"
    using g(1) extends_trans[OF f(2) g(2)] by simp
qed

lemma scans_fold: "\<forall>x\<in>set xs. scans P c (S x) (f x) \<Longrightarrow> scans P c (\<Union>x\<in>set xs. S x) (fold f xs)"
proof (induction xs)
  case Nil
  show ?case by (simp add: scans_def)
next
  case (Cons x xs)
  then have "scans P c (S x \<union> (\<Union>x\<in>set xs. S x)) (\<lambda>s. fold f xs (f x s))" by (intro scans_comp) auto
  then show ?case by (simp add: comp_def)
qed

lemma scans_id: "scans P c {} (\<lambda>s. s)"
  by (simp add: scans_def)

lemma id_present: "(ucast ((idr :: u32) AND 0xFFFF) :: u16) = 0xFFFF \<longleftrightarrow> idr AND 0xFFFF = 0xFFFF"
proof -
  have m: "(0xFFFF :: u32) = mask 16" "(0xFFFF :: u16) = mask 16" by (simp_all add: mask_eq_exp_minus_1)
  have "unat (idr AND 0xFFFF) < 2 ^ 16" unfolding m(1) take_bit_eq_mask[symmetric] unat_take_bit by simp
  then have "unat (ucast (idr AND 0xFFFF) :: u16) = unat (idr AND 0xFFFF)" by (intro unat_ucast_small) simp
  then show ?thesis by (simp add: word_unat_eq_iff)
qed

lemma add_device_scans:
  assumes "slot < 32" "func < 8" "pci_config_read P bus (of_nat slot) 0 0 c AND 0xFFFF \<noteq> 0xFFFF"
    and "func = 0 \<or> drop_bit 23 (pci_config_read P bus (of_nat slot) 0 0x0C c) AND 1 \<noteq> 0"
    and "pci_config_read P bus (of_nat slot) (of_nat func) 0 c AND 0xFFFF \<noteq> 0xFFFF"
  shows "scans P c {(bus, slot, func)} (add_device P c bus (of_nat slot) (of_nat func))"
proof (rule scansI)
  have p: "fn_present P c bus slot func" using assms by (simp add: fn_present_def)
  fix s assume i: "pci_inv P c s"
  let ?s = "add_device P c bus (of_nat slot) (of_nat func) s"
  have "pci_inv P c ?s \<and> extends s ?s \<and> (ndevices ?s < 64 \<longrightarrow> found P c (bus, slot, func) ?s)"
  proof (cases "ndevices s < 64")
    case False
    then have "?s = s" by (simp add: add_device_def PCI_MAX_DEVICES_def)
    then show ?thesis using i False by simp
  next
    case True
    define d where "d = (devices s ! ndevices s)\<lparr>d_bus := bus, d_slot := of_nat slot, d_func := of_nat func,
      vendor := ucast (pci_config_read P bus (of_nat slot) (of_nat func) 0 c AND 0xFFFF),
      device := ucast (drop_bit 16 (pci_config_read P bus (of_nat slot) (of_nat func) 0 c))\<rparr>"
    let ?d = "pci_fill P c bus (of_nat slot) (of_nat func) d"
    have s: "?s = s\<lparr>devices := (devices s)[ndevices s := ?d], ndevices := ndevices s + 1\<rparr>"
      using True assms(5) by (simp add: add_device_def PCI_MAX_DEVICES_def Let_def d_def id_present)
    have e: "entry_for P c bus slot func ?d"
      by (simp add: entry_for_def pci_fill_def bridge_to_def Let_def d_def)
    have n: "devices ?s ! ndevices s = ?d" "\<forall>i<ndevices s. devices ?s ! i = devices s ! i" "ndevices ?s = Suc (ndevices s)" "length (devices ?s) = 64"
      using i True by (simp_all add: s pci_inv_def)
    have "pci_inv P c ?s" using i True e p n unfolding pci_inv_def by (auto simp: less_Suc_eq)
    moreover have "extends s ?s" using n(2,3) by (simp add: extends_def)
    moreover have "found P c (bus, slot, func) ?s" using e n(1,3) by (auto simp: found_def intro!: exI[of _ "ndevices s"])
    ultimately show ?thesis by blast
  qed
  then show "pci_inv P c ?s \<and> extends s ?s \<and> (ndevices ?s < 64 \<longrightarrow> (\<forall>x\<in>{(bus, slot, func)}. found P c x ?s))" by simp
qed

definition bus_funcs :: "'c pcibus \<Rightarrow> 'c \<Rightarrow> u8 \<Rightarrow> (u8 \<times> nat \<times> nat) set" where
  "bus_funcs P c bus = {(bus, slot, func) | slot func. fn_present P c bus slot func}"

lemma scan_slot_scans:
  assumes "slot < 32"
  shows "scans P c {(bus, slot, func) | func. fn_present P c bus slot func} (scan_slot P c bus (of_nat slot))"
proof (cases "pci_config_read P bus (of_nat slot) 0 0 c AND 0xFFFF = 0xFFFF")
  case True
  then have "{(bus, slot, func) | func. fn_present P c bus slot func} = {}" by (simp add: fn_present_def)
  moreover have "scan_slot P c bus (of_nat slot) = (\<lambda>s. s)" using True by (simp add: scan_slot_def fun_eq_iff)
  ultimately show ?thesis by (simp add: scans_id)
next
  case False
  let ?m = "drop_bit 23 (pci_config_read P bus (of_nat slot) 0 0x0C c) AND 1 \<noteq> 0"
  have z: "scans P c {(bus, slot, 0)} (add_device P c bus (of_nat slot) 0)"
    using add_device_scans[of slot 0 P bus c] assms False by simp
  show ?thesis
  proof (cases ?m)
    case m: False
    have "{(bus, slot, func) | func. fn_present P c bus slot func} = {(bus, slot, 0)}" using m False assms by (auto simp: fn_present_def)
    moreover have "scan_slot P c bus (of_nat slot) = add_device P c bus (of_nat slot) 0" using False m by (simp add: scan_slot_def fun_eq_iff)
    ultimately show ?thesis using z by simp
  next
    case m: True
    let ?f = "\<lambda>func s. if pci_config_read P bus (of_nat slot) (of_nat func) 0 c AND 0xFFFF \<noteq> 0xFFFF then add_device P c bus (of_nat slot) (of_nat func) s else s"
    let ?S = "\<lambda>func. if fn_present P c bus slot func then {(bus, slot, func)} else {}"
    have "\<forall>func\<in>set [1..<8]. scans P c (?S func) (?f func)"
    proof
      fix func assume "func \<in> set [1..<8 :: nat]"
      then have f: "1 \<le> func" "func < 8" by simp_all
      show "scans P c (?S func) (?f func)"
        using add_device_scans[OF assms f(2) False] m assms f False
        by (cases "pci_config_read P bus (of_nat slot) (of_nat func) 0 c AND 0xFFFF = 0xFFFF") (simp_all add: fn_present_def scans_id)
    qed
    from scans_comp[OF z scans_fold[OF this]]
    have "scans P c ({(bus, slot, 0)} \<union> (\<Union>func\<in>set [1..<8]. ?S func)) (\<lambda>s. fold ?f [1..<8] (add_device P c bus (of_nat slot) 0 s))" .
    moreover have "scan_slot P c bus (of_nat slot) = (\<lambda>s. fold ?f [1..<8] (add_device P c bus (of_nat slot) 0 s))"
      using False m by (intro ext) (simp only: scan_slot_def if_False if_True Let_def if_not_P not_False_eq_True)
    moreover have "{(bus, slot, func) | func. fn_present P c bus slot func} \<subseteq> {(bus, slot, 0)} \<union> (\<Union>func\<in>set [1..<8]. ?S func)"
    proof
      fix x assume "x \<in> {(bus, slot, func) | func. fn_present P c bus slot func}"
      then obtain func where x: "x = (bus, slot, func)" "fn_present P c bus slot func" by blast
      then have "func < 8" by (simp add: fn_present_def)
      then show "x \<in> {(bus, slot, 0)} \<union> (\<Union>func\<in>set [1..<8]. ?S func)" using x by (cases "func = 0") auto
    qed
    ultimately show ?thesis unfolding scans_def by (simp only:) blast
  qed
qed

lemma scan_bus_scans: "scans P c (bus_funcs P c bus) (scan_bus P c bus)"
proof -
  have "scans P c (\<Union>slot\<in>set [0..<32]. {(bus, slot, func) | func. fn_present P c bus slot func}) (fold (\<lambda>slot. scan_slot P c bus (of_nat slot)) [0..<32])"
    by (rule scans_fold) (simp add: scan_slot_scans)
  moreover have "bus_funcs P c bus = (\<Union>slot\<in>set [0..<32]. {(bus, slot, func) | func. fn_present P c bus slot func})"
    by (auto simp: bus_funcs_def fn_present_def)
  moreover have "scan_bus P c bus = fold (\<lambda>slot. scan_slot P c bus (of_nat slot)) [0..<32]"
    by (intro ext) (rule scan_bus_def)
  ultimately show ?thesis by metis
qed

section \<open>The recursion over bridges\<close>

definition all_found :: "'c pcibus \<Rightarrow> 'c \<Rightarrow> u8 \<Rightarrow> pci \<Rightarrow> bool" where
  "all_found P c bus s \<longleftrightarrow> (\<forall>b slot func. reach P c bus b \<longrightarrow> fn_present P c b slot func \<longrightarrow> found P c (b, slot, func) s)"

lemma all_found_mono: "all_found P c bus s \<Longrightarrow> extends s s' \<Longrightarrow> all_found P c bus s'"
  unfolding all_found_def by (intro allI impI, rule found_mono) simp_all

definition follow :: "u8 \<Rightarrow> pci_dev \<Rightarrow> bool" where
  "follow bus d \<longleftrightarrow> is_bridge d \<and> d_bus d = bus \<and> secondary_bus d \<noteq> 0 \<and> secondary_bus d \<noteq> bus"

lemma entry_bridge: "entry_for P c b slot func d \<Longrightarrow> is_bridge d \<Longrightarrow> bridge_to P c b slot func = Some (secondary_bus d)"
proof -
  assume e: "entry_for P c b slot func d" "is_bridge d"
  from e(1) have "case bridge_to P c b slot func of None \<Rightarrow> \<not> is_bridge d | Some sec \<Rightarrow> is_bridge d \<and> secondary_bus d = sec"
    unfolding entry_for_def by blast
  then show ?thesis using e(2) by (cases "bridge_to P c b slot func") simp_all
qed

lemma entry_bus: "entry_for P c b slot func d \<Longrightarrow> d_bus d = b"
  unfolding entry_for_def by blast

lemma follow_rank:
  assumes "pci_inv P c s" "i < ndevices s" "follow bus (devices s ! i)"
    and rank: "\<forall>b slot func sec. fn_present P c b slot func \<longrightarrow> bridge_to P c b slot func = Some sec \<longrightarrow> sec \<noteq> 0 \<longrightarrow> sec \<noteq> b \<longrightarrow> rank sec < rank b"
  shows "rank (secondary_bus (devices s ! i)) < (rank bus :: nat)"
proof -
  obtain b slot func where p: "fn_present P c b slot func" "entry_for P c b slot func (devices s ! i)"
    using assms(1,2) unfolding pci_inv_def by blast
  have "is_bridge (devices s ! i)" "d_bus (devices s ! i) = bus" "secondary_bus (devices s ! i) \<noteq> 0" "secondary_bus (devices s ! i) \<noteq> bus"
    using assms(3) by (simp_all add: follow_def)
  then show ?thesis using rank p(1) entry_bridge[OF p(2)] entry_bus[OF p(2)] by blast
qed

lemma entry_bridge_to:
  "entry_for P c b slot func d \<Longrightarrow> bridge_to P c b slot func = Some sec \<Longrightarrow> is_bridge d \<and> secondary_bus d = sec"
proof -
  assume e: "entry_for P c b slot func d" "bridge_to P c b slot func = Some sec"
  from e(1) have "case bridge_to P c b slot func of None \<Rightarrow> \<not> is_bridge d | Some sec \<Rightarrow> is_bridge d \<and> secondary_bus d = sec"
    unfolding entry_for_def by blast
  then show ?thesis unfolding e(2) by simp
qed

lemma all_foundI:
  assumes bf: "\<And>x. x \<in> bus_funcs P c b \<Longrightarrow> found P c x s"
    and br: "\<And>j. j < ndevices s \<Longrightarrow> follow b (devices s ! j) \<Longrightarrow> all_found P c (secondary_bus (devices s ! j)) s"
  shows "all_found P c b s"
  unfolding all_found_def
proof (intro allI impI)
  fix b' slot' func' assume r: "reach P c b b'" and p: "fn_present P c b' slot' func'"
  from r show "found P c (b', slot', func') s"
  proof cases
    case here
    then show ?thesis using p by (intro bf) (simp add: bus_funcs_def)
  next
    case (below slot func sec)
    have "found P c (b, slot, func) s" using below(1) by (intro bf) (simp add: bus_funcs_def)
    then obtain j where j: "j < ndevices s" "entry_for P c b slot func (devices s ! j)" unfolding found_def by auto
    note d = entry_bridge_to[OF j(2) below(2)]
    have "follow b (devices s ! j)" using d below(3,4) entry_bus[OF j(2)] by (simp add: follow_def)
    from br[OF j(1) this] d have "all_found P c sec s" by simp
    then show ?thesis using below(5) p unfolding all_found_def by blast
  qed
qed

lemma bridge_loop_ok:
  fixes rank :: "u8 \<Rightarrow> nat"
  assumes rank: "\<forall>b slot func sec. fn_present P c b slot func \<longrightarrow> bridge_to P c b slot func = Some sec \<longrightarrow> sec \<noteq> 0 \<longrightarrow> sec \<noteq> b \<longrightarrow> rank sec < rank b"
  shows "pci_inv P c s \<Longrightarrow> \<exists>s'. bridge_loop P c bus i s = Some s' \<and> pci_inv P c s' \<and> extends s s' \<and>
    (ndevices s' < 64 \<longrightarrow> (\<forall>j. i \<le> j \<and> j < ndevices s' \<and> follow bus (devices s' ! j) \<longrightarrow> all_found P c (secondary_bus (devices s' ! j)) s'))"
proof (induction "rank bus" arbitrary: bus i s rule: less_induct)
  case less
  note outer = less.hyps
  show ?case
    using less.prems
  proof (induction "64 - i" arbitrary: i s rule: less_induct)
    case less
    show ?case
    proof (cases "i < ndevices s")
      case False
      then show ?thesis using less.prems by (subst bridge_loop.simps) auto
    next
      case True
      then have i: "64 - (i + 1) < 64 - i" using less.prems by (auto simp: pci_inv_def)
      let ?d = "devices s ! i"
      obtain s1 where s1: "pci_inv P c s1" "extends s s1" "bridge_loop P c bus i s = bridge_loop P c bus (i + 1) s1"
        "follow bus ?d \<Longrightarrow> ndevices s1 < 64 \<Longrightarrow> all_found P c (secondary_bus ?d) s1"
      proof (cases "follow bus ?d")
        case f: False
        then have "bridge_loop P c bus i s = bridge_loop P c bus (i + 1) s"
          using True by (subst bridge_loop.simps) (auto simp: follow_def Let_def)
        then show thesis using that[of s] less.prems f by simp
      next
        case f: True
        let ?b = "secondary_bus ?d" and ?s = "scan_bus P c (secondary_bus ?d) s"
        note sb = scansD[OF scan_bus_scans[of P c ?b] less.prems]
        obtain s1 where r: "bridge_loop P c ?b 0 ?s = Some s1" "pci_inv P c s1" "extends ?s s1"
          "ndevices s1 < 64 \<longrightarrow> (\<forall>j. 0 \<le> j \<and> j < ndevices s1 \<and> follow ?b (devices s1 ! j) \<longrightarrow> all_found P c (secondary_bus (devices s1 ! j)) s1)"
          using outer[OF follow_rank[OF less.prems True f rank] sb(1), of 0] by blast
        have af: "all_found P c ?b s1" if n: "ndevices s1 < 64"
        proof (rule all_foundI)
          have "ndevices ?s < 64" using r(3) n by (simp add: extends_def)
          then show "found P c x s1" if "x \<in> bus_funcs P c ?b" for x by (rule found_mono[OF sb(3)[OF that] r(3)])
        qed (use r(4) n in simp)
        have "bridge_loop P c bus i s = bridge_loop P c bus (i + 1) s1"
          using True f r(1) by (subst bridge_loop.simps) (simp add: follow_def Let_def)
        then show thesis using that[of s1] r(2) extends_trans[OF sb(2) r(3)] af by blast
      qed
      obtain s' where s': "bridge_loop P c bus (i + 1) s1 = Some s'" "pci_inv P c s'" "extends s1 s'"
        "ndevices s' < 64 \<longrightarrow> (\<forall>j. i + 1 \<le> j \<and> j < ndevices s' \<and> follow bus (devices s' ! j) \<longrightarrow> all_found P c (secondary_bus (devices s' ! j)) s')"
        using less.hyps[OF i s1(1)] by blast
      have e: "devices s' ! i = ?d" using True s1(2) s'(3) by (auto simp: extends_def)
      have "all_found P c (secondary_bus ?d) s'" if "ndevices s' < 64" "follow bus ?d"
        using s1(4) that s'(3) all_found_mono[OF _ s'(3)] by (auto simp: extends_def)
      then have "all_found P c (secondary_bus (devices s' ! j)) s'" if "ndevices s' < 64" "i \<le> j" "j < ndevices s'" "follow bus (devices s' ! j)" for j
        using s'(4) that e by (cases "j = i") auto
      then show ?thesis using s' s1(3) extends_trans[OF s1(2) s'(3)] by auto
    qed
  qed
qed

section \<open>Addresses\<close>

text \<open>Different functions and different registers have different addresses.\<close>

lemma config_addr_fields:
  "take_bit 8 (drop_bit 16 (config_addr b (take_bit 5 sl) (take_bit 3 f) r)) = ucast b"
  "take_bit 5 (drop_bit 11 (config_addr b (take_bit 5 sl) (take_bit 3 f) r)) = ucast (take_bit 5 sl)"
  "take_bit 3 (drop_bit 8 (config_addr b (take_bit 5 sl) (take_bit 3 f) r)) = ucast (take_bit 3 f)"
  "take_bit 8 (config_addr b (take_bit 5 sl) (take_bit 3 f) r) = r AND 0xFC"
proof -
  have c: "(0xFC :: u32) = push_bit 2 (mask 6)" by (simp add: mask_eq_exp_minus_1 push_bit_eq_mult)
  have b8: "bit (w :: u8) n \<Longrightarrow> n < 8" for w n by (auto dest: bit_imp_le_length)
  show "take_bit 8 (drop_bit 16 (config_addr b (take_bit 5 sl) (take_bit 3 f) r)) = ucast b"
    unfolding config_addr_def c by (rule bit_word_eqI) (auto simp: bit_simps dest: b8)
  show "take_bit 5 (drop_bit 11 (config_addr b (take_bit 5 sl) (take_bit 3 f) r)) = ucast (take_bit 5 sl)"
    unfolding config_addr_def c by (rule bit_word_eqI) (auto simp: bit_simps dest: b8)
  show "take_bit 3 (drop_bit 8 (config_addr b (take_bit 5 sl) (take_bit 3 f) r)) = ucast (take_bit 3 f)"
    unfolding config_addr_def c by (rule bit_word_eqI) (auto simp: bit_simps dest: b8)
  show "take_bit 8 (config_addr b (take_bit 5 sl) (take_bit 3 f) r) = r AND 0xFC"
    unfolding config_addr_def c by (rule bit_word_eqI) (auto simp: bit_simps dest: b8)
qed

lemma config_addr_decode:
  assumes "slot < 32" "func < 8"
  shows "unat (take_bit 8 (drop_bit 16 (config_addr b (of_nat slot) (of_nat func) r))) = unat b"
    "unat (take_bit 5 (drop_bit 11 (config_addr b (of_nat slot) (of_nat func) r))) = slot"
    "unat (take_bit 3 (drop_bit 8 (config_addr b (of_nat slot) (of_nat func) r))) = func"
    "take_bit 8 (config_addr b (of_nat slot) (of_nat func) r) = r AND 0xFC"
proof -
  have s: "take_bit 5 (of_nat slot :: u8) = of_nat slot" "take_bit 3 (of_nat func :: u8) = of_nat func"
    using assms by (simp_all add: word_unat_eq_iff unat_take_bit unat_of_nat_small)
  note f = config_addr_fields[of b "of_nat slot" "of_nat func" r, unfolded s]
  show "unat (take_bit 8 (drop_bit 16 (config_addr b (of_nat slot) (of_nat func) r))) = unat b"
    unfolding f(1) by (simp add: unat_ucast_up)
  have u: "unat (ucast (of_nat n :: u8) :: u32) = n" if "n < 32" for n
    using that by (simp add: unat_ucast_up unat_of_nat_small)
  show "unat (take_bit 5 (drop_bit 11 (config_addr b (of_nat slot) (of_nat func) r))) = slot"
    unfolding f(2) by (rule u[OF assms(1)])
  show "unat (take_bit 3 (drop_bit 8 (config_addr b (of_nat slot) (of_nat func) r))) = func"
    unfolding f(3) using assms(2) by (intro u) simp
  show "take_bit 8 (config_addr b (of_nat slot) (of_nat func) r) = r AND 0xFC" by (rule f(4))
qed

lemma config_addr_inject:
  assumes "slot < 32" "func < 8" "slot' < 32" "func' < 8"
    and "config_addr b (of_nat slot) (of_nat func) r = config_addr b' (of_nat slot') (of_nat func') r'"
  shows "b = b' \<and> slot = slot' \<and> func = func' \<and> r AND 0xFC = r' AND 0xFC"
proof -
  have "unat b = unat b'" "slot = slot'" "func = func'" "r AND 0xFC = r' AND 0xFC"
    using config_addr_decode[OF assms(1,2), of b r] config_addr_decode[OF assms(3,4), of b' r'] unfolding assms(5) by simp_all
  then show ?thesis by (simp only: word_unat_eq_iff)
qed

text \<open>A read of one or two bytes does not use the two lowest bits of the register: it returns the low bytes of the word.\<close>

lemma pci_read_low: "pci_read_config P dev reg width c = pci_read_config P dev (reg AND 0xFC) width c"
  by (simp add: pci_read_config_def pci_config_read_def config_addr_def and.assoc)

section \<open>Properties\<close>


text \<open>
  A bus with a bridge on bus 0 and a disk controller on bus 1 behind it.
\<close>

fun config_ex :: "nat \<times> nat \<times> nat \<Rightarrow> nat \<Rightarrow> u32" where
  "config_ex x r =
     (if x = (0, 3, 0) then (if r = 0 then 0x12348086 else if r = 0x0C then 0x00010000 else if r = 0x18 then 0x00000100 else 0)
      else if x = (1, 0, 0) then (if r = 0 then 0x29228086 else if r = 8 then 0x01060100 else 0)
      else 0xFFFFFFFF)"

definition bus_ex :: "unit pcibus" where
  "bus_ex = \<lparr>pb_read = (\<lambda>a c. config_ex (unat (take_bit 8 (drop_bit 16 a)), unat (take_bit 5 (drop_bit 11 a)), unat (take_bit 3 (drop_bit 8 a)))
       (unat (take_bit 8 a))), pb_write = (\<lambda>a v c. c)\<rparr>"

definition dev0 :: pci_dev where
  "dev0 = \<lparr>d_bus = 0, d_slot = 0, d_func = 0, vendor = 0, device = 0, class_code = 0, sub_class = 0, prog_if = 0,
     bar = replicate 6 0, is_bridge = False, secondary_bus = 0, header_type = 0\<rparr>"

lemma bus_ex_read:
  assumes "slot < 32" "func < 8"
  shows "pci_config_read bus_ex b (of_nat slot) (of_nat func) r () = config_ex (unat b, slot, func) (unat (r AND 0xFC))"
  unfolding pci_config_read_def bus_ex_def by (simp only: pcibus.simps config_addr_decode[OF assms])

lemma bus_ex_present: "fn_present bus_ex () b slot func \<Longrightarrow> (unat b, slot, func) \<in> {(0, 3, 0), (1, 0, 0)}"
proof -
  assume p: "fn_present bus_ex () b slot func"
  then have l: "slot < 32" "func < 8" and v: "pci_config_read bus_ex b (of_nat slot) (of_nat func) 0 () AND 0xFFFF \<noteq> 0xFFFF"
    by (simp_all add: fn_present_def)
  show ?thesis using v unfolding bus_ex_read[OF l] by (auto split: if_splits)
qed

lemma bus_ex_devices: "fn_present bus_ex () 1 0 0" "fn_present bus_ex () 0 3 0" "bridge_to bus_ex () 0 3 0 = Some 1" "bridge_to bus_ex () 1 0 0 = None"
  using bus_ex_read[of 3 0 0] bus_ex_read[of 0 0 1] by (simp_all add: fn_present_def bridge_to_def)


end
