(* ===== verification/AhciInit.thy ===== *)
theory AhciInit
  imports MemoryProps AhciEmu Pci
begin

text \<open>
  The start of the disk driver, \<open>ahci_init\<close> of \<open>src/kernel/hal/ahci.c\<close>: the controller is looked up among the PCI devices, its
  registers are mapped into the kernel's address space and every port it implements is started. The state joins the
  driver, the PCI devices with their configuration space, and the page tables, which are in the memory that
  the driver and the controller share.
\<close>

section \<open>Definitions\<close>

record ('h, 'c) machine =
  mc_ahci :: "'h ahci"
  mc_pci :: pci
  mc_cfg :: 'c
  mc_cr3 :: u64
  mc_pml4 :: u64

definition mc_mmu :: "('h, 'c) machine \<Rightarrow> mmu" where
  "mc_mmu k = \<lparr>vm_mem = a_mem (mc_ahci k), vm_pmm = a_pmm (mc_ahci k), vm_cr3 = mc_cr3 k, vm_page_pml4 = mc_pml4 k\<rparr>"

definition AHCI_CAP :: u64 where "AHCI_CAP = 0x00"
definition AHCI_GHC :: u64 where "AHCI_GHC = 0x04"
definition AHCI_PI :: u64 where "AHCI_PI = 0x0C"
definition GHC_AE :: u32 where "GHC_AE = push_bit 31 1"
definition CAP_NP_MASK :: u32 where "CAP_NP_MASK = 0x1F"

primrec mmio_loop :: "nat \<Rightarrow> u64 \<Rightarrow> mmu \<Rightarrow> mmu" where
  "mmio_loop 0 phys m = m"
| "mmio_loop (Suc i) phys m =
     vmm_map (phys + of_nat (4096 * i)) (phys + of_nat (4096 * i)) (PG_PRESENT OR PG_WRITE) (mmio_loop i phys m)"

definition ahci_map_mmio :: "u64 \<Rightarrow> nat \<Rightarrow> ('h, 'c) machine \<Rightarrow> ('h, 'c) machine" where
  "ahci_map_mmio phys pages k =
     (let m = mmio_loop pages phys (mc_mmu k) in
      k\<lparr>mc_ahci := (mc_ahci k)\<lparr>a_mem := vm_mem m, a_pmm := vm_pmm m, abar := phys\<rparr>\<rparr>)"

text \<open>The registers of the controller itself.\<close>

definition reg_read :: "'h hba \<Rightarrow> u64 \<Rightarrow> 'h ahci \<Rightarrow> u32 \<times> 'h ahci" where
  "reg_read H off a = (let (v, h, m) = hba_read H (abar a + off) (a_hba a, a_mem a) in (v, a\<lparr>a_hba := h, a_mem := m\<rparr>))"

definition reg_write :: "'h hba \<Rightarrow> u64 \<Rightarrow> u32 \<Rightarrow> 'h ahci \<Rightarrow> 'h ahci" where
  "reg_write H off v a = (let (h, m) = hba_write H (abar a + off) v (a_hba a, a_mem a) in a\<lparr>a_hba := h, a_mem := m\<rparr>)"

definition start_port :: "'h hba \<Rightarrow> u32 \<Rightarrow> nat \<Rightarrow> 'h ahci \<Rightarrow> 'h ahci" where
  "start_port H pi i a =
     (if pi AND push_bit i 1 = 0 then a
      else snd (ahci_port_init H i
        (port_set i (\<lambda>q. q\<lparr>p_regs := abar a + of_nat ((0x100 + i * 0x80) div 4 * 4), p_present := True\<rparr>) a)))"

definition ahci_init :: "'h hba \<Rightarrow> 'c pcibus \<Rightarrow> ('h, 'c) machine \<Rightarrow> int \<times> ('h, 'c) machine" where
  "ahci_init H P k =
     (case pci_find 0x01 0x06 0x01 (mc_pci k) of None \<Rightarrow> (0, k)
      | Some d \<Rightarrow>
          let dev = devices (mc_pci k) ! d; abar_phys = ucast (bar dev ! 5) :: u64 in
          if abar_phys AND 1 \<noteq> 0 then (0, k)
          else
            let k1 = k\<lparr>mc_cfg := pci_enable_mmio P dev (pci_enable_bus_master P dev (mc_cfg k))\<rparr>;
                k2 = ahci_map_mmio (abar_phys AND NOT 0xF) 8 k1;
                (ghc, a1) = reg_read H AHCI_GHC (mc_ahci k2);
                a2 = reg_write H AHCI_GHC (ghc OR GHC_AE) a1;
                (pi, a3) = reg_read H AHCI_PI a2;
                (cap, a4) = reg_read H AHCI_CAP a3;
                np = uint (cap AND CAP_NP_MASK) + 1;
                a5 = fold (start_port H pi) [0..<min AHCI_MAX_PORTS (nat np)] (a4\<lparr>nports := np\<rparr>)
            in (1, k2\<lparr>mc_ahci := a5\<lparr>ahci_ok := True\<rparr>\<rparr>))"

section \<open>Mapping the registers\<close>

lemma pml4_frame: "vm_page_pml4 (vmm_map_in_cr3 cr3 virt phys flags s) = vm_page_pml4 s"
proof -
  have t: "vm_page_pml4 (tbl_set t i e s) = vm_page_pml4 s" "vm_page_pml4 (zero_page x s) = vm_page_pml4 s" for t i e x s
    by (simp_all add: tbl_set_def zero_page_def)
  then have "vm_page_pml4 (fold (\<lambda>i. tbl_set pt i (f i)) is s) = vm_page_pml4 s" for pt f "is" s
    by (induction "is" arbitrary: s) simp_all
  then have "vm_page_pml4 (snd (get_or_alloc_table a i d u s)) = vm_page_pml4 s" for a i d u s
    by (simp add: get_or_alloc_table_def Let_def case_prod_beta vm_page_alloc_def split_huge_def t)
  then show ?thesis by (simp add: vmm_map_in_cr3_def Let_def case_prod_beta t)
qed

lemma mmio_loop_maps:
  assumes "vm_inv (vm_cr3 m) m"
  shows "3 * n + j \<le> free_pages m \<Longrightarrow> vm_inv (vm_cr3 m) (mmio_loop n phys m) \<and> vm_cr3 (mmio_loop n phys m) = vm_cr3 m \<and> j \<le> free_pages (mmio_loop n phys m) \<and>
    page_live (vm_pmm m) \<subseteq> page_live (vm_pmm (mmio_loop n phys m)) \<and>
    (\<forall>va. (in_pages phys n va \<longrightarrow> (\<exists>i<n. vpage va = vpage (phys + of_nat (4096 * i)) \<and>
        translate (vm_cr3 m) va (mmio_loop n phys m) = Some (pte_value (phys + of_nat (4096 * i)) (PG_PRESENT OR PG_WRITE)))) \<and>
      (\<not> in_pages phys n va \<longrightarrow> translate (vm_cr3 m) va (mmio_loop n phys m) = translate (vm_cr3 m) va m))"
proof (induction n arbitrary: j)
  case 0
  then show ?case using assms by simp
next
  case (Suc n)
  let ?m = "mmio_loop n phys m" and ?p = "phys + of_nat (4096 * n)" and ?fl = "PG_PRESENT OR PG_WRITE"
  have "3 * n + (3 + j) \<le> free_pages m" using Suc.prems by simp
  note ih = Suc.IH[OF this]
  then have i: "vm_inv (vm_cr3 m) ?m" "3 \<le> free_pages ?m" "j + 3 \<le> free_pages ?m" "vm_cr3 ?m = vm_cr3 m" by simp_all
  have e: "mmio_loop (Suc n) phys m = vmm_map_in_cr3 (vm_cr3 m) ?p ?p ?fl ?m" using i(4) by (simp add: vmm_map_def vmm_read_cr3_def)
  note eff = vmm_map_in_cr3_effect[OF i(1,2) e]
  have "in_pages phys (Suc n) va \<longleftrightarrow> vpage va = vpage ?p \<or> in_pages phys n va" for va by (auto simp: in_pages_def less_Suc_eq)
  moreover have "j \<le> free_pages (mmio_loop (Suc n) phys m)" unfolding e by (rule vmm_map_free[OF i(1,3)])
  moreover have "page_live (vm_pmm m) \<subseteq> page_live (vm_pmm (mmio_loop (Suc n) phys m))"
    using ih vmm_map_live[OF i(1,2), of ?p ?p ?fl] unfolding e by blast
  moreover have "translate (vm_cr3 m) va (mmio_loop (Suc n) phys m) = (if vpage va = vpage ?p then Some (pte_value ?p ?fl) else translate (vm_cr3 m) va ?m)" for va
    using eff by blast
  ultimately show ?case using eff ih i(4) by (auto simp: less_Suc_eq simp del: mmio_loop.simps)
qed

section \<open>Starting the ports\<close>

definition own_pages :: "ahci_port \<Rightarrow> u64 list" where
  "own_pages q = [clb_phys q, fb_phys q, ct_phys q, buf_phys q]"

text \<open>The ports that are started have pages of their own.\<close>

definition ports_inv :: "u64 set \<Rightarrow> 'h ahci \<Rightarrow> bool" where
  "ports_inv L a \<longleftrightarrow> page_inv (a_pmm a) \<and> length (a_ports a) = 32 \<and> L \<subseteq> page_live (a_pmm a) \<and>
     (\<forall>i<32. p_initialized (a_ports a ! i) \<longrightarrow>
        distinct (own_pages (a_ports a ! i)) \<and> 0 \<notin> set (own_pages (a_ports a ! i)) \<and> set (own_pages (a_ports a ! i)) \<subseteq> page_live (a_pmm a) - L \<and>
        (\<forall>j<32. j \<noteq> i \<longrightarrow> p_initialized (a_ports a ! j) \<longrightarrow> set (own_pages (a_ports a ! i)) \<inter> set (own_pages (a_ports a ! j)) = {}))"

lemma port_init_inv:
  assumes inv: "ports_inv L a" and i: "i < 32" "\<not> p_initialized (a_ports a ! i)" and r: "ahci_port_init H i a = (r, a')"
  shows "ports_inv L a' \<and> (\<forall>j. j \<noteq> i \<longrightarrow> a_ports a' ! j = a_ports a ! j) \<and> page_live (a_pmm a) \<subseteq> page_live (a_pmm a')"
proof -
  have l: "i < length (a_ports a)" "page_inv (a_pmm a)" using inv i by (simp_all add: ports_inv_def)
  note pg = port_init_pages[OF l(2,1) r] and ot = port_init_others[OF r]
  let ?q = "own_pages (a_ports a' ! i)"
  have len: "length (a_ports a') = 32" using ot(1) inv by (simp add: ports_inv_def)
  show ?thesis
  proof (cases "r = 1")
    case True
    have n: "distinct ?q" "0 \<notin> set ?q" "set ?q \<inter> page_live (a_pmm a) = {}" "page_live (a_pmm a') = page_live (a_pmm a) \<union> set ?q" "page_inv (a_pmm a')"
      using pg True by (simp_all add: own_pages_def Let_def)
    have L: "L \<subseteq> page_live (a_pmm a)" using inv by (simp add: ports_inv_def)
    have old: "set (own_pages (a_ports a' ! j)) \<subseteq> page_live (a_pmm a) - L" "own_pages (a_ports a' ! j) = own_pages (a_ports a ! j)" "p_initialized (a_ports a ! j)"
      if "j < 32" "j \<noteq> i" "p_initialized (a_ports a' ! j)" for j
      using inv that ot(2)[OF that(2)] by (auto simp: ports_inv_def)
    have "distinct (own_pages (a_ports a' ! j)) \<and> 0 \<notin> set (own_pages (a_ports a' ! j)) \<and> set (own_pages (a_ports a' ! j)) \<subseteq> page_live (a_pmm a') - L \<and>
        (\<forall>k<32. k \<noteq> j \<longrightarrow> p_initialized (a_ports a' ! k) \<longrightarrow> set (own_pages (a_ports a' ! j)) \<inter> set (own_pages (a_ports a' ! k)) = {})"
      if j: "j < 32" "p_initialized (a_ports a' ! j)" for j
    proof (cases "j = i")
      case True
      then show ?thesis using n old L by blast
    next
      case False
      note o = old[OF j(1) False j(2)]
      have "set (own_pages (a_ports a' ! j)) \<inter> set (own_pages (a_ports a' ! k)) = {}" if "k < 32" "k \<noteq> j" "p_initialized (a_ports a' ! k)" for k
        using inv n(3) o old[OF that(1) _ that(3)] that j by (cases "k = i") (auto simp: ports_inv_def)
      then show ?thesis using inv o n(4) j(1) by (auto simp: ports_inv_def)
    qed
    then have "ports_inv L a'" unfolding ports_inv_def using n(4,5) len L by blast
    then show ?thesis using ot(2) n(4) by blast
  next
    case False
    then have r0: "r = 0" "page_inv (a_pmm a')" "page_live (a_pmm a') = page_live (a_pmm a)" using pg by simp_all
    have p: "p_initialized (a_ports a' ! j) = p_initialized (a_ports a ! j)" for j using ot(2)[of j] ot(3)[OF l(1) r0(1)] by (cases "j = i") simp_all
    have q: "own_pages (a_ports a' ! j) = own_pages (a_ports a ! j)" if "p_initialized (a_ports a ! j)" for j using ot(2)[of j] that i(2) by (cases "j = i") simp_all
    have "ports_inv L a'" using inv unfolding ports_inv_def p r0(3) by (simp add: len r0(2) q)
    then show ?thesis using ot(2) r0(3) by simp
  qed
qed

lemma start_ports_inv:
  "ports_inv L a \<Longrightarrow> distinct is \<Longrightarrow> \<forall>i\<in>set is. i < 32 \<and> \<not> p_initialized (a_ports a ! i) \<Longrightarrow>
   ports_inv L (fold (start_port H pi) is a) \<and> page_live (a_pmm a) \<subseteq> page_live (a_pmm (fold (start_port H pi) is a)) \<and>
   (\<forall>j. j \<notin> set is \<longrightarrow> a_ports (fold (start_port H pi) is a) ! j = a_ports a ! j)"
proof (induction "is" arbitrary: a)
  case (Cons i "is")
  have i: "i < 32" "\<not> p_initialized (a_ports a ! i)" "i \<notin> set is" using Cons.prems by simp_all
  let ?b = "port_set i (\<lambda>q. q\<lparr>p_regs := abar a + of_nat ((0x100 + i * 0x80) div 4 * 4), p_present := True\<rparr>) a"
  have bp: "a_pmm ?b = a_pmm a" "a_ports ?b ! i = (a_ports a ! i)\<lparr>p_regs := abar a + of_nat ((0x100 + i * 0x80) div 4 * 4), p_present := True\<rparr>"
    "\<And>j. j \<noteq> i \<Longrightarrow> a_ports ?b ! j = a_ports a ! j" "length (a_ports ?b) = 32"
    using Cons.prems(1) i(1) by (simp_all add: frame_simps ports_inv_def)
  have own: "p_initialized (a_ports ?b ! j) = p_initialized (a_ports a ! j)" "own_pages (a_ports ?b ! j) = own_pages (a_ports a ! j)" for j
    using bp(2,3) by (cases "j = i"; simp add: own_pages_def)+
  have inv: "ports_inv L ?b" using Cons.prems(1) bp(4) unfolding ports_inv_def own bp(1) by simp
  obtain r a1 where r: "ahci_port_init H i ?b = (r, a1)" by force
  have "\<not> p_initialized (a_ports ?b ! i)" using i(2) own(1) by simp
  note st = port_init_inv[OF inv i(1) this r]
  have "ports_inv L (start_port H pi i a) \<and> (\<forall>j. j \<noteq> i \<longrightarrow> a_ports (start_port H pi i a) ! j = a_ports a ! j) \<and>
      page_live (a_pmm a) \<subseteq> page_live (a_pmm (start_port H pi i a))"
    using st Cons.prems(1) bp(1,3) r by (simp add: start_port_def)
  note s1 = this
  have "\<forall>j\<in>set is. j < 32 \<and> \<not> p_initialized (a_ports (start_port H pi i a) ! j)" using s1 Cons.prems(3) i(3) by auto
  from Cons.IH[OF _ _ this] s1 Cons.prems(2) show ?case by auto
qed simp

section \<open>Properties\<close>

text \<open>
  The registers of the controller get mapped: on page tables that form a tree, with 24 pages left, \<open>ahci_map_mmio\<close> of
  eight pages makes each of their addresses refer to itself, present and writable, changes no other translation and
  loses no page in use.
\<close>

theorem ahci_map_mmio_maps:
  assumes "vm_inv (mc_cr3 k) (mc_mmu k)" "24 \<le> free_pages (mc_mmu k)" "k' = ahci_map_mmio phys 8 k"
  shows "abar (mc_ahci k') = phys \<and> vm_inv (mc_cr3 k) (mc_mmu k') \<and>
    page_live (a_pmm (mc_ahci k)) \<subseteq> page_live (a_pmm (mc_ahci k')) \<and>
    (\<forall>va. if in_pages phys 8 va
       then \<exists>i<8. vpage va = vpage (phys + of_nat (4096 * i)) \<and> translate (mc_cr3 k) va (mc_mmu k') = Some (pte_value (phys + of_nat (4096 * i)) (PG_PRESENT OR PG_WRITE))
       else translate (mc_cr3 k) va (mc_mmu k') = translate (mc_cr3 k) va (mc_mmu k))"
proof -
  have c: "vm_cr3 (mc_mmu k) = mc_cr3 k" "vm_pmm (mc_mmu k) = a_pmm (mc_ahci k)" by (simp_all add: mc_mmu_def)
  have f: "3 * 8 + 0 \<le> free_pages (mc_mmu k)" using assms(2) by simp
  have p: "vm_page_pml4 (mmio_loop n phys m) = vm_page_pml4 m" for n m
    by (induction n) (simp_all add: vmm_map_def pml4_frame)
  note m = mmio_loop_maps[OF assms(1)[folded c(1)] f, of phys, unfolded c]
  have "mc_mmu k' = mmio_loop 8 phys (mc_mmu k)"
    using m p[of 8 "mc_mmu k"] by (cases "mmio_loop 8 phys (mc_mmu k)") (simp add: assms(3) ahci_map_mmio_def Let_def mc_mmu_def[of "k\<lparr>mc_ahci := x\<rparr>" for x], simp add: mc_mmu_def)
  moreover have "abar (mc_ahci k') = phys" "a_pmm (mc_ahci k') = vm_pmm (mmio_loop 8 phys (mc_mmu k))"
    by (simp_all add: assms(3) ahci_map_mmio_def Let_def)
  ultimately show ?thesis using m by simp
qed

lemma reg_frame [frame_simps]:
  "a_pmm (snd (reg_read H off a)) = a_pmm a" "a_ports (snd (reg_read H off a)) = a_ports a"
  "a_pmm (reg_write H off v a) = a_pmm a" "a_ports (reg_write H off v a) = a_ports a"
  by (simp_all add: reg_read_def reg_write_def case_prod_beta)

lemma map_mmio_frame:
  "a_ports (mc_ahci (ahci_map_mmio phys n k)) = a_ports (mc_ahci k)" "mc_pci (ahci_map_mmio phys n k) = mc_pci k"
  "a_pmm (mc_ahci (ahci_map_mmio phys n k)) = vm_pmm (mmio_loop n phys (mc_mmu k))"
  by (simp_all add: ahci_map_mmio_def Let_def)


section \<open>A concrete machine\<close>

text \<open>26 free pages, a root table at 0x4000, the emulated controller, and the disk controller as the only device.\<close>

definition frames_init :: "nat list" where "frames_init = [5..<31]"

definition mach_ex :: "(emu, unit) machine" where
  "mach_ex = \<lparr>mc_ahci = \<lparr>abar = 0, a_ports = replicate 32 \<lparr>p_regs = 0, p_present = False, p_initialized = False, clb_phys = 0, fb_phys = 0, ct_phys = 0, buf_phys = 0\<rparr>,
       nports = 0, ahci_ok = False, a_hba = \<lparr>em_base = 0xFEB00000, em_data = (\<lambda>_ _. []), em_clb = (\<lambda>_. 0), em_fb = (\<lambda>_. 0), em_job = (\<lambda>_. None)\<rparr>,
       a_mem = (\<lambda>_. 0), a_pmm = release_pages frames_init (pmm_reset\<lparr>last_phys_page := 32\<rparr>)\<rparr>,
     mc_pci = \<lparr>devices = [dev0\<lparr>class_code := 1, sub_class := 6, prog_if := 1, bar := [0, 0, 0, 0, 0, 0xFEB00000]\<rparr>], ndevices = 1\<rparr>,
     mc_cfg = (), mc_cr3 = 0x4000, mc_pml4 = 0x4000\<rparr>"

lemma mach_ex_pmm:
  "pmm_inv (a_pmm (mc_ahci mach_ex))" "last_phys_page (a_pmm (mc_ahci mach_ex)) = 32"
  "p < MAX_PAGES \<Longrightarrow> bitmap_test (bitmap (a_pmm (mc_ahci mach_ex))) p \<longleftrightarrow> p \<notin> set frames_init"
proof -
  let ?r = "pmm_reset\<lparr>last_phys_page := 32\<rparr>"
  have r: "pmm_inv ?r" using pmm_reset_inv by (simp add: pmm_inv_def MAX_PAGES_def)
  have f: "distinct frames_init" "\<forall>p\<in>set frames_init. p < MAX_PAGES \<and> bitmap_test (bitmap ?r) p"
    by (auto simp: frames_init_def MAX_PAGES_def pmm_reset_full)
  note e = release_pages_effect[OF r f]
  show "pmm_inv (a_pmm (mc_ahci mach_ex))" "last_phys_page (a_pmm (mc_ahci mach_ex)) = 32" using e by (simp_all add: mach_ex_def)
  show "p < MAX_PAGES \<Longrightarrow> bitmap_test (bitmap (a_pmm (mc_ahci mach_ex))) p \<longleftrightarrow> p \<notin> set frames_init"
    using e by (simp add: mach_ex_def pmm_reset_full)
qed

lemma mach_ex_inv: "vm_inv (mc_cr3 mach_ex) (mc_mmu mach_ex)" "24 \<le> free_pages (mc_mmu mach_ex)"
proof -
  let ?m = "mc_mmu mach_ex"
  have p: "vm_pmm ?m = a_pmm (mc_ahci mach_ex)" by (simp add: mc_mmu_def)
  have pi: "page_inv (vm_pmm ?m)" using mach_ex_pmm(1) mach_ex_pmm(3)[OF MAX_PAGES_pos] by (simp add: p page_inv_def frames_init_def)
  have "4 < MAX_PAGES" by (simp add: MAX_PAGES_def)
  then have "of_nat 4 * PAGE_SIZE \<in> page_live (vm_pmm ?m)"
    unfolding page_live_def p using mach_ex_pmm(3)[of 4] by (auto simp: frames_init_def simp del: of_nat_numeral)
  then have lv: "0x4000 \<in> page_live (vm_pmm ?m)" by (simp add: PAGE_SIZE_def)
  have z: "zeros (\<lambda>p. p \<notin> set frames_init) 32 = 26" by code_simp
  have "zeros (bitmap_test (bitmap (a_pmm (mc_ahci mach_ex)))) 32 = zeros (\<lambda>p. p \<notin> set frames_init) 32"
    by (rule zeros_cong) (simp add: mach_ex_pmm(3) MAX_PAGES_def)
  then show "24 \<le> free_pages ?m" by (simp add: free_pages_def p mach_ex_pmm(2) z)
  have t: "tbl_get t i ?m = 0" for t i using vm_ex_empty(1)[of t i] by (simp add: tbl_get_def mc_mmu_def mach_ex_def vm_ex_def)
  have nd: "node ?m t q = (if q = [] then Some t else None)" for t q by (cases q) (simp_all add: t not_present_0)
  have "mc_cr3 mach_ex = 0x4000" by (simp add: mach_ex_def)
  then show "vm_inv (mc_cr3 mach_ex) ?m"
    unfolding vm_inv_def by (simp add: nd t pi lv vm_ex_live(3) not_present_0)
qed

theorem ahci_map_mmio_maps_witness:
  "\<exists>i<8. vpage 0xFEB01000 = vpage (0xFEB00000 + of_nat (4096 * i)) \<and>
     translate (mc_cr3 mach_ex) 0xFEB01000 (mc_mmu (ahci_map_mmio 0xFEB00000 8 mach_ex)) =
       Some (pte_value (0xFEB00000 + of_nat (4096 * i)) (PG_PRESENT OR PG_WRITE))"
proof -
  have "in_pages 0xFEB00000 8 0xFEB01000" unfolding in_pages_def by (rule exI[of _ 1]) simp
  then show ?thesis using ahci_map_mmio_maps[OF mach_ex_inv refl, of "0xFEB00000"] by meson
qed


end
