(* ===== verification/Keyboard.thy ===== *)
theory Keyboard
  imports Console Fifo
begin

text \<open>
  The keyboard driver, \<open>src/kernel/hal/keyboard.c\<close>: the interrupt handler translates scan codes and fills a ring of 256
  bytes, \<open>keyboard_getc\<close> takes from it. The scan codes are arguments; the result of the handler is what it echoes on
  the console and the new state. \<open>keyboard_getc\<close> waits for interrupts, whose scan codes are a list.
\<close>

section \<open>The driver\<close>

definition RING_SIZE :: nat where "RING_SIZE = 256"

record kbd =
  ring :: "u8 list"
  ring_r :: nat
  ring_w :: nat
  shift :: bool

definition scancode_asc :: "u8 list" where
  "scancode_asc = [0, 0] @ ascii ''1234567890-='' @ [8, 9] @ ascii ''qwertyuiop[]'' @ [10, 0] @ ascii ''asdfghjkl;'' @ [39, 96, 0, 92] @
     ascii ''zxcvbnm,./'' @ [0, 42, 0, 32, 0] @ replicate 69 0"

definition scancode_shift :: "u8 list" where
  "scancode_shift = [0, 0] @ ascii ''!@#$%^&*()_+'' @ [8, 9] @ ascii ''QWERTYUIOP{}'' @ [10, 0] @ ascii ''ASDFGHJKL:'' @ [34, 126, 0, 124] @
     ascii ''ZXCVBNM<>?'' @ [0, 42, 0, 32, 0] @ replicate 69 0"

definition ring_full :: "kbd \<Rightarrow> bool" where "ring_full k \<longleftrightarrow> (ring_w k + 1) mod RING_SIZE = ring_r k"
definition ring_empty :: "kbd \<Rightarrow> bool" where "ring_empty k \<longleftrightarrow> ring_r k = ring_w k"

definition ring_put :: "u8 \<Rightarrow> kbd \<Rightarrow> kbd" where
  "ring_put c k = k\<lparr>ring := (ring k)[ring_w k := c], ring_w := (ring_w k + 1) mod RING_SIZE\<rparr>"

definition ring_get :: "kbd \<Rightarrow> u8 \<times> kbd" where
  "ring_get k = (ring k ! ring_r k, k\<lparr>ring_r := (ring_r k + 1) mod RING_SIZE\<rparr>)"

definition keyboard_irq :: "u8 \<Rightarrow> kbd \<Rightarrow> u8 list \<times> kbd" where
  "keyboard_irq sc k =
     (if sc = 0x2A \<or> sc = 0x36 then ([], k\<lparr>shift := True\<rparr>)
      else if sc = 0xAA \<or> sc = 0xB6 then ([], k\<lparr>shift := False\<rparr>)
      else if sc AND 0x80 \<noteq> 0 then ([], k)
      else if sc \<ge> 128 then ([], k)
      else
        let c = (if shift k then scancode_shift ! unat sc else scancode_asc ! unat sc) in
        if c = 0 then ([], k)
        else (if c = 8 then puts_bytes [8, 32, 8] else serial_putc c, if \<not> ring_full k then ring_put c k else k))"

primrec keyboard_getc :: "u8 list \<Rightarrow> kbd \<Rightarrow> (u8 \<times> kbd) option" where
  "keyboard_getc [] k = (if ring_empty k then None else Some (ring_get k))"
| "keyboard_getc (sc # scs) k = (if ring_empty k then keyboard_getc scs (snd (keyboard_irq sc k)) else Some (ring_get k))"

definition keyboard_init :: "kbd \<Rightarrow> kbd" where
  "keyboard_init k = k\<lparr>ring_r := 0, ring_w := 0, shift := False\<rparr>"

section \<open>The ring as a queue\<close>

definition kbd_inv :: "kbd \<Rightarrow> bool" where
  "kbd_inv k \<longleftrightarrow> length (ring k) = RING_SIZE \<and> ring_r k < RING_SIZE \<and> ring_w k < RING_SIZE"

definition ring_count :: "kbd \<Rightarrow> nat" where
  "ring_count k = (ring_w k + RING_SIZE - ring_r k) mod RING_SIZE"

definition ring_contents :: "kbd \<Rightarrow> u8 list" where
  "ring_contents k = map (\<lambda>i. ring k ! ((ring_r k + i) mod RING_SIZE)) [0..<ring_count k]"

lemma ring_mod: "r < 256 \<Longrightarrow> j < 256 \<Longrightarrow> (r + j) mod 256 = (if r + j < 256 then r + j else r + j - (256 :: nat))"
  by (simp add: mod_if)

lemma ring_next: "w < 256 \<Longrightarrow> Suc w mod 256 = (if w = 255 then 0 else Suc w)"
  by auto

lemma ring_count_cases: "kbd_inv k \<Longrightarrow> ring_count k = (if ring_r k \<le> ring_w k then ring_w k - ring_r k else ring_w k + 256 - ring_r k)"
  by (auto simp: ring_count_def kbd_inv_def RING_SIZE_def mod_if)

lemma ring_empty_count: "kbd_inv k \<Longrightarrow> ring_empty k \<longleftrightarrow> ring_contents k = []"
  by (auto simp: ring_empty_def ring_contents_def ring_count_cases kbd_inv_def RING_SIZE_def)

lemma ring_full_count: "kbd_inv k \<Longrightarrow> ring_full k \<longleftrightarrow> length (ring_contents k) = 255"
  by (auto simp: ring_full_def ring_contents_def ring_count_cases kbd_inv_def RING_SIZE_def mod_if split: if_splits)

lemma ring_contents_bound: "kbd_inv k \<Longrightarrow> length (ring_contents k) \<le> 255"
  by (auto simp: ring_contents_def ring_count_cases kbd_inv_def RING_SIZE_def)

lemma ring_put_contents:
  assumes inv: "kbd_inv k" and nf: "\<not> ring_full k"
  shows "kbd_inv (ring_put c k)" "ring_contents (ring_put c k) = ring_contents k @ [c]"
proof -
  have r: "ring_r k < 256" "ring_w k < 256" "length (ring k) = 256" using inv by (simp_all add: kbd_inv_def RING_SIZE_def)
  show i: "kbd_inv (ring_put c k)" using inv by (simp add: kbd_inv_def ring_put_def RING_SIZE_def)
  have n: "ring_count (ring_put c k) = Suc (ring_count k)"
    unfolding ring_count_cases[OF inv] ring_count_cases[OF i]
    using nf r by (simp add: ring_full_def ring_put_def RING_SIZE_def ring_next split: if_splits) linarith
  have c: "ring_count k < 256" using ring_count_cases[OF inv] r by (simp split: if_splits)
  have w: "(ring_r k + ring_count k) mod 256 = ring_w k"
    unfolding ring_mod[OF r(1) c] unfolding ring_count_cases[OF inv] using r by simp
  have ne: "(ring_r k + j) mod 256 \<noteq> ring_w k" if "j < ring_count k" for j
  proof -
    have j: "j < 256" using that c by simp
    show ?thesis unfolding ring_mod[OF r(1) j] using that unfolding ring_count_cases[OF inv] using r by (auto split: if_splits)
  qed
  show "ring_contents (ring_put c k) = ring_contents k @ [c]"
    using r w ne[symmetric] by (simp add: ring_contents_def n) (auto simp: ring_put_def RING_SIZE_def)
qed

lemma ring_get_contents:
  assumes inv: "kbd_inv k" and ne: "\<not> ring_empty k"
  shows "kbd_inv (snd (ring_get k))" "ring_contents k = fst (ring_get k) # ring_contents (snd (ring_get k))"
proof -
  show i: "kbd_inv (snd (ring_get k))" using inv by (simp add: kbd_inv_def ring_get_def RING_SIZE_def)
  have r: "ring_r k < 256" "ring_w k < 256" using inv by (simp_all add: kbd_inv_def RING_SIZE_def)
  have n: "ring_count k = Suc (ring_count (snd (ring_get k)))"
    unfolding ring_count_cases[OF inv] ring_count_cases[OF i]
    using ne r by (simp add: ring_empty_def ring_get_def RING_SIZE_def ring_next) linarith
  have "[0..<Suc m] = 0 # map Suc [0..<m]" for m by (simp add: upt_conv_Cons map_Suc_upt del: upt_Suc)
  then show "ring_contents k = fst (ring_get k) # ring_contents (snd (ring_get k))"
    using inv by (simp add: ring_contents_def n del: upt_Suc) (simp add: ring_get_def kbd_inv_def RING_SIZE_def mod_simps)
qed

interpretation kb: fifo "\<lambda>k xs. ring_put (hd xs) k" "\<lambda>k n. ([fst (ring_get k)], snd (ring_get k))"
  "\<lambda>k xs. length xs = 1 \<and> \<not> ring_full k" "\<lambda>k n. n = 1 \<and> \<not> ring_empty k" ring_contents kbd_inv
proof (unfold_locales, goal_cases)
  case (1 q xs)
  then show ?case using ring_put_contents(2)[of q "hd xs"] by (cases xs) auto
qed (auto simp: ring_put_contents ring_get_contents(1) ring_get_contents(2)[of _, symmetric] dest: ring_get_contents(2))

section \<open>What was typed\<close>

text \<open>The characters that a sequence of scan codes stands for.\<close>

definition scan_char :: "bool \<Rightarrow> u8 \<Rightarrow> u8" where
  "scan_char sh sc = (if sc < 128 then (if sh then scancode_shift else scancode_asc) ! unat sc else 0)"

fun typed :: "bool \<Rightarrow> u8 list \<Rightarrow> u8 list" where
  "typed sh [] = []"
| "typed sh (sc # scs) =
     (if sc \<in> {0x2A, 0x36} then typed True scs
      else if sc \<in> {0xAA, 0xB6} then typed False scs
      else if scan_char sh sc = 0 then typed sh scs
      else scan_char sh sc # typed sh scs)"

lemma high_bit: "(sc :: u8) AND 0x80 = 0 \<longleftrightarrow> sc < 128"
proof -
  have "\<forall>n\<in>set [0..<256]. ((of_nat n :: u8) AND 0x80 = 0) = ((of_nat n :: u8) < 128)" by code_simp
  moreover have "sc = of_nat (unat sc)" "unat sc \<in> set [0..<256]" using unat_bound[of sc] by simp_all
  ultimately show ?thesis by metis
qed

lemma irq_effect:
  assumes "kbd_inv k"
  shows "kbd_inv (snd (keyboard_irq sc k))"
    "ring_contents (snd (keyboard_irq sc k)) @ typed (shift (snd (keyboard_irq sc k))) scs =
       (if length (ring_contents k) = 255 \<and> typed (shift k) [sc] \<noteq> [] then ring_contents k @ typed (shift k) scs
        else ring_contents k @ typed (shift k) (sc # scs))"
proof -
  have sh: "kbd_inv (k\<lparr>shift := b\<rparr>)" "ring_contents (k\<lparr>shift := b\<rparr>) = ring_contents k" for b
    using assms by (simp_all add: kbd_inv_def ring_contents_def ring_count_def)
  have ps: "shift (ring_put c k) = shift k" for c by (simp add: ring_put_def)
  consider (down) "sc \<in> {0x2A, 0x36}" | (up) "sc \<in> {0xAA, 0xB6}" | (char) "sc \<notin> {0x2A, 0x36, 0xAA, 0xB6}" by blast
  then have "kbd_inv (snd (keyboard_irq sc k)) \<and> ring_contents (snd (keyboard_irq sc k)) @ typed (shift (snd (keyboard_irq sc k))) scs =
       (if length (ring_contents k) = 255 \<and> typed (shift k) [sc] \<noteq> [] then ring_contents k @ typed (shift k) scs
        else ring_contents k @ typed (shift k) (sc # scs))"
  proof cases
    case char
    let ?c = "scan_char (shift k) sc"
    have "snd (keyboard_irq sc k) = (if ?c \<noteq> 0 \<and> \<not> ring_full k then ring_put ?c k else k)"
      using char high_bit[of sc] by (auto simp: keyboard_irq_def scan_char_def Let_def not_less)
    then show ?thesis
      using assms char ring_put_contents[OF assms, of ?c] ring_full_count[OF assms] by (auto simp: ps)
  qed (auto simp: keyboard_irq_def sh)
  then show "kbd_inv (snd (keyboard_irq sc k))" "ring_contents (snd (keyboard_irq sc k)) @ typed (shift (snd (keyboard_irq sc k))) scs =
       (if length (ring_contents k) = 255 \<and> typed (shift k) [sc] \<noteq> [] then ring_contents k @ typed (shift k) scs
        else ring_contents k @ typed (shift k) (sc # scs))" by simp_all
qed

section \<open>Properties\<close>

text \<open>
  C29: The ring holds what was typed: after any sequence of key presses and releases with no read in between, it
  holds the characters that were there followed by those the scan codes stand for, with the shift keys taken
  into account; when that is more than 255 characters, the first 255 of them.
\<close>

theorem keyboard_holds_typed:
  assumes "kbd_inv k"
  shows "ring_contents (fold (\<lambda>sc k. snd (keyboard_irq sc k)) scs k) = take 255 (ring_contents k @ typed (shift k) scs)"
  using assms
proof (induction scs arbitrary: k)
  case Nil
  then show ?case using ring_contents_bound[of k] by simp
next
  case (Cons sc scs)
  note e = irq_effect[OF Cons.prems, of sc]
  have "take 255 (ring_contents (snd (keyboard_irq sc k)) @ typed (shift (snd (keyboard_irq sc k))) scs) = take 255 (ring_contents k @ typed (shift k) (sc # scs))"
    unfolding e(2) using ring_contents_bound[OF Cons.prems] by simp
  then show ?case using Cons.IH[OF e(1)] by simp
qed

text \<open>
  A reader gets the characters in the order in which they were typed: if the ring is empty, the next read
  returns the first character that the scan codes stand for, as soon as one does.
\<close>

theorem keyboard_getc_first:
  assumes "kbd_inv k" "ring_contents k = []" "typed (shift k) scs = c # cs"
  shows "\<exists>k'. keyboard_getc scs k = Some (c, k')"
  using assms
proof (induction scs arbitrary: k)
  case (Cons sc scs)
  let ?k = "snd (keyboard_irq sc k)"
  have em: "ring_empty k" using Cons.prems(1,2) by (simp add: ring_empty_count)
  note e = irq_effect[OF Cons.prems(1), of sc]
  have t: "ring_contents ?k @ typed (shift ?k) scs = c # cs" unfolding e(2) using Cons.prems(2,3) by simp
  show ?case
  proof (cases "ring_contents ?k")
    case Nil
    then show ?thesis using Cons.IH[OF e(1) Nil] t em by simp
  next
    case (Cons d ds)
    then have "\<not> ring_empty ?k" using ring_empty_count[OF e(1)] by simp
    moreover from ring_get_contents(2)[OF e(1) this] Cons t have "fst (ring_get ?k) = c" by simp
    ultimately have "keyboard_getc scs ?k = Some (c, snd (ring_get ?k))" by (cases scs) (simp_all add: prod_eq_iff)
    then show ?thesis using em by simp
  qed
qed simp

definition kbd_ex :: kbd where "kbd_ex = \<lparr>ring = replicate 256 0, ring_r = 250, ring_w = 250, shift = False\<rparr>"

theorem keyboard_holds_typed_witness: "ring_contents (fold (\<lambda>sc k. snd (keyboard_irq sc k)) [0x2A, 0x1E, 0x9E, 0xAA, 0x1E, 0x30] kbd_ex) = [65, 97, 98]"
proof -
  have "kbd_inv kbd_ex" "ring_contents kbd_ex = []" by (simp_all add: kbd_inv_def kbd_ex_def RING_SIZE_def ring_contents_def ring_count_def)
  moreover have "typed (shift kbd_ex) [0x2A, 0x1E, 0x9E, 0xAA, 0x1E, 0x30] = [65, 97, 98]"
    by (simp add: kbd_ex_def scan_char_def scancode_shift_def scancode_asc_def)
  ultimately show ?thesis using keyboard_holds_typed[of kbd_ex "[0x2A, 0x1E, 0x9E, 0xAA, 0x1E, 0x30]"] by simp
qed

theorem keyboard_getc_first_witness: "\<exists>k'. keyboard_getc [0x9E, 0x1E] kbd_ex = Some (97, k')"
proof -
  have "kbd_inv kbd_ex" "ring_contents kbd_ex = []" by (simp_all add: kbd_inv_def kbd_ex_def RING_SIZE_def ring_contents_def ring_count_def)
  moreover have "typed (shift kbd_ex) [0x9E, 0x1E] = [97]" by (simp add: kbd_ex_def scan_char_def scancode_asc_def)
  ultimately show ?thesis using keyboard_getc_first[of kbd_ex "[0x9E, 0x1E]" 97 "[]"] by simp
qed

end
