(* ===== verification/KernelLib.thy ===== *)
theory KernelLib
  imports Pmm
begin

text \<open>
  The library functions of the kernel: memory and strings (\<open>src/kernel/string.c\<close>), with the copies of the string
  functions that the user programs have (\<open>src/userland/syscall.h\<close>), the size of memory (\<open>src/kernel/mm/pmem.c\<close>) and
  the clock (\<open>src/kernel/sched/timer.c\<close>). Loops over strings run until a terminator, so they are
  \<open>partial_function\<close>s; an \<open>int\<close> result is an integer, which the differences of two bytes fit.
\<close>

section \<open>Memory\<close>

text \<open>The loops store one byte at a time, upwards.\<close>

primrec memcpy_loop :: "nat \<Rightarrow> u64 \<Rightarrow> u64 \<Rightarrow> memory \<Rightarrow> memory" where
  "memcpy_loop 0 d s m = m"
| "memcpy_loop (Suc i) d s m = (let m1 = memcpy_loop i d s m in m1(d + of_nat i := m1 (s + of_nat i)))"

definition memcpy :: "u64 \<Rightarrow> u64 \<Rightarrow> u64 \<Rightarrow> memory \<Rightarrow> u64 \<times> memory" where
  "memcpy dest src n m = (dest, memcpy_loop (unat n) dest src m)"

primrec memset_loop :: "nat \<Rightarrow> u64 \<Rightarrow> u8 \<Rightarrow> memory \<Rightarrow> memory" where
  "memset_loop 0 p c m = m"
| "memset_loop (Suc i) p c m = (memset_loop i p c m)(p + of_nat i := c)"

definition memset :: "u64 \<Rightarrow> int \<Rightarrow> u64 \<Rightarrow> memory \<Rightarrow> u64 \<times> memory" where
  "memset s c n m = (s, memset_loop (unat n) s (of_int c) m)"

section \<open>Strings\<close>

abbreviation byte_diff :: "u8 \<Rightarrow> u8 \<Rightarrow> int" where "byte_diff x y \<equiv> uint x - uint y"

partial_function (option) strcmp :: "memory \<Rightarrow> u64 \<Rightarrow> u64 \<Rightarrow> int option" where
  "strcmp m a b = (if m a \<noteq> 0 \<and> m a = m b then strcmp m (a + 1) (b + 1) else Some (byte_diff (m a) (m b)))"

primrec strncmp_loop :: "nat \<Rightarrow> memory \<Rightarrow> u64 \<Rightarrow> u64 \<Rightarrow> int" where
  "strncmp_loop 0 m a b = 0"
| "strncmp_loop (Suc n) m a b =
     (if m a \<noteq> m b then byte_diff (m a) (m b) else if m a = 0 then 0 else strncmp_loop n m (a + 1) (b + 1))"

definition strncmp :: "memory \<Rightarrow> u64 \<Rightarrow> u64 \<Rightarrow> u64 \<Rightarrow> int" where
  "strncmp m a b n = strncmp_loop (unat n) m a b"

partial_function (option) strlen_loop :: "memory \<Rightarrow> u64 \<Rightarrow> u64 \<Rightarrow> u64 option" where
  "strlen_loop m s n = (if m s \<noteq> 0 then strlen_loop m (s + 1) (n + 1) else Some n)"

definition strlen :: "memory \<Rightarrow> u64 \<Rightarrow> u64 option" where "strlen m s = strlen_loop m s 0"

definition isdigit :: "int \<Rightarrow> bool" where "isdigit c \<longleftrightarrow> c \<ge> 48 \<and> c \<le> 57"
definition isalpha :: "int \<Rightarrow> bool" where "isalpha c \<longleftrightarrow> (c \<ge> 97 \<and> c \<le> 122) \<or> (c \<ge> 65 \<and> c \<le> 90)"
definition isspace :: "int \<Rightarrow> bool" where "isspace c \<longleftrightarrow> c = 32 \<or> c = 9 \<or> c = 10 \<or> c = 13"

text \<open>The user programs compare strings with a loop of a different shape, and count in a 32-bit integer.\<close>

primrec ustrncmp_loop :: "nat \<Rightarrow> memory \<Rightarrow> u64 \<Rightarrow> u64 \<Rightarrow> nat \<times> u64 \<times> u64" where
  "ustrncmp_loop 0 m a b = (0, a, b)"
| "ustrncmp_loop (Suc n) m a b = (if m a \<noteq> 0 \<and> m a = m b then ustrncmp_loop n m (a + 1) (b + 1) else (Suc n, a, b))"

definition ustrncmp :: "memory \<Rightarrow> u64 \<Rightarrow> u64 \<Rightarrow> u64 \<Rightarrow> int" where
  "ustrncmp m a b n = (case ustrncmp_loop (unat n) m a b of (k, a', b') \<Rightarrow> if k = 0 then 0 else byte_diff (m a') (m b'))"

partial_function (option) ustrlen_loop :: "memory \<Rightarrow> u64 \<Rightarrow> u32 \<Rightarrow> u32 option" where
  "ustrlen_loop m s n = (if m s \<noteq> 0 then ustrlen_loop m (s + 1) (n + 1) else Some n)"

definition ustrlen :: "memory \<Rightarrow> u64 \<Rightarrow> u32 option" where "ustrlen m s = ustrlen_loop m s 0"

section \<open>The size of memory and the clock\<close>

primrec pmem_entries :: "memory \<Rightarrow> u64 \<Rightarrow> nat \<Rightarrow> u64 \<Rightarrow> u64" where
  "pmem_entries mb tag 0 t = t"
| "pmem_entries mb tag (Suc i) t =
     (let e = tag + 16 + 24 * of_nat i; t1 = pmem_entries mb tag i t in
      if load32 mb (e + 16) = 1 then t1 + load64 mb (e + 8) else t1)"

partial_function (option) pmem_tags :: "memory \<Rightarrow> u64 \<Rightarrow> u64 \<Rightarrow> u64 option" where
  "pmem_tags mb addr t =
     (let typ = load32 mb addr; next = addr + ucast ((load32 mb (addr + 4) + 7) AND NOT 7) in
      if typ = 0 then Some t
      else if typ = 6 then
        (if load32 mb (addr + 8) = 0 then None else pmem_tags mb next (pmem_entries mb addr (mmap_count mb addr) t))
      else pmem_tags mb next t)"

text \<open>The counter is not reset: the initial value is an argument.\<close>

definition pmem_init :: "memory \<Rightarrow> u32 \<Rightarrow> u64 \<Rightarrow> u64 option" where
  "pmem_init mb mboot_info t = pmem_tags mb (ucast (mboot_info + 8)) t"

definition pmem_total :: "u64 \<Rightarrow> u64" where "pmem_total t = t"

definition timer_irq :: "u64 \<Rightarrow> u64" where "timer_irq ticks = ticks + 1"
definition timer_get_ticks :: "u64 \<Rightarrow> u64" where "timer_get_ticks ticks = ticks"

section \<open>Copying\<close>

lemma memcpy_loop_other: "unat d + n \<le> 2 ^ 64 \<Longrightarrow> unat x < unat d \<or> unat d + n \<le> unat x \<Longrightarrow> memcpy_loop n d s m x = m x"
proof (induction n)
  case (Suc n)
  then have "x \<noteq> d + of_nat n" using unat_range[of d "Suc n" n] by auto
  moreover have "memcpy_loop n d s m x = m x" using Suc.prems by (intro Suc.IH) auto
  ultimately show ?case by (simp add: Let_def)
qed simp

lemma memcpy_loop_copies:
  assumes "unat d + n \<le> 2 ^ 64" "unat s + n \<le> 2 ^ 64" "unat d \<le> unat s \<or> unat s + n \<le> unat d"
  shows "i < n \<Longrightarrow> memcpy_loop n d s m (d + of_nat i) = m (s + of_nat i)"
  using assms
proof (induction n)
  case (Suc n)
  have u: "unat (d + of_nat i) = unat d + i" "unat (d + of_nat n) = unat d + n" "unat (s + of_nat n) = unat s + n"
    using Suc.prems unat_range[of d "Suc n"] unat_range[of s "Suc n"] by auto
  show ?case
  proof (cases "i = n")
    case True
    have "memcpy_loop n d s m (s + of_nat n) = m (s + of_nat n)"
      using Suc.prems u(3) by (intro memcpy_loop_other) auto
    then show ?thesis using True by (simp add: Let_def)
  next
    case False
    then have "d + of_nat i \<noteq> d + of_nat n" using u(1,2) by (metis add_left_cancel)
    moreover have "memcpy_loop n d s m (d + of_nat i) = m (s + of_nat i)" using False Suc.prems by (intro Suc.IH) auto
    ultimately show ?thesis by (simp add: Let_def)
  qed
qed simp

lemma memset_loop_bytes: "unat p + n \<le> 2 ^ 64 \<Longrightarrow> memset_loop n p c m = store_bytes m p (replicate n c)"
proof (induction n)
  case 0
  show ?case by (rule ext) (simp add: store_bytes_def)
next
  case (Suc n)
  have x: "unat (x - p) < Suc n \<longleftrightarrow> x = p + of_nat n \<or> unat (x - p) < n" for x
  proof -
    have "unat (x - p) = n" if "x = p + of_nat n" using Suc.prems that by (simp add: unat_of_nat_small)
    moreover have "x = p + of_nat n" if "unat (x - p) = n" using of_nat_unat_id[of "x - p"] that by (simp add: algebra_simps)
    ultimately show ?thesis by (auto simp: less_Suc_eq)
  qed
  have "memset_loop n p c m = store_bytes m p (replicate n c)" using Suc.prems by (intro Suc.IH) simp
  then show ?case by (intro ext) (simp add: store_bytes_def x del: replicate_Suc)
qed

text \<open>
  \<open>memcpy\<close> and \<open>memset\<close> do what their names say, when the areas do not wrap around: a copy to a lower address or to an
  area that does not overlap the source puts the old bytes of the source there and changes nothing else, and
  \<open>memset\<close> stores the lowest byte of its argument.
\<close>

theorem memcpy_memset_correct:
  assumes "unat d + unat n \<le> 2 ^ 64" "unat s + unat n \<le> 2 ^ 64" "unat d \<le> unat s \<or> unat s + unat n \<le> unat d"
  shows "memcpy d s n m = (d, store_bytes m d (load_bytes (unat n) m s)) \<and>
    memset d c n m = (d, store_bytes m d (replicate (unat n) (of_int c)))"
proof -
  have "memcpy_loop (unat n) d s m x = store_bytes m d (load_bytes (unat n) m s) x" for x
  proof (cases "unat (x - d) < unat n")
    case True
    have "memcpy_loop (unat n) d s m (d + of_nat (unat (x - d))) = m (s + of_nat (unat (x - d)))"
      by (rule memcpy_loop_copies[OF assms True])
    then show ?thesis using True by (simp add: store_bytes_def load_bytes_def)
  next
    case False
    have "unat x < unat d \<or> unat d + unat n \<le> unat x"
      using False unat_sub_le[of d x] by (cases "d \<le> x") (auto simp: word_le_nat_alt)
    then have "memcpy_loop (unat n) d s m x = m x" by (intro memcpy_loop_other assms)
    then show ?thesis using False by (simp add: store_bytes_def)
  qed
  then show ?thesis by (auto simp: memcpy_def memset_def memset_loop_bytes[OF assms(1)])
qed

section \<open>Comparing\<close>

text \<open>The reference: the first difference of two strings of bytes, the end counting as 0.\<close>

fun bytes_cmp :: "cstring \<Rightarrow> cstring \<Rightarrow> int" where
  "bytes_cmp [] [] = 0"
| "bytes_cmp [] (y # ys) = - uint y"
| "bytes_cmp (x # xs) [] = uint x"
| "bytes_cmp (x # xs) (y # ys) = (if x = y then bytes_cmp xs ys else byte_diff x y)"

lemma byte_diff_sign: "(byte_diff x y = 0 \<longleftrightarrow> x = y) \<and> (byte_diff x y < 0 \<longleftrightarrow> x < y)"
  by (simp add: word_less_def word_uint_eq_iff)

lemma bytes_cmp_lexord:
  "0 \<notin> set xs \<Longrightarrow> 0 \<notin> set ys \<Longrightarrow> (bytes_cmp xs ys = 0 \<longleftrightarrow> xs = ys) \<and> (bytes_cmp xs ys < 0 \<longleftrightarrow> (xs, ys) \<in> lexord {(x, y). x < y})"
proof (induction xs ys rule: bytes_cmp.induct)
  case (2 y ys)
  then have "0 < uint y" by (simp add: order_less_le word_uint_eq_iff[of 0])
  then show ?case by simp
next
  case (3 x xs)
  then have "0 < uint x" by (simp add: order_less_le word_uint_eq_iff[of 0])
  then show ?case by simp
next
  case (4 x xs y ys)
  then show ?case using byte_diff_sign[of x y] by (cases "x = y") simp_all
qed simp

text \<open>A string in memory.\<close>

primrec str_at :: "memory \<Rightarrow> u64 \<Rightarrow> cstring \<Rightarrow> bool" where
  "str_at m a [] \<longleftrightarrow> m a = 0"
| "str_at m a (c # s) \<longleftrightarrow> c \<noteq> 0 \<and> m a = c \<and> str_at m (a + 1) s"

lemma str_at_nonzero: "str_at m a s \<Longrightarrow> 0 \<notin> set s"
  by (induction s arbitrary: a) auto

lemma strcmp_cmp: "str_at m a s \<Longrightarrow> str_at m b t \<Longrightarrow> strcmp m a b = Some (bytes_cmp s t)"
  by (induction s t arbitrary: a b rule: bytes_cmp.induct; subst strcmp.simps) auto

lemma strncmp_cmp: "str_at m a s \<Longrightarrow> str_at m b t \<Longrightarrow> strncmp_loop n m a b = bytes_cmp (take n s) (take n t)"
proof (induction s t arbitrary: a b n rule: bytes_cmp.induct)
  case (1 a b n)
  then show ?case by (cases n) simp_all
next
  case (2 y ys a b n)
  then show ?case by (cases n) auto
next
  case (3 x xs a b n)
  then show ?case by (cases n) auto
next
  case (4 x xs y ys a b n)
  then show ?case by (cases n) auto
qed

lemma ustrncmp_eq: "(case ustrncmp_loop n m a b of (k, a', b') \<Rightarrow> if k = 0 then 0 else byte_diff (m a') (m b')) = strncmp_loop n m a b"
  by (induction n arbitrary: a b) auto

lemma strlen_loop_at: "str_at m a s \<Longrightarrow> strlen_loop m a n = Some (n + of_nat (length s))"
  by (induction s arbitrary: a n; subst strlen_loop.simps) (auto simp: algebra_simps)

lemma ustrlen_loop_at: "str_at m a s \<Longrightarrow> ustrlen_loop m a n = Some (n + of_nat (length s))"
  by (induction s arbitrary: a n; subst ustrlen_loop.simps) (auto simp: algebra_simps)

text \<open>
  C35: On strings in memory the string functions end and agree with the comparison of lists of bytes: \<open>strcmp\<close> is 0 exactly for
  equal strings and negative exactly when the first comes before the second, \<open>strncmp\<close> compares the prefixes, \<open>strlen\<close>
  is the length; the versions of the user programs return the same, the length modulo $2^{32}$.
\<close>

theorem string_functions_correct:
  assumes "str_at m a s" "str_at m b t"
  shows "\<exists>r. strcmp m a b = Some r \<and> (r = 0 \<longleftrightarrow> s = t) \<and> (r < 0 \<longleftrightarrow> (s, t) \<in> lexord {(x, y). x < y}) \<and>
    strncmp m a b n = bytes_cmp (take (unat n) s) (take (unat n) t) \<and> ustrncmp m a b n = strncmp m a b n \<and>
    strlen m a = Some (of_nat (length s)) \<and> ustrlen m a = Some (of_nat (length s))"
  using strcmp_cmp[OF assms] bytes_cmp_lexord[OF str_at_nonzero[OF assms(1)] str_at_nonzero[OF assms(2)]] strncmp_cmp[OF assms]
    strlen_loop_at[OF assms(1)] ustrlen_loop_at[OF assms(1)]
  by (simp add: strncmp_def ustrncmp_def ustrncmp_eq strlen_def ustrlen_def)

theorem string_functions_correct_witness:
  "\<exists>r. strcmp (\<lambda>x. if x = 0 then 97 else if x = 1 then 98 else if x = 5 then 97 else 0) 0 5 = Some r \<and> r \<noteq> 0 \<and> \<not> r < 0"
proof -
  let ?m = "\<lambda>x :: u64. if x = 0 then 97 else if x = 1 then 98 else if x = 5 then 97 else 0 :: u8"
  have "str_at ?m 0 [97, 98]" "str_at ?m 5 [97]" by simp_all
  moreover have "([97, 98], [97]) \<notin> lexord {(x, y :: u8). x < y}" by simp
  ultimately show ?thesis using string_functions_correct[of ?m 0 "[97, 98]" 5 "[97]" 0] by fastforce
qed

theorem memcpy_memset_correct_witness:
  "memcpy 0x100 0x200 4 (\<lambda>_. 7) = (0x100, store_bytes (\<lambda>_. 7) 0x100 (load_bytes 4 (\<lambda>_. 7) 0x200)) \<and>
   memset 0x100 65 4 (\<lambda>_. 7) = (0x100, store_bytes (\<lambda>_. 7) 0x100 (replicate 4 65))"
  using memcpy_memset_correct[of "0x100" 4 "0x200" "\<lambda>_. 7" 65] by simp

section \<open>The two walks over the memory map\<close>

lemma release_pages_total: "total_mem (release_pages ps s) = total_mem s"
  by (induction ps arbitrary: s) simp_all

lemma reserve_pages_total: "total_mem (reserve_pages n s) = total_mem s"
  by (induction n) (simp_all add: Let_def)

lemma mmap_entries_total: "total_mem (mmap_entries mb tag n s) = pmem_entries mb tag n (total_mem s)"
  by (induction n) (simp_all add: mmap_entry_def Let_def release_pages_total)

lemma mboot_tags_pmem:
  assumes "mboot_tags mb a s = Some s'"
  shows "pmem_tags mb a (total_mem s) = Some (total_mem s')"
proof (rule mboot_tags.raw_induct[where P = "\<lambda>mb a s s'. pmem_tags mb a (total_mem s) = Some (total_mem s')", OF _ assms], goal_cases)
  case (1 tags mb a s s')
  show ?case
    using 1 by (subst pmem_tags.simps) (auto simp: Let_def mmap_entries_total[symmetric] split: if_splits)
qed

lemma pmem_mboot_tags:
  assumes "pmem_tags mb a t = Some t'"
  shows "\<forall>s :: pmm. total_mem s = t \<longrightarrow> (\<exists>s' :: pmm. mboot_tags mb a s = Some s')"
proof (rule pmem_tags.raw_induct[where P = "\<lambda>mb a t t'. \<forall>s :: pmm. total_mem s = t \<longrightarrow> (\<exists>s' :: pmm. mboot_tags mb a s = Some s')", OF _ assms], goal_cases)
  case (1 tags mb a t t')
  show ?case
  proof (intro allI impI)
    fix s :: pmm assume t: "total_mem s = t"
    then have e: "total_mem (mmap_entries mb a n s) = pmem_entries mb a n t" for n by (simp add: mmap_entries_total)
    show "\<exists>s'. mboot_tags mb a s = Some s'"
      using 1(2) 1(1)[of mb _ "pmem_entries mb a (mmap_count mb a) t"] 1(1)[of mb _ t] e t
      by (subst mboot_tags.simps) (auto simp: Let_def split: if_splits)
  qed
qed

text \<open>
  The two walks over the memory map agree: \<open>pmem_init\<close> returns if and only if \<open>pmm_init\<close> does, and then counts
  the same amount of memory.
\<close>

theorem pmem_agrees: "pmem_init mb info 0 = map_option pmm_total_mem (pmm_init mb bss_end info)"
proof -
  let ?a = "ucast (info + 8) :: u64"
  have z: "total_mem pmm_reset = 0" by (simp add: pmm_reset_def)
  show ?thesis
  proof (cases "mboot_tags mb ?a pmm_reset")
    case None
    then have "pmem_tags mb ?a 0 = None" using pmem_mboot_tags[of mb ?a 0] z by (cases "pmem_tags mb ?a 0") auto
    then show ?thesis using None by (simp add: pmem_init_def pmm_init_def)
  next
    case (Some s)
    then show ?thesis using mboot_tags_pmem[OF Some] by (simp add: pmem_init_def pmm_init_def pmm_total_mem_def z reserve_pages_total)
  qed
qed

end
