(* ===== verification/Interrupts.thy ===== *)
theory Interrupts
  imports Keyboard KernelLib FaultProps
begin

text \<open>
  Interrupt set-up and dispatch: the gates, the system call registers and the register dumps of
  \<open>src/kernel/arch/x86_64/idt.c\<close>, the interrupt controllers (\<open>pic.h\<close>), the timer (\<open>src/kernel/hal/pit.c\<close>) and the task
  state segment (\<open>tss.c\<close>). What is sent to ports and to model specific registers is recorded in order; the address
  of the handlers of the assembly part, what the processor stores for \<open>sgdt\<close> and what is read from ports are
  arguments.
\<close>

section \<open>Gates\<close>

record idt_entry =
  g_offset_low :: u16
  g_selector :: u16
  g_ist :: u8
  g_type :: u8
  g_offset_mid :: u16
  g_offset_high :: u32
  g_reserved :: u32

record cpu =
  c_idt :: "idt_entry list"
  idtr_limit :: u16
  idtr_base :: u64
  c_msr :: "(u32 \<times> u64) list"
  c_out :: "(u16 \<times> u8) list"

definition outb :: "u16 \<Rightarrow> u8 \<Rightarrow> cpu \<Rightarrow> cpu" where
  "outb port v c = c\<lparr>c_out := c_out c @ [(port, v)]\<rparr>"

definition wrmsr :: "u32 \<Rightarrow> u32 \<Rightarrow> u32 \<Rightarrow> cpu \<Rightarrow> cpu" where
  "wrmsr reg eax edx c = c\<lparr>c_msr := c_msr c @ [(reg, push_bit 32 (ucast edx) OR ucast eax)]\<rparr>"

definition idt_set :: "nat \<Rightarrow> u64 \<Rightarrow> u8 \<Rightarrow> cpu \<Rightarrow> cpu" where
  "idt_set i addr t c =
     c\<lparr>c_idt := (c_idt c)[i := \<lparr>g_offset_low = ucast (addr AND 0xFFFF), g_selector = 0x08, g_ist = 0, g_type = t,
        g_offset_mid = ucast (drop_bit 16 addr AND 0xFFFF), g_offset_high = ucast (drop_bit 32 addr AND 0xFFFFFFFF), g_reserved = 0\<rparr>]\<rparr>"

definition syscall_init :: "u64 \<Rightarrow> cpu \<Rightarrow> cpu" where
  "syscall_init syscall_entry c =
     (let star = push_bit 32 (0x08 :: u64) OR push_bit 48 0x10; lstar = syscall_entry; sfmask = (0x200 :: u64)
      in wrmsr 0xC0000084 (ucast sfmask) 0
         (wrmsr 0xC0000082 (ucast lstar) (ucast (drop_bit 32 lstar))
         (wrmsr 0xC0000081 (ucast star) (ucast (drop_bit 32 star)) c)))"

section \<open>Interrupt controllers and timer\<close>

definition PIC1_CMD :: u16 where "PIC1_CMD = 0x20"
definition PIC1_DATA :: u16 where "PIC1_DATA = 0x21"
definition PIC2_CMD :: u16 where "PIC2_CMD = 0xA0"
definition PIC2_DATA :: u16 where "PIC2_DATA = 0xA1"
definition ICW1_INIT :: u8 where "ICW1_INIT = 0x10"
definition ICW1_ICW4 :: u8 where "ICW1_ICW4 = 0x01"
definition ICW4_8086 :: u8 where "ICW4_8086 = 0x01"
definition PIC_EOI :: u8 where "PIC_EOI = 0x20"

lemmas pic_consts = PIC1_CMD_def PIC1_DATA_def PIC2_CMD_def PIC2_DATA_def ICW1_INIT_def ICW1_ICW4_def ICW4_8086_def PIC_EOI_def

definition pic_remap :: "u8 \<Rightarrow> u8 \<Rightarrow> cpu \<Rightarrow> cpu" where
  "pic_remap m1 m2 c =
     fold (\<lambda>(port, v). outb port v)
       [(PIC1_CMD, ICW1_INIT OR ICW1_ICW4), (PIC2_CMD, ICW1_INIT OR ICW1_ICW4), (PIC1_DATA, 0x20), (PIC2_DATA, 0x28),
        (PIC1_DATA, 4), (PIC2_DATA, 2), (PIC1_DATA, ICW4_8086), (PIC2_DATA, ICW4_8086), (PIC1_DATA, m1), (PIC2_DATA, m2)] c"

definition pic_set_mask :: "u16 \<Rightarrow> cpu \<Rightarrow> cpu" where
  "pic_set_mask m c = outb PIC2_DATA (ucast (drop_bit 8 m AND 0xFF)) (outb PIC1_DATA (ucast (m AND 0xFF)) c)"

definition pic_send_eoi :: "int \<Rightarrow> cpu \<Rightarrow> cpu" where
  "pic_send_eoi irq c = outb PIC1_CMD PIC_EOI (if irq \<ge> 8 then outb PIC2_CMD PIC_EOI c else c)"

text \<open>A frequency of zero divides by zero.\<close>

definition pit_init :: "int \<Rightarrow> cpu \<Rightarrow> cpu option" where
  "pit_init hz c =
     (if hz = 0 then None
      else
        let divisor = sgn hz * (1193182 div \<bar>hz\<bar>) in
        Some (outb 0x40 (of_int (drop_bit 8 divisor AND 0xFF)) (outb 0x40 (of_int (divisor AND 0xFF)) (outb 0x43 0x36 c))))"

definition idt_init :: "u64 list \<Rightarrow> u64 \<Rightarrow> u64 \<Rightarrow> u8 \<Rightarrow> u8 \<Rightarrow> cpu \<Rightarrow> cpu" where
  "idt_init isr_stub_table syscall_entry idt_addr m1 m2 c =
     (let c1 = c\<lparr>idtr_limit := of_nat (256 * 16 - 1), idtr_base := idt_addr\<rparr>;
          c2 = fold (\<lambda>i. idt_set i (isr_stub_table ! i) (if i < 32 then 0x8F else 0x8E)) [0..<48] c1
      in syscall_init syscall_entry (pic_set_mask (NOT (push_bit 0 1 OR push_bit 1 1)) (pic_remap m1 m2 c2)))"

section \<open>Dispatch\<close>

record irqs =
  q_ticks :: u64
  q_kbd :: kbd
  q_cpu :: cpu

text \<open>The scan code is what the keyboard port returns; the result is the echo.\<close>

definition irq_handler :: "u64 \<Rightarrow> u8 \<Rightarrow> irqs \<Rightarrow> u8 list \<times> irqs" where
  "irq_handler vector sc s =
     (let irq = sint (ucast (vector - 32) :: u32);
          (out, s1) = (if irq = 0 then ([], s\<lparr>q_ticks := timer_irq (q_ticks s)\<rparr>)
                       else if irq = 1 then (let (o1, k) = keyboard_irq sc (q_kbd s) in (o1, s\<lparr>q_kbd := k\<rparr>))
                       else ([], s))
      in (out, s1\<lparr>q_cpu := pic_send_eoi irq (q_cpu s1)\<rparr>))"

section \<open>Register dumps\<close>

record exception_frame =
  f_rax :: u64  f_rbx :: u64  f_rcx :: u64  f_rdx :: u64  f_rdi :: u64  f_rsi :: u64  f_rbp :: u64
  f_r8 :: u64  f_r9 :: u64  f_r10 :: u64  f_r11 :: u64  f_r12 :: u64  f_r13 :: u64  f_r14 :: u64  f_r15 :: u64
  f_vector :: u64  f_error_code :: u64
  f_rip :: u64  f_cs :: u64  f_rflags :: u64  f_rsp :: u64  f_ss :: u64

definition exc_names :: "string list" where
  "exc_names =
     [''DE'', ''DB'', ''NMI'', ''BP'', ''OF'', ''BR'', ''UD'', ''NM'', ''DF'', ''CSO'', ''TS'', ''NP'', ''SS'', ''GP'', ''PF'', ''RSV'',
      ''MF'', ''AC'', ''MC'', ''XM'', ''VE'', ''CP'', ''RSV'', ''RSV'', ''RSV'', ''RSV'', ''RSV'', ''RSV'', ''RSV'', ''RSV'', ''SX'', ''RSV'']"

text \<open>The format takes 32 bits of each 64-bit argument.\<close>

abbreviation va32 :: "u64 \<Rightarrow> va_arg" where "va32 x \<equiv> Va_int (ucast x)"

text \<open>The lines with the general registers, the same for page faults and other exceptions.\<close>

definition dump_regs :: "exception_frame \<Rightarrow> (u8 list \<times> va_arg list) list" where
  "dump_regs f =
     [(ascii ''RAX: %x  RBX: %x  RCX: %x  RDX: %x'' @ [10], [va32 (f_rax f), va32 (f_rbx f), va32 (f_rcx f), va32 (f_rdx f)]),
      (ascii ''RSI: %x  RDI: %x  RBP: %x'' @ [10], [va32 (f_rsi f), va32 (f_rdi f), va32 (f_rbp f)]),
      (ascii ''R8:  %x  R9:  %x  R10: %x  R11: %x'' @ [10], [va32 (f_r8 f), va32 (f_r9 f), va32 (f_r10 f), va32 (f_r11 f)]),
      (ascii ''R12: %x  R13: %x  R14: %x  R15: %x'' @ [10], [va32 (f_r12 f), va32 (f_r13 f), va32 (f_r14 f), va32 (f_r15 f)])]"

definition pf_dump :: "exception_frame \<Rightarrow> u64 \<Rightarrow> (u8 list \<times> va_arg list) list" where
  "pf_dump f cr2 =
     [([10] @ ascii ''!!! PF (%x), ERR %x'' @ [10], [va32 (f_vector f), va32 (f_error_code f)]),
      (ascii ''CR2: %x  RIP: %x  RSP: %x'' @ [10], [va32 cr2, va32 (f_rip f), va32 (f_rsp f)])] @ dump_regs f"

definition exc_dump :: "exception_frame \<Rightarrow> (u8 list \<times> va_arg list) list" where
  "exc_dump f =
     (let name = (if f_vector f < 32 then exc_names ! unat (f_vector f) else ''INT'') in
      [([10] @ ascii ''!!! %s (%x), ERR %x'' @ [10], [Va_str (ascii name), va32 (f_vector f), va32 (f_error_code f)]),
       (ascii ''RIP: %x  RSP: %x  RFLAGS: %x'' @ [10], [va32 (f_rip f), va32 (f_rsp f), va32 (f_rflags f)])] @ dump_regs f)"

fun print_all :: "(u8 list \<times> va_arg list) list \<Rightarrow> u8 list option" where
  "print_all [] = Some []"
| "print_all ((fmt, args) # ls) = Option.bind (serial_printf fmt args) (\<lambda>s. map_option ((@) s) (print_all ls))"

section \<open>The task state segment\<close>

definition TSS_SIZE :: nat where "TSS_SIZE = 4 + 3 * 8 + 8 + 7 * 8 + 4 + 4 + 2 + 2"

definition tss_zero :: "u64 \<Rightarrow> memory \<Rightarrow> memory" where
  "tss_zero t m = fold (\<lambda>i m. store_bytes m (t + of_nat (8 * i)) (le_enc 8 (0 :: u64))) [0..<TSS_SIZE div 8] m"

definition tss_descriptor :: "u64 \<Rightarrow> u8 list" where
  "tss_descriptor p =
     le_enc 2 (of_nat (TSS_SIZE - 1) :: u16) @ le_enc 2 (ucast (p AND 0xFFFF) :: u16) @
     [ucast (drop_bit 16 p AND 0xFF), 0x89, 0, ucast (drop_bit 24 p AND 0xFF)] @
     le_enc 4 (ucast (drop_bit 32 p AND 0xFFFFFFFF) :: u32) @ le_enc 4 (0 :: u32)"

text \<open>\<open>gdt_raw\<close> is what \<open>sgdt\<close> stores; no memory left halts the machine, \<^const>\<open>None\<close>.\<close>

definition tss_init :: "u8 list \<Rightarrow> mmu \<Rightarrow> (u64 \<times> mmu) option" where
  "tss_init gdt_raw m =
     (let (phys, m1) = vm_page_alloc m in
      if phys = 0 then None
      else
        let mem1 = store_bytes (tss_zero phys (vm_mem m1)) (phys + 102) (le_enc 2 (of_nat TSS_SIZE :: u16));
            (stack, m2) = vm_page_alloc (m1\<lparr>vm_mem := mem1\<rparr>) in
        if stack = 0 then None
        else
          let mem2 = store_bytes (vm_mem m2) (phys + 4) (le_enc 8 (stack + 4096));
              mem3 = store_bytes mem2 (phys + 44) (le_enc 8 (stack + 4096));
              gdt_base = ucast (rd32 gdt_raw 2) :: u64
          in Some (phys, m2\<lparr>vm_mem := store_bytes mem3 (gdt_base + 0x28) (tss_descriptor phys)\<rparr>))"

definition tss_set_kernel_stack :: "u64 \<Rightarrow> u64 \<Rightarrow> mmu \<Rightarrow> mmu" where
  "tss_set_kernel_stack tss rsp0 m = (if tss \<noteq> 0 then m\<lparr>vm_mem := store_bytes (vm_mem m) (tss + 4) (le_enc 8 rsp0)\<rparr> else m)"

section \<open>Gates as the processor reads them\<close>

definition gate_offset :: "idt_entry \<Rightarrow> u64" where
  "gate_offset g = ucast (g_offset_low g) OR push_bit 16 (ucast (g_offset_mid g)) OR push_bit 32 (ucast (g_offset_high g))"

lemma split_offset: "(ucast (ucast (a AND 0xFFFF) :: u16) :: u64) OR push_bit 16 (ucast (ucast (drop_bit 16 a AND 0xFFFF) :: u16)) OR
    push_bit 32 (ucast (ucast (drop_bit 32 a AND 0xFFFFFFFF) :: u32)) = a"
proof -
  have m: "(0xFFFF :: u64) = mask 16" "(0xFFFFFFFF :: u64) = mask 32" by (simp_all add: mask_eq_exp_minus_1)
  show ?thesis unfolding m
  proof (rule bit_word_eqI)
    fix n assume "n < LENGTH(64)"
    then show "bit ((ucast (ucast (a AND mask 16) :: u16) :: u64) OR push_bit 16 (ucast (ucast (drop_bit 16 a AND mask 16) :: u16)) OR
        push_bit 32 (ucast (ucast (drop_bit 32 a AND mask 32) :: u32))) n = bit a n"
      by (cases "32 \<le> n") (auto simp: bit_simps not_less)
  qed
qed

lemma idt_set_gates [frame_simps]:
  "c_idt (fold (\<lambda>i. idt_set i (f i) (t i)) is c) = fold (\<lambda>i g. g[i := \<lparr>g_offset_low = ucast (f i AND 0xFFFF), g_selector = 0x08, g_ist = 0, g_type = t i,
     g_offset_mid = ucast (drop_bit 16 (f i) AND 0xFFFF), g_offset_high = ucast (drop_bit 32 (f i) AND 0xFFFFFFFF), g_reserved = 0\<rparr>]) is (c_idt c)"
  "c_out (fold (\<lambda>i. idt_set i (f i) (t i)) is c) = c_out c" "c_msr (fold (\<lambda>i. idt_set i (f i) (t i)) is c) = c_msr c"
  "idtr_limit (fold (\<lambda>i. idt_set i (f i) (t i)) is c) = idtr_limit c" "idtr_base (fold (\<lambda>i. idt_set i (f i) (t i)) is c) = idtr_base c"
  by (induction "is" arbitrary: c) (simp_all add: idt_set_def)

lemma fold_upd_nth: "distinct is \<Longrightarrow> set is \<subseteq> {..<length g} \<Longrightarrow> fold (\<lambda>i g. g[i := h i]) is g ! v = (if v \<in> set is then h v else g ! v)"
proof (induction "is" arbitrary: g)
  case (Cons i "is")
  then show ?case using Cons.IH[of "g[i := h i]"] by (auto simp: nth_upd)
qed simp

section \<open>The interrupt controller\<close>

text \<open>
  An 8259A controller as its data sheet describes it: a command with bit 4 starts the initialisation and clears the
  mask; the next data bytes are the vector base, the cascade and, if announced, the mode; later ones are the mask.
\<close>

record chip =
  ch_phase :: nat
  ch_mode :: bool
  ch_base :: u8
  ch_mask :: u8

definition chip_write :: "u16 \<Rightarrow> u16 \<Rightarrow> u16 \<times> u8 \<Rightarrow> chip \<Rightarrow> chip" where
  "chip_write cmd data w h =
     (case w of (port, v) \<Rightarrow>
        if port = cmd then if v AND 0x10 \<noteq> 0 then h\<lparr>ch_phase := 1, ch_mode := v AND 1 \<noteq> 0, ch_mask := 0\<rparr> else h
        else if port = data then
          if ch_phase h = 1 then h\<lparr>ch_base := v AND 0xF8, ch_phase := 2\<rparr>
          else if ch_phase h = 2 then h\<lparr>ch_phase := (if ch_mode h then 3 else 0)\<rparr>
          else if ch_phase h = 3 then h\<lparr>ch_phase := 0\<rparr>
          else h\<lparr>ch_mask := v\<rparr>
        else h)"

definition chip_after :: "u16 \<Rightarrow> u16 \<Rightarrow> cpu \<Rightarrow> chip \<Rightarrow> chip" where
  "chip_after cmd data c h = fold (chip_write cmd data) (c_out c) h"

lemma idt_init_out: "c_out (idt_init st se ia m1 m2 c) = c_out c @
    [(0x20, 0x11), (0xA0, 0x11), (0x21, 0x20), (0xA1, 0x28), (0x21, 4), (0xA1, 2), (0x21, 1), (0xA1, 1), (0x21, m1), (0xA1, m2), (0x21, 0xFC), (0xA1, 0xFF)]"
  by (simp add: idt_init_def syscall_init_def wrmsr_def pic_set_mask_def pic_remap_def outb_def frame_simps pic_consts Let_def)

lemma idt_init_rest:
  "c_idt (idt_init st se ia m1 m2 c) = c_idt (fold (\<lambda>i. idt_set i (st ! i) (if i < 32 then 0x8F else 0x8E)) [0..<48] c)"
  "idtr_limit (idt_init st se ia m1 m2 c) = 4095" "idtr_base (idt_init st se ia m1 m2 c) = ia"
  "c_msr (idt_init st se ia m1 m2 c) = c_msr c @ [(0xC0000081, 0x0010000800000000), (0xC0000082, se), (0xC0000084, 0x200)]"
proof -
  have e: "push_bit 32 (ucast (ucast (drop_bit 32 se) :: u32)) OR ucast (ucast se :: u32) = se"
    by (rule bit_word_eqI) (auto simp: bit_simps not_less)
  show "c_msr (idt_init st se ia m1 m2 c) = c_msr c @ [(0xC0000081, 0x0010000800000000), (0xC0000082, se), (0xC0000084, 0x200)]"
    by (simp add: idt_init_def syscall_init_def wrmsr_def pic_set_mask_def pic_remap_def outb_def frame_simps Let_def e)
  show "c_idt (idt_init st se ia m1 m2 c) = c_idt (fold (\<lambda>i. idt_set i (st ! i) (if i < 32 then 0x8F else 0x8E)) [0..<48] c)"
    "idtr_limit (idt_init st se ia m1 m2 c) = 4095" "idtr_base (idt_init st se ia m1 m2 c) = ia"
    by (simp_all add: idt_init_def syscall_init_def wrmsr_def pic_set_mask_def pic_remap_def outb_def frame_simps Let_def del: upt.simps)
qed

text \<open>
  C36: After \<open>idt_init\<close> the processor finds the stub of each of the vectors 0 to 47 in its gate, exceptions as trap gates and
  interrupts as interrupt gates, and the other gates as they were; the controllers, whatever their state was, deliver
  line $i$ as vector $32 + i$, with all lines masked but those of the timer and the keyboard; the system call
  instruction enters at the address given, with the kernel code segment.
\<close>

theorem idt_init_correct:
  assumes "length (c_idt c) = 256" "v < 256" "c_out c = []" "c' = idt_init isr_stub_table syscall_entry idt_addr m1 m2 c"
  shows "(if v < 48 then gate_offset (c_idt c' ! v) = isr_stub_table ! v \<and> g_selector (c_idt c' ! v) = 8 \<and> g_ist (c_idt c' ! v) = 0 \<and>
        g_type (c_idt c' ! v) = (if v < 32 then 0x8F else 0x8E) else c_idt c' ! v = c_idt c ! v) \<and>
    uint (idtr_limit c') + 1 = 16 * int (length (c_idt c')) \<and> idtr_base c' = idt_addr \<and>
    chip_after 0x20 0x21 c' h1 = \<lparr>ch_phase = 0, ch_mode = True, ch_base = 32, ch_mask = 0xFC\<rparr> \<and>
    chip_after 0xA0 0xA1 c' h2 = \<lparr>ch_phase = 0, ch_mode = True, ch_base = 40, ch_mask = 0xFF\<rparr> \<and>
    map_of (rev (c_msr c')) 0xC0000082 = Some syscall_entry \<and>
    (\<exists>star. map_of (rev (c_msr c')) 0xC0000081 = Some star \<and> (ucast (drop_bit 32 star) :: u16) = 8 \<and> (ucast (drop_bit 48 star) :: u16) = 0x10)"
proof -
  have l: "length (fold (\<lambda>i g. g[i := f i]) is g) = length (g :: 'a list)" for f "is" g
    by (induction "is" arbitrary: g) simp_all
  have "c_idt c' ! v = (if v < 48 then \<lparr>g_offset_low = ucast (isr_stub_table ! v AND 0xFFFF), g_selector = 0x08, g_ist = 0, g_type = (if v < 32 then 0x8F else 0x8E),
      g_offset_mid = ucast (drop_bit 16 (isr_stub_table ! v) AND 0xFFFF), g_offset_high = ucast (drop_bit 32 (isr_stub_table ! v) AND 0xFFFFFFFF), g_reserved = 0\<rparr>
      else c_idt c ! v)"
    unfolding assms(4) idt_init_rest(1) idt_set_gates(1) by (subst fold_upd_nth) (use assms(1) in auto)
  moreover have "length (c_idt c') = 256" unfolding assms(4) idt_init_rest(1) idt_set_gates(1) l by (rule assms(1))
  moreover have "chip_after 0x20 0x21 c' h1 = \<lparr>ch_phase = 0, ch_mode = True, ch_base = 32, ch_mask = 0xFC\<rparr>"
    "chip_after 0xA0 0xA1 c' h2 = \<lparr>ch_phase = 0, ch_mode = True, ch_base = 40, ch_mask = 0xFF\<rparr>"
    by (simp_all add: chip_after_def assms(3,4) idt_init_out chip_write_def)
  ultimately show ?thesis by (simp add: gate_offset_def split_offset assms(4) idt_init_rest)
qed

theorem idt_init_correct_witness:
  "gate_offset (c_idt (idt_init (map (\<lambda>i. 0x100000 + of_nat (16 * i)) [0..<48]) 0x101000 0x200000 0 0
     \<lparr>c_idt = replicate 256 \<lparr>g_offset_low = 0, g_selector = 0, g_ist = 0, g_type = 0, g_offset_mid = 0, g_offset_high = 0, g_reserved = 0\<rparr>,
      idtr_limit = 0, idtr_base = 0, c_msr = [], c_out = []\<rparr>) ! 14) = 0x1000E0"
  using idt_init_correct[of "\<lparr>c_idt = replicate 256 \<lparr>g_offset_low = 0, g_selector = 0, g_ist = 0, g_type = 0, g_offset_mid = 0, g_offset_high = 0, g_reserved = 0\<rparr>,
      idtr_limit = 0, idtr_base = 0, c_msr = [], c_out = []\<rparr>" 14 _ "map (\<lambda>i. 0x100000 + of_nat (16 * i)) [0..<48]" "0x101000" "0x200000" 0 0, OF _ _ _ refl]
  by (simp del: upt.simps)

section \<open>Timer, dispatch and dumps\<close>

text \<open>The divisor arrives at the timer in full for every frequency from 19 Hz up; 18 Hz and less do not fit 16 bits.\<close>

lemma pit_init_divisor:
  assumes "19 \<le> hz" "hz \<le> 1193182"
  shows "\<exists>lo hi. pit_init hz c = Some (c\<lparr>c_out := c_out c @ [(0x43, 0x36), (0x40, lo), (0x40, hi)]\<rparr>) \<and>
    uint lo + 256 * uint hi = 1193182 div hz \<and> 0 < 1193182 div hz"
proof -
  let ?d = "1193182 div hz"
  have "?d \<le> 1193182 div 19" using assms by (intro zdiv_mono2) simp_all
  then have b: "0 < ?d" "?d < 65536" using assms by (simp_all add: pos_imp_zdiv_pos_iff)
  have m: "(0xFF :: int) = mask 8" by (simp add: mask_eq_exp_minus_1)
  have e: "?d AND 0xFF = ?d mod 256" "drop_bit 8 ?d AND 0xFF = ?d div 256"
    using b unfolding m by (simp_all add: take_bit_eq_mask[symmetric] take_bit_eq_mod drop_bit_eq_div)
  have u: "uint (of_int (?d AND 0xFF) :: u8) = ?d mod 256" "uint (of_int (drop_bit 8 ?d AND 0xFF) :: u8) = ?d div 256"
    unfolding e using b by (simp_all add: uint_word_of_int)
  have "pit_init hz c = Some (c\<lparr>c_out := c_out c @ [(0x43, 0x36), (0x40, of_int (?d AND 0xFF)), (0x40, of_int (drop_bit 8 ?d AND 0xFF))]\<rparr>)"
    using assms by (simp add: pit_init_def outb_def Let_def)
  moreover have "uint (of_int (?d AND 0xFF) :: u8) + 256 * uint (of_int (drop_bit 8 ?d AND 0xFF) :: u8) = ?d" unfolding u by simp
  ultimately show ?thesis using b(1) by blast
qed

lemma printf_plain: "c \<noteq> 37 \<Longrightarrow> serial_vprintf (c # p) args = map_option (Cons c) (serial_vprintf p args)"
  by (simp add: serial_putc_def cong: map_option_cong)

lemma printf_hex: "serial_vprintf (37 # 120 # p) (Va_int n # args) = map_option ((@) (puts_bytes (hex_loop 8 n []))) (serial_vprintf p args)"
  by simp

lemma printf_str: "serial_vprintf (37 # 115 # p) (Va_str t # args) = map_option ((@) (puts_bytes t)) (serial_vprintf p args)"
  by simp

lemma dumps_print: "\<exists>s. print_all (pf_dump f cr2) = Some s" "\<exists>s. print_all (exc_dump f) = Some s"
  by (simp_all add: pf_dump_def exc_dump_def dump_regs_def serial_printf_def printf_plain printf_hex printf_str Let_def del: serial_vprintf.simps(2) puts_bytes.simps hex_loop.simps)

text \<open>
  Over any history of hardware interrupts the timer and the keyboard see exactly theirs, and every interrupt is
  acknowledged, those of the second controller at both.
\<close>

lemma irq_history:
  assumes "\<forall>(v, sc)\<in>set es. 32 \<le> v \<and> v < 48"
  shows "fold (\<lambda>(v, sc) s. snd (irq_handler v sc s)) es s =
    \<lparr>q_ticks = q_ticks s + of_nat (length (filter (\<lambda>(v, sc). v = 32) es)),
     q_kbd = fold (\<lambda>(v, sc) k. snd (keyboard_irq sc k)) (filter (\<lambda>(v, sc). v = 33) es) (q_kbd s),
     q_cpu = (q_cpu s)\<lparr>c_out := c_out (q_cpu s) @ concat (map (\<lambda>(v, sc). if v < 40 then [(PIC1_CMD, PIC_EOI)] else [(PIC2_CMD, PIC_EOI), (PIC1_CMD, PIC_EOI)]) es)\<rparr>\<rparr>"
  using assms
proof (induction es arbitrary: s)
  case (Cons e es)
  obtain v sc where e: "e = (v, sc)" by force
  have v: "32 \<le> v" "v < 48" using Cons.prems e by auto
  have u: "unat (v - 32) = unat v - 32" using v(1) by (simp add: unat_sub)
  have b: "32 \<le> unat v" "unat v < 48" using v by (simp_all add: word_le_nat_alt word_less_nat_alt)
  have "unat (ucast (v - 32) :: u32) = unat v - 32" using u b by (subst unat_ucast_small) simp_all
  then have sn: "sint (ucast (v - 32) :: u32) = int (unat v - 32)" using b by (subst sint_small) simp_all
  have "(v = 32) = (unat v = 32)" "(v = 33) = (unat v = 33)" "(v < 40) = (unat v < 40)" by (simp_all add: word_unat_eq_iff word_less_nat_alt)
  then have q: "(sint (ucast (v - 32) :: u32) = 0) = (v = 32)" "(sint (ucast (v - 32) :: u32) = 1) = (v = 33)" "(8 \<le> sint (ucast (v - 32) :: u32)) = (\<not> v < 40)"
    using b(1) unfolding sn by linarith+
  show ?case using Cons.IH[of "snd (irq_handler v sc s)"] Cons.prems
    by (auto simp: e irq_handler_def Let_def case_prod_beta q pic_send_eoi_def outb_def timer_irq_def)
qed simp

section \<open>The task state segment as the processor reads it\<close>

definition seg_base :: "u8 list \<Rightarrow> u64" where
  "seg_base d = le_dec [d ! 2, d ! 3, d ! 4, d ! 7, d ! 8, d ! 9, d ! 10, d ! 11]"

definition seg_limit :: "u8 list \<Rightarrow> u32" where
  "seg_limit d = le_dec [d ! 0, d ! 1, d ! 6 AND 0xF]"

lemma le_enc_bytes:
  "le_enc 2 w = [ucast w, ucast (drop_bit 8 w)]"
  "le_enc 4 w = [ucast w, ucast (drop_bit 8 w), ucast (drop_bit 16 w), ucast (drop_bit 24 w)]"
  "le_enc 8 w = [ucast w, ucast (drop_bit 8 w), ucast (drop_bit 16 w), ucast (drop_bit 24 w), ucast (drop_bit 32 w), ucast (drop_bit 40 w), ucast (drop_bit 48 w), ucast (drop_bit 56 w)]"
  by (simp_all add: eval_nat_numeral drop_bit_drop_bit)

lemma tss_descriptor_fields: "length (tss_descriptor p) = 16" "seg_base (tss_descriptor p) = p" "seg_limit (tss_descriptor p) = 103" "tss_descriptor p ! 5 = 0x89"
proof -
  show "length (tss_descriptor p) = 16" "seg_limit (tss_descriptor p) = 103" "tss_descriptor p ! 5 = 0x89"
    by (simp_all add: tss_descriptor_def seg_limit_def TSS_SIZE_def le_enc_bytes)
  have m: "(0xFFFF :: u64) = mask 16" "(0xFF :: u64) = mask 8" "(0xFFFFFFFF :: u64) = mask 32" by (simp_all add: mask_eq_exp_minus_1)
  have "[tss_descriptor p ! 2, tss_descriptor p ! 3, tss_descriptor p ! 4, tss_descriptor p ! 7, tss_descriptor p ! 8, tss_descriptor p ! 9, tss_descriptor p ! 10, tss_descriptor p ! 11] = le_enc 8 p"
    unfolding tss_descriptor_def m by (simp add: le_enc_bytes) (intro conjI; rule bit_word_eqI; simp add: bit_simps)
  then show "seg_base (tss_descriptor p) = p" by (simp only: seg_base_def) (simp add: le_dec_enc_id)
qed

lemma store_adjacent: "length xs + length ys \<le> 2 ^ 64 \<Longrightarrow> store_bytes (store_bytes m a xs) (a + of_nat (length xs)) ys = store_bytes m a (xs @ ys)"
proof (rule ext)
  fix x assume l: "length xs + length ys \<le> 2 ^ 64"
  define d where "d = x - a"
  have e: "x - (a + of_nat (length xs)) = d - of_nat (length xs)" "x - a = d" by (simp_all add: d_def)
  show "store_bytes (store_bytes m a xs) (a + of_nat (length xs)) ys x = store_bytes m a (xs @ ys) x"
  proof (cases "ys = []")
    case False
    then have n: "unat (of_nat (length xs) :: u64) = length xs" using l by (intro unat_of_nat_small) (cases ys; simp)
    show ?thesis
    proof (cases "length xs \<le> unat d")
      case True
      then have "unat (d - of_nat (length xs)) = unat d - length xs" using n by (simp add: unat_sub word_le_nat_alt)
      then show ?thesis using True by (auto simp: store_bytes_def e nth_append)
    next
      case False
      then have "unat (d - of_nat (length xs)) = unat d + 2 ^ 64 - length xs" using n l by (simp add: unat_sub_if' word_le_nat_alt)
      then show ?thesis using False l by (auto simp: store_bytes_def e nth_append)
    qed
  qed (simp add: store_bytes_def)
qed

lemma tss_zero_store: "tss_zero t m = store_bytes m t (replicate 104 0)"
proof -
  have z: "le_enc 8 (0 :: u64) = replicate 8 0" by (simp add: le_enc_bytes eval_nat_numeral)
  have "fold (\<lambda>i m. store_bytes m (t + of_nat (8 * i)) (le_enc 8 (0 :: u64))) [0..<n] m = store_bytes m t (replicate (8 * n) 0)" if "n \<le> 13" for n
    using that
  proof (induction n)
    case 0
    show ?case by (simp add: store_bytes_def fun_eq_iff)
  next
    case (Suc n)
    then show ?case using store_adjacent[of "replicate (8 * n) 0" "replicate 8 0" m t] by (simp add: z replicate_add[symmetric] add.commute)
  qed
  from this[of 13] show ?thesis by (simp add: tss_zero_def TSS_SIZE_def del: upt.simps)
qed

lemma page_of_page: "(P + of_nat k) AND NOT 0xFFF = P" if "page_aligned P" "k < 4096"
proof -
  have "4096 dvd unat P" using that(1) by (auto simp: page_aligned_def)
  then obtain q where "unat P = 4096 * q" by blast
  then have "unat ((P + of_nat k) AND NOT 0xFFF) = unat P" using that(2) unat_page_add[OF that] unat_align4096[of "P + of_nat k"] by simp
  then show ?thesis by (simp only: word_unat_eq_iff)
qed

lemma beyond: "length bs \<le> unat (x - (t + of_nat k))" if "104 \<le> unat (x - t)" "k + length bs \<le> 104" for x t :: u64
proof -
  have n: "unat (of_nat k :: u64) = k" using that by (intro unat_of_nat_small) simp
  then have "of_nat k \<le> x - t" using that by (simp add: word_le_nat_alt)
  from unat_sub[OF this] n have "unat (x - (t + of_nat k)) = unat (x - t) - k" by (simp add: diff_diff_eq)
  then show ?thesis using that by linarith
qed

lemma tss_bytes:
  assumes "length p = 4096"
  shows "take 104 (blit (blit (blit (blit p 0 (replicate 104 0)) 102 (le_enc 2 (104 :: u16))) 4 (le_enc 8 (x :: u64))) 44 (le_enc 8 x)) =
    replicate 4 0 @ le_enc 8 x @ replicate 32 0 @ le_enc 8 x @ replicate 50 0 @ le_enc 2 (104 :: u16)"
  using assms by (simp add: blit_def)

text \<open>
  C37: With two pages left \<open>tss_init\<close> returns: the descriptor that the task register selects describes an available
  segment of 104 bytes in a new page, which holds the end of another new page as the stack for interrupts and as the
  second entry of the stack table, and no permission map; no other memory changes. A stack set later is the one the
  processor finds.
\<close>

theorem tss_init_correct:
  assumes inv: "page_inv (vm_pmm m)" and fr: "2 \<le> free_pages m" and gdt: "gdt = ucast (rd32 gdt_raw 2)"
    and live: "\<forall>i<16. (gdt + 0x28 + of_nat i) AND NOT 0xFFF \<in> page_live (vm_pmm m)"
  shows "\<exists>t stack m'. tss_init gdt_raw m = Some (t, m') \<and> t \<noteq> 0 \<and> stack \<noteq> 0 \<and> t \<noteq> stack \<and>
    t \<notin> page_live (vm_pmm m) \<and> stack \<notin> page_live (vm_pmm m) \<and> page_live (vm_pmm m') = {t, stack} \<union> page_live (vm_pmm m) \<and>
    seg_base (load_bytes 16 (vm_mem m') (gdt + 0x28)) = t \<and> seg_limit (load_bytes 16 (vm_mem m') (gdt + 0x28)) = 103 \<and>
    vm_mem m' (gdt + 0x28 + 5) = 0x89 \<and>
    load_bytes 104 (vm_mem m') t = replicate 4 0 @ le_enc 8 (stack + 4096) @ replicate 32 0 @ le_enc 8 (stack + 4096) @ replicate 50 0 @ le_enc 2 (104 :: u16) \<and>
    (\<forall>x. 104 \<le> unat (x - t) \<longrightarrow> 16 \<le> unat (x - (gdt + 0x28)) \<longrightarrow> vm_mem m' x = vm_mem m x) \<and>
    (\<forall>rsp0. load64 (vm_mem (tss_set_kernel_stack t rsp0 m')) (t + 4) = rsp0)"
proof -
  let ?D = "gdt + 0x28"
  obtain t m1 where a1: "vm_page_alloc m = (t, m1)" by force
  define mem1 where "mem1 = store_bytes (tss_zero t (vm_mem m1)) (t + 102) (le_enc 2 (of_nat TSS_SIZE :: u16))"
  obtain st m2 where a2: "vm_page_alloc (m1\<lparr>vm_mem := mem1\<rparr>) = (st, m2)" by force
  have "0 < free_pages m" using fr by simp
  note f1 = vm_page_alloc_fresh[OF inv this a1]
  have "page_inv (vm_pmm (m1\<lparr>vm_mem := mem1\<rparr>))" "0 < free_pages (m1\<lparr>vm_mem := mem1\<rparr>)" using f1 fr by (simp_all add: free_pages_def)
  note f2 = vm_page_alloc_fresh[OF this a2]
  have mem: "vm_mem m1 = vm_mem m" "vm_mem m2 = mem1" using a1 a2 by (auto simp: vm_page_alloc_def case_prod_beta)
  define mem3 where "mem3 = store_bytes (store_bytes mem1 (t + 4) (le_enc 8 (st + 4096))) (t + 44) (le_enc 8 (st + 4096))"
  define m' where "m' = m2\<lparr>vm_mem := store_bytes mem3 ?D (tss_descriptor t)\<rparr>"
  have r: "tss_init gdt_raw m = Some (t, m')"
    using f1(1) f2(1) by (simp add: tss_init_def a1 a2 mem1_def[symmetric] mem(2) mem3_def m'_def gdt Let_def)
  note al = page_of_page[OF f1(2)]
  have sep: "16 \<le> unat (t + of_nat k - ?D)" if "k < 4096" for k
  proof (rule ccontr)
    assume "\<not> 16 \<le> unat (t + of_nat k - ?D)"
    then have lt: "unat (t + of_nat k - ?D) < 16" by simp
    have "?D + of_nat (unat (t + of_nat k - ?D)) = t + of_nat k" by simp
    from live[rule_format, OF lt, unfolded this al[OF that]] f1(3) show False by blast
  qed
  have in_t: "vm_mem m' (t + of_nat k) = mem3 (t + of_nat k)" if "k < 4096" for k
    using sep[OF that] by (simp add: m'_def store_bytes_def tss_descriptor_fields)
  have "page_bytes mem3 t = blit (blit (blit (blit (page_bytes (vm_mem m) t) 0 (replicate 104 0)) 102 (le_enc 2 (104 :: u16))) 4 (le_enc 8 (st + 4096))) 44 (le_enc 8 (st + 4096))"
    using page_store[of 102 "le_enc 2 (104 :: u16)" _ t] page_store[of 4 "le_enc 8 (st + 4096)" _ t] page_store[of 44 "le_enc 8 (st + 4096)" _ t]
    by (simp add: mem3_def mem1_def tss_zero_store mem page_store_start TSS_SIZE_def)
  moreover have "load_bytes 104 (vm_mem m') t = take 104 (page_bytes mem3 t)"
    using load_bytes_cong[of 104 "vm_mem m'" t mem3] in_t load_page_start[of 104 mem3 t] by simp
  ultimately have bytes: "load_bytes 104 (vm_mem m') t = replicate 4 0 @ le_enc 8 (st + 4096) @ replicate 32 0 @ le_enc 8 (st + 4096) @ replicate 50 0 @ le_enc 2 (104 :: u16)"
    by (simp only: tss_bytes[OF length_page_bytes])
  have d: "load_bytes 16 (vm_mem m') ?D = tss_descriptor t"
    using load_store_same[of "tss_descriptor t" mem3 ?D] by (simp add: m'_def tss_descriptor_fields)
  have "load_bytes 16 (vm_mem m') ?D ! 5 = vm_mem m' (?D + of_nat 5)" unfolding load_bytes_def by (subst nth_map) simp_all
  then have d5: "vm_mem m' (?D + 5) = 0x89" unfolding d tss_descriptor_fields(4) by simp
  have out: "vm_mem m' x = vm_mem m x" if x: "104 \<le> unat (x - t)" "16 \<le> unat (x - ?D)" for x
  proof -
    note far = beyond[OF x(1)]
    show ?thesis using x far[of 102 "le_enc 2 (104 :: u16)"] far[of 4 "le_enc 8 (st + 4096)"] far[of 44 "le_enc 8 (st + 4096)"]
      by (simp add: m'_def mem3_def mem1_def tss_zero_store mem store_bytes_def tss_descriptor_fields TSS_SIZE_def)
  qed
  have set: "load64 (vm_mem (tss_set_kernel_stack t rsp0 m')) (t + 4) = rsp0" for rsp0
    using f1(1) load_store_same[of "le_enc 8 rsp0" "vm_mem m'" "t + 4"] by (simp add: tss_set_kernel_stack_def load64_def le_dec_enc_id)
  have "vm_pmm m' = vm_pmm m2" by (simp add: m'_def)
  then show ?thesis
    using r f1 f2 bytes d d5 out set tss_descriptor_fields(2,3)[of t] by (intro exI[of _ t] exI[of _ st] exI[of _ m']) auto
qed

theorem tss_init_correct_witness:
  "\<exists>t m'. tss_init [0, 0, 0, 0x40, 0, 0, 0, 0, 0, 0] vm_big = Some (t, m') \<and> seg_base (load_bytes 16 (vm_mem m') 0x4028) = t"
proof -
  have g: "(0x4000 :: u64) = ucast (rd32 [0, 0, 0, 0x40, 0, 0, 0, 0, 0, 0] 2)" by (simp add: rd32_def numeral_2_eq_2[symmetric])
  have "((0x4000 :: u64) + 0x28 + of_nat i) AND NOT 0xFFF = 0x4000" if "i < 16" for i
  proof -
    have "(0x4000 :: u64) + 0x28 + of_nat i = of_nat (0x4028 + i)" by simp
    then have "unat ((0x4000 :: u64) + 0x28 + of_nat i) = 0x4028 + i" using that by (simp only:) (rule unat_of_nat_small, simp)
    then have "unat (((0x4000 :: u64) + 0x28 + of_nat i) AND NOT 0xFFF) = (0x4028 + i) div 4096 * 4096" by (simp only: unat_align4096)
    also have "\<dots> = unat (0x4000 :: u64)" using that by simp
    finally show ?thesis by (simp only: word_unat_eq_iff)
  qed
  then have "\<forall>i<16. ((0x4000 :: u64) + 0x28 + of_nat i) AND NOT 0xFFF \<in> page_live (vm_pmm vm_big)" using vm_big_live(2) by simp
  from tss_init_correct[OF vm_big_live(1) _ g this] vm_big_live(4) show ?thesis by auto
qed

end
