(* ===== verification/SwiftfsData.thy ===== *)
theory SwiftfsData
  imports SwiftfsFile
begin

text \<open>
  The contents of files as the filesystem presents them: what \<open>swiftfs2_read\<close> returns, what
  \<open>swiftfs2_write\<close> changes and that a read gives back what a write stored.
\<close>

section \<open>File contents\<close>

definition mapped :: "(int \<Rightarrow> 'd \<Rightarrow> u32 \<Rightarrow> u8 list) \<Rightarrow> 'd swiftfs \<Rightarrow> swiftfs2_inode \<Rightarrow> nat \<Rightarrow> bool" where
  "mapped disk s i k \<longleftrightarrow> bmap_view disk s i (k div 4096) \<noteq> 0"

definition file_byte :: "(int \<Rightarrow> 'd \<Rightarrow> u32 \<Rightarrow> u8 list) \<Rightarrow> 'd swiftfs \<Rightarrow> swiftfs2_inode \<Rightarrow> nat \<Rightarrow> u8" where
  "file_byte disk s i k = cview disk s (bmap_view disk s i (k div 4096)) ! (k mod 4096)"

definition file_bytes :: "(int \<Rightarrow> 'd \<Rightarrow> u32 \<Rightarrow> u8 list) \<Rightarrow> 'd swiftfs \<Rightarrow> swiftfs2_inode \<Rightarrow> nat \<Rightarrow> nat \<Rightarrow> u8 list" where
  "file_bytes disk s i a n = map (file_byte disk s i) [a..<a + n]"

lemma length_file_bytes [simp]: "length (file_bytes disk s i a n) = n"
  by (simp add: file_bytes_def)

lemma file_bytes_append: "file_bytes disk s i a n @ file_bytes disk s i (a + n) m = file_bytes disk s i a (n + m)"
  using upt_add_eq_append[of a "a + n" m] by (simp add: file_bytes_def add.assoc)

lemma view_cong: "cview disk s' = cview disk s \<Longrightarrow> bmap_view disk s' i l = bmap_view disk s i l"
  by (simp add: bmap_view_def)

lemma file_bytes_cong: "cview disk s' = cview disk s \<Longrightarrow> file_bytes disk s' i a n = file_bytes disk s i a n"
  by (simp add: file_bytes_def file_byte_def bmap_view_def)

lemma file_bytes_chunk:
  assumes "length (cview disk s (bmap_view disk s i l)) = 4096" "n + r \<le> 4096" "a div 4096 = l" "a mod 4096 = r"
  shows "take n (drop r (cview disk s (bmap_view disk s i l))) = file_bytes disk s i a n"
proof (rule nth_equalityI)
  show "length (take n (drop r (cview disk s (bmap_view disk s i l)))) = length (file_bytes disk s i a n)"
    using assms(1,2) by simp
  fix j assume "j < length (take n (drop r (cview disk s (bmap_view disk s i l))))"
  then have j: "j < n" by simp
  then have "a mod 4096 + j < 4096" using assms(2,4) by linarith
  from div_mod_step[OF this] have "(a + j) div 4096 = l" "(a + j) mod 4096 = r + j" by (simp_all only: assms(3,4))
  with j assms(1,2) show "take n (drop r (cview disk s (bmap_view disk s i l))) ! j = file_bytes disk s i a n ! j"
    by (simp add: file_bytes_def file_byte_def)
qed

text \<open>An inode whose pointers are in use, pairwise distinct and apart from its indirect block.\<close>

definition inode_ok :: "(int \<Rightarrow> 'd \<Rightarrow> u32 \<Rightarrow> u8 list) \<Rightarrow> 'd swiftfs \<Rightarrow> swiftfs2_inode \<Rightarrow> bool" where
  "inode_ok disk s i \<longleftrightarrow> inode_wf i \<and> (in_indirect i \<noteq> 0 \<longrightarrow> block_used disk s (in_indirect i)) \<and>
     (\<forall>l. bmap_view disk s i l \<noteq> 0 \<longrightarrow> block_used disk s (bmap_view disk s i l) \<and> bmap_view disk s i l \<noteq> in_indirect i \<and>
        (\<forall>k. k \<noteq> l \<longrightarrow> bmap_view disk s i k \<noteq> bmap_view disk s i l))"

section \<open>Reading\<close>

lemma unat_pos_add: "unat pos + unat d < 2 ^ 32 \<Longrightarrow>
   unat ((pos + d) div 4096 :: u32) = (unat pos + unat d) div 4096 \<and> unat ((pos + d) mod 4096) = (unat pos + unat d) mod 4096"
  by (simp add: unat_div unat_mod unat_add_small)

context block_device
begin

lemma read_loop_ok:
  assumes "fs_inv disk works s" "inode_wf i" "ndone \<le> to_read" "unat pos + unat to_read < 2 ^ 32"
    and "\<forall>k. unat pos + unat ndone \<le> k \<and> k < unat pos + unat to_read \<longrightarrow> mapped disk s i k"
  shows "\<exists>s'. read_loop D i pos to_read ndone out s =
      (to_read, out @ file_bytes disk s i (unat pos + unat ndone) (unat to_read - unat ndone), s') \<and>
    fs_inv disk works s' \<and> geo_same s s' \<and> cview disk s' = cview disk s \<and> block_used disk s' = block_used disk s"
  using assms
proof (induction "unat to_read - unat ndone" arbitrary: ndone out s rule: less_induct)
  case less
  show ?case
  proof (cases "ndone < to_read")
    case False
    then have "ndone = to_read" using less.prems(3) by simp
    with less.prems show ?thesis by (subst read_loop.simps) (simp add: file_bytes_def)
  next
    case True
    let ?l = "(pos + ndone) div 4096" and ?a = "unat pos + unat ndone"
    define chunk where "chunk = (if 4096 - (pos + ndone) mod 4096 > to_read - ndone then to_read - ndone else 4096 - (pos + ndone) mod 4096)"
    have lt: "unat ndone < unat to_read" using True by (simp add: word_less_nat_alt)
    with less.prems(4) have a32: "?a < 2 ^ 32" by simp
    note ua = unat_pos_add[OF a32]
    note cp = chunk_progress[OF True, of "pos + ndone", folded chunk_def]
    have uc: "unat chunk = min (4096 - ?a mod 4096) (unat to_read - unat ndone)"
      using cp(4) a32 by (simp add: unat_add_small)
    have ule: "unat chunk \<le> unat to_read - unat ndone" by (simp add: uc)
    have ud: "unat (ndone + chunk) = unat ndone + unat chunk"
      using ule lt less.prems(4) by (intro unat_add_small) simp
    obtain s1 where s1: "bmap_read D i ?l False s = (bmap_view disk s i (?a div 4096), i, s1)" "fs_inv disk works s1"
      "geo_same s s1" "cview disk s1 = cview disk s" "block_used disk s1 = block_used disk s"
      using bmap_read_ok[OF less.prems(1,2), of ?l] ua by metis
    let ?p = "bmap_view disk s i (?a div 4096)"
    have p: "?p \<noteq> 0" using less.prems(5) lt by (simp add: mapped_def)
    obtain c s2 where s2: "cache_get D ?p 0 s1 = (c, s2)" "fs_inv disk works s2" "cache_data c s2 = cview disk s ?p"
      "cview disk s2 = cview disk s" "same_core s1 s2" "block_used disk s2 = block_used disk s"
      using fs_cache_get_ok[OF s1(2), of ?p] s1(4,5) by metis
    have len: "length (cview disk s ?p) = 4096" using less.prems(1) cview_length by (simp add: fs_inv_def)
    have bytes: "take (unat chunk) (drop (unat ((pos + ndone) mod 4096)) (cache_data c s2)) = file_bytes disk s i ?a (unat chunk)"
    proof -
      have "unat chunk + ?a mod 4096 \<le> 4096" using uc by simp
      from file_bytes_chunk[OF len this refl refl] ua s2(3) show ?thesis by (simp only:)
    qed
    have step: "read_loop D i pos to_read ndone out s =
        read_loop D i pos to_read (ndone + chunk) (out @ file_bytes disk s i ?a (unat chunk)) s2"
      using True s1(1) p s2(1) bytes by (subst read_loop.simps) (simp add: chunk_def Let_def)
    have "0 < unat chunk" using cp(2) by (simp add: unat_gt_0)
    then have dec: "unat to_read - unat (ndone + chunk) < unat to_read - unat ndone" using ud lt by simp
    have le: "ndone + chunk \<le> to_read" using ud ule lt by (simp add: word_le_nat_alt)
    have mp: "\<forall>k. unat pos + unat (ndone + chunk) \<le> k \<and> k < unat pos + unat to_read \<longrightarrow> mapped disk s2 i k"
      using less.prems(5) ud view_cong[OF s2(4)] by (auto simp: mapped_def)
    have app: "file_bytes disk s i ?a (unat chunk) @ file_bytes disk s i (unat pos + unat (ndone + chunk)) (unat to_read - unat (ndone + chunk))
        = file_bytes disk s i ?a (unat to_read - unat ndone)"
      using file_bytes_append[of disk s i ?a "unat chunk" "unat to_read - unat (ndone + chunk)"] ud ule lt by (simp add: add.assoc)
    from less.hyps[OF dec s2(2) less.prems(2) le less.prems(4) mp, of "out @ file_bytes disk s i ?a (unat chunk)"]
    obtain s' where "read_loop D i pos to_read (ndone + chunk) (out @ file_bytes disk s i ?a (unat chunk)) s2 =
        (to_read, out @ file_bytes disk s i ?a (unat to_read - unat ndone), s')"
      "fs_inv disk works s'" "geo_same s2 s'" "cview disk s' = cview disk s2" "block_used disk s' = block_used disk s2"
      using app file_bytes_cong[OF s2(4)] by auto
    then show ?thesis using step s2(4,6) s1(3) core_geo[OF s2(5)] by (auto intro: geo_same_trans)
  qed
qed
section \<open>Writing\<close>

text \<open>
  What a write of the bytes \<open>xs\<close> at offset \<open>a\<close> does: these bytes change, all other mapped bytes of the
  file stay, and so does every block in use that does not belong to the file.
\<close>

definition wrote :: "'d swiftfs \<Rightarrow> swiftfs2_inode \<Rightarrow> nat \<Rightarrow> u8 list \<Rightarrow> swiftfs2_inode \<Rightarrow> 'd swiftfs \<Rightarrow> bool" where
  "wrote s i a xs i' s' \<longleftrightarrow> fs_inv disk works s' \<and> geo_same s s' \<and> inode_ok disk s' i' \<and>
     i'\<lparr>in_direct := [], in_indirect := 0\<rparr> = i\<lparr>in_direct := [], in_indirect := 0\<rparr> \<and>
     (\<forall>k. a \<le> k \<and> k < a + length xs \<longrightarrow> mapped disk s' i' k \<and> file_byte disk s' i' k = xs ! (k - a)) \<and>
     (\<forall>k. \<not> (a \<le> k \<and> k < a + length xs) \<and> mapped disk s i k \<longrightarrow> mapped disk s' i' k \<and> file_byte disk s' i' k = file_byte disk s i k) \<and>
     (\<forall>b. block_used disk s b \<and> in_indirect i \<noteq> b \<and> (\<forall>l. bmap_view disk s i l \<noteq> b) \<longrightarrow>
        cview disk s' b = cview disk s b \<and> in_indirect i' \<noteq> b \<and> (\<forall>l. bmap_view disk s' i' l \<noteq> b)) \<and>
     (\<forall>b. block_used disk s b \<longrightarrow> block_used disk s' b)"

lemma wrote_append:
  assumes 1: "wrote s i a xs i1 s1" and 2: "wrote s1 i1 (a + length xs) ys i2 s2"
  shows "wrote s i a (xs @ ys) i2 s2"
proof -
  have r: "mapped disk s2 i2 k \<and> file_byte disk s2 i2 k = (xs @ ys) ! (k - a)" if "a \<le> k" "k < a + length (xs @ ys)" for k
  proof (cases "k < a + length xs")
    case True
    then have "mapped disk s1 i1 k \<and> file_byte disk s1 i1 k = xs ! (k - a)" using 1 that(1) by (simp add: wrote_def)
    moreover from this True have "mapped disk s2 i2 k \<and> file_byte disk s2 i2 k = file_byte disk s1 i1 k"
      using 2 by (simp add: wrote_def)
    ultimately show ?thesis using True that(1) by (simp add: nth_append less_diff_conv2)
  next
    case False
    then have "mapped disk s2 i2 k \<and> file_byte disk s2 i2 k = ys ! (k - (a + length xs))" using 2 that(2) by (simp add: wrote_def)
    then show ?thesis using False that(1) by (simp add: nth_append less_diff_conv2)
  qed
  have f: "mapped disk s2 i2 k \<and> file_byte disk s2 i2 k = file_byte disk s i k"
    if "\<not> (a \<le> k \<and> k < a + length (xs @ ys))" "mapped disk s i k" for k
  proof -
    have "mapped disk s1 i1 k \<and> file_byte disk s1 i1 k = file_byte disk s i k" using 1 that by (auto simp: wrote_def)
    moreover from this that(1) have "mapped disk s2 i2 k \<and> file_byte disk s2 i2 k = file_byte disk s1 i1 k"
      using 2 by (auto simp: wrote_def)
    ultimately show ?thesis by simp
  qed
  have fr: "cview disk s2 b = cview disk s b \<and> in_indirect i2 \<noteq> b \<and> (\<forall>l. bmap_view disk s2 i2 l \<noteq> b)"
    if "block_used disk s b" "in_indirect i \<noteq> b" "\<forall>l. bmap_view disk s i l \<noteq> b" for b
  proof -
    have "cview disk s1 b = cview disk s b \<and> in_indirect i1 \<noteq> b \<and> (\<forall>l. bmap_view disk s1 i1 l \<noteq> b) \<and> block_used disk s1 b"
      using 1 that by (simp add: wrote_def)
    then show ?thesis using 2 by (simp add: wrote_def)
  qed
  have "geo_same s s2" "fs_inv disk works s2" "inode_ok disk s2 i2" "\<forall>b. block_used disk s b \<longrightarrow> block_used disk s2 b"
    "i2\<lparr>in_direct := [], in_indirect := 0\<rparr> = i\<lparr>in_direct := [], in_indirect := 0\<rparr>"
    using 1 2 by (auto simp: wrote_def intro: geo_same_trans)
  with r f fr show ?thesis unfolding wrote_def by blast
qed

lemma grows_wrote:
  assumes ok: "inode_ok disk s i" and g: "bmap_grows s i l p i' s'"
  shows "wrote s i a [] i' s'"
proof -
  have V: "bmap_view disk s' i' l = p" "\<And>k. k \<noteq> l \<Longrightarrow> bmap_view disk s' i' k = bmap_view disk s i k"
    and C: "\<And>b. b \<noteq> in_indirect i' \<Longrightarrow> cview disk s' b = cview disk s b"
    and P: "bmap_view disk s i l \<noteq> 0 \<Longrightarrow> p = bmap_view disk s i l"
    and N: "p \<noteq> 0 \<Longrightarrow> bmap_view disk s i l = 0 \<Longrightarrow> \<not> block_used disk s p \<and> block_used disk s' p \<and> p \<noteq> in_indirect i'"
    and J: "in_indirect i' = in_indirect i \<or> in_indirect i = 0 \<and> \<not> block_used disk s (in_indirect i') \<and> block_used disk s' (in_indirect i')"
    and U: "\<And>b. block_used disk s b \<Longrightarrow> block_used disk s' b" and W: "inode_wf i'"
    and R: "fs_inv disk works s'" "geo_same s s'" "i'\<lparr>in_direct := [], in_indirect := 0\<rparr> = i\<lparr>in_direct := [], in_indirect := 0\<rparr>"
    using g unfolding bmap_grows_def by blast+
  have OK: "bmap_view disk s i k \<noteq> 0 \<Longrightarrow> block_used disk s (bmap_view disk s i k) \<and> bmap_view disk s i k \<noteq> in_indirect i \<and>
      (\<forall>j. j \<noteq> k \<longrightarrow> bmap_view disk s i j \<noteq> bmap_view disk s i k)" for k
    using ok by (auto simp: inode_ok_def)
  have Oi: "in_indirect i \<noteq> 0 \<Longrightarrow> block_used disk s (in_indirect i)" using ok by (auto simp: inode_ok_def)
  have old: "bmap_view disk s i k \<noteq> in_indirect i'" if "bmap_view disk s i k \<noteq> 0" for k
    using OK[OF that] J by auto
  have vv: "bmap_view disk s' i' k = (if k = l \<and> bmap_view disk s i l = 0 then p else bmap_view disk s i k)" for k
    using V P by (cases "k = l") auto
  have "inode_ok disk s' i'"
    unfolding inode_ok_def
  proof (intro conjI allI impI W, goal_cases)
    case 1 then show ?case using J Oi U by auto
  next
    case (2 k) then show ?case using OK[of k] U N by (auto simp: vv split: if_splits)
  next
    case (3 k) then show ?case using old[of k] N by (auto simp: vv split: if_splits)
  next
    case (4 k j) then show ?case using OK[of k] OK[of j] N by (auto simp: vv split: if_splits)
  qed
  moreover have "mapped disk s' i' k \<and> file_byte disk s' i' k = file_byte disk s i k" if "mapped disk s i k" for k
    using that old[of "k div 4096"] C by (auto simp: mapped_def file_byte_def vv)
  moreover have "cview disk s' b = cview disk s b \<and> in_indirect i' \<noteq> b \<and> (\<forall>l. bmap_view disk s' i' l \<noteq> b)"
    if "block_used disk s b" "in_indirect i \<noteq> b" "\<forall>l. bmap_view disk s i l \<noteq> b" for b
  proof -
    have "bmap_view disk s i 1036 = 0" by (simp add: bmap_view_def)
    then have "b \<noteq> 0" using that(3) by metis
    with that C[of b] J N show ?thesis by (auto simp: vv split: if_splits)
  qed
  ultimately show ?thesis unfolding wrote_def using R U by auto
qed
lemma store_wrote:
  assumes inv: "fs_inv disk works s" and ok: "inode_ok disk s i" and p: "p = bmap_view disk s i (a div 4096)" "p \<noteq> 0"
    and c: "c < SWIFTFS2_CACHE_SIZE" "ce_valid (g_cache s ! c)" "ce_block (g_cache s ! c) = p" "cache_data c s = cview disk s p"
    and xs: "a mod 4096 + length xs \<le> 4096"
  shows "wrote s i a xs i (cache_mark_dirty p 0 (cache_store c (blit (cache_data c s) (a mod 4096) xs) s))"
proof -
  let ?bs = "blit (cview disk s p) (a mod 4096) xs"
  have len: "length (cview disk s p) = 4096" using inv cview_length by (simp add: fs_inv_def)
  then have l: "length ?bs = 4096" using xs by simp
  define s' where "s' = cache_mark_dirty p 0 (cache_store c ?bs s)"
  note w = fs_store_ok[OF inv c(1-3) l, folded s'_def]
  have OK: "bmap_view disk s i k \<noteq> 0 \<Longrightarrow> block_used disk s (bmap_view disk s i k) \<and> bmap_view disk s i k \<noteq> in_indirect i \<and>
      (\<forall>j. j \<noteq> k \<longrightarrow> bmap_view disk s i j \<noteq> bmap_view disk s i k)" for k
    using ok by (auto simp: inode_ok_def)
  have pi: "p \<noteq> in_indirect i" using OK[of "a div 4096"] p by auto
  then have vv: "bmap_view disk s' i k = bmap_view disk s i k" for k by (auto simp: bmap_view_def w(2))
  have ok': "inode_ok disk s' i" using ok by (simp add: inode_ok_def vv w(4))
  have fb: "file_byte disk s' i k = (if a \<le> k \<and> k < a + length xs then xs ! (k - a) else file_byte disk s i k)" for k
  proof (cases "k div 4096 = a div 4096")
    case True
    have e: "k = k div 4096 * 4096 + k mod 4096" "a = a div 4096 * 4096 + a mod 4096" "k mod 4096 < 4096" by simp_all
    have "a \<le> k \<longleftrightarrow> a mod 4096 \<le> k mod 4096" "k < a + length xs \<longleftrightarrow> k mod 4096 < a mod 4096 + length xs"
      "k - a = k mod 4096 - a mod 4096" using e(1,2) True by linarith+
    with True p(1) xs len e(3) show ?thesis by (simp add: file_byte_def vv w(2) nth_blit)
  next
    case False
    have "\<not> (a \<le> k \<and> k < a + length xs)"
    proof
      assume k: "a \<le> k \<and> k < a + length xs"
      then have "a mod 4096 + (k - a) < 4096" using xs by linarith
      from div_mod_step[OF this] k have "k div 4096 = a div 4096" by simp
      with False show "False" ..
    qed
    moreover have "bmap_view disk s i (k div 4096) \<noteq> p" using OK[of "a div 4096"] p False by auto
    ultimately show ?thesis by (auto simp: file_byte_def vv w(2))
  qed
  have "mapped disk s' i k" if "a \<le> k \<and> k < a + length xs" for k
  proof -
    have "a mod 4096 + (k - a) < 4096" using xs that by linarith
    from div_mod_step[OF this] that have "k div 4096 = a div 4096" by simp
    then show ?thesis using p by (simp add: mapped_def vv)
  qed
  moreover have "cview disk s' b = cview disk s b" if "\<forall>l. bmap_view disk s i l \<noteq> b" for b
    using that p(1) by (auto simp: w(2))
  ultimately have "wrote s i a xs i s'"
    unfolding wrote_def using w(1) core_geo[OF w(3)] ok' fb w(4) vv by (simp add: mapped_def)
  then show ?thesis using c(4) by (simp add: s'_def)
qed

lemma wrote_nil: "fs_inv disk works s \<Longrightarrow> inode_ok disk s i \<Longrightarrow> wrote s i a [] i s"
  by (auto simp: wrote_def)

lemma core_wrote:
  assumes "fs_inv disk works s'" "same_core s s'" "cview disk s' = cview disk s" "block_used disk s' = block_used disk s" "inode_ok disk s i"
  shows "wrote s i a [] i s'"
  using assms(1,5) core_geo[OF assms(2)]
  by (auto simp: wrote_def inode_ok_def mapped_def file_byte_def assms(4) view_cong[OF assms(3)] assms(3))

lemma write_step:
  assumes inv: "fs_inv disk works s" and ok: "inode_ok disk s i"
    and l: "unat l = a div 4096" and xs: "a mod 4096 + length xs \<le> 4096"
  obtains p i' s1 where "bmap_read D i l True s = (p, i', s1)" "mapped disk s i a \<Longrightarrow> p \<noteq> 0"
    "p = 0 \<Longrightarrow> wrote s i a [] i' s1"
    "p \<noteq> 0 \<Longrightarrow> \<exists>c s2. cache_get D p 0 s1 = (c, s2) \<and>
       wrote s i a xs i' (cache_mark_dirty p 0 (cache_store c (blit (cache_data c s2) (a mod 4096) xs) s2))"
proof -
  have wf: "inode_wf i" "in_indirect i \<noteq> 0 \<Longrightarrow> block_used disk s (in_indirect i)" using ok by (auto simp: inode_ok_def)
  obtain p i' s1 where r: "bmap_read D i l True s = (p, i', s1)" "bmap_grows s i (unat l) p i' s1"
    using bmap_create_ok[OF inv wf] by blast
  have w1: "wrote s i a [] i' s1" using grows_wrote[OF ok r(2)] .
  have s1: "fs_inv disk works s1" "inode_ok disk s1 i'" "bmap_view disk s1 i' (a div 4096) = p"
    "bmap_view disk s i (a div 4096) \<noteq> 0 \<Longrightarrow> p = bmap_view disk s i (a div 4096)"
    using w1 r(2) l by (auto simp: wrote_def bmap_grows_def)
  have "\<exists>c s2. cache_get D p 0 s1 = (c, s2) \<and>
       wrote s i a xs i' (cache_mark_dirty p 0 (cache_store c (blit (cache_data c s2) (a mod 4096) xs) s2))" if "p \<noteq> 0"
  proof -
    obtain c s2 where s2: "cache_get D p 0 s1 = (c, s2)" "c < SWIFTFS2_CACHE_SIZE" "fs_inv disk works s2" "ce_valid (g_cache s2 ! c)"
      "ce_block (g_cache s2 ! c) = p" "cache_data c s2 = cview disk s1 p" "cview disk s2 = cview disk s1" "same_core s1 s2"
      "block_used disk s2 = block_used disk s1"
      using fs_cache_get_ok[OF s1(1), of p] by metis
    have w2: "wrote s1 i' a [] i' s2" by (rule core_wrote[OF s2(3,8,7,9) s1(2)])
    have pv: "p = bmap_view disk s2 i' (a div 4096)" using s1(3) view_cong[OF s2(7)] by simp
    have ok2: "inode_ok disk s2 i'" using w2 by (simp add: wrote_def)
    have cd: "cache_data c s2 = cview disk s2 p" using s2(6,7) by simp
    note w3 = store_wrote[OF s2(3) ok2 pv that s2(2,4,5) cd xs]
    have "wrote s i a [] i' s2" using wrote_append[OF w1, of "[]" i' s2] w2 by simp
    from wrote_append[OF this, of xs] w3 have "wrote s i a xs i' (cache_mark_dirty p 0 (cache_store c (blit (cache_data c s2) (a mod 4096) xs) s2))"
      by simp
    with s2(1) show ?thesis by blast
  qed
  with r(1) w1 s1(4) show thesis by (intro that[of p i' s1]) (auto simp: mapped_def)
qed
lemma write_loop_ok:
  assumes "fs_inv disk works s" "inode_ok disk s i" "ndone \<le> sz" "unat pos + unat sz < 2 ^ 32" "unat sz \<le> length buf"
  shows "\<exists>d i' s'. write_loop D i pos buf sz ndone s = (d, i', s') \<and> ndone \<le> d \<and> d \<le> sz \<and>
    wrote s i (unat pos + unat ndone) (take (unat d - unat ndone) (drop (unat ndone) buf)) i' s' \<and>
    ((\<forall>k. unat pos + unat ndone \<le> k \<and> k < unat pos + unat sz \<longrightarrow> mapped disk s i k) \<longrightarrow> d = sz)"
  using assms
proof (induction "unat sz - unat ndone" arbitrary: ndone s i rule: less_induct)
  case less
  show ?case
  proof (cases "ndone < sz")
    case False
    then have "ndone = sz" using less.prems(3) by simp
    then show ?thesis using wrote_nil[OF less.prems(1,2)] by (subst write_loop.simps) simp
  next
    case True
    let ?l = "(pos + ndone) div 4096" and ?a = "unat pos + unat ndone"
    define chunk where "chunk = (if 4096 - (pos + ndone) mod 4096 > sz - ndone then sz - ndone else 4096 - (pos + ndone) mod 4096)"
    have lt: "unat ndone < unat sz" using True by (simp add: word_less_nat_alt)
    with less.prems(4) have a32: "?a < 2 ^ 32" by simp
    note ua = unat_pos_add[OF a32]
    note cp = chunk_progress[OF True, of "pos + ndone", folded chunk_def]
    have uc: "unat chunk = min (4096 - ?a mod 4096) (unat sz - unat ndone)"
      using cp(4) a32 by (simp add: unat_add_small)
    have ule: "unat chunk \<le> unat sz - unat ndone" by (simp add: uc)
    have ud: "unat (ndone + chunk) = unat ndone + unat chunk"
      using ule lt less.prems(4) by (intro unat_add_small) simp
    let ?xs = "take (unat chunk) (drop (unat ndone) buf)"
    have lx: "length ?xs = unat chunk" using ule less.prems(5) by simp
    have "unat chunk \<le> 4096 - ?a mod 4096" by (simp add: uc)
    then have fit: "?a mod 4096 + length ?xs \<le> 4096" unfolding lx using mod_less_divisor[of 4096 ?a] by linarith
    have ul: "unat ?l = ?a div 4096" using ua by simp
    obtain p i1 s1 where s1: "bmap_read D i ?l True s = (p, i1, s1)" "mapped disk s i ?a \<Longrightarrow> p \<noteq> 0"
      "p = 0 \<Longrightarrow> wrote s i ?a [] i1 s1"
      "p \<noteq> 0 \<Longrightarrow> \<exists>c s2. cache_get D p 0 s1 = (c, s2) \<and>
         wrote s i ?a ?xs i1 (cache_mark_dirty p 0 (cache_store c (blit (cache_data c s2) (?a mod 4096) ?xs) s2))"
      using write_step[OF less.prems(1,2) ul fit] by blast
    show ?thesis
    proof (cases "p = 0")
      case z: True
      have "write_loop D i pos buf sz ndone s = (ndone, i1, s1)"
        using True s1(1) z by (subst write_loop.simps) simp
      then show ?thesis using s1(2,3) z lt less.prems(3) by auto
    next
      case False
      from s1(4)[OF this] obtain c s2 where s2: "cache_get D p 0 s1 = (c, s2)"
        "wrote s i ?a ?xs i1 (cache_mark_dirty p 0 (cache_store c (blit (cache_data c s2) (?a mod 4096) ?xs) s2))" by blast
      define s3 where "s3 = cache_mark_dirty p 0 (cache_store c (blit (cache_data c s2) (?a mod 4096) ?xs) s2)"
      have step: "write_loop D i pos buf sz ndone s = write_loop D i1 pos buf sz (ndone + chunk) s3"
        using True s1(1) False s2(1) ua by (subst write_loop.simps) (simp add: chunk_def s3_def Let_def)
      have w: "wrote s i ?a ?xs i1 s3" using s2(2) by (simp add: s3_def)
      have "0 < unat chunk" using cp(2) by (simp add: unat_gt_0)
      then have dec: "unat sz - unat (ndone + chunk) < unat sz - unat ndone" using ud lt by simp
      have le: "ndone + chunk \<le> sz" using ud ule lt by (simp add: word_le_nat_alt)
      have inv3: "fs_inv disk works s3" "inode_ok disk s3 i1" using w by (auto simp: wrote_def)
      from less.hyps[OF dec inv3 le less.prems(4,5)] obtain d i' s' where
        r: "write_loop D i1 pos buf sz (ndone + chunk) s3 = (d, i', s')" "ndone + chunk \<le> d" "d \<le> sz"
          "wrote s3 i1 (unat pos + unat (ndone + chunk)) (take (unat d - unat (ndone + chunk)) (drop (unat (ndone + chunk)) buf)) i' s'"
          "(\<forall>k. unat pos + unat (ndone + chunk) \<le> k \<and> k < unat pos + unat sz \<longrightarrow> mapped disk s3 i1 k) \<longrightarrow> d = sz" by blast
      let ?ys = "take (unat d - unat (ndone + chunk)) (drop (unat (ndone + chunk)) buf)"
      have dle: "unat (ndone + chunk) \<le> unat d" using r(2) by (simp add: word_le_nat_alt)
      have "?xs @ ?ys = take (unat d - unat ndone) (drop (unat ndone) buf)"
      proof -
        have "unat d - unat ndone = unat chunk + (unat d - unat (ndone + chunk))" using dle ud by simp
        moreover have "drop (unat (ndone + chunk)) buf = drop (unat chunk) (drop (unat ndone) buf)" using ud by (simp add: add.commute)
        ultimately show ?thesis by (simp only: take_add)
      qed
      moreover have "wrote s i ?a (?xs @ ?ys) i' s'"
        using wrote_append[OF w, of ?ys i' s'] r(4) lx ud by (simp add: add.assoc)
      ultimately have "wrote s i ?a (take (unat d - unat ndone) (drop (unat ndone) buf)) i' s'" by simp
      moreover have "d = sz" if "\<forall>k. ?a \<le> k \<and> k < unat pos + unat sz \<longrightarrow> mapped disk s i k"
      proof -
        have "mapped disk s3 i1 k" if "unat pos + unat (ndone + chunk) \<le> k \<and> k < unat pos + unat sz" for k
        proof -
          have "mapped disk s i k" using \<open>\<forall>k. _\<close> that ud by simp
          moreover have "\<not> (?a \<le> k \<and> k < ?a + length ?xs)" using that ud lx by simp
          ultimately show ?thesis using w by (simp add: wrote_def)
        qed
        then show ?thesis using r(5) by blast
      qed
      moreover have "ndone \<le> d" using dle ud by (simp add: word_le_nat_alt)
      ultimately show ?thesis using step r(1,3) by auto
    qed
  qed
qed
end

section \<open>Open files\<close>

text \<open>
  Descriptor \<open>fd\<close> is open on an inode that reads as \<open>i\<close>, whose own blocks are in order and apart from
  the block of the inode table that holds it.
\<close>

definition fs_file :: "(int \<Rightarrow> 'd \<Rightarrow> u32 \<Rightarrow> u8 list) \<Rightarrow> (int \<Rightarrow> 'd \<Rightarrow> bool) \<Rightarrow> 'd swiftfs \<Rightarrow> int \<Rightarrow> swiftfs2_inode \<Rightarrow> bool" where
  "fs_file disk works s fd i \<longleftrightarrow> fs_inv disk works s \<and> length (s_fds s) = SWIFTFS2_MAX_FD \<and> \<not> sfd_bad fd s \<and>
     inode_at disk s (fd_inode (s_fds s ! nat fd)) = i \<and> inode_ok disk s i \<and>
     (let tb = fst (inode_block_and_offset (fd_inode (s_fds s ! nat fd)) s) in
      block_used disk s tb \<and> in_indirect i \<noteq> tb \<and> (\<forall>l. bmap_view disk s i l \<noteq> tb))"

lemma view_strip: "in_direct i' = in_direct i \<Longrightarrow> in_indirect i' = in_indirect i \<Longrightarrow> bmap_view disk s i' = bmap_view disk s i"
  by (simp add: bmap_view_def fun_eq_iff)

lemma sfd_set_simps [simp]:
  "g_port (sfd_set fd f s) = g_port s" "g_cache (sfd_set fd f s) = g_cache s" "s_dev (sfd_set fd f s) = s_dev s"
  "g_nr_groups (sfd_set fd f s) = g_nr_groups s" "g_gd (sfd_set fd f s) = g_gd s" "g_bitmaps (sfd_set fd f s) = g_bitmaps s"
  "g_curr_group (sfd_set fd f s) = g_curr_group s" "g_cache_next (sfd_set fd f s) = g_cache_next s"
  "s_fds (sfd_set fd f s) = (s_fds s)[nat fd := f]" "g_mounted (sfd_set fd f s) = g_mounted s"
  by (simp_all add: sfd_set_def)

lemma sfd_set_views [simp]:
  "cview disk (sfd_set fd f s) = cview disk s" "group_bits disk (sfd_set fd f s) = group_bits disk s"
  by (rule cview_cong group_bits_cong; simp)+

lemma sfd_set_used [simp]: "block_used disk (sfd_set fd f s) = block_used disk s"
  by (simp add: block_used_def fun_eq_iff)

lemma sfd_set_inv [simp]: "fs_inv disk works (sfd_set fd f s) = fs_inv disk works s"
  by (simp add: fs_inv_def cache_inv_def alloc_inv_def all_loaded_def)

lemma sfd_set_inode [simp]:
  "inode_block_and_offset ino (sfd_set fd f s) = inode_block_and_offset ino s"
  "inode_at disk (sfd_set fd f s) ino = inode_at disk s ino"
  "bmap_view disk (sfd_set fd f s) i l = bmap_view disk s i l"
  "inode_ok disk (sfd_set fd f s) i = inode_ok disk s i"
  "file_byte disk (sfd_set fd f s) i k = file_byte disk s i k"
  "mapped disk (sfd_set fd f s) i k = mapped disk s i k"
  by (simp_all add: inode_block_and_offset_def inode_at_def bmap_view_def inode_ok_def file_byte_def mapped_def)

context block_device
begin

lemma swiftfs2_read_ok:
  assumes f: "fs_file disk works s fd i" and fl: "fd_flags (s_fds s ! nat fd) \<noteq> 1"
    and sz: "unat (in_size i) < 2 ^ 31" "unat (fd_pos (s_fds s ! nat fd)) + unat sz < 2 ^ 32"
    and pos: "unat (fd_pos (s_fds s ! nat fd)) < unat (in_size i)"
    and mp: "\<forall>k<unat (in_size i). mapped disk s i k"
  defines "p \<equiv> unat (fd_pos (s_fds s ! nat fd))"
  defines "n \<equiv> min (unat sz) (unat (in_size i) - p)"
  shows "\<exists>s'. swiftfs2_read D fd sz s = (int n, file_bytes disk s i p n, s') \<and> fs_file disk works s' fd i \<and>
    cview disk s' = cview disk s \<and> s_fds s' = (s_fds s)[nat fd := (s_fds s ! nat fd)\<lparr>fd_pos := of_nat (p + n)\<rparr>]"
proof -
  let ?f = "s_fds s ! nat fd"
  let ?ino = "fd_inode ?f" and ?pos = "fd_pos ?f"
  have F: "fs_inv disk works s" "length (s_fds s) = SWIFTFS2_MAX_FD" "\<not> sfd_bad fd s" "inode_at disk s ?ino = i" "inode_ok disk s i"
    using f by (simp_all add: fs_file_def Let_def)
  have wf: "inode_wf i" using F(5) by (simp add: inode_ok_def)
  have ci: "cache_inv disk works s" using F(1) by (simp add: fs_inv_def)
  obtain s1 where s1: "inode_read D ?ino s = (0, i, s1)" "cache_inv disk works s1" "cview disk s1 = cview disk s" "same_core s s1"
    using inode_read_ok[OF ci, of ?ino] F(4) by metis
  note i1 = fs_inv_core[OF F(1) s1(4,2)]
  define to_read where "to_read = (if ucast (?pos + sz) > in_size i then ucast (in_size i - ucast ?pos) else sz)"
  have up: "unat (ucast ?pos :: u64) = p" by (simp add: p_def unat_ucast_up)
  have us: "unat (ucast (?pos + sz) :: u64) = p + unat sz"
    using sz(2) by (simp add: p_def unat_ucast_up unat_add_small)
  have usub: "unat (in_size i - ucast ?pos) = unat (in_size i) - p"
    using pos up by (subst unat_sub) (simp_all add: word_le_nat_alt p_def)
  have "unat (ucast (in_size i - ucast ?pos) :: u32) = unat (in_size i) - p"
    using usub sz(1) by (subst unat_ucast_small) simp_all
  then have tr: "unat to_read = n" using us by (auto simp: to_read_def n_def word_less_nat_alt)
  have npos: "p + n \<le> unat (in_size i)" using pos by (simp add: n_def p_def)
  have lt: "unat ?pos + unat to_read < 2 ^ 32" using npos sz(1) tr by (simp add: p_def)
  have mp1: "\<forall>k. unat ?pos + unat 0 \<le> k \<and> k < unat ?pos + unat to_read \<longrightarrow> mapped disk s1 i k"
    using mp npos tr view_cong[OF s1(3)] by (auto simp: mapped_def p_def)
  from read_loop_ok[OF i1(1) wf _ lt mp1, of "[]"] tr obtain s2 where
    s2: "read_loop D i ?pos to_read 0 [] s1 = (to_read, file_bytes disk s i p n, s2)"
      "fs_inv disk works s2" "geo_same s1 s2" "cview disk s2 = cview disk s1" "block_used disk s2 = block_used disk s1"
    using file_bytes_cong[OF s1(3)] by (auto simp: p_def)
  let ?s = "sfd_set fd ((s_fds s2 ! nat fd)\<lparr>fd_pos := ?pos + to_read\<rparr>) s2"
  have g: "geo_same s s2" using core_geo[OF s1(4)] s2(3) by (rule geo_same_trans)
  then have fds: "s_fds s2 = s_fds s" by (simp add: geo_same_def)
  have st: "sint to_read = int n" using sint_small[of to_read] tr npos sz(1) by simp
  have "\<not> ucast ?pos \<ge> in_size i" using pos up by (simp add: word_le_nat_alt p_def)
  then have run: "swiftfs2_read D fd sz s = (int n, file_bytes disk s i p n, ?s)"
    using F(3) fl s1(1) s2(1) st by (simp add: swiftfs2_read_def Let_def to_read_def[symmetric])
  have v: "cview disk s2 = cview disk s" "block_used disk s2 = block_used disk s" using s1(3) i1(2) s2(4,5) by simp_all
  have ia: "inode_block_and_offset ino s2 = inode_block_and_offset ino s" for ino by (rule inode_pos_geo[OF g])
  have ok2: "inode_ok disk s2 i" using F(5) view_cong[OF v(1)] by (simp add: inode_ok_def v)
  have fd: "0 \<le> fd" "nat fd < length (s_fds s)" using F(2,3) by (auto simp: sfd_bad_def)
  have at: "(s_fds s)[nat fd := ?f\<lparr>fd_pos := ?pos + to_read\<rparr>] ! nat fd = ?f\<lparr>fd_pos := ?pos + to_read\<rparr>" using fd by simp
  have "fs_file disk works ?s fd i"
    using f ok2 s2(2) F(2,3) unfolding fs_file_def Let_def
    by (simp add: fds at ia inode_at_def v(1,2) view_cong[OF v(1)] sfd_bad_def)
  moreover have "?pos + to_read = of_nat (p + n)" using arg_cong[OF tr, of "of_nat :: nat \<Rightarrow> u32"] by (simp add: p_def)
  ultimately show ?thesis using run v(1) fds by (intro exI[of _ ?s]) simp
qed
lemma swiftfs2_write_ok:
  assumes f: "fs_file disk works s fd i" and fl: "fd_flags (s_fds s ! nat fd) \<noteq> 0"
    and sz: "unat (fd_pos (s_fds s ! nat fd)) + unat sz < 2 ^ 31" "unat sz \<le> length buf"
  defines "p \<equiv> unat (fd_pos (s_fds s ! nat fd))" and "tb \<equiv> fst (inode_block_and_offset (fd_inode (s_fds s ! nat fd)) s)"
  shows "\<exists>d i' s'. swiftfs2_write D fd buf sz s = (int d, s') \<and> d \<le> unat sz \<and> fs_file disk works s' fd i' \<and>
    in_size i' = of_nat (max (unat (in_size i)) (p + d)) \<and>
    (\<forall>k. p \<le> k \<and> k < p + d \<longrightarrow> mapped disk s' i' k \<and> file_byte disk s' i' k = buf ! (k - p)) \<and>
    (\<forall>k. \<not> (p \<le> k \<and> k < p + d) \<and> mapped disk s i k \<longrightarrow> mapped disk s' i' k \<and> file_byte disk s' i' k = file_byte disk s i k) \<and>
    (\<forall>b. block_used disk s b \<and> b \<noteq> tb \<and> in_indirect i \<noteq> b \<and> (\<forall>l. bmap_view disk s i l \<noteq> b) \<longrightarrow> cview disk s' b = cview disk s b) \<and>
    (\<forall>j. inode_block_and_offset j s \<noteq> inode_block_and_offset (fd_inode (s_fds s ! nat fd)) s \<and>
       block_used disk s (fst (inode_block_and_offset j s)) \<and> in_indirect i \<noteq> fst (inode_block_and_offset j s) \<and>
       (\<forall>l. bmap_view disk s i l \<noteq> fst (inode_block_and_offset j s)) \<longrightarrow> inode_at disk s' j = inode_at disk s j) \<and>
    s_fds s' = (s_fds s)[nat fd := (s_fds s ! nat fd)\<lparr>fd_pos := of_nat (p + d)\<rparr>] \<and>
    ((\<forall>k. p \<le> k \<and> k < p + unat sz \<longrightarrow> mapped disk s i k) \<longrightarrow> d = unat sz)"
proof -
  let ?f = "s_fds s ! nat fd"
  let ?ino = "fd_inode ?f" and ?pos = "fd_pos ?f"
  have F: "fs_inv disk works s" "length (s_fds s) = SWIFTFS2_MAX_FD" "\<not> sfd_bad fd s" "inode_at disk s ?ino = i" "inode_ok disk s i"
    "block_used disk s tb" "in_indirect i \<noteq> tb" "\<forall>l. bmap_view disk s i l \<noteq> tb"
    using f by (simp_all add: fs_file_def Let_def tb_def)
  have ci: "cache_inv disk works s" using F(1) by (simp add: fs_inv_def)
  obtain s1 where s1: "inode_read D ?ino s = (0, i, s1)" "cache_inv disk works s1" "cview disk s1 = cview disk s" "same_core s s1"
    using inode_read_ok[OF ci, of ?ino] F(4) by metis
  note i1 = fs_inv_core[OF F(1) s1(4,2)]
  have ws1: "wrote s i p [] i s1" by (rule core_wrote[OF i1(1) s1(4,3) i1(2) F(5)])
  have ok1: "inode_ok disk s1 i" using ws1 by (simp add: wrote_def)
  have lt: "unat ?pos + unat sz < 2 ^ 32" using sz(1) by simp
  from write_loop_ok[OF i1(1) ok1 _ lt sz(2), of 0] obtain d i2 s2 where
    r: "write_loop D i ?pos buf sz 0 s1 = (d, i2, s2)" "d \<le> sz" "wrote s1 i p (take (unat d) buf) i2 s2"
      "(\<forall>k. p \<le> k \<and> k < p + unat sz \<longrightarrow> mapped disk s1 i k) \<longrightarrow> d = sz"
    by (auto simp: p_def)
  have dsz: "unat d \<le> unat sz" using r(2) by (simp add: word_le_nat_alt)
  then have ld: "length (take (unat d) buf) = unat d" using sz(2) by simp
  have w2: "wrote s i p (take (unat d) buf) i2 s2" using wrote_append[OF ws1, of "take (unat d) buf" i2 s2] r(3) by simp
  have fr: "cview disk s2 b = cview disk s b \<and> in_indirect i2 \<noteq> b \<and> (\<forall>l. bmap_view disk s2 i2 l \<noteq> b)"
    if "block_used disk s b" "in_indirect i \<noteq> b" "\<forall>l. bmap_view disk s i l \<noteq> b" for b
    using w2 that by (simp add: wrote_def)
  have inv2: "fs_inv disk works s2" "geo_same s s2" "inode_ok disk s2 i2" using w2 by (simp_all add: wrote_def)
  have "i2\<lparr>in_direct := [], in_indirect := 0\<rparr> = i\<lparr>in_direct := [], in_indirect := 0\<rparr>" using w2 unfolding wrote_def by blast
  from arg_cong[OF this, of in_size] have same: "in_size i2 = in_size i" by simp
  define pos' where "pos' = ?pos + d"
  have upos: "unat pos' = p + unat d" using sz(1) dsz by (simp add: pos'_def p_def unat_add_small)
  define i3 where "i3 = (if ucast pos' > in_size i2 then i2\<lparr>in_size := ucast pos'\<rparr> else i2)"
  define i4 where "i4 = i3\<lparr>in_block_count := ucast ((in_size i3 + 4096 - 1) div 4096)\<rparr>"
  have ucp: "unat (ucast pos' :: u64) = p + unat d" using upos by (simp add: unat_ucast_up)
  then have "of_nat (p + unat d) = (ucast pos' :: u64)" by (simp only: ucp[symmetric] of_nat_unat_id)
  moreover have "ucast pos' > in_size i2 \<longleftrightarrow> unat (in_size i) < p + unat d" using ucp same by (simp add: word_less_nat_alt)
  moreover have "in_size i4 = (if ucast pos' > in_size i2 then ucast pos' else in_size i)" by (simp add: i4_def i3_def same)
  ultimately have size4: "in_size i4 = of_nat (max (unat (in_size i)) (p + unat d))"
    by (cases "unat (in_size i) < p + unat d") (simp_all add: max_def)
  have v4: "bmap_view disk t i4 = bmap_view disk t i2" for t by (rule view_strip) (simp_all add: i4_def i3_def)
  have ok4: "inode_ok disk t i4 = inode_ok disk t i2" for t
    by (simp add: inode_ok_def v4) (simp add: i4_def i3_def inode_wf_def)
  have wf4: "inode_wf i4" using inv2(3) ok4[of s2] by (simp add: inode_ok_def)
  obtain off where bk: "inode_block_and_offset ?ino s = (tb, off)" using tb_def by (metis prod.collapse)
  then have bk2: "inode_block_and_offset ?ino s2 = (tb, off)" using inode_pos_geo[OF inv2(2)] by simp
  have ci2: "cache_inv disk works s2" using inv2(1) by (simp add: fs_inv_def)
  obtain s3 where s3: "inode_write D ?ino i4 s2 = (0, s3)" "cache_inv disk works s3"
    "cview disk s3 = (cview disk s2)(tb := blit (cview disk s2 tb) off (enc_inode i4))" "same_core s2 s3"
    "inode_at disk s3 ?ino = i4" "\<And>j. inode_block_and_offset j s2 \<noteq> (tb, off) \<Longrightarrow> inode_at disk s3 j = inode_at disk s2 j"
    using inode_write_ok[OF ci2 wf4 bk2] by metis
  note i3' = fs_inv_core[OF inv2(1) s3(4,2)]
  have tb2: "in_indirect i2 \<noteq> tb" "bmap_view disk s2 i2 l \<noteq> tb" for l using fr[OF F(6,7,8)] by auto
  have v3: "bmap_view disk s3 i4 l = bmap_view disk s2 i2 l" for l
    using tb2(1) unfolding v4 by (auto simp: bmap_view_def s3(3))
  have fb: "mapped disk s3 i4 k = mapped disk s2 i2 k" "file_byte disk s3 i4 k = file_byte disk s2 i2 k" for k
    using tb2(2) by (auto simp: mapped_def file_byte_def v3 s3(3))
  have ok3: "inode_ok disk s3 i4" using inv2(3) wf4 by (simp add: inode_ok_def v3 i3'(2)) (simp add: i4_def i3_def)
  have g3: "geo_same s s3" using inv2(2) core_geo[OF s3(4)] by (rule geo_same_trans)
  then have fds: "s_fds s3 = s_fds s" by (simp add: geo_same_def)
  let ?s = "sfd_set fd ((s_fds s3 ! nat fd)\<lparr>fd_pos := pos'\<rparr>) s3"
  have fd: "0 \<le> fd" "nat fd < length (s_fds s)" using F(2,3) by (auto simp: sfd_bad_def)
  have st: "sint d = int (unat d)" using dsz sz(1) by (intro sint_small) simp
  have run: "swiftfs2_write D fd buf sz s = (int (unat d), ?s)"
    using F(3) fl s1(1) r(1) s3(1) st unfolding i4_def i3_def pos'_def
    by (cases "in_size i2 < ucast (?pos + d)") (simp_all add: swiftfs2_write_def Let_def)
  have at: "(s_fds s)[nat fd := ?f\<lparr>fd_pos := pos'\<rparr>] ! nat fd = ?f\<lparr>fd_pos := pos'\<rparr>" using fd by simp
  have "block_used disk s3 tb" using F(6) w2 i3'(2) by (simp add: wrote_def)
  then have ff: "fs_file disk works ?s fd i4"
    using ok3 i3'(1) F(2,3) s3(5) tb2 inode_pos_geo[OF g3, of ?ino] bk unfolding fs_file_def Let_def
    by (simp add: fds at sfd_bad_def v3) (simp add: i4_def i3_def)
  have cv: "cview disk ?s b = cview disk s b"
    if "block_used disk s b \<and> b \<noteq> tb \<and> in_indirect i \<noteq> b \<and> (\<forall>l. bmap_view disk s i l \<noteq> b)" for b
    using fr[of b] that by (simp add: s3(3))
  have other: "inode_at disk ?s j = inode_at disk s j"
    if j: "inode_block_and_offset j s \<noteq> inode_block_and_offset ?ino s \<and>
       block_used disk s (fst (inode_block_and_offset j s)) \<and> in_indirect i \<noteq> fst (inode_block_and_offset j s) \<and>
       (\<forall>l. bmap_view disk s i l \<noteq> fst (inode_block_and_offset j s))" for j
  proof -
    have "inode_at disk s3 j = inode_at disk s2 j" by (rule s3(6)) (use j bk inode_pos_geo[OF inv2(2)] in simp)
    also have "\<dots> = inode_at disk s j"
      using fr[of "fst (inode_block_and_offset j s)"] j inode_pos_geo[OF inv2(2)] by (simp add: inode_at_def case_prod_beta)
    finally show ?thesis by simp
  qed
  have pd: "pos' = of_nat (p + unat d)" using arg_cong[OF upos, of "of_nat :: nat \<Rightarrow> u32"] by simp
  have inr: "mapped disk ?s i4 k \<and> file_byte disk ?s i4 k = buf ! (k - p)" if "p \<le> k \<and> k < p + unat d" for k
    using w2 ld that by (simp add: wrote_def fb less_diff_conv2)
  have out: "mapped disk ?s i4 k \<and> file_byte disk ?s i4 k = file_byte disk s i k"
    if "\<not> (p \<le> k \<and> k < p + unat d) \<and> mapped disk s i k" for k
    using w2 ld that by (simp add: wrote_def fb)
  have full: "unat d = unat sz" if "\<forall>k. p \<le> k \<and> k < p + unat sz \<longrightarrow> mapped disk s i k"
    using r(4) that view_cong[OF s1(3)] by (simp add: mapped_def)
  show ?thesis
    by (rule exI[of _ "unat d"], rule exI[of _ i4], rule exI[of _ ?s])
       (intro conjI allI impI, use run dsz ff size4 inr out cv other pd fds full in simp_all)
qed

end

end
