(* ===== verification/SwiftfsExample.thy ===== *)
theory SwiftfsExample
  imports SwiftfsMount SwiftfsData AhciEmu
begin

text \<open>
  A small mounted filesystem on the drive of the controller model: one group, its bitmap in block 2,
  its inode table from block 3 on, inode 1 the root directory with the entries \<open>a\<close> and \<open>b\<close> in block 11, and
  inode 2 a file of five bytes in block 10. Block 20 is the only free one. It is used to instantiate
  the properties.
\<close>

definition inode_ex :: swiftfs2_inode where
  "inode_ex = inode_zero\<lparr>in_mode := 0x81A4, in_size := 5, in_block_count := 1, in_direct := (replicate 12 0)[0 := 10]\<rparr>"

definition root_ex :: swiftfs2_inode where
  "root_ex = inode_zero\<lparr>in_mode := 0x41ED, in_size := 4096, in_block_count := 1, in_direct := (replicate 12 0)[0 := 11]\<rparr>"

definition dir_ex :: "u8 list" where
  "dir_ex = [2, 0, 0, 0, 12, 0, 1, 1, 97, 0, 0, 0, 3, 0, 0, 0, 12, 0, 1, 1, 98, 0, 0, 0, 0, 0, 0, 0, 0xE8, 0x0F, 0, 0]"

definition drive_sector :: "nat \<Rightarrow> u8 list" where
  "drive_sector l = (if l = 24 then replicate 128 0 @ enc_inode root_ex @ replicate 22 0 @ enc_inode inode_ex @ replicate 150 0
     else if l = 88 then dir_ex @ replicate 480 0
     else if l = 80 then [104, 101, 108, 108, 111] @ replicate 507 0 else replicate 512 0)"

definition drive_ex :: "emu ahci" where
  "drive_ex = ahci_example\<lparr>a_hba := emu_example\<lparr>em_data := \<lambda>p. drive_sector\<rparr>\<rparr>"

definition super_ex :: swiftfs2_super where
  "super_ex = \<lparr>sb_magic = SWIFTFS2_MAGIC, sb_block_size = 4096, sb_num_blocks = 32768, sb_inode_count = 4096, sb_free_blocks = 1,
     sb_free_inodes = 4094, sb_blocks_per_group = 32768, sb_inodes_per_group = 4096, sb_group_desc_count = 1, sb_inode_size = 128,
     sb_journal_block = 0, sb_journal_size = 0, sb_journal_last = 0, sb_uuid = replicate 16 0, sb_volume_name = replicate 32 0,
     sb_pad = replicate 3960 0\<rparr>"

definition gd_ex :: swiftfs2_gd where
  "gd_ex = \<lparr>gd_block_bitmap_block = 2, gd_inode_table_block = 3, gd_free_blocks_count = 1, gd_free_inodes_count = 4094, gd_pad = replicate 4 0\<rparr>"

definition bits_ex :: "u8 list" where "bits_ex = bit_clear (replicate 4096 0xFF) 20"

definition fs_ex :: "emu ahci swiftfs" where
  "fs_ex = \<lparr>sb = super_ex, g_port = 0, g_mounted = True, g_nr_groups = 1, g_gd = replicate 128 gd_ex, g_gd_ptr = 0x200000,
     g_bitmaps = [Some (0x210000, bits_ex)], g_bitmaps_ptr = 0x220000, g_curr_group = 0,
     s_fds = (replicate SWIFTFS2_MAX_FD fd_clear)[2 := \<lparr>fd_inode = 2, fd_pos = 0, fd_flags = 2, fd_dirty = False\<rparr>],
     g_cache = replicate SWIFTFS2_CACHE_SIZE cache_zero, g_cache_next = 0, s_heap = kheap_init 0x230000, s_dev = drive_ex\<rparr>"

abbreviation adisk :: "int \<Rightarrow> emu ahci \<Rightarrow> u32 \<Rightarrow> u8 list" where "adisk \<equiv> ahci_disk em_sector"
abbreviation aworks :: "int \<Rightarrow> emu ahci \<Rightarrow> bool" where "aworks \<equiv> ahci_works em_ready"
abbreviation adev :: "emu ahci blkdev" where "adev \<equiv> ahci_blkdev emu_hba"

lemma inode_ex_wf: "inode_wf inode_ex"
  by (simp add: inode_ex_def inode_wf_def inode_zero_def)

lemma root_ex_wf: "inode_wf root_ex"
  by (simp add: root_ex_def inode_wf_def inode_zero_def)

lemma length_ex_inodes [simp]: "length (enc_inode inode_ex) = 106" "length (enc_inode root_ex) = 106"
  using length_enc_inode[OF inode_ex_wf] length_enc_inode[OF root_ex_wf] by (simp_all add: INODE_BYTES_def)

lemma length_drive_sector [simp]: "length (drive_sector l) = 512"
  by (simp add: drive_sector_def dir_ex_def)

lemma drive_works: "aworks 0 drive_ex"
  by (simp add: ahci_works_def ahci_port_ok_def drive_ex_def ahci_example_def port_usable_def page_aligned_def em_ready_def emu_example_def)

lemma drive_disk: "adisk 0 drive_ex b = concat (map drive_sector [8 * unat b..<8 * unat b + 8])"
proof -
  have "em_sector (a_hba drive_ex) 0 = drive_sector" by (simp add: em_sector_def drive_ex_def fun_eq_iff)
  then show ?thesis by (simp add: ahci_disk_def)
qed

lemma fs_ex_fields: "g_port fs_ex = 0" "s_dev fs_ex = drive_ex" "g_nr_groups fs_ex = 1" "g_mounted fs_ex"
  "g_bitmaps fs_ex = [Some (0x210000, bits_ex)]" "g_gd fs_ex = replicate 128 gd_ex" "sb fs_ex = super_ex" "g_curr_group fs_ex = 0"
  "g_cache fs_ex = replicate SWIFTFS2_CACHE_SIZE cache_zero" "g_cache_next fs_ex = 0"
  "s_fds fs_ex = (replicate SWIFTFS2_MAX_FD fd_clear)[2 := \<lparr>fd_inode = 2, fd_pos = 0, fd_flags = 2, fd_dirty = False\<rparr>]"
  by (simp_all add: fs_ex_def)

lemma fs_ex_cache: "cache_inv adisk aworks fs_ex"
  by (rule reset_cache_inv) (simp_all add: fs_ex_fields drive_works)

lemma fs_ex_view: "cview adisk fs_ex = adisk 0 drive_ex"
proof
  fix b
  have "\<not> cache_hit b 0 (g_cache fs_ex ! i)" if "i < SWIFTFS2_CACHE_SIZE" for i
    using that by (simp add: fs_ex_fields cache_hit_def cache_zero_def)
  then have "find (\<lambda>i. cache_hit b 0 (g_cache fs_ex ! i)) [0..<SWIFTFS2_CACHE_SIZE] = None" by (simp add: find_upt_None)
  then show "cview adisk fs_ex b = adisk 0 drive_ex b" by (simp add: cview_def fs_ex_fields)
qed

lemma bits_ex_test: "i < 32768 \<Longrightarrow> bit_test bits_ex i \<longleftrightarrow> i \<noteq> 20" and length_bits_ex: "length bits_ex = 4096"
proof -
  have full: "bit_test (replicate 4096 0xFF) j" if "j < 32768" for j
  proof -
    have "j div 8 < 4096" using that by (simp add: div_less_iff_less_mult)
    moreover have "bit (mask 8 :: u8) (j mod 8)" by (simp only: bit_mask_iff) simp
    then have "bit (0xFF :: u8) (j mod 8)" by (simp add: mask_numeral mask_Suc_double)
    ultimately show ?thesis by (simp add: bit_test_def bit_byte_shift)
  qed
  show "i < 32768 \<Longrightarrow> bit_test bits_ex i \<longleftrightarrow> i \<noteq> 20"
    using bm.test_unmark[of 20 "replicate 4096 0xFF" i] full by (simp add: bits_ex_def)
  show "length bits_ex = 4096" by (simp add: bits_ex_def bit_clear_def)
qed

lemma zeros_ex: "zeros (bit_test bits_ex) 32768 = 1"
proof -
  have "{i. i < 32768 \<and> \<not> bit_test bits_ex i} = {20}" using bits_ex_test by auto
  then show ?thesis by (simp add: zeros_card)
qed

lemma fs_ex_used: "unat b < 32768 \<Longrightarrow> block_used adisk fs_ex b \<longleftrightarrow> unat b \<noteq> 20"
  by (simp add: block_used_def group_bits_def fs_ex_fields bits_ex_test)

lemma fs_ex_inv: "fs_inv adisk aworks fs_ex"
  by (simp add: fs_inv_def fs_ex_cache alloc_inv_def all_loaded_def group_bits_def fs_ex_fields drive_works length_bits_ex zeros_ex
      bits_ex_test gd_ex_def)

lemma fs_ex_pos: "inode_block_and_offset 2 fs_ex = (3, 256)"
  by (simp add: inode_block_and_offset_def fs_ex_fields gd_ex_def)

lemma fs_ex_inode: "inode_at adisk fs_ex 2 = inode_ex"
proof -
  have "adisk 0 drive_ex 3 = drive_sector 24 @ concat (map drive_sector [25..<32])"
    by (simp add: drive_disk upt_conv_Cons)
  then have "drop 256 (adisk 0 drive_ex 3) = enc_inode inode_ex @ replicate 150 0 @ concat (map drive_sector [25..<32])"
    by (simp add: drive_sector_def)
  then show ?thesis by (simp add: inode_at_def fs_ex_pos fs_ex_view dec_enc_inode[OF inode_ex_wf])
qed

lemma fs_ex_root: "inode_at adisk fs_ex 1 = root_ex"
proof -
  have "adisk 0 drive_ex 3 = drive_sector 24 @ concat (map drive_sector [25..<32])"
    by (simp add: drive_disk upt_conv_Cons)
  then have "drop 128 (adisk 0 drive_ex 3) =
      enc_inode root_ex @ replicate 22 0 @ enc_inode inode_ex @ replicate 150 0 @ concat (map drive_sector [25..<32])"
    by (simp add: drive_sector_def)
  moreover have "inode_block_and_offset 1 fs_ex = (3, 128)"
    by (simp add: inode_block_and_offset_def fs_ex_fields gd_ex_def)
  ultimately show ?thesis by (simp add: inode_at_def fs_ex_view dec_enc_inode[OF root_ex_wf])
qed

lemma fs_ex_dir: "cview adisk fs_ex 11 = dir_ex @ replicate 4064 0"
proof -
  have "adisk 0 drive_ex 11 = dir_ex @ replicate 480 0 @ replicate (7 * 512) 0"
    by (simp add: drive_disk upt_conv_Cons drive_sector_def flip: replicate_add)
  then show ?thesis by (simp add: fs_ex_view flip: replicate_add)
qed

lemma inode_ex_view: "bmap_view adisk fs_ex inode_ex l = (if l = 0 then 10 else 0)"
  by (simp add: bmap_view_def inode_ex_def inode_zero_def nth_list_update)

lemma fs_ex_file: "fs_file adisk aworks fs_ex 2 inode_ex"
proof -
  have f: "s_fds fs_ex ! 2 = \<lparr>fd_inode = 2, fd_pos = 0, fd_flags = 2, fd_dirty = False\<rparr>"
    by (simp add: fs_ex_fields SWIFTFS2_MAX_FD_def)
  have "inode_ok adisk fs_ex inode_ex"
    using inode_ex_wf by (simp add: inode_ok_def inode_ex_view fs_ex_used) (simp add: inode_ex_def inode_zero_def)
  then show ?thesis
    by (simp add: fs_file_def Let_def fs_ex_inv f fs_ex_pos fs_ex_inode inode_ex_view fs_ex_used sfd_bad_def)
       (simp add: fs_ex_fields inode_ex_def inode_zero_def SWIFTFS2_MAX_FD_def)
qed

lemma fs_ex_mapped: "k < 5 \<Longrightarrow> mapped adisk fs_ex inode_ex k"
  by (simp add: mapped_def inode_ex_view)

end
