(* ===== verification/Boot.thy ===== *)
theory Boot
  imports AhciInit Interrupts SwiftfsExample
begin

text \<open>
  The boot sequence, \<open>kmain\<close> of \<open>src/kernel/kmain.c\<close>, and the loader of flat programs, \<open>src/kernel/user/user.c\<close>. Up to the
  mount the state is the hardware and the devices; from then on it is the kernel of the system calls, in
  which the driver keeps the memory of its ports, pages that no one else has, in its own state. A halt, a wait for ever
  and a store to address 0 after a failed \<open>kmalloc\<close> are \<^const>\<open>None\<close>. Log lines are left out.
\<close>

section \<open>Devices\<close>

text \<open>What the boot loader, the assembly part and the hardware provide.\<close>

record ('h, 'c) boot_env =
  be_stubs :: "u64 list"
  be_syscall_entry :: u64
  be_idt :: u64
  be_pic1 :: u8
  be_pic2 :: u8
  be_mboot :: memory
  be_info :: u32
  be_bss_end :: u64
  be_gdt_raw :: "u8 list"
  be_pci :: "'c pcibus"
  be_hba :: "'h hba"

record ('h, 'c) hardware =
  hw_cpu :: cpu
  hw_kbd :: kbd
  hw_tss :: u64
  hw_mach :: "('h, 'c) machine"

primrec probe_loop :: "'h hba \<Rightarrow> nat list \<Rightarrow> 'h ahci \<Rightarrow> 'h ahci" where
  "probe_loop H [] a = a"
| "probe_loop H (p # ps) a = (let (ret, buf, a1) = ahci_read H (int p) 0 1 a in if ret > 0 then a1 else probe_loop H ps a1)"

definition probe_disk :: "'h hba \<Rightarrow> 'h ahci \<Rightarrow> 'h ahci" where
  "probe_disk H a = snd (ahci_write H 0 1024 (replicate 512 0xAA) 1 (probe_loop H [0..<nat (ahci_port_count a)] a))"

definition set_mmu :: "mmu \<Rightarrow> ('h, 'c) machine \<Rightarrow> ('h, 'c) machine" where
  "set_mmu m k = k\<lparr>mc_ahci := (mc_ahci k)\<lparr>a_mem := vm_mem m, a_pmm := vm_pmm m\<rparr>\<rparr>"

definition kmain_devices :: "('h, 'c) boot_env \<Rightarrow> ('h, 'c) hardware \<Rightarrow> ('h, 'c) hardware option" where
  "kmain_devices E h =
     do { let c1 = idt_init (be_stubs E) (be_syscall_entry E) (be_idt E) (be_pic1 E) (be_pic2 E) (hw_cpu h);
          pm \<leftarrow> pmm_init (be_mboot E) (be_bss_end E) (be_info E);
          let k1 = (hw_mach h)\<lparr>mc_ahci := (mc_ahci (hw_mach h))\<lparr>a_pmm := pm\<rparr>\<rparr>;
          c2 \<leftarrow> pit_init 100 c1;
          (tss, m) \<leftarrow> tss_init (be_gdt_raw E) (mc_mmu k1);
          let k2 = set_mmu m k1;
          (n, ps) \<leftarrow> pci_init (be_pci E) (mc_cfg k2) (mc_pci k2);
          let (r, k3) = ahci_init (be_hba E) (be_pci E) (k2\<lparr>mc_pci := ps\<rparr>);
          Some \<lparr>hw_cpu = c2, hw_kbd = keyboard_init (hw_kbd h), hw_tss = tss,
                hw_mach = k3\<lparr>mc_ahci := probe_disk (be_hba E) (mc_ahci k3)\<rparr>\<rparr> }"

section \<open>Files\<close>

definition write_if_missing :: "(pipe \<Rightarrow> pipe) list \<Rightarrow> cstring \<Rightarrow> u8 list \<Rightarrow> 'fs kernel \<Rightarrow> 'fs kernel option" where
  "write_if_missing ys path img k =
     do { (fd, k1) \<leftarrow> sys_vfs (vfs_open path 0) k;
          if fd \<ge> 0 then do { (r, k2) \<leftarrow> sys_vfs (vfs_close fd) k1; Some k2 }
          else
            do { (fd, k2) \<leftarrow> sys_vfs (vfs_open path 0x301) k1;
                 if fd < 0 then Some k2
                 else do { (r, k3) \<leftarrow> sys_vfs (vfs_write ys fd img (of_nat (length img))) k2;
                           (r, k4) \<leftarrow> sys_vfs (vfs_close fd) k3;
                           Some k4 } } }"

primrec install :: "(pipe \<Rightarrow> pipe) list \<Rightarrow> (cstring \<times> u8 list) list \<Rightarrow> 'fs kernel \<Rightarrow> 'fs kernel option" where
  "install ys [] k = Some k"
| "install ys (f # fs) k = Option.bind (write_if_missing ys (fst f) (snd f) k) (install ys fs)"

text \<open>The programs that are linked into the kernel.\<close>

definition boot_files :: "u8 list \<Rightarrow> u8 list \<Rightarrow> u8 list \<Rightarrow> u8 list \<Rightarrow> (cstring \<times> u8 list) list" where
  "boot_files sh ls cat echo = [(ascii ''/bin/shell'', sh), (ascii ''/bin/ls'', ls), (ascii ''/bin/cat'', cat), (ascii ''/bin/echo'', echo)]"

section \<open>The first process\<close>

definition create_init :: "'fs sys_env \<Rightarrow> 'fs kernel \<Rightarrow> 'fs kernel option" where
  "create_init en k =
     do { (fd, k1) \<leftarrow> sys_vfs (vfs_open (ascii ''/bin/shell'') 0) k;
          if fd < 0 then Some k1
          else case k_kmalloc 65536 k1 of (buf0, k2) \<Rightarrow>
            if buf0 = 0 then None
            else
              do { (buf, data, k3) \<leftarrow> exec_read (en_pipe en) fd buf0 65536 [] k2;
                   (r, k4) \<leftarrow> sys_vfs (vfs_close fd) k3;
                   k5 \<leftarrow> (if data = [] then Some k4
                          else
                            do { (ret, entry, k5) \<leftarrow> elf64_load (en_pipe en) (exec_image en data) k4;
                                 if ret \<noteq> 0 then Some k5
                                 else
                                   let (init_kstack, m) = vm_page_alloc (k_mmu k5); k6 = k5\<lparr>k_mmu := m\<rparr> in
                                   if init_kstack = 0 then Some k6
                                   else Some (snd (proc_create (the entry) 0x7F003000 (vmm_read_cr3 m) init_kstack k6)) });
                   Some (k_kfree buf k5) } }"

definition run_init :: "'fs kernel \<Rightarrow> (u64 \<times> u64 \<times> 'fs kernel) option" where
  "run_init k =
     (let i = proc_index 1 k in
      if i < 0 then None else Some (0x8000000, 0x7F003000, sched_run (k\<lparr>current_idx := nat i\<rparr>)))"

definition on_fs :: "('d swiftfs \<Rightarrow> int \<times> 'd swiftfs) \<Rightarrow> ('d swiftfs) kernel \<Rightarrow> int \<times> ('d swiftfs) kernel" where
  "on_fs f k =
     (let w = v_world (k_vfs k); (r, s) = f (sw_get w) in (r, k\<lparr>k_vfs := (k_vfs k)\<lparr>v_world := sw_put s w\<rparr>\<rparr>))"

text \<open>The files of the user programs and the first process, on a mounted file system.\<close>

definition prepare_userland :: "('d swiftfs) sys_env \<Rightarrow> 'd blkdev \<Rightarrow> (cstring \<times> u8 list) list \<Rightarrow> ('d swiftfs) kernel \<Rightarrow> ('d swiftfs) kernel option" where
  "prepare_userland en D images k =
     do { let (r, k1) = on_fs (swiftfs2_mkdir D (ascii ''/bin'') 0x1ED) (k\<lparr>k_vfs := swiftfs2_vfs_init D (k_vfs k)\<rparr>);
          k2 \<leftarrow> install (en_pipe en) images k1;
          let (r, k3) = on_fs (swiftfs2_sync D) k2;
          create_init en k3 }"

text \<open>From the table of the boot files on: the entry point, the stack and the kernel at the jump to the first process.\<close>

definition kmain_user ::
  "('d swiftfs) sys_env \<Rightarrow> 'd blkdev \<Rightarrow> u8 list \<Rightarrow> (cstring \<times> u8 list) list \<Rightarrow> ('d swiftfs) vfile list \<Rightarrow> ('d swiftfs) kernel \<Rightarrow>
   (u64 \<times> u64 \<times> ('d swiftfs) kernel) option" where
  "kmain_user en D garbage images boot_fds k =
     do { let k0 = k\<lparr>k_vfs := (k_vfs k)\<lparr>g_fds := vfs_init boot_fds\<rparr>, k_fds := None\<rparr>;
          let (r, k1) = on_fs (swiftfs2_mount D garbage 0) k0;
          k2 \<leftarrow> (if r = 0 then prepare_userland en D images k1 else Some k1);
          run_init k2 }"

text \<open>All of \<open>kmain\<close>: the tables and the heap of the kernel are set up between the devices, which they do not touch.\<close>

definition kmain ::
  "('h, 'c) boot_env \<Rightarrow> ('h ahci swiftfs) sys_env \<Rightarrow> u64 \<Rightarrow> u8 list \<Rightarrow> u8 list \<times> u8 list \<times> u8 list \<times> u8 list \<Rightarrow> ('h ahci swiftfs) vfile list \<Rightarrow>
   ('h, 'c) hardware \<Rightarrow> ('h ahci swiftfs) kernel \<Rightarrow> (('h, 'c) hardware \<times> u64 \<times> u64 \<times> ('h ahci swiftfs) kernel) option" where
  "kmain E en heap_pool garbage progs boot_fds h k =
     do { h1 \<leftarrow> kmain_devices E h;
          let w = v_world (k_vfs k);
          let k1 = (sched_init k)\<lparr>k_mmu := mc_mmu (hw_mach h1),
                k_vfs := (k_vfs k)\<lparr>v_world := w\<lparr>w_heap := kheap_init heap_pool, w_fs := (w_fs w)\<lparr>s_dev := mc_ahci (hw_mach h1)\<rparr>\<rparr>\<rparr>\<rparr>;
          (rip, rsp, k2) \<leftarrow> kmain_user en (ahci_blkdev (be_hba E)) garbage (case progs of (sh, l, c, e) \<Rightarrow> boot_files sh l c e) boot_fds k1;
          Some (h1, rip, rsp, k2) }"

section \<open>Flat programs\<close>

definition USER_BASE :: u64 where "USER_BASE = 0x8000000"
definition USER_STACK :: u64 where "USER_STACK = 0x7F000000"

text \<open>The part of the program that goes to page \<open>i\<close>; the size is a 32-bit number, the offset a 64-bit one.\<close>

definition user_chunk :: "u8 list \<Rightarrow> u32 \<Rightarrow> nat \<Rightarrow> u8 list" where
  "user_chunk data code_size i =
     (let copy = ucast code_size - of_nat i * 4096 :: u64; copy = (if copy > 4096 then 4096 else copy)
      in take (unat copy) (drop (i * 4096) data))"

primrec load_pages :: "u8 list \<Rightarrow> u32 \<Rightarrow> nat list \<Rightarrow> mmu \<Rightarrow> bool \<times> mmu" where
  "load_pages data code_size [] m = (True, m)"
| "load_pages data code_size (i # is) m =
     (let (phys, m1) = vm_page_alloc m in
      if phys = 0 then (False, m1)
      else
        let mem = store_bytes (store_bytes (vm_mem m1) phys (replicate 4096 0)) phys (user_chunk data code_size i)
        in load_pages data code_size is (vmm_map (USER_BASE + of_nat i * 4096) phys (PG_PRESENT OR PG_USER) (m1\<lparr>vm_mem := mem\<rparr>)))"

text \<open>The jump to the program does not return: its entry and stack are the result \<^const>\<open>Inr\<close>.\<close>

definition do_load :: "u64 \<Rightarrow> u8 list \<Rightarrow> u32 \<Rightarrow> 'fs kernel \<Rightarrow> (int + u64 \<times> u64) \<times> 'fs kernel" where
  "do_load stack_top data code_size k =
     (let code_pages = (code_size + 4095) div 4096; (ok, m1) = load_pages data code_size [0..<unat code_pages] (k_mmu k) in
      if \<not> ok then (Inl (-1), k\<lparr>k_mmu := m1\<rparr>)
      else
        let (stack_phys, m2) = vm_page_alloc m1 in
        if stack_phys = 0 then (Inl (-1), k\<lparr>k_mmu := m2\<rparr>)
        else
          let m3 = vmm_map USER_STACK stack_phys (PG_PRESENT OR PG_WRITE OR PG_USER OR PG_NX) (zero_page stack_phys m2)
          in (Inr (USER_BASE, USER_STACK + 4096), k\<lparr>k_mmu := m3, tss_rsp0 := stack_top, syscall_kernel_rsp := stack_top\<rparr>))"

definition user_proc_load :: "u64 \<Rightarrow> u8 list \<Rightarrow> u32 \<Rightarrow> 'fs kernel \<Rightarrow> (int + u64 \<times> u64) \<times> 'fs kernel" where
  "user_proc_load stack_top data sz k = do_load stack_top data sz k"

definition user_proc_init :: "u64 \<Rightarrow> u8 list \<Rightarrow> 'fs kernel \<Rightarrow> (int + u64 \<times> u64) \<times> 'fs kernel" where
  "user_proc_init stack_top prog k = do_load stack_top prog (of_nat (length prog)) k"

section \<open>The kernel invariant at the first jump to user mode\<close>

lemma create_kernel_inv:
  assumes "kernel_inv k"
  shows "kernel_inv (snd (proc_create entry rsp cr3 kstack k))"
proof -
  obtain r k' where p: "proc_create entry rsp cr3 kstack k = (r, k')" by force
  obtain pid k1 where pa: "pid_alloc k = (pid, k1)" by fastforce
  obtain n where k1: "k1 = k\<lparr>next_pid := n\<rparr>" using pid_alloc_fresh[OF proc_invD(3)[OF kernel_invD(1)[OF assms]] pa] by blast
  have "file_ok f" if "f \<in> set (vfs_init (p_fds (procs k ! i)))" "i < MAX_PROCS" for f i
  proof -
    have "length (p_fds (procs k ! i)) = VFS_MAX_FILES" using proc_invD(5)[OF kernel_invD(1)[OF assms] that(2)] by (simp add: proc_ok_def)
    from vfs_init_inv[OF this] that(1) show ?thesis by (simp add: vfs_inv_def)
  qed
  moreover have "nat (slot_alloc k) < MAX_PROCS" if "\<not> slot_alloc k < 0" using slot_alloc_free(1)[of k] that by simp
  ultimately have "vfs_inv (k_vfs k') \<and> (\<forall>p\<in>set (procs k'). \<forall>f\<in>set (p_fds p). file_ok f) \<and> (\<forall>i. k_fds k' = Some i \<longrightarrow> i < MAX_PROCS)"
    using p pa k1 assms
    by (auto simp: proc_create_def Let_def kernel_inv_def put_proc_def split: if_splits dest!: set_update_subset_insert[THEN subsetD])
  then show ?thesis using proc_create_inv[OF kernel_invD(1)[OF assms] p] p by (simp add: kernel_inv_def)
qed

lemma write_if_missing_inv [inv_intros]: "write_if_missing ys path img k = Some k' \<Longrightarrow> kernel_inv k \<Longrightarrow> kernel_inv k'"
  by (auto simp: write_if_missing_def bind_eq_Some_conv split: if_splits dest!: sys_open_inv sys_close_inv sys_write_inv)

lemma install_inv [inv_intros]: "install ys fs k = Some k' \<Longrightarrow> kernel_inv k \<Longrightarrow> kernel_inv k'"
  by (induction fs arbitrary: k) (auto simp: bind_eq_Some_conv dest: write_if_missing_inv)

lemma on_fs_inv [simp]: "kernel_inv (snd (on_fs f k)) = kernel_inv k"
  by (simp add: on_fs_def Let_def split_beta)

lemma create_init_inv: "create_init en k = Some k' \<Longrightarrow> kernel_inv k \<Longrightarrow> kernel_inv k'"
  by (auto simp: create_init_def bind_eq_Some_conv Let_def split_beta create_kernel_inv split: if_splits prod.splits
      dest!: sys_open_inv k_kmalloc_inv exec_read_inv sys_close_inv elf64_load_inv)

lemma prepare_inv: "prepare_userland en D images k = Some k' \<Longrightarrow> kernel_inv k \<Longrightarrow> kernel_inv k'"
proof -
  let ?k = "k\<lparr>k_vfs := swiftfs2_vfs_init D (k_vfs k)\<rparr>"
  assume p: "prepare_userland en D images k = Some k'" and inv: "kernel_inv k"
  have "kernel_inv ?k" using inv by (simp add: kernel_inv_def proc_inv_def swiftfs2_vfs_init_def vfs_register_def vfs_inv_def)
  then have "kernel_inv (snd (on_fs (swiftfs2_mkdir D (ascii ''/bin'') 0x1ED) ?k))" by simp
  moreover obtain k2 where "install (en_pipe en) images (snd (on_fs (swiftfs2_mkdir D (ascii ''/bin'') 0x1ED) ?k)) = Some k2"
    "create_init en (snd (on_fs (swiftfs2_sync D) k2)) = Some k'"
    using p by (auto simp: prepare_userland_def Let_def split_beta bind_eq_Some_conv)
  ultimately show ?thesis by (metis install_inv create_init_inv on_fs_inv)
qed

lemma run_init_effect:
  assumes "kernel_inv k" "run_init k = Some (rip, rsp, k')"
  shows "kernel_inv k' \<and> p_used (cur k') \<and> p_pid (cur k') = 1 \<and> k_fds k' = Some (current_idx k') \<and>
    tss_rsp0 k' = p_kstack (cur k') + 4096 \<and> syscall_kernel_rsp k' = p_kstack (cur k') + 4096 \<and>
    (p_cr3 (cur k') \<noteq> 0 \<longrightarrow> vm_cr3 (k_mmu k') = p_cr3 (cur k')) \<and> rip = 0x8000000 \<and> rsp = 0x7F003000"
proof -
  from assms(2) obtain i where f: "find (\<lambda>i. p_used (procs k ! i) \<and> p_pid (procs k ! i) = 1) [0..<MAX_PROCS] = Some i"
    and r: "rip = 0x8000000" "rsp = 0x7F003000" "k' = sched_run (k\<lparr>current_idx := i\<rparr>)"
    by (auto simp: run_init_def proc_index_def Let_def split: option.splits)
  from f have i: "i < MAX_PROCS" "p_used (procs k ! i)" "p_pid (procs k ! i) = 1" by (auto simp: find_upt_Some)
  have c: "procs k' = procs k" "current_idx k' = i"
    by (simp_all add: r sched_run_def set_kernel_stack_def set_cr3_of_def)
  have "kernel_inv k'" using assms(1) i(1) by (auto simp: r sched_run_def set_kernel_stack_def set_cr3_of_def kernel_inv_def proc_inv_def)
  then show ?thesis using i r(1,2) unfolding c
    by (simp add: r sched_run_def set_kernel_stack_def set_cr3_of_def KSTACK_SIZE_def vmm_set_cr3_def)
qed

lemma boot_fds_inv:
  assumes "proc_inv k" "\<forall>p\<in>set (procs k). \<forall>f\<in>set (p_fds p). file_ok f" "length boot_fds = VFS_MAX_FILES"
  shows "kernel_inv (k\<lparr>k_vfs := v\<lparr>g_fds := vfs_init boot_fds\<rparr>, k_fds := None\<rparr>)"
proof -
  have "vfs_inv (v\<lparr>g_fds := vfs_init boot_fds\<rparr>)" using vfs_init_inv[OF assms(3), of "fs_list v" "v_world v"] by (simp add: vfs_inv_def)
  then show ?thesis using assms(1,2) by (simp add: kernel_inv_def proc_inv_def)
qed

text \<open>
  The invariant that every system call, page fault and timer interrupt keeps holds when \<open>kmain\<close> enters user
  mode: tables as the loader leaves them, all zero, are enough.
\<close>

lemma kmain_user_inv:
  assumes "kmain_user en D garbage images boot_fds k = Some (rip, rsp, k')" "length boot_fds = VFS_MAX_FILES"
    and "proc_inv k" "\<forall>p\<in>set (procs k). \<forall>f\<in>set (p_fds p). file_ok f"
  shows "kernel_inv k' \<and> p_used (cur k') \<and> p_pid (cur k') = 1"
proof -
  let ?k0 = "k\<lparr>k_vfs := (k_vfs k)\<lparr>g_fds := vfs_init boot_fds\<rparr>, k_fds := None\<rparr>"
  have k0: "kernel_inv ?k0" by (rule boot_fds_inv[OF assms(3,4,2)])
  obtain r k1 where m: "on_fs (swiftfs2_mount D garbage 0) ?k0 = (r, k1)" by force
  have k1: "kernel_inv k1" using on_fs_inv[of "swiftfs2_mount D garbage 0" ?k0] m k0 by simp
  from assms(1) m obtain k2 where k2: "(if r = 0 then prepare_userland en D images k1 else Some k1) = Some k2" "run_init k2 = Some (rip, rsp, k')"
    by (auto simp: kmain_user_def Let_def bind_eq_Some_conv)
  have "kernel_inv k2" using k2(1) k1 by (auto split: if_splits dest: prepare_inv)
  from run_init_effect[OF this k2(2)] show ?thesis by simp
qed

lemma kmain_inv:
  assumes "kmain E en heap_pool garbage progs boot_fds h k = Some (h', rip, rsp, k')" "length boot_fds = VFS_MAX_FILES"
    and "length (procs k) = MAX_PROCS" "\<forall>p\<in>set (procs k). length (p_vmas p) = VMA_MAX \<and> length (p_fds p) = VFS_MAX_FILES \<and> (\<forall>f\<in>set (p_fds p). file_ok f)"
  shows "kernel_inv k' \<and> p_used (cur k') \<and> p_pid (cur k') = 1"
proof -
  have "proc_inv (sched_init k)" using sched_init_inv[OF assms(3)] assms(4) by blast
  then have "proc_inv ((sched_init k)\<lparr>k_mmu := m, k_vfs := v\<rparr>)" for m v by (simp add: proc_inv_def)
  moreover have "\<forall>p\<in>set (procs (sched_init k)). \<forall>f\<in>set (p_fds p). file_ok f" using assms(4) by (auto simp: sched_init_def)
  ultimately show ?thesis using assms(1) kmain_user_inv[OF _ assms(2)] by (auto simp: kmain_def Let_def bind_eq_Some_conv)
qed

section \<open>The test of the disk\<close>

lemma ahci_disk_head: "take 512 (ahci_disk sector 0 a b) = sector (a_hba a) 0 (8 * unat b)" if "length (sector (a_hba a) 0 (8 * unat b)) = 512"
  using that by (simp add: ahci_disk_def upt_conv_Cons)

lemma inode_mode_aa: "in_mode (dec_inode (drop (k * 128) bs)) = 0xAAAA" if "take 512 bs = replicate 512 0xAA" "k < 4"
proof -
  have "take 2 (drop (k * 128) bs) = take 2 (drop (k * 128) (take 512 bs))" using that(2) by (simp add: take_drop min_def)
  also have "\<dots> = [0xAA, 0xAA]" unfolding that(1) using that(2) by (simp add: min_def numeral_2_eq_2)
  finally show ?thesis by (simp add: dec_inode_def rd16_def)
qed

text \<open>
  The write test of \<open>kmain\<close> destroys inodes: on a working first port it fills sector 1024 with the byte 0xAA and changes
  no other sector, and on a disk whose inode table starts at block 3, as the image builder lays it out, that sector
  holds the inodes 4000 to 4003.
\<close>

theorem probe_overwrites_inodes:
  assumes C: "ahci_controller H sector ready pending" and ok: "ahci_port_ok ready 0 a" and n: "0 < nports a"
    and tb: "gd_inode_table_block (g_gd s ! 0) = 3" and ino: "4000 \<le> ino" "ino < 4004"
  shows "(\<forall>l. sector (a_hba (probe_disk H a)) 0 l = (if l = 1024 then replicate 512 0xAA else sector (a_hba a) 0 l)) \<and>
    (case inode_block_and_offset ino s of (b, k) \<Rightarrow> in_mode (dec_inode (drop k (ahci_disk sector 0 (probe_disk H a) b))) = 0xAAAA)"
proof -
  obtain a1 where r: "ahci_read H 0 0 1 a = (512, concat (map (sector (a_hba a) 0) [0..<1]), a1)" "ahci_port_ok ready 0 a1" "sector (a_hba a1) = sector (a_hba a)"
    using ahci_controller.ahci_read_ok[OF C ok, of 1 0] by auto
  obtain ps where "[0..<nat (ahci_port_count a)] = 0 # ps" using n by (auto simp: ahci_port_count_def upt_conv_Cons)
  then have p: "probe_loop H [0..<nat (ahci_port_count a)] a = a1" using r(1) by simp
  from ahci_controller.ahci_write_ok[OF C r(2), of 1 1024 "replicate 512 0xAA"] obtain a2 where
    w: "ahci_write H 0 1024 (replicate 512 0xAA) 1 a1 = (512, a2)"
      "\<forall>l. sector (a_hba a2) 0 l = (if 1024 \<le> l \<and> l < 1025 then take 512 (drop (512 * (l - 1024)) (replicate 512 0xAA)) else sector (a_hba a1) 0 l)"
    by auto
  have d: "probe_disk H a = a2" by (simp add: probe_disk_def p w(1))
  have sec: "\<forall>l. sector (a_hba a2) 0 l = (if l = 1024 then replicate 512 0xAA else sector (a_hba a) 0 l)"
    using w(2) r(3) by auto
  have u: "4000 \<le> unat ino" "unat ino < 4004" using ino by (simp_all add: word_le_nat_alt word_less_nat_alt)
  then consider "unat ino = 4000" | "unat ino = 4001" | "unat ino = 4002" | "unat ino = 4003" by linarith
  then have q: "unat ino div 4096 = 0" "unat ino mod 4096 div 32 = 125" "unat ino mod 4096 mod 32 < 4" by (cases; simp)+
  then have b: "inode_block_and_offset ino s = (128, unat ino mod 4096 mod 32 * 128)" by (simp add: inode_block_and_offset_def tb Let_def)
  have "take 512 (ahci_disk sector 0 a2 128) = replicate 512 0xAA"
    using ahci_disk_head[of sector a2 128] sec by simp
  from inode_mode_aa[OF this q(3)] sec show ?thesis by (simp add: d b)
qed

theorem probe_overwrites_inodes_witness:
  "em_sector (a_hba (probe_disk emu_hba ahci_example)) 0 1024 = replicate 512 0xAA"
proof -
  have "0 < nports ahci_example" by (simp add: ahci_example_def)
  from probe_overwrites_inodes[OF emu.ahci_controller_axioms ahci_example_ok this, of fs_ex 4000]
  show ?thesis by (simp add: fs_ex_fields gd_ex_def)
qed

section \<open>A page filled and mapped\<close>

lemma map_filled_page:
  assumes inv: "vm_inv (vm_cr3 m) m" and fr: "n + 4 \<le> free_pages m" and al: "vm_page_alloc m = (x, m0)"
    and m2: "m2 = vmm_map page x flags (m0\<lparr>vm_mem := store_bytes (vm_mem m0) x bs\<rparr>)" and bs: "length bs = 4096"
  shows "x \<noteq> 0" "x \<notin> page_live (vm_pmm m)" "vm_inv (vm_cr3 m) m2" "vm_cr3 m2 = vm_cr3 m" "n \<le> free_pages m2" "plain (vm_cr3 m) m2 x"
    "translate (vm_cr3 m) va m2 = (if vpage va = vpage page then Some (pte_value x flags) else translate (vm_cr3 m) va m)"
    "page_bytes (vm_mem m2) x = bs"
    "plain (vm_cr3 m) m P \<Longrightarrow> plain (vm_cr3 m) m2 P \<and> P \<noteq> x \<and> page_bytes (vm_mem m2) P = page_bytes (vm_mem m) P"
proof -
  let ?cr3 = "vm_cr3 m" and ?m1 = "m0\<lparr>vm_mem := store_bytes (vm_mem m0) x bs\<rparr>"
  have fr0: "0 < free_pages m" using fr by simp
  note fresh = vm_page_alloc_fresh[OF vm_invD(1)[OF inv] fr0 al] and ap = alloc_plain[OF inv fr0 al]
  have ag: "tables_agree ?cr3 m0 ?m1" by (rule plain_store_agree[OF ap(1,2)]) (simp add: bs)
  have inv1: "vm_inv ?cr3 ?m1" by (rule agree_inv[OF ap(1) ag]) (simp_all add: fresh(5))
  have fr1: "3 \<le> free_pages ?m1" "n + 3 \<le> free_pages ?m1" using fresh(8) fr by (simp_all add: free_pages_def)
  have e: "m2 = vmm_map_in_cr3 ?cr3 page x flags ?m1" by (simp add: m2 vmm_map_def vmm_read_cr3_def fresh(7))
  note eff = vmm_map_in_cr3_effect[OF inv1 fr1(1) e] and pl = vmm_map_plain[OF inv1 fr1(1), of _ page x flags, folded e]
  show "x \<noteq> 0" "x \<notin> page_live (vm_pmm m)" using fresh by simp_all
  show "vm_inv ?cr3 m2" "vm_cr3 m2 = ?cr3" using eff fresh(7) by simp_all
  show "n \<le> free_pages m2" unfolding e by (rule vmm_map_free[OF inv1 fr1(2)])
  show "translate ?cr3 va m2 = (if vpage va = vpage page then Some (pte_value x flags) else translate ?cr3 va m)"
    using eff[THEN conjunct2, THEN conjunct2, THEN conjunct2, rule_format, of va] agree_translate[OF ag] ap(5) by simp
  have keep: "plain ?cr3 ?m1 Q" if "plain ?cr3 m0 Q" for Q using that agree_node[OF ag] by (auto simp: plain_def)
  have "page_bytes (vm_mem ?m1) x = bs" using page_store_start[of bs "vm_mem m0" x] bs by (simp add: blit_def)
  then show "plain ?cr3 m2 x" "page_bytes (vm_mem m2) x = bs" using pl[OF keep[OF ap(2)]] by simp_all
  assume P: "plain ?cr3 m P"
  then have P0: "plain ?cr3 m0 P" "P \<noteq> x" using ap(3) by auto
  have "page_bytes (store_bytes (vm_mem m0) (x + of_nat 0) bs) P = page_bytes (vm_mem m0) P"
    by (rule page_store_other[OF fresh(2) plainD(1)[OF P]]) (use P0(2) bs in auto)
  then show "plain ?cr3 m2 P \<and> P \<noteq> x \<and> page_bytes (vm_mem m2) P = page_bytes (vm_mem m) P"
    using pl[OF keep[OF P0(1)]] ap(4) P0(2) by simp
qed

section \<open>Loading a flat program\<close>

definition user_page :: "u8 list \<Rightarrow> u32 \<Rightarrow> nat \<Rightarrow> u8 list" where
  "user_page data code_size i = blit (replicate 4096 0) 0 (user_chunk data code_size i)"

lemma user_chunk_short: "length (user_chunk data code_size i) \<le> 4096"
  by (auto simp: user_chunk_def Let_def word_less_nat_alt not_less)

lemma store_twice: "length bs \<le> 4096 \<Longrightarrow> store_bytes (store_bytes m x (replicate 4096 0)) x bs = store_bytes m x (blit (replicate 4096 0) 0 bs)"
  by (rule ext) (auto simp: store_bytes_def blit_def nth_append)

text \<open>A frame that holds the bytes \<open>bs\<close>, mapped at \<open>va\<close> with the flags \<open>fl\<close>.\<close>

definition holds_page :: "u64 \<Rightarrow> u64 \<Rightarrow> u64 \<Rightarrow> u8 list \<Rightarrow> mmu \<Rightarrow> bool" where
  "holds_page cr3 va fl bs m \<longleftrightarrow> (\<exists>x. translate cr3 va m = Some (pte_value x fl) \<and> plain cr3 m x \<and> page_bytes (vm_mem m) x = bs)"

lemma load_pages_ok:
  "vm_inv (vm_cr3 m) m \<Longrightarrow> 4 * length is + n \<le> free_pages m \<Longrightarrow> distinct (map (\<lambda>i. vpage (USER_BASE + of_nat i * 4096)) is) \<Longrightarrow>
   \<exists>m'. load_pages data sz is m = (True, m') \<and> vm_inv (vm_cr3 m) m' \<and> vm_cr3 m' = vm_cr3 m \<and> n \<le> free_pages m' \<and>
     (\<forall>i\<in>set is. holds_page (vm_cr3 m) (USER_BASE + of_nat i * 4096) (PG_PRESENT OR PG_USER) (user_page data sz i) m') \<and>
     (\<forall>va fl bs. vpage va \<notin> (\<lambda>i. vpage (USER_BASE + of_nat i * 4096)) ` set is \<longrightarrow> holds_page (vm_cr3 m) va fl bs m \<longrightarrow> holds_page (vm_cr3 m) va fl bs m')"
proof (induction "is" arbitrary: m)
  case (Cons i "is")
  obtain x m0 where al: "vm_page_alloc m = (x, m0)" by force
  have f: "(4 * length is + n) + 4 \<le> free_pages m" using Cons.prems(2) by simp
  let ?va = "USER_BASE + of_nat i * 4096"
  define m2 where "m2 = vmm_map ?va x (PG_PRESENT OR PG_USER) (m0\<lparr>vm_mem := store_bytes (vm_mem m0) x (user_page data sz i)\<rparr>)"
  have l: "length (user_page data sz i) = 4096" using user_chunk_short by (simp add: user_page_def)
  note p = map_filled_page[OF Cons.prems(1) f al m2_def l]
  have h: "holds_page (vm_cr3 m) va fl bs m2" if "vpage va \<noteq> vpage ?va" "holds_page (vm_cr3 m) va fl bs m" for va fl bs
    using that p(7)[of va] p(9) by (auto simp: holds_page_def)
  have hi: "holds_page (vm_cr3 m) ?va (PG_PRESENT OR PG_USER) (user_page data sz i) m2"
    using p(6,8) p(7)[of ?va] by (auto simp: holds_page_def)
  have d: "distinct (map (\<lambda>i. vpage (USER_BASE + of_nat i * 4096)) is)" "vpage ?va \<notin> (\<lambda>i. vpage (USER_BASE + of_nat i * 4096)) ` set is"
    using Cons.prems(3) by simp_all
  from Cons.IH[OF p(3)[folded p(4)] p(5) d(1), unfolded p(4)] obtain m' where
    m': "load_pages data sz is m2 = (True, m')" "vm_inv (vm_cr3 m) m'" "vm_cr3 m' = vm_cr3 m" "n \<le> free_pages m'"
      "\<forall>i\<in>set is. holds_page (vm_cr3 m) (USER_BASE + of_nat i * 4096) (PG_PRESENT OR PG_USER) (user_page data sz i) m'"
      "\<forall>va fl bs. vpage va \<notin> (\<lambda>i. vpage (USER_BASE + of_nat i * 4096)) ` set is \<longrightarrow> holds_page (vm_cr3 m) va fl bs m2 \<longrightarrow> holds_page (vm_cr3 m) va fl bs m'"
    by blast
  have "load_pages data sz (i # is) m = (True, m')"
    using p(1) m'(1) by (simp add: al store_twice[OF user_chunk_short] user_page_def[symmetric] m2_def[symmetric] Let_def)
  then show ?case using m' h hi d(2) by (intro exI[of _ m']) auto
qed simp

lemma vpage_inject:
  assumes "vpage a = vpage b" "unat a < 2 ^ 39" "unat b < 2 ^ 39"
  shows "unat a div 4096 = unat b div 4096"
proof -
  have m: "(0x1FF :: u64) = mask 9" by (simp add: mask_eq_exp_minus_1)
  have q: "unat (drop_bit n x AND 0x1FF) = unat x div 2 ^ n mod 512" for n and x :: u64
    unfolding m take_bit_eq_mask[symmetric] unat_take_bit unat_drop_bit_eq by (simp add: drop_bit_eq_div)
  define p r where "p = unat a div 4096" and "r = unat b div 4096"
  have d: "unat x div 2097152 = unat x div 4096 div 512" "unat x div 1073741824 = unat x div 4096 div 512 div 512" for x :: u64
    by (simp_all add: div_mult2_eq[symmetric])
  have e: "p mod 512 = r mod 512" "p div 512 mod 512 = r div 512 mod 512" "p div 512 div 512 mod 512 = r div 512 div 512 mod 512"
    using assms(1) by (simp_all add: vpage_def pt_lookup_def pd_lookup_def pdpt_lookup_def q d p_def r_def)
  have "p < 512 * 512 * 512" "r < 512 * 512 * 512" using assms(2,3) by (simp_all add: p_def r_def less_mult_imp_div_less)
  then have "p div 512 div 512 = r div 512 div 512" using e(3) by (simp add: less_mult_imp_div_less)
  then have "p div 512 = r div 512" using e(2) by (metis div_mult_mod_eq)
  then show ?thesis using e(1) unfolding p_def r_def by (metis div_mult_mod_eq)
qed

lemma user_va: "i < 0x10000 \<Longrightarrow> unat (USER_BASE + of_nat i * 4096) = 4096 * (0x8000 + i)"
proof -
  assume "i < 0x10000"
  moreover have "USER_BASE + of_nat i * 4096 = of_nat (4096 * (0x8000 + i))" by (simp add: USER_BASE_def algebra_simps)
  ultimately show ?thesis by (simp only:) (rule unat_of_nat_small, simp)
qed

lemma user_vpages:
  assumes "i < 0x10000"
  shows "j < 0x10000 \<Longrightarrow> vpage (USER_BASE + of_nat i * 4096) = vpage (USER_BASE + of_nat j * 4096) \<Longrightarrow> i = j"
    "vpage (USER_BASE + of_nat i * 4096) \<noteq> vpage USER_STACK"
proof -
  have u: "unat (USER_BASE + of_nat k * 4096) < 2 ^ 39" if "k < 0x10000" for k using that by (simp add: user_va)
  show "i = j" if "j < 0x10000" "vpage (USER_BASE + of_nat i * 4096) = vpage (USER_BASE + of_nat j * 4096)"
    using vpage_inject[OF that(2) u[OF assms] u[OF that(1)]] assms that(1) by (simp add: user_va)
  show "vpage (USER_BASE + of_nat i * 4096) \<noteq> vpage USER_STACK"
    using vpage_inject[OF _ u[OF assms], of USER_STACK] assms by (auto simp: user_va USER_STACK_def)
qed

text \<open>
  With four free pages for each page of the program and for its stack, \<open>do_load\<close> enters the program at its first
  byte: every page of it is in a frame of its own, readable and executable, padded with zeros, and the page
  under the stack pointer is a writable one of zeros.
\<close>

theorem do_load_correct:
  assumes inv: "vm_inv (vm_cr3 (k_mmu k)) (k_mmu k)" and n: "n = unat ((code_size + 4095) div 4096)" "n < 0x10000" "4 * n + 4 \<le> free_pages (k_mmu k)"
  shows "\<exists>k'. do_load stack_top data code_size k = (Inr (USER_BASE, USER_STACK + 4096), k') \<and> vm_inv (vm_cr3 (k_mmu k)) (k_mmu k') \<and>
    tss_rsp0 k' = stack_top \<and> syscall_kernel_rsp k' = stack_top \<and>
    (\<forall>i<n. holds_page (vm_cr3 (k_mmu k)) (USER_BASE + of_nat i * 4096) (PG_PRESENT OR PG_USER) (user_page data code_size i) (k_mmu k')) \<and>
    holds_page (vm_cr3 (k_mmu k)) USER_STACK (PG_PRESENT OR PG_WRITE OR PG_USER OR PG_NX) (replicate 4096 0) (k_mmu k')"
proof -
  let ?c = "vm_cr3 (k_mmu k)"
  have "inj_on (\<lambda>i. vpage (USER_BASE + of_nat i * 4096)) {0..<n}" using user_vpages(1) n(2) by (intro inj_onI) auto
  then have "distinct (map (\<lambda>i. vpage (USER_BASE + of_nat i * 4096)) [0..<n])" by (simp add: distinct_map)
  from load_pages_ok[OF inv _ this, of 4 data code_size] n(3) obtain m1 where
    m1: "load_pages data code_size [0..<n] (k_mmu k) = (True, m1)" "vm_inv ?c m1" "vm_cr3 m1 = ?c" "4 \<le> free_pages m1"
      "\<forall>i<n. holds_page ?c (USER_BASE + of_nat i * 4096) (PG_PRESENT OR PG_USER) (user_page data code_size i) m1" by auto
  obtain x m0 where al: "vm_page_alloc m1 = (x, m0)" by force
  have f: "0 + 4 \<le> free_pages m1" using m1(4) by simp
  define m2 where "m2 = vmm_map USER_STACK x (PG_PRESENT OR PG_WRITE OR PG_USER OR PG_NX) (m0\<lparr>vm_mem := store_bytes (vm_mem m0) x (replicate 4096 0)\<rparr>)"
  note p = map_filled_page[OF m1(2)[folded m1(3)] f al m2_def length_replicate, unfolded m1(3)]
  have s: "holds_page ?c USER_STACK (PG_PRESENT OR PG_WRITE OR PG_USER OR PG_NX) (replicate 4096 0) m2"
    using p(6,8) p(7)[of USER_STACK] by (auto simp: holds_page_def)
  have "holds_page ?c (USER_BASE + of_nat i * 4096) (PG_PRESENT OR PG_USER) (user_page data code_size i) m2" if "i < n" for i
  proof -
    have "vpage (USER_BASE + of_nat i * 4096) \<noteq> vpage USER_STACK" using that n(2) by (intro user_vpages(2)) simp
    note ne = this and h = m1(5)[rule_format, OF that]
    obtain y where "translate ?c (USER_BASE + of_nat i * 4096) m1 = Some (pte_value y (PG_PRESENT OR PG_USER))" "plain ?c m1 y"
      "page_bytes (vm_mem m1) y = user_page data code_size i" using h unfolding holds_page_def by blast
    then show ?thesis using ne p(7)[of "USER_BASE + of_nat i * 4096"] p(9)[of y] unfolding holds_page_def by (intro exI[of _ y]) simp
  qed
  moreover have "do_load stack_top data code_size k = (Inr (USER_BASE, USER_STACK + 4096), k\<lparr>k_mmu := m2, tss_rsp0 := stack_top, syscall_kernel_rsp := stack_top\<rparr>)"
    using m1(1) p(1) by (simp add: do_load_def n(1)[symmetric] al zero_page_def m2_def)
  ultimately show ?thesis using p(3) s by auto
qed

theorem do_load_correct_witness: "\<exists>k'. do_load 0x9000 [0x90, 0xEB] 2 (kern_init\<lparr>k_mmu := vm_big\<rparr>) = (Inr (0x8000000, 0x7F001000), k')"
proof -
  have "vm_inv (vm_cr3 (k_mmu (kern_init\<lparr>k_mmu := vm_big\<rparr>))) (k_mmu (kern_init\<lparr>k_mmu := vm_big\<rparr>))" using vm_big_inv by (simp add: vm_big_def)
  then show ?thesis using do_load_correct[of "kern_init\<lparr>k_mmu := vm_big\<rparr>" 1 2 "0x9000" "[0x90, 0xEB]"] vm_big_live(4) by (auto simp: USER_BASE_def USER_STACK_def)
qed

section \<open>A boot to user mode\<close>

text \<open>
  C40: When \<open>kmain\<close> enters user mode, process 1 is the current process with its own descriptors, kernel stack and address
  space in force, and the invariant of the kernel holds, so that it holds from there on under every system call,
  page fault and timer interrupt.
\<close>

theorem start_init_correct:
  assumes "kernel_inv k" "create_init en k = Some k1" "run_init k1 = Some (rip, rsp, k')"
  shows "kernel_inv k' \<and> p_used (cur k') \<and> p_pid (cur k') = 1 \<and> k_fds k' = Some (current_idx k') \<and>
    tss_rsp0 k' = p_kstack (cur k') + 4096 \<and> syscall_kernel_rsp k' = p_kstack (cur k') + 4096 \<and>
    (p_cr3 (cur k') \<noteq> 0 \<longrightarrow> vm_cr3 (k_mmu k') = p_cr3 (cur k'))"
  using run_init_effect[OF create_init_inv[OF assms(2,1)] assms(3)] by blast

definition elf_boot :: "u8 list" where
  "elf_boot = [0x7F, 0x45, 0x4C, 0x46, 2] @ replicate 11 0 @ [2, 0, 62, 0] @ replicate 4 0 @ [0, 0, 0, 8, 0, 0, 0, 0] @ replicate 32 0"

definition boot_ops :: "unit vfs_ops" where
  "boot_ops = \<lparr>o_name = ''boot'', o_open = Some (\<lambda>p f w. (0, 0, w)),
     o_read = Some (\<lambda>ys priv sz pos w. if pos = 0 then Returns (64, elf_boot, 64, w) else Returns (0, [], pos, w)),
     o_write = None, o_close = None, o_fstat = None\<rparr>"

definition kern_boot :: "unit kernel" where
  "kern_boot = (kern_ex [])\<lparr>next_pid := 1, k_fds := None, k_mmu := mc_mmu mach_ex,
     k_vfs := vfs_example\<lparr>fs_list := [boot_ops],
       v_world := \<lparr>w_heap = [\<lparr>hb_addr = 0x200000, hb_size = 0x100000, hb_free = True\<rparr>], w_pipes = (\<lambda>a. None), w_sin = [], w_sout = [], w_fs = ()\<rparr>\<rparr>\<rparr>"

definition boot_fd :: "u64 \<Rightarrow> unit vfile" where
  "boot_fd pos = \<lparr>f_ops = Some boot_ops, f_priv = 0, f_pos = pos, f_flags = 0, f_refcount = 1\<rparr>"

definition in_boot :: "u64 \<Rightarrow> unit kernel \<Rightarrow> bool" where
  "in_boot pos k \<longleftrightarrow> (\<exists>v. k = kern_boot\<lparr>k_vfs := v\<rparr> \<and> g_fds v ! 2 = boot_fd pos \<and> length (g_fds v) = 64)"

lemma boot_sys: "sys_vfs f (kern_boot\<lparr>k_vfs := v\<rparr>) = (case f v of Returns (r, v') \<Rightarrow> Some (r, kern_boot\<lparr>k_vfs := v'\<rparr>) | Blocks \<Rightarrow> None | Undef \<Rightarrow> None)"
proof -
  have n: "k_fds kern_boot = None" by (simp add: kern_boot_def)
  then have "vfs_view (kern_boot\<lparr>k_vfs := v\<rparr>) = v" "vfs_put v' (kern_boot\<lparr>k_vfs := v\<rparr>) = kern_boot\<lparr>k_vfs := v'\<rparr>" for v' by (simp_all add: vfs_view_def vfs_put_def)
  then show ?thesis by (simp add: sys_vfs_def split: outcome.splits)
qed

lemma boot_open: "\<exists>k1. sys_vfs (vfs_open (ascii ''/bin/shell'') 0) kern_boot = Some (2, k1) \<and> in_boot 0 k1 \<and> w_heap (v_world (k_vfs k1)) = w_heap (v_world (k_vfs kern_boot))"
proof -
  have e: "kern_boot = kern_boot\<lparr>k_vfs := k_vfs kern_boot\<rparr>" by simp
  have f: "g_fds (k_vfs kern_boot) = g_fds vfs_example" "fs_list (k_vfs kern_boot) = [boot_ops]" by (simp_all add: kern_boot_def)
  let ?w = "v_world (k_vfs kern_boot)"
  have "vfs_open (ascii ''/bin/shell'') 0 (k_vfs kern_boot) = Returns (2, fd_set 2 (boot_fd 0) (k_vfs kern_boot))"
    unfolding vfs_open_def f vfs_open_in.simps by (simp add: boot_ops_def f vfs_example_alloc boot_fd_def)
  then have "sys_vfs (vfs_open (ascii ''/bin/shell'') 0) kern_boot = Some (2, kern_boot\<lparr>k_vfs := fd_set 2 (boot_fd 0) (k_vfs kern_boot)\<rparr>)"
    by (subst e, subst boot_sys) simp
  moreover have "in_boot 0 (kern_boot\<lparr>k_vfs := fd_set 2 (boot_fd 0) (k_vfs kern_boot)\<rparr>)"
    unfolding in_boot_def by (rule exI, rule conjI[OF refl]) (simp add: f length_fds_example)
  ultimately show ?thesis by auto
qed

lemma boot_read:
  assumes "in_boot pos k"
  shows "\<exists>k1. sys_read ys 2 512 k = Some (if pos = 0 then (64, elf_boot) else (0, []), k1) \<and> in_boot (if pos = 0 then 64 else pos) k1"
proof -
  obtain v where v: "k = kern_boot\<lparr>k_vfs := v\<rparr>" "g_fds v ! 2 = boot_fd pos" "length (g_fds v) = 64" using assms by (auto simp: in_boot_def)
  have "\<not> fd_bad 2 (g_fds v)" using v by (simp add: fd_bad_def vfs_consts boot_fd_def)
  then have "vfs_read ys 2 512 v = Returns (if pos = 0 then 64 else 0, if pos = 0 then elf_boot else [],
      (fd_set 2 (boot_fd (if pos = 0 then 64 else pos)) v)\<lparr>v_world := v_world v\<rparr>)"
    using v(2) by (simp add: vfs_read_def boot_fd_def boot_ops_def)
  then have "sys_read ys 2 512 k = Some (if pos = 0 then (64, elf_boot) else (0, []), kern_boot\<lparr>k_vfs := (fd_set 2 (boot_fd (if pos = 0 then 64 else pos)) v)\<lparr>v_world := v_world v\<rparr>\<rparr>)"
    unfolding sys_read_def v(1) boot_sys by simp
  moreover have "in_boot (if pos = 0 then 64 else pos) (kern_boot\<lparr>k_vfs := (fd_set 2 (boot_fd (if pos = 0 then 64 else pos)) v)\<lparr>v_world := v_world v\<rparr>\<rparr>)"
    unfolding in_boot_def by (rule exI, rule conjI[OF refl]) (use v(3) in simp)
  ultimately show ?thesis by blast
qed

lemma boot_close: "in_boot pos k \<Longrightarrow> \<exists>v. sys_vfs (vfs_close 2) k = Some (0, kern_boot\<lparr>k_vfs := v\<rparr>)"
  by (auto simp: in_boot_def boot_sys vfs_close_def fd_bad_def vfs_consts boot_fd_def boot_ops_def Let_def)

lemma length_elf_boot [simp]: "length elf_boot = 64"
  by (simp add: elf_boot_def)

lemma boot_image: "in_boot 0 k \<Longrightarrow> \<exists>k1. exec_read ys 2 buf 65536 [] k = Some (buf, elf_boot, k1) \<and> in_boot 64 k1"
proof -
  assume "in_boot 0 k"
  from boot_read[OF this, of ys] obtain k1 where k1: "sys_read ys 2 512 k = Some ((64, elf_boot), k1)" "in_boot 64 k1" by auto
  from boot_read[OF k1(2), of ys] obtain k2 where k2: "sys_read ys 2 512 k1 = Some ((0, []), k2)" "in_boot 64 k2" by auto
  have "exec_read ys 2 buf 65536 elf_boot k1 = Some (buf, elf_boot, k2)" by (subst exec_read.simps) (simp add: k2(1))
  then have "exec_read ys 2 buf 65536 [] k = Some (buf, elf_boot, k2)" by (subst exec_read.simps) (simp add: k1(1))
  then show ?thesis using k2(2) by blast
qed

lemma boot_header: "elf_hdr (exec_image en elf_boot) = \<lparr>e_magic = ELF_MAGIC, e_class = ELFCLASS64, e_type = ET_EXEC, e_machine = EM_X86_64, e_entry = 0x8000000, e_phoff = 0, e_phnum = 0\<rparr>"
  by (simp add: elf_hdr_def load32_eq load64_eq load16_def load_bytes_def exec_image_def elf_boot_def ELF_MAGIC_def ELFCLASS64_def ET_EXEC_def EM_X86_64_def upt_conv_Cons nth_append)

lemma stack_ok:
  "vm_inv (vm_cr3 m) m \<Longrightarrow> 4 * length vas + n \<le> free_pages m \<Longrightarrow>
   \<exists>m'. elf_stack vas m = (True, m') \<and> vm_inv (vm_cr3 m) m' \<and> vm_cr3 m' = vm_cr3 m \<and> n \<le> free_pages m'"
proof (induction vas arbitrary: m)
  case (Cons va vas)
  obtain x m0 where al: "vm_page_alloc m = (x, m0)" by force
  have f: "(4 * length vas + n) + 4 \<le> free_pages m" using Cons.prems(2) by simp
  define m2 where "m2 = vmm_map va x (PG_PRESENT OR PG_WRITE OR PG_USER OR PG_NX) (m0\<lparr>vm_mem := store_bytes (vm_mem m0) x (replicate 4096 0)\<rparr>)"
  note p = map_filled_page[OF Cons.prems(1) f al m2_def length_replicate]
  have "page_alloc_zero m = (x, m0\<lparr>vm_mem := store_bytes (vm_mem m0) x (replicate 4096 0)\<rparr>)"
    using p(1) by (simp add: page_alloc_zero_def al zero_page_def)
  then show ?case using Cons.IH[OF p(3)[folded p(4)] p(5)] p(1,4) by (simp add: m2_def[symmetric])
qed simp

lemma boot_malloc: "in_boot pos k \<Longrightarrow> w_heap (v_world (k_vfs k)) = w_heap (v_world (k_vfs kern_boot)) \<Longrightarrow> \<exists>p k1. k_kmalloc 65536 k = (p, k1) \<and> p \<noteq> 0 \<and> in_boot pos k1"
proof -
  assume k: "in_boot pos k" and h: "w_heap (v_world (k_vfs k)) = w_heap (v_world (k_vfs kern_boot))"
  have "fst (kmalloc 65536 (w_heap (v_world (k_vfs kern_boot)))) \<noteq> 0"
    by (simp add: kern_boot_def kmalloc_def kmalloc_round_def HB_SIZE_def)
  then show ?thesis using k h by (auto simp: k_kmalloc_def Let_def split_beta in_boot_def)
qed

lemma boot_procs: "procs kern_boot = replicate 64 (proc_ex False 0 0)" "next_pid kern_boot = 1"
  by (simp_all add: kern_boot_def kern_ex_def)

lemma kern_boot_inv: "kernel_inv kern_boot"
proof -
  have f: "file_ok f" if "f \<in> set (g_fds vfs_example)" for f using that vfs_example_inv by (simp add: vfs_inv_def)
  have "vfs_inv (k_vfs kern_boot)" using vfs_example_inv by (simp add: kern_boot_def vfs_inv_def)
  moreover have "proc_inv kern_boot"
    by (simp add: proc_inv_def boot_procs MAX_PROCS_def pids_unique_def proc_ex_ok) (simp add: kern_boot_def kern_ex_def)
  moreover have "p_fds (proc_ex False 0 0) = g_fds vfs_example" by (simp add: proc_ex_def)
  ultimately show ?thesis using f by (simp add: kernel_inv_def boot_procs) (simp add: kern_boot_def)
qed

theorem start_init_correct_witness: "\<exists>k1 rip rsp k'. create_init env_ex kern_boot = Some k1 \<and> run_init k1 = Some (rip, rsp, k') \<and> p_pid (cur k') = 1 \<and> kernel_inv k'"
proof -
  obtain k1 where k1: "sys_vfs (vfs_open (ascii ''/bin/shell'') 0) kern_boot = Some (2, k1)" "in_boot 0 k1" "w_heap (v_world (k_vfs k1)) = w_heap (v_world (k_vfs kern_boot))"
    using boot_open by blast
  obtain p k2 where k2: "k_kmalloc 65536 k1 = (p, k2)" "p \<noteq> 0" "in_boot 0 k2" using boot_malloc[OF k1(2,3)] by blast
  obtain k3 where k3: "exec_read (en_pipe env_ex) 2 p 65536 [] k2 = Some (p, elf_boot, k3)" "in_boot 64 k3" using boot_image[OF k2(3)] by blast
  obtain v where k4: "sys_vfs (vfs_close 2) k3 = Some (0, kern_boot\<lparr>k_vfs := v\<rparr>)" using boot_close[OF k3(2)] by blast
  let ?m = "k_mmu kern_boot"
  have m: "?m = mc_mmu mach_ex" "vm_cr3 (mc_mmu mach_ex) = mc_cr3 mach_ex" by (simp_all add: kern_boot_def mc_mmu_def)
  have "vm_inv (vm_cr3 ?m) ?m" "4 * length [0x7F000000, 0x7F001000, 0x7F002000, 0x7F004000 :: u64] + 1 \<le> free_pages ?m"
    using mach_ex_inv by (simp_all add: m)
  from stack_ok[OF this] obtain m1 where m1: "elf_stack [0x7F000000, 0x7F001000, 0x7F002000, 0x7F004000] ?m = (True, m1)" "vm_inv (vm_cr3 ?m) m1" "1 \<le> free_pages m1" by blast
  have elf: "elf64_load (en_pipe env_ex) (exec_image env_ex elf_boot) (kern_boot\<lparr>k_vfs := v\<rparr>) = Some (0, Some 0x8000000, kern_boot\<lparr>k_vfs := v, k_mmu := m1\<rparr>)"
    by (simp add: elf64_load_def boot_header m1(1) Let_def del: elf_stack.simps)
  obtain ks m2 where al: "vm_page_alloc m1 = (ks, m2)" by force
  have ks: "ks \<noteq> 0" using vm_page_alloc_fresh(1)[OF vm_invD(1)[OF m1(2)] _ al] m1(3) by simp
  let ?k6 = "kern_boot\<lparr>k_vfs := v, k_mmu := m2\<rparr>"
  define k7 where "k7 = snd (proc_create 0x8000000 0x7F003000 (vmm_read_cr3 m2) ks ?k6)"
  have "elf_boot \<noteq> []" by (simp add: elf_boot_def)
  then have c: "create_init env_ex kern_boot = Some (k_kfree p k7)"
    unfolding create_init_def k1(1) using k2(2) ks by (simp add: k2(1) k3(1) k4 elf al k7_def)
  have "slot_alloc ?k6 = 0" by (simp add: slot_alloc_def boot_procs MAX_PROCS_def upt_conv_Cons)
  moreover have "pid_alloc ?k6 = (1, ?k6\<lparr>next_pid := 2\<rparr>)"
  proof -
    have "\<not> pid_taken 1 (?k6\<lparr>next_pid := 2\<rparr>)" by (simp add: pid_taken_def boot_procs MAX_PROCS_def list_ex_iff)
    then show ?thesis unfolding pid_alloc_def by (subst pid_try.simps(2)[of 65535, simplified]) (simp add: boot_procs Let_def)
  qed
  ultimately have q: "p_used (procs k7 ! 0)" "p_pid (procs k7 ! 0) = 1" by (simp_all add: k7_def proc_create_def Let_def put_proc_def boot_procs)
  have "procs (k_kfree p k7) = procs k7" by (simp add: k_kfree_def Let_def)
  then have "proc_index 1 (k_kfree p k7) = 0" using q by (simp add: proc_index_def MAX_PROCS_def upt_conv_Cons)
  then obtain k' where r: "run_init (k_kfree p k7) = Some (0x8000000, 0x7F003000, k')" by (simp add: run_init_def)
  from start_init_correct[OF kern_boot_inv c r] c r show ?thesis by blast
qed

end
