(* ===== verification/SwiftfsProps.thy ===== *)
theory SwiftfsProps
  imports SwiftfsExample
begin

text \<open>
  The properties of the filesystem, stated for every disk that obeys the contract \<open>block_device\<close>, and
  their instances on the drive of the controller model.
\<close>

section \<open>Blocks, caching and allocation\<close>

text \<open>
  C19: The cache is invisible. \<open>cache_get\<close> hands out the current contents of the block, whatever it has to
  evict, and the blocks the filesystem sees stay as they are; storing through the pointer and marking the
  block dirty changes exactly that block. Both keep the cache invariant.
\<close>

theorem cache_transparent:
  assumes "block_device D disk works" "cache_inv disk works s" "length bs = 4096"
  shows "\<exists>i s'. cache_get D b 0 s = (i, s') \<and> cache_inv disk works s' \<and> cache_data i s' = cview disk s b \<and>
    cview disk s' = cview disk s \<and> cache_inv disk works (cache_mark_dirty b 0 (cache_store i bs s')) \<and>
    cview disk (cache_mark_dirty b 0 (cache_store i bs s')) = (cview disk s)(b := bs)"
proof -
  obtain i s' where c: "cache_get D b 0 s = (i, s')" "i < SWIFTFS2_CACHE_SIZE" "cache_inv disk works s'"
    "ce_valid (g_cache s' ! i)" "ce_block (g_cache s' ! i) = b" "cache_data i s' = cview disk s b" "cview disk s' = cview disk s"
    using block_device.cache_get_ok[OF assms(1,2), of b] by metis
  note w = cache_write_ok[OF c(3,2,4,5) assms(3)]
  from c w(1,2) show ?thesis by auto
qed


text \<open>
  Blocks handed out by successive calls of the block allocator are pairwise different and none of them was in
  use before.
\<close>

theorem block_alloc_distinct:
  assumes "block_device D disk works" "alloc_inv disk works s" "all_loaded s"
  shows "distinct (filter (\<lambda>b. b \<noteq> 0) (fst (alloc_many (block_alloc D) n s))) \<and>
    (\<forall>b\<in>set (fst (alloc_many (block_alloc D) n s)). b = 0 \<or> \<not> block_used disk s b)"
  using block_device.blocks_distinct[OF assms(1)] block_device.blocks_fresh[OF assms(1)] assms(2,3) by blast

section \<open>On-disk formats\<close>

text \<open>
  The superblock, the group descriptors and the inodes survive being stored and loaded: decoding the bytes
  of a structure gives the structure back, wherever it lies in its block.
\<close>

theorem formats_roundtrip:
  assumes "super_wf s" "inode_wf i" "length (gd_pad g) = 4" "length pre = k"
  shows "dec_super (enc_super s) = s \<and> dec_inode (drop k (pre @ enc_inode i @ post)) = i \<and> dec_gd (pre @ enc_gd g @ post) k = g"
  using dec_enc_super[OF assms(1)] dec_enc_inode[OF assms(2), of post] dec_enc_gd[of g pre k post] assms(3,4) by simp

text \<open>
  Reading back an inode that was written gives the inode written, through the cache and whatever the disk
  held; every inode in another slot, of the same or another block of the table, reads as before.
\<close>

theorem inode_write_read:
  assumes "block_device D disk works" "cache_inv disk works s" "inode_wf i"
  shows "\<exists>s'. inode_write D ino i s = (0, s') \<and> fst (snd (inode_read D ino s')) = i \<and>
    (\<forall>j. inode_block_and_offset j s \<noteq> inode_block_and_offset ino s \<longrightarrow>
       fst (snd (inode_read D j s')) = fst (snd (inode_read D j s)))"
proof -
  obtain b k where bk: "inode_block_and_offset ino s = (b, k)" by force
  obtain s' where w: "inode_write D ino i s = (0, s')" "cache_inv disk works s'" "inode_at disk s' ino = i"
    "\<And>j. inode_block_and_offset j s \<noteq> (b, k) \<Longrightarrow> inode_at disk s' j = inode_at disk s j"
    using block_device.inode_write_ok[OF assms bk] by metis
  have rd: "fst (snd (inode_read D j t)) = inode_at disk t j" if "cache_inv disk works t" for j t
    using block_device.inode_read_ok[OF assms(1) that, of j] by (metis fst_conv snd_conv)
  show ?thesis using w(1,3,4) rd[OF w(2)] rd[OF assms(2)] by (intro exI[of _ s']) (simp add: bk)
qed

section \<open>Files\<close>

text \<open>The abstract view of a file: the list of its bytes.\<close>

definition file_contents :: "(int \<Rightarrow> 'd \<Rightarrow> u32 \<Rightarrow> u8 list) \<Rightarrow> 'd swiftfs \<Rightarrow> swiftfs2_inode \<Rightarrow> u8 list" where
  "file_contents disk s i = file_bytes disk s i 0 (unat (in_size i))"

text \<open>An open file all of whose bytes below its size have a block.\<close>

definition open_file :: "(int \<Rightarrow> 'd \<Rightarrow> u32 \<Rightarrow> u8 list) \<Rightarrow> (int \<Rightarrow> 'd \<Rightarrow> bool) \<Rightarrow> 'd swiftfs \<Rightarrow> int \<Rightarrow> swiftfs2_inode \<Rightarrow> bool" where
  "open_file disk works s fd i \<longleftrightarrow> fs_file disk works s fd i \<and> unat (in_size i) < 2 ^ 31 \<and> (\<forall>k<unat (in_size i). mapped disk s i k)"

lemma length_file_contents [simp]: "length (file_contents disk s i) = unat (in_size i)"
  by (simp add: file_contents_def)

lemma file_contents_nth: "k < unat (in_size i) \<Longrightarrow> file_contents disk s i ! k = file_byte disk s i k"
  by (simp add: file_contents_def file_bytes_def)

lemma file_contents_part: "p + n \<le> unat (in_size i) \<Longrightarrow> file_bytes disk s i p n = take n (drop p (file_contents disk s i))"
  by (rule nth_equalityI) (simp_all add: file_contents_nth file_bytes_def)

lemma swiftfs2_read_ok':
  assumes "block_device D disk works" "open_file disk works s fd i" "fd_flags (s_fds s ! nat fd) \<noteq> 1"
    and p: "p = unat (fd_pos (s_fds s ! nat fd))" "p < unat (in_size i)" "p + unat sz < 2 ^ 32"
  shows "\<exists>s'. swiftfs2_read D fd sz s = (int (min (unat sz) (unat (in_size i) - p)), take (unat sz) (drop p (file_contents disk s i)), s') \<and>
    open_file disk works s' fd i \<and> cview disk s' = cview disk s \<and>
    s_fds s' = (s_fds s)[nat fd := (s_fds s ! nat fd)\<lparr>fd_pos := of_nat (p + min (unat sz) (unat (in_size i) - p))\<rparr>]"
proof -
  let ?n = "min (unat sz) (unat (in_size i) - p)"
  have o: "fs_file disk works s fd i" "unat (in_size i) < 2 ^ 31" "\<forall>k<unat (in_size i). mapped disk s i k"
    using assms(2) by (simp_all add: open_file_def)
  from block_device.swiftfs2_read_ok[OF assms(1) o(1) assms(3) o(2) _ _ o(3), of sz] p obtain s' where
    r: "swiftfs2_read D fd sz s = (int ?n, file_bytes disk s i p ?n, s')" "fs_file disk works s' fd i" "cview disk s' = cview disk s"
      "s_fds s' = (s_fds s)[nat fd := (s_fds s ! nat fd)\<lparr>fd_pos := of_nat (p + ?n)\<rparr>]" by auto
  have "p + ?n \<le> unat (in_size i)" using p(2) by auto
  then have "file_bytes disk s i p ?n = take (unat sz) (drop p (file_contents disk s i))"
    by (cases "unat sz \<le> unat (in_size i) - p") (simp_all add: file_contents_part)
  moreover have "open_file disk works s' fd i" using r(2,3) o(2,3) view_cong[OF r(3)] by (simp add: open_file_def mapped_def)
  ultimately show ?thesis using r by auto
qed


lemma nth_splice:
  assumes "p \<le> length c" "d \<le> length buf" "k < max (length c) (p + d)"
  shows "(take p c @ take d buf @ drop (p + d) c) ! k = (if p \<le> k \<and> k < p + d then buf ! (k - p) else c ! k)"
  using assms by (auto simp: nth_append min_def less_diff_conv2)

lemma swiftfs2_write_ok':
  assumes "block_device D disk works" "open_file disk works s fd i" "fd_flags (s_fds s ! nat fd) \<noteq> 0"
    and p: "p = unat (fd_pos (s_fds s ! nat fd))" "p \<le> unat (in_size i)" "p + unat sz < 2 ^ 31" "unat sz \<le> length buf"
  shows "\<exists>d i' s'. swiftfs2_write D fd buf sz s = (int d, s') \<and> d \<le> unat sz \<and> open_file disk works s' fd i' \<and>
    file_contents disk s' i' = take p (file_contents disk s i) @ take d buf @ drop (p + d) (file_contents disk s i) \<and>
    s_fds s' = (s_fds s)[nat fd := (s_fds s ! nat fd)\<lparr>fd_pos := of_nat (p + d)\<rparr>] \<and>
    (p + unat sz \<le> unat (in_size i) \<longrightarrow> d = unat sz) \<and>
    (\<forall>b. block_used disk s b \<and> b \<noteq> fst (inode_block_and_offset (fd_inode (s_fds s ! nat fd)) s) \<and> in_indirect i \<noteq> b \<and>
       (\<forall>l. bmap_view disk s i l \<noteq> b) \<longrightarrow> cview disk s' b = cview disk s b)"
proof -
  have o: "fs_file disk works s fd i" "unat (in_size i) < 2 ^ 31" "\<And>k. k < unat (in_size i) \<Longrightarrow> mapped disk s i k"
    using assms(2) by (simp_all add: open_file_def)
  from block_device.swiftfs2_write_ok[OF assms(1) o(1) assms(3), of sz buf] p obtain d i' s' where
    w: "swiftfs2_write D fd buf sz s = (int d, s')" "d \<le> unat sz" "fs_file disk works s' fd i'"
      "in_size i' = of_nat (max (unat (in_size i)) (p + d))"
      "\<And>k. p \<le> k \<and> k < p + d \<Longrightarrow> mapped disk s' i' k \<and> file_byte disk s' i' k = buf ! (k - p)"
      "\<And>k. \<not> (p \<le> k \<and> k < p + d) \<and> mapped disk s i k \<Longrightarrow> mapped disk s' i' k \<and> file_byte disk s' i' k = file_byte disk s i k"
      "\<forall>b. block_used disk s b \<and> b \<noteq> fst (inode_block_and_offset (fd_inode (s_fds s ! nat fd)) s) \<and> in_indirect i \<noteq> b \<and>
         (\<forall>l. bmap_view disk s i l \<noteq> b) \<longrightarrow> cview disk s' b = cview disk s b"
      "s_fds s' = (s_fds s)[nat fd := (s_fds s ! nat fd)\<lparr>fd_pos := of_nat (p + d)\<rparr>]"
      "(\<forall>k. p \<le> k \<and> k < p + unat sz \<longrightarrow> mapped disk s i k) \<longrightarrow> d = unat sz"
    by auto
  have sz: "unat (in_size i') = max (unat (in_size i)) (p + d)"
    unfolding w(4) using o(2) p(3) w(2) by (intro unat_of_nat_small) simp
  have m: "mapped disk s' i' k" if "k < unat (in_size i')" for k
    using w(5,6)[of k] o(3)[of k] that p(2) unfolding sz by (cases "p \<le> k \<and> k < p + d") auto
  have "file_contents disk s' i' = take p (file_contents disk s i) @ take d buf @ drop (p + d) (file_contents disk s i)"
  proof (rule nth_equalityI)
    show "length (file_contents disk s' i') = length (take p (file_contents disk s i) @ take d buf @ drop (p + d) (file_contents disk s i))"
      using p(2,4) w(2) sz by auto
    fix k assume "k < length (file_contents disk s' i')"
    then have k: "k < unat (in_size i')" by simp
    then have "file_contents disk s' i' ! k = (if p \<le> k \<and> k < p + d then buf ! (k - p) else file_contents disk s i ! k)"
      using w(5,6)[of k] o(3)[of k] p(2) by (cases "p \<le> k \<and> k < p + d") (auto simp: file_contents_nth sz)
    also have "\<dots> = (take p (file_contents disk s i) @ take d buf @ drop (p + d) (file_contents disk s i)) ! k"
      using k p(2,4) w(2) sz by (intro nth_splice[symmetric]) simp_all
    finally show "file_contents disk s' i' ! k = (take p (file_contents disk s i) @ take d buf @ drop (p + d) (file_contents disk s i)) ! k" .
  qed
  moreover have "open_file disk works s' fd i'" using w(3) m sz o(2) p(3) w(2) by (simp add: open_file_def)
  moreover have "d = unat sz" if "p + unat sz \<le> unat (in_size i)" using w(9) o(3) that by simp
  ultimately show ?thesis using w(1,2,7,8) by blast
qed


lemma open_file_seek:
  assumes "open_file disk works s fd i"
  shows "open_file disk works (sw_seek fd pos s) fd i" "s_fds (sw_seek fd pos s) ! nat fd = (s_fds s ! nat fd)\<lparr>fd_pos := ucast pos\<rparr>"
    "file_contents disk (sw_seek fd pos s) i = file_contents disk s i"
proof -
  have f: "fs_file disk works s fd i" using assms by (simp add: open_file_def)
  then have "0 \<le> fd" "nat fd < length (s_fds s)" by (auto simp: fs_file_def sfd_bad_def)
  then show n: "s_fds (sw_seek fd pos s) ! nat fd = (s_fds s ! nat fd)\<lparr>fd_pos := ucast pos\<rparr>" by (simp add: sw_seek_def)
  then have "fs_file disk works (sw_seek fd pos s) fd i" using f unfolding fs_file_def Let_def sw_seek_def sfd_bad_def by simp
  then show "open_file disk works (sw_seek fd pos s) fd i" using assms by (simp add: open_file_def) (simp add: sw_seek_def)
  show "file_contents disk (sw_seek fd pos s) i = file_contents disk s i" by (simp add: file_contents_def file_bytes_def sw_seek_def)
qed

text \<open>
  What was written can be read back: after a write of \<open>d\<close> bytes at a position, seeking there and reading \<open>d\<close>
  bytes returns \<open>d\<close> and the bytes that were written.
\<close>

theorem swiftfs2_write_read:
  assumes D: "block_device D disk works" and f: "open_file disk works s fd i"
    and fl: "fd_flags (s_fds s ! nat fd) \<noteq> 0" "fd_flags (s_fds s ! nat fd) \<noteq> 1"
    and p: "p = unat (fd_pos (s_fds s ! nat fd))" "p \<le> unat (in_size i)" "p + unat sz < 2 ^ 31" "unat sz \<le> length buf"
    and w: "swiftfs2_write D fd buf sz s = (int d, s')" "0 < d"
  shows "\<exists>s''. swiftfs2_read D fd (of_nat d) (sw_seek fd (of_nat p) s') = (int d, take d buf, s'')"
proof -
  obtain i' where r: "d \<le> unat sz" "open_file disk works s' fd i'"
      "file_contents disk s' i' = take p (file_contents disk s i) @ take d buf @ drop (p + d) (file_contents disk s i)"
      "s_fds s' = (s_fds s)[nat fd := (s_fds s ! nat fd)\<lparr>fd_pos := of_nat (p + d)\<rparr>]"
    using swiftfs2_write_ok'[OF D f fl(1) p] w(1) by auto
  let ?t = "sw_seek fd (of_nat p) s'"
  note S = open_file_seek[OF r(2), of "of_nat p"]
  have d: "unat (of_nat d :: u32) = d" using r(1) p(3) by (intro unat_of_nat_small) simp
  have pos: "unat (fd_pos (s_fds ?t ! nat fd)) = p"
  proof -
    have "unat (of_nat p :: u64) = p" using p(3) by (intro unat_of_nat_small) simp
    then show ?thesis using p(3) unfolding S(2) by (simp add: unat_ucast_small)
  qed
  have len: "unat (in_size i') = p + d + (unat (in_size i) - (p + d))"
    using arg_cong[OF r(3), of length] p(2,4) r(1) by simp
  have "fd_flags (s_fds ?t ! nat fd) \<noteq> 1"
    unfolding S(2) using fl(2) r(4) by (cases "nat fd < length (s_fds s)") (simp_all add: list_update_beyond)
  from swiftfs2_read_ok'[OF D S(1) this pos[symmetric], of "of_nat d"] len w(2) d p(3) r(1)
  obtain s'' where "swiftfs2_read D fd (of_nat d) ?t = (int d, take d (drop p (file_contents disk ?t i')), s'')" by auto
  moreover have "take d (drop p (file_contents disk ?t i')) = take d buf" unfolding S(3) r(3) using p(2,4) r(1) by simp
  ultimately show ?thesis by auto
qed

section \<open>Directories\<close>

context block_device
begin

lemma bmap_first: "in_direct inode ! 0 = pb \<Longrightarrow> bmap_read D inode 0 False s = (pb, inode, s)"
  by (simp add: bmap_read_def)

text \<open>The lookup in the first block of a directory.\<close>

lemma dir_lookup_first:
  assumes "cache_inv disk works s" "in_direct inode ! 0 = pb" "pb \<noteq> 0"
  shows "dir_find (cview disk s pb) name 0 = Some ino \<Longrightarrow> fst (dir_lookup D inode name 0 s) = Some ino"
    and "dir_find (cview disk s pb) name 0 = None \<Longrightarrow> in_direct inode ! 1 = 0 \<Longrightarrow> fst (dir_lookup D inode name 0 s) = None"
proof -
  obtain c s1 where c: "cache_get D pb 0 s = (c, s1)" "cache_data c s1 = cview disk s pb"
    using cache_get_ok[OF assms(1), of pb] by metis
  show "dir_find (cview disk s pb) name 0 = Some ino \<Longrightarrow> fst (dir_lookup D inode name 0 s) = Some ino"
    using c assms(3) by (subst dir_lookup.simps) (simp add: bmap_first[OF assms(2)])
  show "dir_find (cview disk s pb) name 0 = None \<Longrightarrow> in_direct inode ! 1 = 0 \<Longrightarrow> fst (dir_lookup D inode name 0 s) = None"
    using c assms(3) by (subst dir_lookup.simps, simp add: bmap_first[OF assms(2)])
      (subst dir_lookup.simps, simp add: bmap_read_def)
qed

text \<open>Replacing the data of the first block, as adding and removing an entry do.\<close>

lemma first_block_store:
  assumes "cache_inv disk works s" "length data = 4096"
  obtains c s1 where "cache_get D pb 0 s = (c, s1)" "cache_data c s1 = cview disk s pb"
    "cache_inv disk works (cache_mark_dirty pb 0 (cache_store c data s1))"
    "cview disk (cache_mark_dirty pb 0 (cache_store c data s1)) = (cview disk s)(pb := data)"
proof -
  obtain c s1 where c: "cache_get D pb 0 s = (c, s1)" "c < SWIFTFS2_CACHE_SIZE" "cache_inv disk works s1" "ce_valid (g_cache s1 ! c)"
    "ce_block (g_cache s1 ! c) = pb" "cache_data c s1 = cview disk s pb" "cview disk s1 = cview disk s"
    using cache_get_ok[OF assms(1), of pb] by metis
  from cache_write_ok(1,2)[OF c(3,2,4,5) assms(2)] c(7) show thesis by (intro that[OF c(1,6)]) simp_all
qed

end

lemma dir_slot_live:
  "live_upto data name p q \<Longrightarrow> q < 4096 \<Longrightarrow> de_inode data q = 0 \<Longrightarrow> reclen \<le> de_rec_len data q \<Longrightarrow> dir_slot data reclen p = Some q"
proof (induction rule: live_upto.induct)
  case (live_here p)
  then show ?case by (subst dir_slot.simps) simp
next
  case (live_next p q)
  then have "de_rec_len data p \<noteq> 0" by auto
  with live_next show ?case by (subst dir_slot.simps) simp
qed


text \<open>
  Removing a name hides the names behind it. \<open>swiftfs2_unlink\<close> clears the inode number of the entry in place,
  and the lookup stops at such an entry: a name that was found through a later entry of a one-block
  directory is not found any more, although its entry is still there.
\<close>

theorem unlink_hides_later_names:
  assumes D: "block_device D disk works" and inv: "cache_inv disk works s"
    and pb: "in_direct inode ! 0 = pb" "pb \<noteq> 0" "in_direct inode ! 1 = 0" and data: "cview disk s pb = data"
    and f: "unlink_find data name 0 = Some (Some pos)" "pos + 4 \<le> 4096"
    and other: "live_upto data other 0 pos" "dir_find data other 0 = Some ino" "length other \<le> 254"
  shows "fst (dir_lookup D inode other 0 s) = Some ino \<and>
    (\<exists>s'. unlink_entry D inode name 0 s = Some (True, s') \<and> fst (dir_lookup D inode other 0 s') = None)"
proof
  show "fst (dir_lookup D inode other 0 s) = Some ino"
    using block_device.dir_lookup_first(1)[OF D inv pb(1,2)] other(2) data by simp
  have len: "length data = 4096" using block_device.cview_length[OF D inv, of pb] data by simp
  then have "length (wr32 data pos 0) = 4096" using f(2) by simp
  from block_device.first_block_store[OF D inv this, of pb] obtain c s1 where
    c: "cache_get D pb 0 s = (c, s1)" "cache_data c s1 = cview disk s pb"
      "cache_inv disk works (cache_mark_dirty pb 0 (cache_store c (wr32 data pos 0) s1))"
      "cview disk (cache_mark_dirty pb 0 (cache_store c (wr32 data pos 0) s1)) = (cview disk s)(pb := wr32 data pos 0)" by metis
  let ?s = "cache_mark_dirty pb 0 (cache_store c (wr32 data pos 0) s1)"
  have "unlink_entry D inode name 0 s = Some (True, ?s)"
    using c(1,2) pb(2) data f(1) by (subst unlink_entry.simps) (simp add: block_device.bmap_first[OF D pb(1)])
  moreover have "dir_find (cview disk ?s pb) other 0 = None"
    using dir_find_zeroed[OF len f(2) other(1,3)] c(4) by simp
  then have "fst (dir_lookup D inode other 0 ?s) = None" by (rule block_device.dir_lookup_first(2)[OF D c(3) pb(1,2) _ pb(3)])
  ultimately show "\<exists>s'. unlink_entry D inode name 0 s = Some (True, s') \<and> fst (dir_lookup D inode other 0 s') = None" by blast
qed

text \<open>A block whose live entries all have a length: the chain of entries ends.\<close>

function dir_chain :: "u8 list \<Rightarrow> nat \<Rightarrow> bool" where
  "dir_chain data pos =
     (if pos \<ge> 4096 \<or> de_inode data pos = 0 then True
      else if de_rec_len data pos = 0 then False else dir_chain data (pos + unat (de_rec_len data pos)))"
  by pat_completeness auto
termination
  by (relation "measure (\<lambda>(data, pos). 4096 - pos)") (auto simp: unat_gt_0[symmetric])

declare dir_chain.simps [simp del]

lemma unlink_find_chain:
  "dir_chain data pos \<Longrightarrow> \<exists>r. unlink_find data name pos = Some r \<and> map_option (de_inode data) r = dir_find data name pos"
proof (induction data pos rule: dir_chain.induct)
  case (1 data pos)
  consider "pos \<ge> 4096 \<or> de_inode data pos = 0" | "pos < 4096" "de_inode data pos \<noteq> 0" "de_rec_len data pos \<noteq> 0"
      "dir_chain data (pos + unat (de_rec_len data pos))"
    using "1.prems" by (subst (asm) dir_chain.simps) (auto split: if_splits)
  then show ?case
  proof cases
    case a: 1
    then show ?thesis by (subst unlink_find.simps, subst dir_find.simps) auto
  next
    case b: 2
    then show ?thesis using "1.IH" by (subst unlink_find.simps, subst dir_find.simps) (auto simp: not_le)
  qed
qed

text \<open>
  On a block whose chain of entries is intact the search of \<open>swiftfs2_unlink\<close> ends, and it agrees with the lookup:
  it finds an entry exactly when the lookup finds the name, and the entry carries the inode the lookup gives.
\<close>

theorem unlink_search_agrees:
  assumes "dir_chain data 0"
  shows "\<exists>r. unlink_find data name 0 = Some r \<and> map_option (de_inode data) r = dir_find data name 0"
  by (rule unlink_find_chain[OF assms])

lemma unlink_find_live: "live_upto data name p q \<Longrightarrow> unlink_find data name p = unlink_find data name q"
proof (induction rule: live_upto.induct)
  case (live_next p q)
  then show ?case by (subst unlink_find.simps) simp
qed simp

text \<open>
  The search of \<open>swiftfs2_unlink\<close> does not end on a damaged block: it lacks the test for a record of length zero that
  the lookup has, so from such a record it never advances, while the lookup reports that the name is not there.
\<close>

theorem unlink_search_diverges:
  assumes "live_upto data name 0 pos" "pos < 4096" "de_inode data pos \<noteq> 0" "\<not> de_match data pos name" "de_rec_len data pos = 0"
  shows "unlink_find data name 0 = None \<and> dir_find data name 0 = None"
proof
  show "unlink_find data name 0 = None" using unlink_find_stuck[OF assms(2-5)] unlink_find_live[OF assms(1)] by simp
  have "dir_find data name pos = None" using assms(2-5) by (subst dir_find.simps) simp
  then show "dir_find data name 0 = None" using dir_find_live[OF assms(1)] by simp
qed

section \<open>Paths\<close>

text \<open>
  The reference: the non-empty parts of the path between slashes, looked up one after the other from the
  root inode 1.
\<close>

primrec walk_names :: "'d blkdev \<Rightarrow> cstring list \<Rightarrow> u32 \<Rightarrow> 'd swiftfs \<Rightarrow> u32 option \<times> 'd swiftfs" where
  "walk_names D [] ino s = (Some ino, s)"
| "walk_names D (n # ns) ino s =
     (case inode_read D ino s of (r, inode, s1) \<Rightarrow>
      if r < 0 \<or> in_mode inode AND S_IFDIR = 0 then (None, s1)
      else case dir_lookup D inode n 0 s1 of (None, s2) \<Rightarrow> (None, s2) | (Some ino', s2) \<Rightarrow> walk_names D ns ino' s2)"

lemma path_next_names:
  assumes "\<forall>n\<in>set (path_names [] p). length n \<le> 254"
  shows "case path_next p of None \<Rightarrow> path_names [] p = [] | Some (rest, n) \<Rightarrow> path_names [] p = n # path_names [] rest"
proof -
  let ?p = "dropWhile (\<lambda>c. c = 47) p" and ?w = "takeWhile (\<lambda>c. c \<noteq> 47) (dropWhile (\<lambda>c. c = 47) p)"
  show ?thesis
  proof (cases "?p = []")
    case True
    have "path_names [] p = []" using path_names_slashes[of p] unfolding True by simp
    moreover have "path_next p = None" unfolding path_next_def Let_def True by simp
    ultimately show ?thesis by simp
  next
    case False
    then have "hd ?p \<noteq> 47" using hd_dropWhile[of "\<lambda>c. c = 47" p] by simp
    then have "?w \<noteq> []" using False by (cases ?p) simp_all
    then have n: "path_names [] p = ?w # path_names [] (dropWhile (\<lambda>c. c \<noteq> 47) ?p)"
      using path_names_word[of "[]" ?p] path_names_slashes[of p] by simp
    then have "length ?w \<le> 254" using assms by simp
    then have "path_next p = Some (drop (length ?w) ?p, ?w)" using False by (simp add: path_next_def Let_def)
    moreover have "drop (length ?w) ?p = dropWhile (\<lambda>c. c \<noteq> 47) ?p" by (rule dropWhile_eq_drop[symmetric])
    ultimately show ?thesis using n by simp
  qed
qed

lemma path_walk_loop_names:
  "\<forall>n\<in>set (path_names [] path). length n \<le> 254 \<Longrightarrow> path_walk_loop D ino cname path s = walk_names D (cname # path_names [] path) ino s"
proof (induction D ino cname path s rule: path_walk_loop.induct)
  case (1 D ino cname path s)
  obtain r inode s1 where rd: "inode_read D ino s = (r, inode, s1)" by (metis prod_cases3)
  obtain l s2 where lk: "dir_lookup D inode cname 0 s1 = (l, s2)" by force
  note step = path_walk_loop.simps[of D ino cname path s]
  show ?case
  proof (cases "r < 0 \<or> in_mode inode AND S_IFDIR = 0 \<or> l = None")
    case True
    then show ?thesis by (auto simp: step rd lk)
  next
    case False
    then obtain ino' where l: "l = Some ino'" by auto
    note pn = path_next_names[OF "1.prems"]
    show ?thesis
    proof (cases "path_next path")
      case None
      then show ?thesis using False l pn by (simp add: step rd lk)
    next
      case (Some x)
      obtain path' cname' where x: "x = (path', cname')" by force
      then have n: "path_names [] path = cname' # path_names [] path'" using pn Some by simp
      have "path_walk_loop D ino' cname' path' s2 = walk_names D (cname' # path_names [] path') ino' s2"
        using "1.IH" False "1.prems" n rd lk l Some x by auto
      then show ?thesis using False l Some x n by (simp add: step rd lk)
    qed
  qed
qed

text \<open>
  C24: \<open>path_walk\<close> is the walk over the components of the path: for components of at most 254 bytes it gives what
  looking up the parts between slashes one by one from the root gives, whatever number of slashes separate
  or surround them; the empty path and paths of slashes give the root.
\<close>

theorem path_walk_components:
  assumes "\<forall>n\<in>set (path_names [] path). length n \<le> 254"
  shows "path_walk D path s = walk_names D (path_names [] path) 1 s"
proof (cases "path_next path")
  case None
  then show ?thesis using path_next_names[OF assms] by (simp add: path_walk_def)
next
  case (Some x)
  obtain path' n where x: "x = (path', n)" by force
  then have e: "path_names [] path = n # path_names [] path'" using path_next_names[OF assms] Some by simp
  then have "path_walk_loop D 1 n path' s = walk_names D (n # path_names [] path') 1 s" using assms by (intro path_walk_loop_names) simp
  then show ?thesis using Some x e by (simp add: path_walk_def)
qed

section \<open>Mounting and syncing\<close>

text \<open>
  Mounting fails with -1 and leaves the filesystem unmounted when it is mounted already, in which case nothing
  changes, and when the superblock cannot be read, has another magic number or another block size.
\<close>

theorem swiftfs2_mount_errors:
  assumes "length (enc_super (sb s)) = 4096"
    and "bd_read D port 0 8 (s_dev s) = (r, bytes, d)" "length bytes = 4096"
  shows "(if g_mounted s then swiftfs2_mount D garbage port s = (-1, s)
     else if r < 0 \<or> rd64 bytes 0 \<noteq> SWIFTFS2_MAGIC \<or> rd64 bytes 8 \<noteq> 4096
     then fst (swiftfs2_mount D garbage port s) = -1 \<and> \<not> g_mounted (snd (swiftfs2_mount D garbage port s)) else True)"
proof (cases "g_mounted s")
  case True
  then show ?thesis by (simp add: swiftfs2_mount_def)
next
  case False
  let ?s0 = "s\<lparr>g_port := port, g_cache := replicate SWIFTFS2_CACHE_SIZE cache_zero,
          s_fds := replicate SWIFTFS2_MAX_FD fd_clear, g_cache_next := 0\<rparr>"
  have rb: "read_block D 0 ?s0 = (r, bytes, ?s0\<lparr>s_dev := d\<rparr>)" using assms(2) by (simp add: read_block_def fs_block_to_sector_def)
  have "length (enc_super (sb (?s0\<lparr>s_dev := d\<rparr>))) = 4096" using assms(1) by simp
  from swiftfs2_mount_rejects[OF False rb assms(3) this] False show ?thesis by simp
qed

text \<open>
  C25: After \<open>swiftfs2_sync\<close> the disk holds what the filesystem sees: every block other than the superblock, the group
  descriptors and the bitmaps, which sync writes from their own copies, is on the disk as the cache had it.
\<close>

theorem swiftfs2_sync_durable:
  assumes "block_device D disk works" "cache_inv disk works s" "g_mounted s" "super_wf (sb s)"
    and "\<forall>i<nat (sint (sb_group_desc_count (sb s))). length (take 4096 (drop (i * 4096) (gd_bytes s))) = 4096"
    and "\<forall>g<nat (g_nr_groups s). \<forall>p bm. g_bitmaps s ! g = Some (p, bm) \<longrightarrow> length bm = 4096"
    and "b \<noteq> 0" "\<forall>i<nat (sint (sb_group_desc_count (sb s))). b \<noteq> of_nat (1 + i)"
      "\<forall>g<nat (g_nr_groups s). b \<noteq> gd_block_bitmap_block (g_gd s ! g)"
  shows "fst (swiftfs2_sync D s) = 0 \<and> disk (g_port s) (s_dev (snd (swiftfs2_sync D s))) b = cview disk s b"
  using block_device.swiftfs2_sync_ok[OF assms] .

section \<open>Instances\<close>

abbreviation adev_ok :: bool where "adev_ok \<equiv> block_device adev adisk aworks"

lemmas adev_device = emu.is_block_device

theorem cache_transparent_witness:
  "\<exists>i s'. cache_get adev 10 0 fs_ex = (i, s') \<and> cache_data i s' = adisk 0 drive_ex 10 \<and>
    cview adisk (cache_mark_dirty 10 0 (cache_store i (replicate 4096 7) s')) = (adisk 0 drive_ex)(10 := replicate 4096 7)"
  using cache_transparent[OF adev_device fs_ex_cache, of "replicate 4096 7" 10] fs_ex_view by auto


theorem block_alloc_distinct_witness: "distinct (filter (\<lambda>b. b \<noteq> 0) (fst (alloc_many (block_alloc adev) 3 fs_ex)))"
  using block_alloc_distinct[OF adev_device, of fs_ex 3] fs_ex_inv by (simp add: fs_inv_def)

theorem formats_roundtrip_witness: "dec_inode (drop 1 ([9] @ enc_inode inode_ex @ [9])) = inode_ex"
  using formats_roundtrip[of super_ex inode_ex gd_ex "[9]" 1 "[9]"] inode_ex_wf by (simp add: super_ex_def super_wf_def gd_ex_def)

theorem inode_write_read_witness: "\<exists>s'. inode_write adev 2 inode_zero fs_ex = (0, s') \<and> fst (snd (inode_read adev 2 s')) = inode_zero"
  using inode_write_read[OF adev_device fs_ex_cache inode_zero_wf, of 2] by blast

lemma fs_ex_open: "open_file adisk aworks fs_ex 2 inode_ex"
  using fs_ex_file fs_ex_mapped by (simp add: open_file_def) (simp add: inode_ex_def inode_zero_def)

lemma fs_ex_fd: "s_fds fs_ex ! 2 = \<lparr>fd_inode = 2, fd_pos = 0, fd_flags = 2, fd_dirty = False\<rparr>"
  by (simp add: fs_ex_fields SWIFTFS2_MAX_FD_def)

lemma inode_ex_size: "unat (in_size inode_ex) = 5"
  by (simp add: inode_ex_def)

lemma fs_ex_contents: "file_contents adisk fs_ex inode_ex = [104, 101, 108, 108, 111]"
proof -
  have "adisk 0 drive_ex 10 = drive_sector 80 @ concat (map drive_sector [81..<88])" by (simp add: drive_disk upt_conv_Cons)
  then obtain rest where "adisk 0 drive_ex 10 = [104, 101, 108, 108, 111] @ rest" by (simp add: drive_sector_def)
  then have d: "adisk 0 drive_ex 10 ! k = [104, 101, 108, 108, 111] ! k" if "k < 5" for k
    using that by (simp only: nth_append) simp
  have f: "file_byte adisk fs_ex inode_ex k = [104, 101, 108, 108, 111] ! k" if "k < 5" for k
    using that d[OF that] by (simp add: file_byte_def inode_ex_view fs_ex_view)
  have "file_contents adisk fs_ex inode_ex = map (file_byte adisk fs_ex inode_ex) [0..<5]"
    by (simp add: file_contents_def file_bytes_def inode_ex_size)
  also have "\<dots> = map ((!) [104, 101, 108, 108, 111]) [0..<5]" using f by (intro map_cong) simp_all
  also have "\<dots> = [104, 101, 108, 108, 111]" by (simp add: upt_conv_Cons)
  finally show ?thesis .
qed



theorem swiftfs2_write_read_witness:
  "\<exists>s' s''. swiftfs2_write adev 2 [72, 69] 2 fs_ex = (2, s') \<and> swiftfs2_read adev 2 2 (sw_seek 2 0 s') = (2, [72, 69], s'')"
proof -
  have fl: "fd_flags (s_fds fs_ex ! nat 2) \<noteq> 0" "fd_flags (s_fds fs_ex ! nat 2) \<noteq> 1" "0 = unat (fd_pos (s_fds fs_ex ! nat 2))"
    by (simp_all add: fs_ex_fd)
  obtain s' where "swiftfs2_write adev 2 [72, 69] 2 fs_ex = (int 2, s')"
    using swiftfs2_write_ok'[OF adev_device fs_ex_open fl(1,3), of 2 "[72, 69]"] by (auto simp: inode_ex_size)
  with swiftfs2_write_read[OF adev_device fs_ex_open fl, of 2 "[72, 69]" 2 s'] show ?thesis by (auto simp: inode_ex_size)
qed

definition dir_block_ex :: "u8 list" where "dir_block_ex = dir_ex @ replicate 4064 0"

lemma dir_block_fields:
  "de_inode dir_block_ex 0 = 2" "de_rec_len dir_block_ex 0 = 12" "de_name_len dir_block_ex 0 = 1" "de_name dir_block_ex 0 1 = [97]"
  "de_inode dir_block_ex 12 = 3" "de_rec_len dir_block_ex 12 = 12" "de_name_len dir_block_ex 12 = 1" "de_name dir_block_ex 12 1 = [98]"
  "de_inode dir_block_ex 24 = 0" "de_rec_len dir_block_ex 24 = 4072"
  by (simp_all add: dir_block_ex_def dir_ex_def de_inode_def de_rec_len_def de_name_len_def de_name_def rd32_def rd16_def)

lemma dir_block_match:
  "de_match dir_block_ex 0 name \<longleftrightarrow> name = [97]" "de_match dir_block_ex 12 name \<longleftrightarrow> name = [98]" if "length name = 1"
  using that dir_block_fields by (auto simp: de_match_def)

lemma live_a: "live_upto dir_block_ex [98] 0 12"
  by (rule live_next) (simp_all add: dir_block_fields dir_block_match live_here)

lemma live_ab: "live_upto dir_block_ex [99] 0 24"
proof -
  have "live_upto dir_block_ex [99] 12 24"
    by (rule live_next) (simp_all add: dir_block_fields dir_block_match live_here)
  then show ?thesis by (intro live_next[of 0]) (simp_all add: dir_block_fields dir_block_match)
qed

lemma root_ex_direct: "in_direct root_ex ! 0 = 11" "in_direct root_ex ! 1 = 0"
  by (simp_all add: root_ex_def)

lemma reclen_one: "dirent_reclen [x] = 12"
  by (simp add: dirent_reclen_def)


lemma dir_block_finds: "dir_find dir_block_ex [98] 0 = Some 3"
proof -
  have "dir_find dir_block_ex [98] 12 = Some 3" by (subst dir_find.simps) (simp add: dir_block_fields dir_block_match)
  then show ?thesis using dir_find_live[OF live_a] by simp
qed

theorem unlink_hides_later_names_witness:
  "fst (dir_lookup adev root_ex [98] 0 fs_ex) = Some 3 \<and>
   (\<exists>s'. unlink_entry adev root_ex [97] 0 fs_ex = Some (True, s') \<and> fst (dir_lookup adev root_ex [98] 0 s') = None)"
proof -
  have "unlink_find dir_block_ex [97] 0 = Some (Some 0)" by (subst unlink_find.simps) (simp add: dir_block_fields dir_block_match)
  then show ?thesis
    using unlink_hides_later_names[OF adev_device fs_ex_cache root_ex_direct(1) _ root_ex_direct(2) fs_ex_dir[folded dir_block_ex_def] _ _
        live_here dir_block_finds, of "[97]"] by simp
qed

theorem unlink_search_agrees_witness: "\<exists>r. unlink_find dir_block_ex [98] 0 = Some r \<and> map_option (de_inode dir_block_ex) r = Some 3"
proof -
  have "dir_chain dir_block_ex 24" by (subst dir_chain.simps) (simp add: dir_block_fields)
  then have "dir_chain dir_block_ex 12" by (subst dir_chain.simps) (simp add: dir_block_fields)
  then have "dir_chain dir_block_ex 0" by (subst dir_chain.simps) (simp add: dir_block_fields)
  from unlink_search_agrees[OF this, of "[98]"] show ?thesis by (simp add: dir_block_finds)
qed

theorem unlink_search_diverges_witness: "unlink_find ([1] @ replicate 4095 0) [98] 0 = None"
proof -
  have "de_inode ([1] @ replicate 4095 0) 0 = 1" "de_rec_len ([1] @ replicate 4095 0) 0 = 0" "de_name_len ([1] @ replicate 4095 0) 0 = 0"
    by (simp_all add: de_inode_def de_rec_len_def de_name_len_def rd32_def rd16_def numeral_eq_Suc)
  then show ?thesis using unlink_search_diverges[of "[1] @ replicate 4095 0" "[98]" 0] live_here by (simp add: de_match_def)
qed

theorem path_walk_components_witness:
  "path_walk adev [47, 47, 97, 47, 98, 47] fs_ex = walk_names adev [[97], [98]] 1 fs_ex"
  using path_walk_components[of "[47, 47, 97, 47, 98, 47]" adev fs_ex] by simp

theorem swiftfs2_mount_errors_witness:
  "fst (swiftfs2_mount \<lparr>bd_read = \<lambda>p lba n d. (4096, replicate 4096 0, d), bd_write = \<lambda>p lba b n d. (4096, d)\<rparr> [] 0 (fs_ex\<lparr>g_mounted := False\<rparr>)) = -1"
proof -
  have "length (enc_super (sb (fs_ex\<lparr>g_mounted := False\<rparr>))) = 4096"
    using length_enc_super[of super_ex] by (simp add: fs_ex_fields super_ex_def super_wf_def)
  moreover have "rd64 (replicate 4096 0) 0 = 0" by (simp add: rd64_def numeral_eq_Suc)
  ultimately show ?thesis
    using swiftfs2_mount_errors[of "fs_ex\<lparr>g_mounted := False\<rparr>" "\<lparr>bd_read = \<lambda>p lba n d. (4096, replicate 4096 0, d), bd_write = \<lambda>p lba b n d. (4096, d)\<rparr>"
        0 4096 "replicate 4096 0" drive_ex "[]"] by (simp add: fs_ex_fields SWIFTFS2_MAGIC_def)
qed

theorem swiftfs2_sync_durable_witness:
  "fst (swiftfs2_sync adev fs_ex) = 0 \<and> adisk 0 (s_dev (snd (swiftfs2_sync adev fs_ex))) 10 = adisk 0 drive_ex 10"
proof -
  have "length (gd_bytes fs_ex) = 4096" by (simp add: gd_bytes_def fs_ex_fields length_concat length_enc_gd gd_ex_def sum_list_replicate)
  moreover have "super_wf (sb fs_ex)" "sint (sb_group_desc_count (sb fs_ex)) = 1" by (simp_all add: fs_ex_fields super_ex_def super_wf_def)
  ultimately show ?thesis
    using swiftfs2_sync_durable[OF adev_device fs_ex_cache, of 10] length_bits_ex fs_ex_view by (simp add: fs_ex_fields gd_ex_def)
qed

end
