(* ===== verification/Programs.thy ===== *)
theory Programs
  imports SwiftfsProps Console "HOL-Library.Monad_Syntax"
begin

text \<open>
  The programs \<open>ls\<close>, \<open>cat\<close> and \<open>echo\<close> of \<open>src/userland\<close>. The system calls they make are a parameter, a record of what each
  call answers and does to the state behind it; the output is the list of the bytes they write. A read outside the
  buffer of \<open>ls\<close> is \<^const>\<open>None\<close>, as is a \<open>cat\<close> that never ends.
\<close>

section \<open>Programs\<close>

record 'k ucalls =
  uc_open :: "cstring \<Rightarrow> int \<Rightarrow> 'k \<Rightarrow> int \<times> 'k"
  uc_fstat :: "int \<Rightarrow> 'k \<Rightarrow> int \<times> u16 \<times> 'k"
  uc_read :: "int \<Rightarrow> nat \<Rightarrow> 'k \<Rightarrow> int \<times> u8 list \<times> 'k"
  uc_close :: "int \<Rightarrow> 'k \<Rightarrow> 'k"

definition S_ISDIR :: "u16 \<Rightarrow> bool" where "S_ISDIR m \<longleftrightarrow> m AND 0x4000 \<noteq> 0"

definition echo :: "cstring \<Rightarrow> u8 list" where
  "echo msg = (if msg = [] then [10] else msg @ [10])"

partial_function (option) cat_loop :: "'k ucalls \<Rightarrow> int \<Rightarrow> 'k \<Rightarrow> (u8 list \<times> 'k) option" where
  "cat_loop U fd k =
     (let (n, buf, k1) = uc_read U fd 256 k in
      if n > 0 then do { (out, k2) \<leftarrow> cat_loop U fd k1; Some (take (nat n) buf @ out, k2) } else Some ([], k1))"

definition cat :: "'k ucalls \<Rightarrow> cstring \<Rightarrow> 'k \<Rightarrow> (u8 list \<times> 'k) option" where
  "cat U path k =
     (if path = [] then Some (ascii ''usage: cat <file>'' @ [10], k)
      else
        let (fd, k1) = uc_open U path 0 k in
        if fd < 0 then Some (ascii ''cat: cannot open '' @ path @ [10], k1)
        else
          let (r, mode, k2) = uc_fstat U fd k1 in
          if r = 0 \<and> S_ISDIR mode then Some (ascii ''cat: '' @ path @ ascii '' is a directory'' @ [10], uc_close U fd k2)
          else do { (out, k3) \<leftarrow> cat_loop U fd k2; Some (out, uc_close U fd k3) })"

function ls_loop :: "u8 list \<Rightarrow> int \<Rightarrow> nat \<Rightarrow> u8 list option" where
  "ls_loop raw n pos =
     (if int pos < n then
        if pos + 4 > length raw then None
        else if de_inode raw pos = 0 then Some []
        else if pos + 8 > length raw then None
        else if de_rec_len raw pos = 0 \<or> de_name_len raw pos = 0 then Some []
        else if pos + 8 + unat (de_name_len raw pos) > length raw then None
        else
          map_option ((@) (de_name raw pos (unat (de_name_len raw pos)) @ (if raw ! (pos + 7) = 2 then [47, 10] else [10])))
            (ls_loop raw n (pos + unat (de_rec_len raw pos)))
      else Some [])"
  by pat_completeness auto
termination
  by (relation "measure (\<lambda>(raw, n, pos). nat (n - int pos))") (auto simp: less_le[of 0 "uint (de_rec_len raw pos)" for raw pos] uint_0_iff)

declare ls_loop.simps [simp del]

text \<open>The buffer of \<open>ls\<close> has 4096 bytes; \<open>junk\<close> is what it holds behind the bytes read.\<close>

definition ls :: "'k ucalls \<Rightarrow> u8 list \<Rightarrow> cstring \<Rightarrow> 'k \<Rightarrow> (u8 list \<times> 'k) option" where
  "ls U junk args k =
     (let path = (if args \<noteq> [] then args else [47]); (fd, k1) = uc_open U path 0 k in
      if fd < 0 then Some (ascii ''ls: cannot open '' @ path @ [10], k1)
      else
        let (r, mode, k2) = uc_fstat U fd k1 in
        if r < 0 \<or> \<not> S_ISDIR mode then Some (ascii ''ls: '' @ path @ ascii '': not a directory'' @ [10], uc_close U fd k2)
        else
          let (n, buf, k3) = uc_read U fd 4096 k2; k4 = uc_close U fd k3 in
          if n \<le> 0 then Some ([], k4)
          else map_option (\<lambda>out. (out, k4)) (ls_loop (take 4096 (buf @ drop (length buf) junk)) n 0))"

section \<open>Reading a file to its end\<close>

text \<open>The contract of a file open for reading: each read takes the next bytes, and nothing only at the end.\<close>

locale file_reader =
  fixes U :: "'k ucalls" and fd :: int and ok :: "'k \<Rightarrow> bool" and rest :: "'k \<Rightarrow> u8 list"
  assumes read_next: "ok k \<Longrightarrow> uc_read U fd 256 k = (n, buf, k1) \<Longrightarrow>
    n = int (length buf) \<and> buf = take 256 (rest k) \<and> ok k1 \<and> rest k1 = drop 256 (rest k)"
begin

lemma cat_loop_all: "ok k \<Longrightarrow> \<exists>k'. cat_loop U fd k = Some (rest k, k') \<and> ok k' \<and> rest k' = []"
proof (induction "length (rest k)" arbitrary: k rule: less_induct)
  case less
  obtain n buf k1 where r: "uc_read U fd 256 k = (n, buf, k1)" by (cases "uc_read U fd 256 k") auto
  note e = read_next[OF less.prems r]
  show ?case
  proof (cases "rest k = []")
    case True
    then show ?thesis using e r by (subst cat_loop.simps) simp
  next
    case False
    then have "length (rest k1) < length (rest k)" "ok k1" "n > 0" using e by simp_all
    note h = this
    have "take (nat n) buf @ drop 256 (rest k) = rest k" using e by (metis append_take_drop_id nat_int take_all order_refl)
    with less.hyps[OF h(1,2)] h(3) r e show ?thesis by (subst cat_loop.simps) auto
  qed
qed

end

text \<open>The calls answered by the file system, with any way to open a path.\<close>

definition fs_calls :: "(cstring \<Rightarrow> int \<Rightarrow> 'd swiftfs \<Rightarrow> int \<times> 'd swiftfs) \<Rightarrow> 'd blkdev \<Rightarrow> ('d swiftfs) ucalls" where
  "fs_calls opn D = \<lparr>uc_open = opn,
     uc_fstat = \<lambda>fd s. (case swiftfs2_fstat D fd s of (r, st, s1) \<Rightarrow> (r, case st of Some (m, _) \<Rightarrow> m | None \<Rightarrow> 0, s1)),
     uc_read = \<lambda>fd n. swiftfs2_read D fd (of_nat n), uc_close = \<lambda>fd s. snd (swiftfs2_close D fd s)\<rparr>"

definition reading :: "'d blkdev \<Rightarrow> (int \<Rightarrow> 'd \<Rightarrow> u32 \<Rightarrow> u8 list) \<Rightarrow> (int \<Rightarrow> 'd \<Rightarrow> bool) \<Rightarrow> int \<Rightarrow> swiftfs2_inode \<Rightarrow> u8 list \<Rightarrow> 'd swiftfs \<Rightarrow> bool" where
  "reading D disk works fd i c s \<longleftrightarrow> open_file disk works s fd i \<and> fd_flags (s_fds s ! nat fd) \<noteq> 1 \<and>
     unat (fd_pos (s_fds s ! nat fd)) \<le> unat (in_size i) \<and> file_contents disk s i = c"

lemma open_file_core:
  assumes o: "open_file disk works s fd i" and c: "same_core s s1" "cache_inv disk works s1" "cview disk s1 = cview disk s"
  shows "open_file disk works s1 fd i" "s_fds s1 = s_fds s" "file_contents disk s1 i = file_contents disk s i"
proof -
  have F: "fs_inv disk works s" "fs_file disk works s fd i" using o by (simp_all add: open_file_def fs_file_def)
  note i1 = fs_inv_core[OF F(1) c(1,2)] and g = core_geo[OF c(1)]
  show fds: "s_fds s1 = s_fds s" using g by (simp add: geo_same_def)
  show "file_contents disk s1 i = file_contents disk s i" using file_bytes_cong[OF c(3)] by (simp add: file_contents_def)
  have "inode_ok disk s1 i = inode_ok disk s i" using view_cong[OF c(3)] by (simp add: inode_ok_def i1(2))
  then have "fs_file disk works s1 fd i"
    using F(2) i1 fds inode_pos_geo[OF g] view_cong[OF c(3)] by (simp add: fs_file_def sfd_bad_def inode_at_def c(3) Let_def)
  then show "open_file disk works s1 fd i" using o view_cong[OF c(3)] by (simp add: open_file_def mapped_def)
qed

lemma reading_core: "reading D disk works fd i c s \<Longrightarrow> same_core s s1 \<Longrightarrow> cache_inv disk works s1 \<Longrightarrow> cview disk s1 = cview disk s \<Longrightarrow> reading D disk works fd i c s1"
  using open_file_core by (metis reading_def)

lemma reading_inode:
  assumes "block_device D disk works" "reading D disk works fd i c s"
  obtains s1 where "inode_read D (fd_inode (s_fds s ! nat fd)) s = (0, i, s1)" "same_core s s1" "cache_inv disk works s1" "cview disk s1 = cview disk s"
proof -
  have f: "cache_inv disk works s" "inode_at disk s (fd_inode (s_fds s ! nat fd)) = i"
    using assms(2) by (auto simp: reading_def open_file_def fs_file_def fs_inv_def)
  from block_device.inode_read_ok[OF assms(1) f(1), of "fd_inode (s_fds s ! nat fd)"] that f(2) show thesis by metis
qed

lemma swiftfs_reader:
  assumes D: "block_device D disk works"
  shows "file_reader (fs_calls opn D) fd (reading D disk works fd i c) (\<lambda>s. drop (unat (fd_pos (s_fds s ! nat fd))) c)"
proof
  fix s n buf s1
  assume r: "reading D disk works fd i c s" and u: "uc_read (fs_calls opn D) fd 256 s = (n, buf, s1)"
  then have rd: "swiftfs2_read D fd 256 s = (n, buf, s1)" by (simp add: fs_calls_def)
  define p where "p = unat (fd_pos (s_fds s ! nat fd))"
  have o: "open_file disk works s fd i" "fd_flags (s_fds s ! nat fd) \<noteq> 1" "p \<le> unat (in_size i)" "file_contents disk s i = c"
    using r by (simp_all add: reading_def p_def)
  have sz: "unat (in_size i) < 2 ^ 31" "length c = unat (in_size i)" using o(1,4) by (auto simp: open_file_def)
  show "n = int (length buf) \<and> buf = take 256 (drop (unat (fd_pos (s_fds s ! nat fd))) c) \<and> reading D disk works fd i c s1 \<and>
      drop (unat (fd_pos (s_fds s1 ! nat fd))) c = drop 256 (drop (unat (fd_pos (s_fds s ! nat fd))) c)"
  proof (cases "p < unat (in_size i)")
    case True
    let ?m = "min 256 (unat (in_size i) - p)"
    have "p + unat (256 :: u32) < 2 ^ 32" using o(3) sz(1) by simp
    from swiftfs2_read_ok'[OF D o(1,2) p_def True this] rd o(4)
    have e: "n = int ?m" "buf = take 256 (drop p c)" "open_file disk works s1 fd i" "cview disk s1 = cview disk s"
      "s_fds s1 = (s_fds s)[nat fd := (s_fds s ! nat fd)\<lparr>fd_pos := of_nat (p + ?m)\<rparr>]" by auto
    have l: "nat fd < length (s_fds s)" using o(1) by (auto simp: open_file_def fs_file_def Let_def sfd_bad_def)
    have "p + ?m < 2 ^ 32" using sz(1) True by simp
    then have "unat (of_nat (p + ?m) :: u32) = p + ?m" by (intro unat_of_nat_small) simp
    then have f: "unat (fd_pos (s_fds s1 ! nat fd)) = p + ?m" "fd_flags (s_fds s1 ! nat fd) = fd_flags (s_fds s ! nat fd)" using l e(5) by simp_all
    have "file_contents disk s1 i = file_contents disk s i" using file_bytes_cong[OF e(4)] by (simp add: file_contents_def)
    then have "reading D disk works fd i c s1" using e(3) f o(2,4) True by (simp add: reading_def)
    moreover have "drop (p + ?m) c = drop 256 (drop p c)" using sz(2) by (cases "256 \<le> unat (in_size i) - p") (simp_all add: add.commute)
    ultimately show ?thesis using e(1,2) f(1) sz(2) by (simp add: p_def[symmetric])
  next
    case False
    then have pe: "p = unat (in_size i)" using o(3) by simp
    obtain s2 where s2: "inode_read D (fd_inode (s_fds s ! nat fd)) s = (0, i, s2)" "same_core s s2" "cache_inv disk works s2" "cview disk s2 = cview disk s"
      using reading_inode[OF D r] .
    have nb: "\<not> sfd_bad fd s" using o(1) by (simp add: open_file_def fs_file_def)
    have "unat (ucast (fd_pos (s_fds s ! nat fd)) :: u64) = p" by (simp add: p_def unat_ucast_up)
    then have "ucast (fd_pos (s_fds s ! nat fd)) \<ge> in_size i" using pe by (simp add: word_le_nat_alt)
    then have "n = 0" "buf = []" "s1 = s2" using rd s2(1) o(2) nb by (simp_all add: swiftfs2_read_def Let_def)
    moreover have "reading D disk works fd i c s2" by (rule reading_core[OF r s2(2-4)])
    moreover have "s_fds s2 = s_fds s" by (rule open_file_core(2)[OF o(1) s2(2-4)])
    ultimately show ?thesis using pe sz(2) by (simp add: p_def[symmetric])
  qed
qed

section \<open>Properties\<close>


text \<open>The names of a directory block in order, and what makes the block one that \<open>ls\<close> can list.\<close>

function dir_names :: "u8 list \<Rightarrow> nat \<Rightarrow> (cstring \<times> u8) list" where
  "dir_names data pos =
     (if pos \<ge> 4096 \<or> de_inode data pos = 0 \<or> de_rec_len data pos = 0 then []
      else (de_name data pos (unat (de_name_len data pos)), data ! (pos + 7)) # dir_names data (pos + unat (de_rec_len data pos)))"
  by pat_completeness auto
termination
  by (relation "measure (\<lambda>(data, pos). 4096 - pos)") (auto simp: unat_gt_0 intro!: diff_less_mono2)

declare dir_names.simps [simp del]

function dir_sound :: "u8 list \<Rightarrow> nat \<Rightarrow> bool" where
  "dir_sound data pos =
     (if pos \<ge> 4096 then True
      else if pos + 8 > 4096 then False
      else if de_inode data pos = 0 then True
      else if de_rec_len data pos = 0 \<or> de_name_len data pos = 0 then False
      else pos + 8 + unat (de_name_len data pos) \<le> 4096 \<and> dir_sound data (pos + unat (de_rec_len data pos)))"
  by pat_completeness auto
termination
  by (relation "measure (\<lambda>(data, pos). 4096 - pos)") (auto simp: unat_gt_0 intro!: diff_less_mono2)

declare dir_sound.simps [simp del]

definition ls_line :: "cstring \<times> u8 \<Rightarrow> u8 list" where
  "ls_line e = fst e @ (if snd e = 2 then [47, 10] else [10])"

lemma ls_loop_names: "length raw = 4096 \<Longrightarrow> dir_sound raw pos \<Longrightarrow> ls_loop raw 4096 pos = Some (concat (map ls_line (dir_names raw pos)))"
proof (induction raw pos rule: dir_sound.induct)
  case (1 raw pos)
  consider "pos \<ge> 4096" | "pos < 4096" "de_inode raw pos = 0" "pos + 8 \<le> 4096"
    | "pos < 4096" "de_inode raw pos \<noteq> 0" "de_rec_len raw pos \<noteq> 0" "de_name_len raw pos \<noteq> 0" "pos + 8 + unat (de_name_len raw pos) \<le> 4096"
      "dir_sound raw (pos + unat (de_rec_len raw pos))"
    using "1.prems"(2) by (subst (asm) dir_sound.simps) (auto split: if_splits)
  then show ?case
  proof cases
    case 3
    then have "ls_loop raw 4096 (pos + unat (de_rec_len raw pos)) = Some (concat (map ls_line (dir_names raw (pos + unat (de_rec_len raw pos)))))"
      using "1.IH" "1.prems"(1) by auto
    then show ?thesis using 3 "1.prems"(1) by (subst ls_loop.simps, subst dir_names.simps) (simp add: ls_line_def)
  qed (use "1.prems"(1) in \<open>(subst ls_loop.simps, subst dir_names.simps, simp)+\<close>)
qed

lemma dir_names_found:
  "length data = 4096 \<Longrightarrow> dir_sound data pos \<Longrightarrow> length name < 256 \<Longrightarrow> (dir_find data name pos \<noteq> None) = (name \<in> fst ` set (dir_names data pos))"
proof (induction data pos rule: dir_sound.induct)
  case (1 data pos)
  consider "pos \<ge> 4096" | "pos < 4096" "de_inode data pos = 0"
    | "pos < 4096" "de_inode data pos \<noteq> 0" "de_rec_len data pos \<noteq> 0" "pos + 8 + unat (de_name_len data pos) \<le> 4096" "\<not> pos + 8 > 4096"
      "de_name_len data pos \<noteq> 0" "dir_sound data (pos + unat (de_rec_len data pos))"
    using "1.prems"(2) by (subst (asm) dir_sound.simps) (auto split: if_splits)
  then show ?case
  proof cases
    case 3
    then have ih: "(dir_find data name (pos + unat (de_rec_len data pos)) \<noteq> None) = (name \<in> fst ` set (dir_names data (pos + unat (de_rec_len data pos))))"
      using "1.IH" "1.prems" by auto
    have "unat (of_nat (length name) :: u8) = length name" using "1.prems"(3) by (intro unat_of_nat_small) simp
    then have "de_match data pos name = (name = de_name data pos (unat (de_name_len data pos)))"
      using 3(4) "1.prems"(1) by (auto simp: de_match_def de_name_def word_unat_eq_iff)
    then show ?thesis using 3 ih by (subst dir_find.simps, subst dir_names.simps) auto
  qed (subst dir_find.simps, subst dir_names.simps, simp)+
qed

text \<open>
  C39: \<open>ls\<close> lists exactly the names that a lookup finds: on a directory of one sound block it prints one line for each entry,
  with a slash after directories, and a name is among them if and only if the lookup in the block finds it.
\<close>

theorem ls_lists_names:
  assumes "uc_open U (if args \<noteq> [] then args else [47]) 0 k = (fd, k1)" "0 \<le> fd" "uc_fstat U fd k1 = (0, mode, k2)" "S_ISDIR mode"
    and "uc_read U fd 4096 k2 = (4096, data, k3)" "length data = 4096" "dir_sound data 0"
  shows "ls U junk args k = Some (concat (map ls_line (dir_names data 0)), uc_close U fd k3) \<and>
    (\<forall>name. length name < 256 \<longrightarrow> (dir_find data name 0 \<noteq> None) = (name \<in> fst ` set (dir_names data 0)))"
  using assms ls_loop_names[OF assms(6,7)] dir_names_found[OF assms(6,7)] by (simp add: ls_def Let_def)

section \<open>Examples\<close>

interpretation ex_file: file_reader "fs_calls (\<lambda>path flags. swiftfs2_open adev path (of_int flags)) adev" 2
    "reading adev adisk aworks 2 inode_ex (file_contents adisk fs_ex inode_ex)" "\<lambda>s. drop (unat (fd_pos (s_fds s ! nat 2))) (file_contents adisk fs_ex inode_ex)"
  by (rule swiftfs_reader[OF adev_device])


theorem ls_lists_names_witness:
  "\<exists>out. ls \<lparr>uc_open = \<lambda>p f k. (3, k), uc_fstat = \<lambda>fd k. (0, 0x41ED, k), uc_read = \<lambda>fd n k. (4096, dir_block_ex, k), uc_close = \<lambda>fd k. k\<rparr> [] [] () =
     Some (out, ()) \<and> [98] \<in> fst ` set (dir_names dir_block_ex 0)"
proof -
  have "dir_sound dir_block_ex 24" by (subst dir_sound.simps) (simp add: dir_block_fields)
  then have "dir_sound dir_block_ex 12" by (subst dir_sound.simps) (simp add: dir_block_fields)
  then have s: "dir_sound dir_block_ex 0" by (subst dir_sound.simps) (simp add: dir_block_fields)
  let ?U = "\<lparr>uc_open = \<lambda>p f k. (3, k), uc_fstat = \<lambda>fd k. (0, 0x41ED, k), uc_read = \<lambda>fd n k. (4096, dir_block_ex, k), uc_close = \<lambda>fd k. k\<rparr> :: unit ucalls"
  have "length dir_block_ex = 4096" by (simp add: dir_block_ex_def dir_ex_def)
  then have "ls ?U [] [] () = Some (concat (map ls_line (dir_names dir_block_ex 0)), ()) \<and>
      (\<forall>name. length name < 256 \<longrightarrow> (dir_find dir_block_ex name 0 \<noteq> None) = (name \<in> fst ` set (dir_names dir_block_ex 0)))"
    using s ls_lists_names[of ?U "[]" "()" 3 "()" "0x41ED" "()" dir_block_ex "()" "[]"] by (simp add: S_ISDIR_def)
  moreover have "dir_find dir_block_ex [98] 0 \<noteq> None" by (simp add: dir_block_finds)
  moreover have "length [98 :: u8] < 256" by simp
  ultimately show ?thesis by blast
qed

end
