(* ===== verification/Shell.thy ===== *)
theory Shell
  imports Console
begin

text \<open>
  The shell, \<open>src/userland/shell.c\<close>. A character array that is filled from the front is the list of the characters stored
  in it, its position the length of the list. The input is the list of the bytes that the reads return, the output the
  bytes that are printed. A command that is not built in is a \<open>Spawn\<close> with the path and the arguments that the
  child gets; the results of \<open>fork\<close>, \<open>exec\<close> and \<open>wait\<close> are arguments.
\<close>

section \<open>State\<close>

definition MAX_LINE :: nat where "MAX_LINE = 256"
definition HISTORY_MAX :: nat where "HISTORY_MAX = 16"

text \<open>The rows of the history that are in use, the latest first; the length of the list is \<open>history_count\<close>.\<close>

record shell =
  cwd :: cstring
  history :: "cstring list"

abbreviation cstr :: "u8 list \<Rightarrow> cstring" where "cstr \<equiv> takeWhile (\<lambda>c. c \<noteq> 0)"

definition history_add :: "u8 list \<Rightarrow> shell \<Rightarrow> shell" where
  "history_add buf s = s\<lparr>history := take HISTORY_MAX (cstr (take (MAX_LINE - 1) buf) # history s)\<rparr>"

definition print_prompt :: "shell \<Rightarrow> u8 list" where
  "print_prompt s = ascii ''[user@swiftbsd '' @ cwd s @ ascii '']$ ''"

definition prompt_len :: "shell \<Rightarrow> nat" where "prompt_len s = 16 + length (cwd s) + 3"

section \<open>Reading a line\<close>

definition blanks :: "nat \<Rightarrow> u8 list" where "blanks n = replicate n 32"

text \<open>
  The arrow keys: what is printed, the line, the saved line and the position in the history, \<^const>\<open>None\<close> for -1. The
  loops over \<open>saved\<close> and over the row of the history copy it to the buffer and print it.
\<close>

definition key_up :: "shell \<Rightarrow> u8 list \<Rightarrow> cstring \<Rightarrow> nat option \<Rightarrow> u8 list \<times> u8 list \<times> cstring \<times> nat option" where
  "key_up s buf saved hb =
     (let saved1 = (if hb = None then cstr (take MAX_LINE buf) else saved);
          hb1 = (case hb of None \<Rightarrow> if history s \<noteq> [] then Some 0 else None
                 | Some h \<Rightarrow> if h + 1 < length (history s) then Some (h + 1) else None)
      in case hb1 of None \<Rightarrow> ([], buf, saved1, hb)
         | Some h \<Rightarrow> (blanks (prompt_len s + length buf) @ [13] @ print_prompt s @ history s ! h, history s ! h, saved1, hb1))"

definition key_down :: "shell \<Rightarrow> u8 list \<Rightarrow> cstring \<Rightarrow> nat option \<Rightarrow> u8 list \<times> u8 list \<times> cstring \<times> nat option" where
  "key_down s buf saved hb =
     (case hb of None \<Rightarrow> ([], buf, saved, hb)
      | Some 0 \<Rightarrow> ([13] @ blanks (prompt_len s + length buf) @ [13] @ print_prompt s @ saved, saved, saved, None)
      | Some (Suc h) \<Rightarrow> (blanks (prompt_len s + length buf) @ [13] @ print_prompt s @ history s ! h, history s ! h, saved, Some h))"

text \<open>The loop of \<open>readline\<close>: the line, the state, the input that is left and what was printed.\<close>

function readline_loop ::
    "nat \<Rightarrow> u8 list \<Rightarrow> u8 list \<Rightarrow> cstring \<Rightarrow> nat option \<Rightarrow> shell \<Rightarrow> u8 list \<times> shell \<times> u8 list \<times> u8 list" where
  "readline_loop mx inp buf saved hb s =
     (if length buf < mx - 1 then
        case inp of
          [] \<Rightarrow> (buf, s, [], [])
        | c # inp1 \<Rightarrow>
            if c = 10 \<or> c = 13 then (buf, if length buf > 0 then history_add buf s else s, inp1, [10])
            else if c = 8 \<or> c = 127 then
              let (line, s', rest, out) = readline_loop mx inp1 (butlast buf) saved None s in
              (line, s', rest, (if length buf > 0 then [8, 32, 8] else []) @ out)
            else if c = 27 then
              (case inp1 of
                 a # b # inp2 \<Rightarrow>
                   let (shown, buf1, saved1, hb1) =
                     (if a = 91 \<and> b = 65 then key_up s buf saved hb
                      else if a = 91 \<and> b = 66 then key_down s buf saved hb
                      else ([], buf, saved, hb));
                     (line, s', rest, out) = readline_loop mx inp2 buf1 saved1 hb1 s
                   in (line, s', rest, shown @ out)
               | _ \<Rightarrow> readline_loop mx [] buf saved hb s)
            else
              let (line, s', rest, out) = readline_loop mx inp1 (buf @ [c]) saved None s in
              (line, s', rest, cstr [c] @ out)
      else (buf, s, inp, []))"
  by pat_completeness auto
termination by (relation "measure (\<lambda>(mx, inp, buf, saved, hb, s). length inp)") auto

declare readline_loop.simps [simp del]

definition readline :: "nat \<Rightarrow> u8 list \<Rightarrow> shell \<Rightarrow> u8 list \<times> shell \<times> u8 list \<times> u8 list" where
  "readline mx inp s = readline_loop mx inp [] [] None s"

section \<open>Numbers and paths\<close>

definition print_dec :: "u64 \<Rightarrow> u8 list" where
  "print_dec n = (if n = 0 then [48] else dec_loop (uint n) [])"

text \<open>The step back over one component.\<close>

function back_loop :: "u8 list \<Rightarrow> u8 list" where
  "back_loop buf = (if buf \<noteq> [] \<and> last buf \<noteq> 47 then back_loop (butlast buf) else buf)"
  by pat_completeness auto
termination by (relation "measure length") auto

declare back_loop.simps [simp del]

definition norm_up :: "u8 list \<Rightarrow> u8 list" where
  "norm_up buf = (if length buf > 1 then back_loop (butlast buf) else buf)"

lemma comp_shorter:
  assumes "dropWhile (\<lambda>c. c = (47 :: u8)) rel \<noteq> []"
  shows "length (drop (length (takeWhile (\<lambda>c. c \<noteq> 47) (take 255 (dropWhile (\<lambda>c. c = 47) rel)))) (dropWhile (\<lambda>c. c = 47) rel)) < length rel"
proof -
  obtain c r where r: "dropWhile (\<lambda>c. c = 47) rel = c # r" using assms by (cases "dropWhile (\<lambda>c. c = 47) rel") auto
  then have "c \<noteq> 47" using hd_dropWhile[OF assms] by simp
  moreover have "Suc (length r) \<le> length rel" using length_dropWhile_le[of "\<lambda>c. c = 47" rel] by (simp add: r)
  ultimately show ?thesis by (simp add: r)
qed

function norm_loop :: "cstring \<Rightarrow> u8 list \<Rightarrow> u8 list" where
  "norm_loop rel buf =
     (let r = dropWhile (\<lambda>c. c = 47) rel in
      if r = [] then buf
      else
        let comp = takeWhile (\<lambda>c. c \<noteq> 47) (take 255 r); rest = drop (length comp) r in
        if comp = [46] then norm_loop rest buf
        else if comp = [46, 46] then norm_loop rest (norm_up buf)
        else
          let need = (if buf \<noteq> [] \<and> last buf \<noteq> 47 then 1 else 0) in
          if length buf + need + length comp \<ge> 255 then buf
          else norm_loop rest (buf @ replicate need 47 @ comp))"
  by pat_completeness auto
termination
  by (relation "measure (\<lambda>(rel, buf). length rel)") (use comp_shorter in auto)

declare norm_loop.simps [simp del]

definition normalize_path :: "cstring \<Rightarrow> cstring option \<Rightarrow> cstring" where
  "normalize_path wd rel =
     (case rel of None \<Rightarrow> [47] | Some [] \<Rightarrow> [47]
      | Some (c # r) \<Rightarrow> if c = 47 then norm_loop r [47] else norm_loop (c # r) (take 255 wd))"

section \<open>Commands\<close>

datatype command = Skip | Exit | Halt | Meminfo | Chdir | Spawn cstring cstring

text \<open>The words of the line: the command and the text after it.\<close>

definition shell_words :: "cstring \<Rightarrow> cstring \<times> cstring" where
  "shell_words line =
     (let p = dropWhile (\<lambda>c. c = 32) line; cmd = takeWhile (\<lambda>c. c \<noteq> 32) p
      in (cmd, dropWhile (\<lambda>c. c = 32) (drop (length cmd) p)))"

text \<open>
  The path of the program: 56 characters of the command are copied behind \<open>/bin/\<close>, but the terminator is stored at the
  length of the whole command. For a longer command the path contains bytes that were never stored, or the terminator
  lies outside the array of 64: \<^const>\<open>None\<close>.
\<close>

definition command_path :: "cstring \<Rightarrow> cstring option" where
  "command_path cmd = (if length cmd \<le> 56 then Some (ascii ''/bin/'' @ cmd) else None)"

definition shell_command :: "cstring \<Rightarrow> shell \<Rightarrow> (command \<times> shell) option" where
  "shell_command line s =
     (let (cmd, args) = shell_words line in
      if cmd = [] then Some (Skip, s)
      else if cmd = ascii ''exit'' then Some (Exit, s)
      else if cmd = ascii ''halt'' then Some (Halt, s)
      else if cmd = ascii ''quit'' then Some (Exit, s)
      else if cmd = ascii ''cd'' then Some (Chdir, s\<lparr>cwd := normalize_path (cwd s) (Some args)\<rparr>)
      else if cmd = ascii ''free'' \<or> cmd = ascii ''mem'' then Some (Meminfo, s)
      else
        let args1 = (if cmd = ascii ''ls'' \<and> args = [] then cwd s else args) in
        case command_path cmd of None \<Rightarrow> None | Some path \<Rightarrow> Some (Spawn path (take 255 args1), s))"

definition shell_meminfo :: "u64 \<Rightarrow> u64 \<Rightarrow> u8 list" where
  "shell_meminfo mem free_pages =
     ascii ''Mem:  '' @ print_dec (mem div 1024) @ ascii '' KB total,  '' @ print_dec (free_pages * 4) @
     ascii '' KB free ('' @ print_dec free_pages @ ascii '' pages)'' @ [10]"

text \<open>The end of a round: what is printed and the exit code, if the process ends, for the results of the calls.\<close>

definition shell_spawn :: "int \<Rightarrow> int \<Rightarrow> int \<Rightarrow> u8 list \<times> int option" where
  "shell_spawn pid ret wpid =
     (if pid < 0 then (ascii ''fork failed'' @ [10], None)
      else if pid = 0 then
        (if ret < 0 then ascii ''? unknown cmd (try: ls, cat, echo, exit, halt, cd, free, mem)'' @ [10] else [], Some 1)
      else (if wpid < 0 then ascii ''wait failed'' @ [10] else [], None))"

text \<open>One round of the main loop up to the command: the command, the state, the input left and what was printed.\<close>

definition shell_round :: "u8 list \<Rightarrow> shell \<Rightarrow> (command \<times> shell \<times> u8 list \<times> u8 list) option" where
  "shell_round inp s =
     (case readline MAX_LINE inp s of (line, s1, rest, out) \<Rightarrow>
      if line = [] then Some (Skip, s1, rest, print_prompt s @ out)
      else case shell_command (cstr line) s1 of None \<Rightarrow> None
        | Some (c, s2) \<Rightarrow> Some (c, s2, rest, print_prompt s @ out))"

section \<open>Paths\<close>

text \<open>
  The reference: a path is a list of names, a dot stands for nothing and two dots remove the last name. A buffer
  represents a list of names if each name follows a slash, with or without a slash at the end.
\<close>

fun resolve :: "cstring list \<Rightarrow> cstring list \<Rightarrow> cstring list" where
  "resolve cs [] = cs"
| "resolve cs (n # ns) = (if n = [46] then resolve cs ns else if n = [46, 46] then resolve (butlast cs) ns else resolve (cs @ [n]) ns)"

definition is_name :: "cstring \<Rightarrow> bool" where "is_name n \<longleftrightarrow> n \<noteq> [] \<and> 47 \<notin> set n"

definition path_rep :: "u8 list \<Rightarrow> cstring list \<Rightarrow> bool" where
  "path_rep buf cs \<longleftrightarrow> list_all is_name cs \<and>
     (buf = concat (map ((#) 47) cs) \<and> cs \<noteq> [] \<or> buf = concat (map ((#) 47) cs) @ [47])"

lemma is_name_last: "is_name n \<Longrightarrow> last n \<noteq> 47"
  by (auto simp: is_name_def dest: last_in_set)

lemma path_rep_nonempty: "path_rep buf cs \<Longrightarrow> buf \<noteq> [] \<and> hd buf = 47"
  by (cases cs) (auto simp: path_rep_def)

lemma path_rep_last: "path_rep buf cs \<Longrightarrow> last buf \<noteq> 47 \<longleftrightarrow> buf = concat (map ((#) 47) cs) \<and> cs \<noteq> []"
  by (cases cs rule: rev_cases) (auto simp: path_rep_def is_name_last is_name_def[of "[]"] split: if_splits)

lemma path_rep_add:
  "path_rep buf cs \<Longrightarrow> is_name n \<Longrightarrow> path_rep (buf @ replicate (if buf \<noteq> [] \<and> last buf \<noteq> 47 then 1 else 0) 47 @ n) (cs @ [n])"
  using path_rep_nonempty[of buf cs] path_rep_last[of buf cs] by (auto simp: path_rep_def)

lemma back_loop_word: "47 \<notin> set w \<Longrightarrow> back_loop (xs @ 47 # w) = xs @ [47]"
  by (induction w rule: rev_induct) (subst back_loop.simps, simp add: butlast_append)+

lemma norm_up_rep: "path_rep buf cs \<Longrightarrow> path_rep (norm_up buf) (butlast cs)"
proof (cases cs rule: rev_cases)
  case (snoc ds d)
  assume r: "path_rep buf cs"
  then have d: "is_name d" "list_all is_name ds" by (simp_all add: path_rep_def snoc)
  then obtain e x where e: "d = e @ [x]" "47 \<notin> set e" by (cases d rule: rev_cases) (auto simp: is_name_def)
  let ?p = "concat (map ((#) 47) ds)"
  consider "buf = ?p @ 47 # d" | "buf = ?p @ 47 # d @ [47]" using r by (auto simp: path_rep_def snoc)
  then have "norm_up buf = ?p @ [47]"
    using d(1) e by cases (auto simp: norm_up_def butlast_append is_name_def intro: back_loop_word)
  then show ?thesis using d(2) by (simp add: path_rep_def snoc)
qed (auto simp: path_rep_def norm_up_def)

lemma back_loop_length: "length (back_loop buf) \<le> length buf"
  by (induction buf rule: back_loop.induct) (subst back_loop.simps, force)

lemma norm_up_length: "length (norm_up buf) \<le> length buf"
  using back_loop_length[of "butlast buf"] by (auto simp: norm_up_def)

lemma norm_loop_bound: "length buf \<le> 255 \<Longrightarrow> length (norm_loop rel buf) \<le> 255"
proof (induction rel buf rule: norm_loop.induct)
  case (1 rel buf)
  have "length (norm_up buf) \<le> 255" using norm_up_length[of buf] "1.prems" by simp
  note ih = "1.IH"[OF refl _ refl refl]
  show ?case
    by (subst norm_loop.simps)
       (use "1.prems" ih(1,2) ih(3)[OF _ _ _ refl] \<open>length (norm_up buf) \<le> 255\<close> in \<open>simp add: Let_def del: dropWhile_eq_Nil_conv\<close>)
qed

definition slack :: "cstring \<Rightarrow> nat" where
  "slack rel = (case rel of [] \<Rightarrow> 0 | c # r \<Rightarrow> if c = 47 then 0 else 1)"

text \<open>A path is empty but for slashes, or starts with a component.\<close>

lemma path_first:
  obtains (slashes) "dropWhile (\<lambda>c. c = 47) rel = []" "path_names [] rel = []"
  | (name) sl w rest where "rel = sl @ w @ rest" "dropWhile (\<lambda>c. c = 47) rel = w @ rest" "is_name w" "rest = [] \<or> hd rest = 47"
      "path_names [] rel = w # path_names [] rest" "1 \<le> length sl + slack rel"
proof (cases "dropWhile (\<lambda>c. c = 47) rel = []")
  case True
  moreover have "path_names [] rel = []" using path_names_slashes[of rel] unfolding True by simp
  ultimately show ?thesis by (rule slashes)
next
  case False
  let ?r = "dropWhile (\<lambda>c. c = 47) rel"
  obtain c r where r: "?r = c # r" "c \<noteq> 47" using False hd_dropWhile[OF False] by (cases ?r) auto
  let ?w = "takeWhile (\<lambda>c. c \<noteq> 47) ?r" and ?rest = "dropWhile (\<lambda>c. c \<noteq> 47) ?r"
  have w: "?w \<noteq> []" using r by simp
  show ?thesis
  proof (rule name)
    show "rel = takeWhile (\<lambda>c. c = 47) rel @ ?w @ ?rest" "?r = ?w @ ?rest" by simp_all
    show "is_name ?w" using w by (auto simp: is_name_def dest: set_takeWhileD)
    show "?rest = [] \<or> hd ?rest = 47" using hd_dropWhile[of "\<lambda>c. c \<noteq> 47" ?r] by blast
    show "path_names [] rel = ?w # path_names [] ?rest"
      using path_names_word[of "[]" ?r] path_names_slashes[of rel] w by simp
    show "1 \<le> length (takeWhile (\<lambda>c. c = 47) rel) + slack rel" using False by (cases rel) (simp_all add: slack_def)
  qed
qed

lemma norm_loop_step:
  assumes "dropWhile (\<lambda>c. c = 47) rel = w @ rest" "is_name w" "rest = [] \<or> hd rest = 47" "length w < 255"
  shows "norm_loop rel buf =
    (if w = [46] then norm_loop rest buf else if w = [46, 46] then norm_loop rest (norm_up buf)
     else let need = (if buf \<noteq> [] \<and> last buf \<noteq> 47 then 1 else 0) in
       if length buf + need + length w \<ge> 255 then buf else norm_loop rest (buf @ replicate need 47 @ w))"
proof -
  have "takeWhile (\<lambda>c. c \<noteq> 47) w = w" using assms(2) by (auto simp: is_name_def)
  moreover have "takeWhile (\<lambda>c. c \<noteq> 47) (take k rest) = []" for k using assms(3) by (cases rest; cases k) auto
  ultimately have "takeWhile (\<lambda>c. c \<noteq> 47) (take 255 (w @ rest)) = w" using assms(2,4) by (simp add: takeWhile_append is_name_def)
  then show ?thesis using assms(2) unfolding norm_loop.simps[of rel] assms(1) by (simp add: is_name_def)
qed

lemma norm_loop_rep:
  "path_rep buf cs \<Longrightarrow> length buf + length rel + slack rel < 255 \<Longrightarrow> path_rep (norm_loop rel buf) (resolve cs (path_names [] rel))"
proof (induction "length rel" arbitrary: rel buf cs rule: less_induct)
  case less
  show ?case
  proof (cases rel rule: path_first)
    case slashes
    then show ?thesis using less.prems by (subst norm_loop.simps) simp
  next
    case (name sl w rest)
    let ?need = "if buf \<noteq> [] \<and> last buf \<noteq> 47 then 1 else (0 :: nat)"
    have len: "length rel = length sl + (length w + length rest)" "w \<noteq> []" using name(1,3) by (simp_all add: is_name_def)
    have "?need \<le> 1" by simp
    then have fit: "length buf + ?need + length w + length rest < 255" using less.prems(2) len(1) name(6) by linarith
    have sr: "slack rest = 0" using name(4) by (cases rest) (simp_all add: slack_def)
    have shorter: "length rest < length rel" using len by (cases w) simp_all
    note step = norm_loop_step[OF name(2-4), of buf] and ih = less.hyps[OF shorter, unfolded sr]
    have up: "path_rep (norm_loop rest (norm_up buf)) (resolve (butlast cs) (path_names [] rest))"
      using ih[OF norm_up_rep[OF less.prems(1)]] fit norm_up_length[of buf] by simp
    have add: "path_rep (norm_loop rest (buf @ replicate ?need 47 @ w)) (resolve (cs @ [w]) (path_names [] rest))"
      using ih[OF path_rep_add[OF less.prems(1) name(3)]] fit by simp
    show ?thesis using fit step up add ih[OF less.prems(1)] by (simp add: name(5) Let_def)
  qed
qed

lemma path_names_split: "path_names acc (xs @ 47 # ys) = path_names acc xs @ path_names [] ys"
  by (induction acc xs rule: path_names.induct) auto

lemma path_names_name: "47 \<notin> set n \<Longrightarrow> acc @ n \<noteq> [] \<Longrightarrow> path_names acc n = [acc @ n]"
  by (induction n arbitrary: acc) auto

lemma path_rep_names: "path_rep buf cs \<Longrightarrow> path_names [] buf = cs"
proof -
  have "list_all is_name cs \<Longrightarrow> path_names [] (concat (map ((#) 47) cs)) = cs"
    by (induction cs rule: rev_induct) (simp_all add: path_names_split path_names_name is_name_def)
  then show "path_rep buf cs \<Longrightarrow> path_names [] buf = cs" by (auto simp: path_rep_def path_names_split)
qed

text \<open>
  C31: \<open>normalize_path\<close> resolves a path against the working directory: if the working directory is a path with no
  doubled slashes, and the two together are shorter than 254 bytes, the result is again such a path, it fits the
  buffer and its components are those of the reference, dots dropped and each pair of dots taking back one name.
\<close>

theorem normalize_path_correct:
  assumes "path_rep wd cs" "rel \<noteq> []" "length wd + length rel < 254"
  shows "path_rep (normalize_path wd (Some rel)) (resolve (if hd rel = 47 then [] else cs) (path_names [] rel)) \<and>
    path_names [] (normalize_path wd (Some rel)) = resolve (if hd rel = 47 then [] else cs) (path_names [] rel) \<and>
    length (normalize_path wd (Some rel)) \<le> 255"
proof -
  obtain c r where rel: "rel = c # r" using assms(2) by (cases rel) auto
  have root: "path_rep [47] []" by (simp add: path_rep_def)
  have sl: "slack q \<le> 1" for q by (simp add: slack_def split: list.split)
  have "path_rep (normalize_path wd (Some rel)) (resolve (if hd rel = 47 then [] else cs) (path_names [] rel))"
    using norm_loop_rep[OF root, of r] norm_loop_rep[OF assms(1), of rel] sl[of r] sl[of rel] assms(3)
    path_rep_nonempty[OF assms(1)] by (cases wd) (auto simp: rel normalize_path_def)
  moreover have "length (normalize_path wd (Some rel)) \<le> 255"
    using norm_loop_bound[of "[47]" r] norm_loop_bound[of "take 255 wd" rel] by (simp add: rel normalize_path_def)
  ultimately show ?thesis using path_rep_names by blast
qed

theorem normalize_path_correct_witness:
  "normalize_path (ascii ''/usr/lib'') (Some (ascii ''../bin//./ls'')) = ascii ''/usr/bin/ls'' \<and>
   path_names [] (normalize_path (ascii ''/usr/lib'') (Some (ascii ''../bin//./ls''))) = [ascii ''usr'', ascii ''bin'', ascii ''ls'']"
proof
  show "normalize_path (ascii ''/usr/lib'') (Some (ascii ''../bin//./ls'')) = ascii ''/usr/bin/ls''"
    by (simp add: normalize_path_def norm_loop.simps norm_up_def back_loop.simps)
  have "path_rep (ascii ''/usr/lib'') [ascii ''usr'', ascii ''lib'']" by (simp add: path_rep_def is_name_def)
  from normalize_path_correct[OF this, of "ascii ''../bin//./ls''"]
  show "path_names [] (normalize_path (ascii ''/usr/lib'') (Some (ascii ''../bin//./ls''))) = [ascii ''usr'', ascii ''bin'', ascii ''ls'']"
    by simp
qed

section \<open>Lines\<close>

text \<open>The reference: a character is appended, a backspace takes the last one back.\<close>

fun edit :: "u8 list \<Rightarrow> u8 list \<Rightarrow> u8 list" where
  "edit buf [] = buf"
| "edit buf (c # cs) = edit (if c = 8 \<or> c = 127 then butlast buf else buf @ [c]) cs"

definition is_text :: "u8 \<Rightarrow> bool" where "is_text c \<longleftrightarrow> c \<notin> {0, 10, 13, 27}"
definition arrow_up :: "u8 list" where "arrow_up = [27, 91, 65]"
definition arrow_down :: "u8 list" where "arrow_down = [27, 91, 66]"

text \<open>The result of the loop without what it prints.\<close>

definition rl :: "u8 list \<Rightarrow> u8 list \<Rightarrow> cstring \<Rightarrow> nat option \<Rightarrow> shell \<Rightarrow> u8 list \<times> shell \<times> u8 list" where
  "rl inp buf saved hb s = (case readline_loop MAX_LINE inp buf saved hb s of (line, s', rest, out) \<Rightarrow> (line, s', rest))"

lemma rl_char:
  "is_text c \<Longrightarrow> length buf < 255 \<Longrightarrow> rl (c # inp) buf saved hb s = rl inp (if c = 8 \<or> c = 127 then butlast buf else buf @ [c]) saved None s"
  unfolding rl_def by (subst readline_loop.simps) (auto simp: is_text_def MAX_LINE_def split: prod.splits)

lemma rl_enter: "length buf < 255 \<Longrightarrow> rl (10 # inp) buf saved hb s = (buf, if buf \<noteq> [] then history_add buf s else s, inp)"
  unfolding rl_def by (subst readline_loop.simps) (simp add: MAX_LINE_def)

lemma rl_up: "length buf < 255 \<Longrightarrow> rl (arrow_up @ inp) buf saved hb s = (case key_up s buf saved hb of (sh, buf', saved', hb') \<Rightarrow> rl inp buf' saved' hb' s)"
  unfolding rl_def by (subst readline_loop.simps) (simp add: MAX_LINE_def arrow_up_def split: prod.splits)

lemma rl_down: "length buf < 255 \<Longrightarrow> rl (arrow_down @ inp) buf saved hb s = (case key_down s buf saved hb of (sh, buf', saved', hb') \<Rightarrow> rl inp buf' saved' hb' s)"
  unfolding rl_def by (subst readline_loop.simps) (simp add: MAX_LINE_def arrow_down_def split: prod.splits)

lemma rl_chars:
  "list_all is_text cs \<Longrightarrow> length buf + length cs < 255 \<Longrightarrow> rl (cs @ inp) buf saved None s = rl inp (edit buf cs) saved None s"
proof (induction cs arbitrary: buf)
  case (Cons c cs)
  have "length (if c = 8 \<or> c = 127 then butlast buf else buf @ [c]) + length cs < 255" using Cons.prems(2) by auto
  then show ?case using Cons by (simp add: rl_char)
qed simp

lemma edit_bound: "length (edit buf cs) \<le> length buf + length cs"
proof (induction cs arbitrary: buf)
  case (Cons c cs)
  show ?case using Cons[of "if c = 8 \<or> c = 127 then butlast buf else buf @ [c]"] by (auto split: if_splits)
qed simp

lemma edit_text: "list_all is_text cs \<Longrightarrow> 0 \<notin> set buf \<Longrightarrow> 0 \<notin> set (edit buf cs)"
  by (induction cs arbitrary: buf) (auto simp: is_text_def dest: in_set_butlastD)

definition shell_inv :: "shell \<Rightarrow> bool" where
  "shell_inv s \<longleftrightarrow> length (history s) \<le> HISTORY_MAX \<and> list_all (\<lambda>h. h \<noteq> [] \<and> length h < 255 \<and> 0 \<notin> set h) (history s)"

abbreviation keys :: "nat \<Rightarrow> u8 list \<Rightarrow> u8 list" where "keys n k \<equiv> concat (replicate n k)"

lemma shell_inv_row: "shell_inv s \<Longrightarrow> h < length (history s) \<Longrightarrow> history s ! h \<noteq> [] \<and> length (history s ! h) < 255 \<and> 0 \<notin> set (history s ! h)"
  by (simp add: shell_inv_def list_all_length)

lemma rl_ups:
  assumes "shell_inv s"
  shows "h + n < length (history s) \<Longrightarrow> rl (keys n arrow_up @ inp) (history s ! h) saved (Some h) s = rl inp (history s ! (h + n)) saved (Some (h + n)) s"
proof (induction n arbitrary: h)
  case (Suc n)
  then show ?case using Suc.IH[of "Suc h"] shell_inv_row[OF assms, of h] by (simp add: rl_up key_up_def)
qed simp

lemma rl_downs:
  assumes "shell_inv s"
  shows "h < length (history s) \<Longrightarrow> n \<le> h \<Longrightarrow> rl (keys n arrow_down @ inp) (history s ! h) saved (Some h) s = rl inp (history s ! (h - n)) saved (Some (h - n)) s"
proof (induction n arbitrary: h)
  case (Suc n)
  then obtain k where "h = Suc k" by (cases h) auto
  then show ?case using Suc.IH[of k] Suc.prems shell_inv_row[OF assms, of h] by (simp add: rl_down key_down_def)
qed simp

lemma cstr_id: "0 \<notin> set xs \<Longrightarrow> cstr xs = xs"
  by (induction xs) auto

lemma rl_history:
  assumes "shell_inv s" "m \<le> length (history s)" "n \<le> m" "length buf < 255" "0 \<notin> set buf"
  obtains saved' hb' where "rl (keys m arrow_up @ keys n arrow_down @ inp) buf saved None s =
    rl inp (if n = m then buf else history s ! (m - n - 1)) saved' hb' s"
proof (cases m)
  case (Suc k)
  have k: "k < length (history s)" using assms(2) Suc by simp
  have "key_up s buf saved None = (blanks (prompt_len s + length buf) @ [13] @ print_prompt s @ history s ! 0, history s ! 0, buf, Some 0)"
    using k assms(4,5) by (auto simp: key_up_def cstr_id MAX_LINE_def)
  then have up: "rl (keys m arrow_up @ q) buf saved None s = rl q (history s ! k) buf (Some k) s" for q
    using rl_ups[OF assms(1), of 0 k q buf] k assms(4) by (simp add: Suc rl_up)
  show ?thesis
  proof (cases "n \<le> k")
    case True
    then show ?thesis using that up rl_downs[OF assms(1) k True, of inp buf] Suc by simp
  next
    case False
    then have n: "n = k + 1" using assms(3) Suc by simp
    have e: "keys n arrow_down @ inp = keys k arrow_down @ arrow_down @ inp" unfolding n replicate_add by simp
    have z: "0 < length (history s)" using k by (cases "history s") simp_all
    have "rl (keys n arrow_down @ inp) (history s ! k) buf (Some k) s = rl inp buf buf None s"
      unfolding e rl_downs[OF assms(1) k le_refl] using shell_inv_row[OF assms(1) z] by (simp add: rl_down key_down_def)
    then show ?thesis using that up n Suc by simp
  qed
qed (use assms that in simp)

text \<open>
  C32: A line is what was typed, edited and recalled: after text with backspaces, some presses of the up arrow, at most
  one for each row of the history, and no more presses of the down arrow, the enter key returns the text edited, if
  all was taken back, and else the row of the history that the difference of the presses names. The line is put in
  front of the history, of which the 16 latest rows are kept, and the input behind the enter key is left.
\<close>

theorem readline_correct:
  assumes "shell_inv s" "list_all is_text cs" "length cs < 255" "n \<le> m" "m \<le> length (history s)"
    and "line = (if n = m then edit [] cs else history s ! (m - n - 1))"
  shows "\<exists>out s'. readline MAX_LINE (cs @ keys m arrow_up @ keys n arrow_down @ 10 # rest) s = (line, s', rest, out) \<and>
    shell_inv s' \<and> cwd s' = cwd s \<and> history s' = (if line = [] then history s else take 16 (line # history s))"
proof -
  have b: "length (edit [] cs) < 255" "0 \<notin> set (edit [] cs)" using edit_bound[of "[]" cs] edit_text[OF assms(2), of "[]"] assms(3) by simp_all
  have line: "length line < 255 \<and> 0 \<notin> set line"
  proof (cases "n = m")
    case False
    then have "m - n - 1 < length (history s)" using assms(4,5) by linarith
    from shell_inv_row[OF assms(1) this] show ?thesis using False assms(6) by simp
  qed (use b assms(6) in simp)
  obtain saved' hb' where "rl (keys m arrow_up @ keys n arrow_down @ 10 # rest) (edit [] cs) [] None s = rl (10 # rest) line saved' hb' s"
    unfolding assms(6) by (rule rl_history[OF assms(1,5,4) b, of "10 # rest" "[]"])
  then have r: "rl (cs @ keys m arrow_up @ keys n arrow_down @ 10 # rest) [] [] None s = (line, if line \<noteq> [] then history_add line s else s, rest)"
    using rl_chars[OF assms(2), of "[]"] assms(3) rl_enter[of line rest] line by simp
  have h: "history_add line s = s\<lparr>history := take 16 (line # history s)\<rparr>"
    using line by (simp add: history_add_def MAX_LINE_def HISTORY_MAX_def cstr_id)
  have i: "shell_inv (s\<lparr>history := take 16 (line # history s)\<rparr>)" if "line \<noteq> []"
  proof -
    have "set (take 16 (line # history s)) \<subseteq> set (line # history s)" by (rule set_take_subset)
    then show ?thesis using assms(1) line that unfolding shell_inv_def HISTORY_MAX_def list_all_iff by fastforce
  qed
  obtain line' s' rest' out where e:
    "readline_loop MAX_LINE (cs @ keys m arrow_up @ keys n arrow_down @ 10 # rest) [] [] None s = (line', s', rest', out)"
    using prod_cases4 by blast
  have "line' = line" "rest' = rest" "s' = (if line \<noteq> [] then history_add line s else s)" using r unfolding rl_def e by simp_all
  then show ?thesis using e i assms(1) unfolding readline_def h by (cases "line = []") simp_all
qed

definition shell_ex :: shell where "shell_ex = \<lparr>cwd = [47], history = [ascii ''ls'', ascii ''cd bin'']\<rparr>"

theorem readline_correct_witness:
  "\<exists>out s'. readline MAX_LINE ([97, 98, 8] @ keys 2 arrow_up @ keys 1 arrow_down @ 10 # [120]) shell_ex = (ascii ''ls'', s', [120], out) \<and>
    shell_inv s' \<and> cwd s' = [47] \<and> history s' = [ascii ''ls'', ascii ''ls'', ascii ''cd bin'']"
proof -
  have i: "shell_inv shell_ex" by (simp add: shell_inv_def shell_ex_def HISTORY_MAX_def)
  have t: "list_all is_text [97, 98, 8]" by (simp add: is_text_def)
  show ?thesis using readline_correct[OF i t, of 1 2 "ascii ''ls''" "[120]"] by (simp add: shell_ex_def)
qed

text \<open>A command of more than 58 characters makes the shell store outside its array.\<close>

lemma shell_command_overflow:
  assumes "32 \<notin> set cmd" "56 < length cmd"
  shows "shell_command cmd s = None"
proof -
  obtain c r where c: "cmd = c # r" "c \<noteq> 32" using assms by (cases cmd) auto
  have "takeWhile (\<lambda>c. c \<noteq> 32) cmd = cmd" using assms(1) by auto
  moreover have "dropWhile (\<lambda>c. c = 32) cmd = cmd" using c by simp
  ultimately have "shell_words cmd = (cmd, [])" by (simp only: shell_words_def Let_def) simp
  moreover have "\<forall>x\<in>{ascii ''exit'', ascii ''halt'', ascii ''quit'', ascii ''cd'', ascii ''free'', ascii ''mem''}. cmd \<noteq> x" using assms(2) by auto
  ultimately show ?thesis using assms(2) by (auto simp: shell_command_def command_path_def)
qed

end
