(* ===== verification/Umalloc.thy ===== *)
theory Umalloc
  imports Prelude
begin

text \<open>
  The allocator of the user programs, \<open>src/userland/malloc.h\<close>, with \<open>sbrk\<close> of \<open>src/userland/syscall.h\<close>: lists of
  free blocks of nine sizes, linked through headers of 16 bytes in the memory of the process. The system call
  \<open>SC_BRK\<close> is \<open>user_brk\<close>: it refuses addresses below the start of the heap and, depending on the parameter
  \<open>G\<close>, addresses for which the kernel has no pages. The contents of new pages are those of the memory there.

  The properties cover requests of more than 16 bytes; for smaller ones the bucket has no room for the header, and
  \<open>malloc_small_outside\<close> shows what happens.
\<close>

section \<open>The heap of a process\<close>

definition MALLOC_BUCKETS :: nat where "MALLOC_BUCKETS = 9"
definition MALLOC_MAX :: u64 where "MALLOC_MAX = 4096"

definition bucket_sz :: "nat list" where "bucket_sz = [16, 32, 64, 128, 256, 512, 1024, 2048, 4096]"

record uheap =
  um :: memory
  ubrk :: u64
  ustart :: u64
  free_lists :: "u64 list"

definition user_brk :: "(u64 \<Rightarrow> bool) \<Rightarrow> u64 \<Rightarrow> uheap \<Rightarrow> u64 \<times> uheap" where
  "user_brk G a s =
     (if a = 0 then (ubrk s, s)
      else if a < ustart s \<or> \<not> G a then (- 1, s)
      else (a, s\<lparr>ubrk := a\<rparr>))"

definition sbrk :: "(u64 \<Rightarrow> bool) \<Rightarrow> u64 \<Rightarrow> uheap \<Rightarrow> u64 \<times> uheap" where
  "sbrk G increment s =
     (let (cur, s1) = user_brk G 0 s in
      if increment = 0 then (cur, s1)
      else let (new, s2) = user_brk G (cur + increment) s1 in (if new = - 1 then - 1 else cur, s2))"

text \<open>The header of a block: \<open>magic\<close>, \<open>bucket\<close> and, from offset 8, \<open>next\<close>.\<close>

definition hdr_magic :: "memory \<Rightarrow> u64 \<Rightarrow> u16" where "hdr_magic m h = le_dec (load_bytes 2 m h)"
definition hdr_bucket :: "memory \<Rightarrow> u64 \<Rightarrow> u16" where "hdr_bucket m h = le_dec (load_bytes 2 m (h + 2))"
definition hdr_next :: "memory \<Rightarrow> u64 \<Rightarrow> u64" where "hdr_next m h = load64 m (h + 8)"

definition put_magic :: "u64 \<Rightarrow> uheap \<Rightarrow> uheap" where
  "put_magic h s = s\<lparr>um := store_bytes (um s) h (le_enc 2 (0xBEEF :: u16))\<rparr>"

definition put_bucket :: "u64 \<Rightarrow> nat \<Rightarrow> uheap \<Rightarrow> uheap" where
  "put_bucket h b s = s\<lparr>um := store_bytes (um s) (h + 2) (le_enc 2 (of_nat b :: u16))\<rparr>"

definition put_next :: "u64 \<Rightarrow> u64 \<Rightarrow> uheap \<Rightarrow> uheap" where
  "put_next h n s = s\<lparr>um := store_bytes (um s) (h + 8) (le_enc 8 n)\<rparr>"

definition set_list :: "nat \<Rightarrow> u64 \<Rightarrow> uheap \<Rightarrow> uheap" where
  "set_list b h s = s\<lparr>free_lists := (free_lists s)[b := h]\<rparr>"

section \<open>Allocation\<close>

definition malloc_bucket :: "u64 \<Rightarrow> nat option" where
  "malloc_bucket req =
     (if req \<le> 16 then Some 0
      else find (\<lambda>i. of_nat (bucket_sz ! i) \<ge> req + 16) [0..<MALLOC_BUCKETS])"

definition push_block :: "u64 \<Rightarrow> nat \<Rightarrow> uheap \<Rightarrow> uheap" where
  "push_block h b s = set_list b h (put_next h (free_lists s ! b) (put_bucket h b (put_magic h s)))"

text \<open>The loop over the blocks of a page, the first \<open>n\<close> rounds.\<close>

primrec push_blocks :: "nat \<Rightarrow> u64 \<Rightarrow> nat \<Rightarrow> uheap \<Rightarrow> uheap" where
  "push_blocks 0 a b s = s"
| "push_blocks (Suc n) a b s = push_block (a + of_nat n * of_nat (bucket_sz ! b)) b (push_blocks n a b s)"

definition malloc_add_page :: "(u64 \<Rightarrow> bool) \<Rightarrow> nat \<Rightarrow> uheap \<Rightarrow> uheap" where
  "malloc_add_page G b s =
     (let sz = bucket_sz ! b; page_avail = 4096 div sz; needed = (if page_avail > 0 then page_avail else 1);
          alloc = of_nat (needed * sz) :: u64;
          (a, s1) = sbrk G 0 s;
          page_end = (a + alloc + 0xFFF) AND NOT 0xFFF;
          (cur, s2) = sbrk G 0 s1
      in if sint page_end > sint cur then
           let (ret, s3) = sbrk G (page_end - cur) s2 in
           if ret = - 1 then s3 else push_blocks needed a b s3
         else push_blocks needed a b s2)"

definition malloc :: "(u64 \<Rightarrow> bool) \<Rightarrow> u64 \<Rightarrow> uheap \<Rightarrow> u64 \<times> uheap" where
  "malloc G req s =
     (if req = 0 then (0, s)
      else if req > MALLOC_MAX then
        let aligned = (req + 0xFFF) AND NOT 0xFFF; (cur, s1) = sbrk G 0 s; (r, s2) = sbrk G aligned s1
        in if r = - 1 then (0, s2) else (cur, s2)
      else case malloc_bucket req of None \<Rightarrow> (0, s)
        | Some b \<Rightarrow>
            let s1 = (if free_lists s ! b = 0 then malloc_add_page G b s else s) in
            if free_lists s1 ! b = 0 then (0, s1)
            else let h = free_lists s1 ! b in (h + 16, put_magic h (set_list b (hdr_next (um s1) h) s1)))"

definition free :: "u64 \<Rightarrow> uheap \<Rightarrow> uheap" where
  "free ptr s =
     (if ptr = 0 then s
      else
        let h = ptr - 16 in
        if hdr_magic (um s) h \<noteq> 0xBEEF then s
        else
          let b = unat (hdr_bucket (um s) h) in
          if b \<ge> MALLOC_BUCKETS then s
          else set_list b h (put_next h (free_lists s ! b) s))"

definition calloc :: "(u64 \<Rightarrow> bool) \<Rightarrow> u64 \<Rightarrow> u64 \<Rightarrow> uheap \<Rightarrow> u64 \<times> uheap" where
  "calloc G nmemb req s =
     (let total = nmemb * req; (p, s1) = malloc G total s in
      (p, if p = 0 then s1 else s1\<lparr>um := store_bytes (um s1) p (replicate (unat total) 0)\<rparr>))"

text \<open>The copying loop, byte by byte upwards.\<close>

primrec copy_up :: "nat \<Rightarrow> u64 \<Rightarrow> u64 \<Rightarrow> memory \<Rightarrow> memory" where
  "copy_up 0 dst src m = m"
| "copy_up (Suc n) dst src m = (let m1 = copy_up n dst src m in m1(dst + of_nat n := m1 (src + of_nat n)))"

definition realloc :: "(u64 \<Rightarrow> bool) \<Rightarrow> u64 \<Rightarrow> u64 \<Rightarrow> uheap \<Rightarrow> u64 \<times> uheap" where
  "realloc G ptr new_size s =
     (if ptr = 0 then malloc G new_size s
      else if new_size = 0 then (0, free ptr s)
      else
        let b = unat (hdr_bucket (um s) (ptr - 16));
            old_size = (if b < MALLOC_BUCKETS then of_nat (bucket_sz ! b) - 16 else 0 :: u64);
            (newp, s1) = malloc G new_size s
        in if newp = 0 then (0, s1)
           else
             let copy = (if old_size < new_size then old_size else new_size)
             in (newp, free ptr (s1\<lparr>um := copy_up (unat copy) newp ptr (um s1)\<rparr>)))"

section \<open>Headers\<close>

text \<open>Reads of a header depend on its 16 bytes only.\<close>

definition same_hdr :: "memory \<Rightarrow> memory \<Rightarrow> u64 \<Rightarrow> bool" where
  "same_hdr m m' h \<longleftrightarrow> load_bytes 16 m h = load_bytes 16 m' h"

lemma hdr_reads:
  "hdr_magic m h = le_dec (take 2 (load_bytes 16 m h))"
  "hdr_bucket m h = le_dec (take 2 (drop 2 (load_bytes 16 m h)))"
  "hdr_next m h = le_dec (drop 8 (load_bytes 16 m h))"
proof -
  have l: "load_bytes 16 m h = load_bytes 2 m h @ load_bytes 2 m (h + 2) @ load_bytes 4 m (h + 4) @ load_bytes 8 m (h + 8)"
    by (simp add: load_bytes_def upt_conv_Cons algebra_simps)
  show "hdr_magic m h = le_dec (take 2 (load_bytes 16 m h))"
    "hdr_bucket m h = le_dec (take 2 (drop 2 (load_bytes 16 m h)))"
    "hdr_next m h = le_dec (drop 8 (load_bytes 16 m h))"
    by (simp_all add: l hdr_magic_def hdr_bucket_def hdr_next_def load64_def)
qed

lemma same_hdrD: "same_hdr m m' h \<Longrightarrow> hdr_magic m h = hdr_magic m' h \<and> hdr_bucket m h = hdr_bucket m' h \<and> hdr_next m h = hdr_next m' h"
  by (simp add: same_hdr_def hdr_reads)

lemma put_reads:
  assumes "unat h + 16 \<le> 2 ^ 64"
  shows "hdr_magic (um (put_magic h s)) h = 0xBEEF" "hdr_bucket (um (put_magic h s)) h = hdr_bucket (um s) h"
    "hdr_next (um (put_magic h s)) h = hdr_next (um s) h"
    "hdr_magic (um (put_bucket h b s)) h = hdr_magic (um s) h" "b < 2 ^ 16 \<Longrightarrow> unat (hdr_bucket (um (put_bucket h b s)) h) = b"
    "hdr_magic (um (put_next h n s)) h = hdr_magic (um s) h" "hdr_bucket (um (put_next h n s)) h = hdr_bucket (um s) h"
    "hdr_next (um (put_next h n s)) h = n"
proof -
  have u: "unat (h + 2) = unat h + 2" "unat (h + 8) = unat h + 8"
    using unat_range[OF assms, of 2] unat_range[OF assms, of 8] by simp_all
  show "hdr_magic (um (put_magic h s)) h = 0xBEEF"
    using load_store_same[of "le_enc 2 (0xBEEF :: u16)" "um s" h] by (simp add: hdr_magic_def put_magic_def le_dec_enc_id)
  show "b < 2 ^ 16 \<Longrightarrow> unat (hdr_bucket (um (put_bucket h b s)) h) = b"
    using load_store_same[of "le_enc 2 (of_nat b :: u16)" "um s" "h + 2"]
    by (simp add: hdr_bucket_def put_bucket_def le_dec_enc_id unat_of_nat_small)
  show "hdr_next (um (put_next h n s)) h = n"
    using load_store_same[of "le_enc 8 n" "um s" "h + 8"] by (simp add: hdr_next_def load64_def put_next_def le_dec_enc_id)
  show "hdr_bucket (um (put_magic h s)) h = hdr_bucket (um s) h" "hdr_next (um (put_magic h s)) h = hdr_next (um s) h"
    "hdr_magic (um (put_bucket h b s)) h = hdr_magic (um s) h"
    "hdr_magic (um (put_next h n s)) h = hdr_magic (um s) h" "hdr_bucket (um (put_next h n s)) h = hdr_bucket (um s) h"
    using assms u by (simp_all add: hdr_magic_def hdr_bucket_def hdr_next_def load64_def put_magic_def put_bucket_def put_next_def load_store_other)
qed

lemma put_frame [simp]:
  "ubrk (put_magic h s) = ubrk s" "ustart (put_magic h s) = ustart s" "free_lists (put_magic h s) = free_lists s"
  "ubrk (put_bucket h b s) = ubrk s" "ustart (put_bucket h b s) = ustart s" "free_lists (put_bucket h b s) = free_lists s"
  "ubrk (put_next h n s) = ubrk s" "ustart (put_next h n s) = ustart s" "free_lists (put_next h n s) = free_lists s"
  "ubrk (set_list b h s) = ubrk s" "ustart (set_list b h s) = ustart s" "um (set_list b h s) = um s"
  "free_lists (set_list b h s) = (free_lists s)[b := h]"
  by (simp_all add: put_magic_def put_bucket_def put_next_def set_list_def)

text \<open>The stores of a header change no byte outside of it.\<close>

definition only_changes :: "u64 \<Rightarrow> nat \<Rightarrow> memory \<Rightarrow> memory \<Rightarrow> bool" where
  "only_changes a n m m' \<longleftrightarrow> (\<forall>x. unat x < unat a \<or> unat a + n \<le> unat x \<longrightarrow> m' x = m x)"

lemma only_changes_refl: "only_changes a n m m"
  by (simp add: only_changes_def)

lemma only_changes_trans: "only_changes a n m m' \<Longrightarrow> only_changes a n m' m'' \<Longrightarrow> only_changes a n m m''"
  by (simp add: only_changes_def)

lemma only_changes_load:
  "only_changes a n m m' \<Longrightarrow> unat x + k \<le> 2 ^ 64 \<Longrightarrow> unat x + k \<le> unat a \<or> unat a + n \<le> unat x \<Longrightarrow> load_bytes k m' x = load_bytes k m x"
  by (rule load_bytes_cong) (auto simp: only_changes_def unat_range)

lemma put_changes:
  assumes "unat h + 16 \<le> 2 ^ 64"
  shows "only_changes h 16 (um s) (um (put_magic h s))" "only_changes h 16 (um s) (um (put_bucket h b s))" "only_changes h 16 (um s) (um (put_next h n s))"
proof -
  have u: "unat (h + 2) = unat h + 2" "unat (h + 8) = unat h + 8"
    using unat_range[OF assms, of 2] unat_range[OF assms, of 8] by simp_all
  then show "only_changes h 16 (um s) (um (put_magic h s))" "only_changes h 16 (um s) (um (put_bucket h b s))" "only_changes h 16 (um s) (um (put_next h n s))"
    using assms by (auto simp: only_changes_def put_magic_def put_bucket_def put_next_def intro!: store_bytes_other)
qed

section \<open>Blocks\<close>

text \<open>
  \<open>pg\<close> says for which bucket a page was divided into blocks. Blocks of such pages are equal or disjoint.
\<close>

abbreviation bsz :: "nat \<Rightarrow> nat" where "bsz b \<equiv> bucket_sz ! b"

definition valid_block :: "(nat \<rightharpoonup> nat) \<Rightarrow> nat \<Rightarrow> u64 \<Rightarrow> bool" where
  "valid_block pg b h \<longleftrightarrow> b < 9 \<and> pg (unat h div 4096) = Some b \<and> unat h mod bsz b = 0"

lemma bsz_facts: "b < 9 \<Longrightarrow> bsz b dvd 4096 \<and> 16 \<le> bsz b \<and> bsz b \<le> 4096"
proof -
  assume "b < 9"
  then have "b \<in> {0, 1, 2, 3, 4, 5, 6, 7, 8}" by auto
  then show ?thesis by (auto simp: bucket_sz_def dvd_eq_mod_eq_0)
qed

lemma multiple_apart: "x mod z = 0 \<Longrightarrow> y mod z = 0 \<Longrightarrow> x < y \<Longrightarrow> x + z \<le> (y :: nat)"
proof -
  assume "x mod z = 0" "y mod z = 0" and lt: "x < y"
  then obtain i j where e: "x = z * i" "y = z * j" by (auto simp: mod_eq_0_iff_dvd elim!: dvdE)
  then have "Suc i \<le> j" using lt by (cases "i < j") auto
  then have "z * Suc i \<le> z * j" by (rule mult_le_mono2)
  then show "x + z \<le> y" by (simp add: e)
qed

lemma block_in_page: "valid_block pg b h \<Longrightarrow> unat h mod 4096 + bsz b \<le> 4096"
proof -
  assume v: "valid_block pg b h"
  then have d: "bsz b dvd 4096" "16 \<le> bsz b" using bsz_facts by (auto simp: valid_block_def)
  have "unat h mod 4096 mod bsz b = 0" using v d(1) by (simp add: valid_block_def mod_mod_cancel)
  moreover have "4096 mod bsz b = 0" using d(1) by simp
  moreover have "unat h mod 4096 < 4096" by simp
  ultimately show ?thesis by (rule multiple_apart)
qed

lemma valid_disjoint:
  assumes "valid_block pg b h" "valid_block pg c k" "h \<noteq> k"
  shows "unat h + bsz b \<le> unat k \<or> unat k + bsz c \<le> unat h"
proof (cases "unat h div 4096 = unat k div 4096")
  case True
  then have "b = c" using assms(1,2) by (simp add: valid_block_def)
  moreover have "unat h \<noteq> unat k" using assms(3) by (simp add: word_unat_eq_iff)
  ultimately show ?thesis using assms(1,2) multiple_apart[of "unat h" "bsz b" "unat k"] multiple_apart[of "unat k" "bsz b" "unat h"]
    by (auto simp: valid_block_def neq_iff)
next
  case False
  have "unat h = 4096 * (unat h div 4096) + unat h mod 4096" "unat k = 4096 * (unat k div 4096) + unat k mod 4096" by simp_all
  then show ?thesis using False block_in_page[OF assms(1)] block_in_page[OF assms(2)] by linarith
qed

section \<open>The invariant\<close>

primrec chain :: "memory \<Rightarrow> u64 \<Rightarrow> u64 list \<Rightarrow> bool" where
  "chain m p [] \<longleftrightarrow> p = 0"
| "chain m p (h # hs) \<longleftrightarrow> p = h \<and> h \<noteq> 0 \<and> chain m (hdr_next m h) hs"

definition block_ok :: "memory \<Rightarrow> (nat \<rightharpoonup> nat) \<Rightarrow> nat \<Rightarrow> u64 \<Rightarrow> bool" where
  "block_ok m pg b h \<longleftrightarrow> valid_block pg b h \<and> hdr_magic m h = 0xBEEF \<and> unat (hdr_bucket m h) = b"

definition break_ok :: "uheap \<Rightarrow> (nat \<rightharpoonup> nat) \<Rightarrow> bool" where
  "break_ok s pg \<longleftrightarrow> length (free_lists s) = 9 \<and> page_aligned (ubrk s) \<and> 0 < ustart s \<and> ustart s \<le> ubrk s \<and> unat (ubrk s) < 2 ^ 62 \<and>
     (\<forall>p b. pg p = Some b \<longrightarrow> unat (ustart s) \<le> 4096 * p \<and> 4096 * p + 4096 \<le> unat (ubrk s))"

definition um_inv :: "uheap \<Rightarrow> (nat \<rightharpoonup> nat) \<Rightarrow> (nat \<Rightarrow> u64 list) \<Rightarrow> (u64 \<times> nat) set \<Rightarrow> bool" where
  "um_inv s pg F live \<longleftrightarrow> break_ok s pg \<and>
     (\<forall>b<9. chain (um s) (free_lists s ! b) (F b) \<and> distinct (F b) \<and> (\<forall>h\<in>set (F b). block_ok (um s) pg b h)) \<and>
     (\<forall>(h, b)\<in>live. block_ok (um s) pg b h \<and> h \<notin> set (F b))"

lemma chain_cong: "\<forall>h\<in>set hs. same_hdr m m' h \<Longrightarrow> chain m p hs \<longleftrightarrow> chain m' p hs"
  by (induction hs arbitrary: p) (auto dest: same_hdrD)

lemma block_range:
  assumes "break_ok s pg" "valid_block pg b h"
  shows "h \<noteq> 0" "unat (ustart s) \<le> unat h" "unat h + bsz b \<le> unat (ubrk s)" "unat h + bsz b \<le> 2 ^ 62" "unat h + 16 \<le> 2 ^ 64" "16 \<le> bsz b"
proof -
  let ?p = "unat h div 4096"
  have p: "unat (ustart s) \<le> 4096 * ?p" "4096 * ?p + 4096 \<le> unat (ubrk s)" and b: "b < 9" and u: "0 < ustart s" "unat (ubrk s) < 2 ^ 62"
    using assms by (auto simp: break_ok_def valid_block_def)
  have e: "unat h = 4096 * ?p + unat h mod 4096" by simp
  show l: "unat (ustart s) \<le> unat h" using p(1) e by linarith
  show r: "unat h + bsz b \<le> unat (ubrk s)" using p(2) e block_in_page[OF assms(2)] by linarith
  show "16 \<le> bsz b" using bsz_facts[OF b] by simp
  then show "unat h + bsz b \<le> 2 ^ 62" "unat h + 16 \<le> 2 ^ 64" using r u(2) by simp_all
  have "0 < unat (ustart s)" using u(1) by (simp add: word_less_nat_alt)
  then show "h \<noteq> 0" using l by auto
qed

text \<open>A change inside one block leaves the headers of the others.\<close>

lemma other_hdr:
  assumes "break_ok s pg" "valid_block pg b h" "valid_block pg c k" "h \<noteq> k" "only_changes h (bsz b) m m'"
  shows "same_hdr m m' k"
proof -
  have "unat h + bsz b \<le> unat k \<or> unat k + 16 \<le> unat h"
    using valid_disjoint[OF assms(2-4)] block_range(6)[OF assms(1,3)] by linarith
  then show ?thesis
    unfolding same_hdr_def using only_changes_load[OF assms(5), of k 16] block_range(5)[OF assms(1,3)] by auto
qed

lemma only_changes_mono: "only_changes a n m m' \<Longrightarrow> n \<le> k \<Longrightarrow> only_changes a k m m'"
  by (auto simp: only_changes_def)

text \<open>
  An update of the memory inside one block and of one list, given what the block becomes: the new list of its bucket
  and the new live blocks.
\<close>

lemma um_inv_update:
  assumes inv: "um_inv s pg F live" and v: "valid_block pg b h"
    and ch: "only_changes h (bsz b) (um s) (um s')"
    and s': "ubrk s' = ubrk s" "ustart s' = ustart s" "free_lists s' = (free_lists s)[b := p]"
    and hdr: "hdr_magic (um s') h = 0xBEEF" "unat (hdr_bucket (um s') h) = b"
    and hs: "chain (um s') p hs" "distinct hs" "set hs \<subseteq> insert h (set (F b))"
    and live': "live' \<subseteq> insert (h, b) live" "(h, b) \<in> live' \<Longrightarrow> h \<notin> set hs"
  shows "um_inv s' pg (F(b := hs)) live'"
proof -
  have bo: "break_ok s pg" and b: "b < 9" using inv v by (auto simp: um_inv_def valid_block_def)
  have bo': "break_ok s' pg" using bo by (simp add: break_ok_def s')
  have same: "block_ok (um s') pg c k" if "block_ok (um s) pg c k" "k \<noteq> h" for c k
    using same_hdrD[OF other_hdr[OF bo v _ _ ch, of c k]] that by (auto simp: block_ok_def)
  have hok: "block_ok (um s') pg b h" using v hdr by (simp add: block_ok_def)
  have hb: "c = b" if "block_ok (um s) pg c h" for c using that v by (simp add: block_ok_def valid_block_def)
  have f: "chain (um s') (free_lists s' ! c) ((F(b := hs)) c) \<and> distinct ((F(b := hs)) c) \<and> (\<forall>k\<in>set ((F(b := hs)) c). block_ok (um s') pg c k)"
    if c: "c < 9" for c
  proof (cases "c = b")
    case True
    have "free_lists s' ! b = p" using b bo by (simp add: s' break_ok_def)
    moreover have "\<forall>k\<in>set (F b). block_ok (um s) pg b k" using inv b by (simp add: um_inv_def)
    then have "block_ok (um s') pg b k" if "k \<in> set hs" for k using that hs(3) hok same by (cases "k = h") auto
    ultimately show ?thesis using True hs by simp
  next
    case False
    have Fc: "chain (um s) (free_lists s ! c) (F c)" "distinct (F c)" "\<forall>k\<in>set (F c). block_ok (um s) pg c k"
      using inv c by (simp_all add: um_inv_def)
    then have "\<forall>k\<in>set (F c). k \<noteq> h" using hb False by auto
    then have "\<forall>k\<in>set (F c). same_hdr (um s) (um s') k" "\<forall>k\<in>set (F c). block_ok (um s') pg c k"
      using Fc(3) other_hdr[OF bo v _ _ ch, of c] same by (auto simp: block_ok_def[of "um s"])
    then show ?thesis using Fc False chain_cong[of "F c" "um s" "um s'"] by (simp add: s')
  qed
  have l: "block_ok (um s') pg c k \<and> k \<notin> set ((F(b := hs)) c)" if "(k, c) \<in> live'" for k c
  proof (cases "(k, c) = (h, b)")
    case True
    then show ?thesis using that live'(2) hok by simp
  next
    case False
    then have k: "block_ok (um s) pg c k" "k \<notin> set (F c)" using that live'(1) inv by (auto simp: um_inv_def)
    then have "k \<noteq> h" using hb False by auto
    then show ?thesis using k same hs(3) by auto
  qed
  show ?thesis unfolding um_inv_def using bo' f l by blast
qed

section \<open>Operations on blocks\<close>

lemma um_invD:
  assumes "um_inv s pg F live"
  shows "break_ok s pg" "b < 9 \<Longrightarrow> chain (um s) (free_lists s ! b) (F b)" "b < 9 \<Longrightarrow> distinct (F b)"
    "b < 9 \<Longrightarrow> h \<in> set (F b) \<Longrightarrow> block_ok (um s) pg b h" "(h, b) \<in> live \<Longrightarrow> block_ok (um s) pg b h" "(h, b) \<in> live \<Longrightarrow> h \<notin> set (F b)"
  using assms by (auto simp: um_inv_def)

lemma chain_add:
  assumes inv: "um_inv s pg F live" and v: "valid_block pg b h" and n: "h \<notin> set (F b)"
    and ch: "only_changes h (bsz b) (um s) m" and nx: "hdr_next m h = free_lists s ! b"
  shows "chain m h (h # F b)"
proof -
  have b: "b < 9" using v by (simp add: valid_block_def)
  have "\<forall>k\<in>set (F b). same_hdr (um s) m k"
    using other_hdr[OF um_invD(1)[OF inv] v _ _ ch] um_invD(4)[OF inv b] n by (auto simp: block_ok_def)
  then show ?thesis
    using um_invD(2)[OF inv b] chain_cong[of "F b" "um s" m] block_range(1)[OF um_invD(1)[OF inv] v] nx by simp
qed

lemma push_block_inv:
  assumes inv: "um_inv s pg F live" and v: "valid_block pg b h" and n: "h \<notin> set (F b)" "(h, b) \<notin> live"
  shows "um_inv (push_block h b s) pg (F(b := h # F b)) live" "only_changes h 16 (um s) (um (push_block h b s))"
proof -
  have bo: "break_ok s pg" and b: "b < 9" using um_invD(1)[OF inv] v by (auto simp: valid_block_def)
  note r = block_range[OF bo v]
  note pr = put_reads[OF r(5)] and pc = put_changes[OF r(5)]
  show ch: "only_changes h 16 (um s) (um (push_block h b s))"
    unfolding push_block_def put_frame by (rule only_changes_trans[OF only_changes_trans[OF pc(1) pc(2)] pc(3)])
  then have ch': "only_changes h (bsz b) (um s) (um (push_block h b s))" using r(6) by (rule only_changes_mono)
  have hb: "hdr_magic (um (push_block h b s)) h = 0xBEEF" "unat (hdr_bucket (um (push_block h b s)) h) = b"
    "hdr_next (um (push_block h b s)) h = free_lists s ! b"
    using b by (simp_all add: push_block_def pr)
  show "um_inv (push_block h b s) pg (F(b := h # F b)) live"
    by (rule um_inv_update[OF inv v ch' _ _ _ hb(1,2) chain_add[OF inv v n(1) ch' hb(3)]])
       (use n um_invD(3)[OF inv b] in \<open>auto simp: push_block_def\<close>)
qed

lemma pop_block_inv:
  assumes inv: "um_inv s pg F live" and b: "b < 9" and F: "F b = h # hs"
    and s': "s' = put_magic h (set_list b (hdr_next (um s) h) s)"
  shows "um_inv s' pg (F(b := hs)) (insert (h, b) live)" "only_changes h 16 (um s) (um s')" "free_lists s ! b = h" "h \<noteq> 0" "(h, b) \<notin> live" "valid_block pg b h"
proof -
  have bk: "block_ok (um s) pg b h" using um_invD(4)[OF inv b] F by simp
  then show v: "valid_block pg b h" by (simp add: block_ok_def)
  note r = block_range[OF um_invD(1)[OF inv] v]
  show h: "free_lists s ! b = h" "h \<noteq> 0" using um_invD(2)[OF inv b] F by simp_all
  show "(h, b) \<notin> live" using um_invD(6)[OF inv, of h b] F by auto
  have um: "um s' = um (put_magic h s)" by (simp add: s' put_magic_def set_list_def)
  show ch: "only_changes h 16 (um s) (um s')" unfolding um by (rule put_changes(1)[OF r(5)])
  then have ch': "only_changes h (bsz b) (um s) (um s')" using r(6) by (rule only_changes_mono)
  have hb: "hdr_magic (um s') h = 0xBEEF" "unat (hdr_bucket (um s') h) = b"
    unfolding um using bk by (simp_all add: put_reads[OF r(5)] block_ok_def)
  have d: "distinct hs" "h \<notin> set hs" using um_invD(3)[OF inv b] F by simp_all
  have "chain (um s) (hdr_next (um s) h) hs" using um_invD(2)[OF inv b] F by simp
  moreover have "\<forall>k\<in>set hs. same_hdr (um s) (um s') k"
    using other_hdr[OF um_invD(1)[OF inv] v _ _ ch'] um_invD(4)[OF inv b] d F by (auto simp: block_ok_def)
  ultimately have c: "chain (um s') (hdr_next (um s) h) hs" using chain_cong by blast
  show "um_inv s' pg (F(b := hs)) (insert (h, b) live)"
    by (rule um_inv_update[OF inv v ch' _ _ _ hb c d(1)]) (use d F in \<open>auto simp: s'\<close>)
qed

lemma free_inv:
  assumes inv: "um_inv s pg F live" and l: "(h, b) \<in> live"
  shows "um_inv (free (h + 16) s) pg (F(b := h # F b)) (live - {(h, b)})" "only_changes h 16 (um s) (um (free (h + 16) s))"
proof -
  have bk: "block_ok (um s) pg b h" and n: "h \<notin> set (F b)" using um_invD(5,6)[OF inv l] by auto
  then have v: "valid_block pg b h" and b: "b < 9" by (auto simp: block_ok_def valid_block_def)
  note r = block_range[OF um_invD(1)[OF inv] v]
  have "unat (h + 16) = unat h + 16" using r(4,6) by (subst unat_add_small) simp_all
  then have nz: "h + 16 \<noteq> 0" by auto
  let ?s' = "set_list b h (put_next h (free_lists s ! b) s)"
  have f: "free (h + 16) s = ?s'" using nz bk b by (simp add: free_def block_ok_def MALLOC_BUCKETS_def)
  show ch: "only_changes h 16 (um s) (um (free (h + 16) s))" unfolding f put_frame by (rule put_changes(3)[OF r(5)])
  then have ch': "only_changes h (bsz b) (um s) (um ?s')" unfolding f using r(6) by (rule only_changes_mono)
  have hb: "hdr_magic (um ?s') h = 0xBEEF" "unat (hdr_bucket (um ?s') h) = b" "hdr_next (um ?s') h = free_lists s ! b"
    using bk by (simp_all add: put_reads[OF r(5)] block_ok_def)
  show "um_inv (free (h + 16) s) pg (F(b := h # F b)) (live - {(h, b)})"
    unfolding f by (rule um_inv_update[OF inv v ch' _ _ _ hb(1,2) chain_add[OF inv v n ch' hb(3)]])
       (use n um_invD(3)[OF inv b] in auto)
qed

text \<open>A store into the part of a live block behind its header.\<close>

lemma payload_inv:
  assumes inv: "um_inv s pg F live" and l: "(h, b) \<in> live" and i: "16 \<le> i" "i < bsz b"
  shows "um_inv (s\<lparr>um := (um s)(h + of_nat i := v)\<rparr>) pg F live"
proof -
  have bk: "block_ok (um s) pg b h" and n: "h \<notin> set (F b)" using um_invD(5,6)[OF inv l] by auto
  then have v: "valid_block pg b h" and b: "b < 9" by (auto simp: block_ok_def valid_block_def)
  note r = block_range[OF um_invD(1)[OF inv] v]
  let ?m = "(um s)(h + of_nat i := v)"
  have a: "unat (h + of_nat i) = unat h + i" using r(4) i(2) by (intro unat_range[of h "bsz b"]) simp_all
  have ch: "only_changes h (bsz b) (um s) ?m" using a i by (auto simp: only_changes_def)
  have "only_changes (h + of_nat i) 1 (um s) ?m" using a by (auto simp: only_changes_def)
  from only_changes_load[OF this, of h 16] have "same_hdr (um s) ?m h" using a i r(5) by (simp add: same_hdr_def)
  from same_hdrD[OF this] have hb: "hdr_magic ?m h = 0xBEEF" "unat (hdr_bucket ?m h) = b" using bk by (simp_all add: block_ok_def)
  have "\<forall>k\<in>set (F b). same_hdr (um s) ?m k"
    using other_hdr[OF um_invD(1)[OF inv] v _ _ ch] um_invD(4)[OF inv b] n by (auto simp: block_ok_def)
  then have c: "chain ?m (free_lists s ! b) (F b)" using um_invD(2)[OF inv b] chain_cong by blast
  have "um_inv (s\<lparr>um := ?m\<rparr>) pg (F(b := F b)) live"
    by (rule um_inv_update[OF inv v, of _ "free_lists s ! b"]) (use ch hb c um_invD(3)[OF inv b] n in auto)
  then show ?thesis by simp
qed

section \<open>New pages\<close>

lemma valid_block_mono: "valid_block pg b h \<Longrightarrow> pg \<subseteq>\<^sub>m pg' \<Longrightarrow> valid_block pg' b h"
  by (auto simp: valid_block_def map_le_def dom_def)

lemma um_inv_grow:
  assumes "um_inv s pg F live" "page_aligned nb" "unat (ubrk s) \<le> unat nb" "unat nb < 2 ^ 62" "pg \<subseteq>\<^sub>m pg'"
    and "\<forall>p b. pg' p = Some b \<longrightarrow> pg p = Some b \<or> unat (ubrk s) \<le> 4096 * p \<and> 4096 * p + 4096 \<le> unat nb"
  shows "um_inv (s\<lparr>ubrk := nb\<rparr>) pg' F live"
proof -
  have "break_ok s pg" by (rule um_invD(1)[OF assms(1)])
  then have "break_ok (s\<lparr>ubrk := nb\<rparr>) pg'"
    using assms(2-4,6) unfolding break_ok_def by (fastforce simp: word_le_nat_alt)
  then show ?thesis using assms(1) valid_block_mono[OF _ assms(5)] by (auto simp: um_inv_def block_ok_def)
qed

lemma push_blocks_inv:
  assumes inv: "um_inv s pg F live" and p: "pg p = Some b" "b < 9" "unat a = 4096 * p"
    and old: "\<forall>h\<in>set (F b). unat h div 4096 \<noteq> p" "\<forall>(h, c)\<in>live. unat h div 4096 \<noteq> p"
  shows "n * bsz b \<le> 4096 \<Longrightarrow> \<exists>hs. um_inv (push_blocks n a b s) pg (F(b := hs @ F b)) live \<and> length hs = n \<and>
    (\<forall>h\<in>set hs. \<exists>i<n. unat h = unat a + i * bsz b) \<and> only_changes a 4096 (um s) (um (push_blocks n a b s))"
proof (induction n)
  case 0
  show ?case using inv by (intro exI[of _ "[]"]) (simp add: only_changes_refl)
next
  case (Suc n)
  have "n * bsz b \<le> 4096" using Suc.prems by simp
  from Suc.IH[OF this] obtain hs where hs: "um_inv (push_blocks n a b s) pg (F(b := hs @ F b)) live" "length hs = n"
    "\<forall>h\<in>set hs. \<exists>i<n. unat h = unat a + i * bsz b" "only_changes a 4096 (um s) (um (push_blocks n a b s))" by blast
  note z = bsz_facts[OF p(2)] and bo = um_invD(1)[OF inv]
  have top: "unat a + 4096 \<le> unat (ubrk s)" "unat (ubrk s) < 2 ^ 62" using bo p(1,3) by (auto simp: break_ok_def)
  have n: "n * bsz b + bsz b \<le> 4096" using Suc.prems by simp
  let ?h = "a + of_nat n * of_nat (bsz b)"
  have "?h = a + of_nat (n * bsz b)" by simp
  moreover have "unat (a + of_nat (n * bsz b)) = unat a + n * bsz b" using top n z by (intro unat_range[of a 4096]) auto
  ultimately have h: "unat ?h = unat a + n * bsz b" by metis
  have "unat ?h div 4096 = p" unfolding h p(3) using n z by simp
  moreover have "unat ?h mod bsz b = 0" unfolding h p(3) using z by (auto elim!: dvdE)
  ultimately have v: "valid_block pg b ?h" using p(1,2) by (simp add: valid_block_def)
  have f: "?h \<notin> set ((F(b := hs @ F b)) b)" using hs(3) old(1) \<open>unat ?h div 4096 = p\<close> h z by fastforce
  have l: "(?h, b) \<notin> live" using old(2) \<open>unat ?h div 4096 = p\<close> by auto
  note pb = push_block_inv[OF hs(1) v f l]
  have "only_changes a 4096 (um (push_blocks n a b s)) (um (push_blocks (Suc n) a b s))"
    using pb(2) h n z unfolding only_changes_def push_blocks.simps by auto
  from only_changes_trans[OF hs(4) this] have "only_changes a 4096 (um s) (um (push_blocks (Suc n) a b s))" .
  moreover have "um_inv (push_blocks (Suc n) a b s) pg (F(b := (?h # hs) @ F b)) live"
    using pb(1) unfolding fun_upd_upd fun_upd_same push_blocks.simps append_Cons .
  moreover have "\<forall>k\<in>set (?h # hs). \<exists>i<Suc n. unat k = unat a + i * bsz b" using hs(3) h by (auto intro: less_SucI)
  moreover have "length (?h # hs) = Suc n" using hs(2) by simp
  ultimately show ?case by blast
qed

lemma not_minus_one: "unat x < 2 ^ 63 \<Longrightarrow> (x :: u64) \<noteq> - 1"
proof
  assume "unat x < 2 ^ 63" "x = - 1"
  moreover have "unat (- 1 :: u64) = 2 ^ 64 - 1" by (simp add: unsigned_minus_1_eq_mask mask_eq_exp_minus_1)
  ultimately show False by simp
qed

lemma malloc_add_page_eq:
  assumes "break_ok s pg" "b < 9"
  shows "malloc_add_page G b s =
    (if G (ubrk s + 4096) then push_blocks (4096 div bsz b) (ubrk s) b (s\<lparr>ubrk := ubrk s + 4096\<rparr>) else s)"
proof -
  note z = bsz_facts[OF assms(2)]
  have u: "unat (ubrk s) < 2 ^ 62" "unat (ubrk s) mod 4096 = 0" "ustart s \<le> ubrk s" "0 < ustart s"
    using assms(1) by (auto simp: break_ok_def page_aligned_def)
  let ?e = "(ubrk s + 4096 + 0xFFF) AND NOT 0xFFF"
  have n: "unat (ubrk s + 4096) = unat (ubrk s) + 4096" using u by (subst unat_add_small) simp_all
  have "unat (ubrk s + 4096 + 0xFFF) = unat (ubrk s) + 4096 + 4095" using u n by (subst unat_add_small) simp_all
  then have "unat ?e = unat (ubrk s) + 4096" unfolding unat_align4096 using u(2) by (auto elim!: dvdE simp: mod_eq_0_iff_dvd)
  then have e: "?e = ubrk s + 4096" using n by (simp add: word_unat_eq_iff)
  have d: "4096 div bsz b > 0" "4096 div bsz b * bsz b = 4096" using z by (auto simp: div_greater_zero_iff dvd_div_mult_self)
  have a: "of_nat (4096 div bsz b * bsz b) = (4096 :: u64)" unfolding d by simp
  have lt: "sint (ubrk s) < sint (ubrk s + 4096)" using u n by (simp add: sint_small)
  have m: "ubrk s + 4096 \<noteq> - 1" "ubrk s \<noteq> - 1" using n u(1) by (intro not_minus_one; simp)+
  have "0 < unat (ubrk s + 4096)" using n by simp
  then have nz: "ubrk s + 4096 \<noteq> 0" "\<not> ubrk s + 4096 < ustart s" using n u by (auto simp: word_less_nat_alt word_le_nat_alt)
  have sb0: "sbrk G 0 t = (ubrk t, t)" for t by (simp add: sbrk_def user_brk_def)
  have sb: "sbrk G 4096 s = (if G (ubrk s + 4096) then (ubrk s, s\<lparr>ubrk := ubrk s + 4096\<rparr>) else (- 1, s))"
    using nz m(1) by (simp add: sbrk_def user_brk_def)
  have s: "ubrk s + 4096 - ubrk s = 4096" by simp
  show ?thesis
    unfolding malloc_add_page_def Let_def if_P[OF d(1)] a sb0 prod.case e if_P[OF lt] s sb using m(2) by simp
qed

section \<open>Allocation and the live blocks\<close>

lemma malloc_bucket_fits:
  assumes "16 < req" "req \<le> 4080"
  obtains b where "malloc_bucket req = Some b" "b < 9" "unat req + 16 \<le> bsz b"
proof -
  let ?P = "\<lambda>i. of_nat (bsz i) \<ge> req + 16"
  have u: "unat (req + 16) = unat req + 16" using assms(2) by (subst unat_add_small) (simp_all add: word_le_nat_alt)
  have "req + 16 \<le> 4096" using assms(2) u by (simp add: word_le_nat_alt)
  then have "?P 8" by (simp add: bucket_sz_def)
  then obtain b where b: "find ?P [0..<9] = Some b" "b \<le> 8" using find_upt_ex[of 0 8 9 ?P] by auto
  then have "?P b" using find_upt_Some[of ?P 0 9 b] by simp
  moreover have "unat (of_nat (bsz b) :: u64) = bsz b" using bsz_facts[of b] b(2) by (intro unat_of_nat_small) simp
  ultimately have "unat req + 16 \<le> bsz b" using u by (simp add: word_le_nat_alt)
  moreover have "\<not> req \<le> 16" using assms(1) by simp
  then have "malloc_bucket req = Some b" using b(1) by (simp add: malloc_bucket_def MALLOC_BUCKETS_def)
  ultimately show ?thesis using that b(2) by simp
qed

lemma add_page_inv:
  assumes inv: "um_inv s pg F live" and b: "b < 9" and G: "G (ubrk s + 4096)" "unat (ubrk s + 4096) < 2 ^ 62" and F: "F b = []"
  obtains pg' h hs where "um_inv (malloc_add_page G b s) pg' (F(b := h # hs)) live" "pg \<subseteq>\<^sub>m pg'"
    "only_changes (ubrk s) 4096 (um s) (um (malloc_add_page G b s))" "unat (ubrk s) \<le> unat h"
proof -
  note bo = um_invD(1)[OF inv] and z = bsz_facts[OF b]
  have n: "unat (ubrk s + 4096) = unat (ubrk s) + 4096" and al: "unat (ubrk s) mod 4096 = 0"
    using bo by (auto simp: break_ok_def page_aligned_def unat_add_small)
  define p where "p = unat (ubrk s) div 4096"
  have p: "unat (ubrk s) = 4096 * p" using al by (auto simp: p_def)
  have new: "pg p = None" using bo p unfolding break_ok_def by (cases "pg p") fastforce+
  let ?pg = "pg(p \<mapsto> b)" and ?s = "s\<lparr>ubrk := ubrk s + 4096\<rparr>"
  have le: "pg \<subseteq>\<^sub>m ?pg" using new by (auto simp: map_le_def)
  have i: "um_inv ?s ?pg F live"
    using n al p G(2) le by (intro um_inv_grow[OF inv]) (auto simp: page_aligned_def)
  have "\<forall>(h, c)\<in>live. unat h div 4096 \<noteq> p" using um_invD(5)[OF inv] new by (auto simp: block_ok_def valid_block_def)
  moreover have "4096 div bsz b * bsz b \<le> 4096" by simp
  ultimately obtain hs where hs: "um_inv (push_blocks (4096 div bsz b) (ubrk s) b ?s) ?pg (F(b := hs @ F b)) live"
    "length hs = 4096 div bsz b" "\<forall>h\<in>set hs. \<exists>i<4096 div bsz b. unat h = unat (ubrk s) + i * bsz b"
    "only_changes (ubrk s) 4096 (um ?s) (um (push_blocks (4096 div bsz b) (ubrk s) b ?s))"
    using push_blocks_inv[OF i _ b p, of "4096 div bsz b"] F by fastforce
  have "hs \<noteq> []" using hs(2) z by (auto simp: div_greater_zero_iff)
  then obtain h hs' where e: "hs = h # hs'" by (cases hs) auto
  show ?thesis
    by (rule that[of ?pg h hs']) (use hs le e F G(1) in \<open>auto simp: malloc_add_page_eq[OF bo b]\<close>)
qed

text \<open>
  What a request of more than 16 and at most 4080 bytes gives: nothing, if there is no free block and no page, and else
  a new live block that is large enough; the contents of the live blocks stay.
\<close>

lemma malloc_live:
  assumes inv: "um_inv s pg F live" and req: "16 < req" "req \<le> 4080" and G: "\<forall>a. G a \<longrightarrow> unat a < 2 ^ 62"
  obtains (none) b where "malloc G req s = (0, s)" "malloc_bucket req = Some b" "free_lists s ! b = 0" "\<not> G (ubrk s + 4096)"
  | (some) h b s' pg' F' where "malloc G req s = (h + 16, s')" "um_inv s' pg' F' (insert (h, b) live)" "(h, b) \<notin> live"
    "unat req + 16 \<le> bsz b" "valid_block pg' b h" "pg \<subseteq>\<^sub>m pg'"
    "\<forall>(k, c)\<in>live. \<forall>n. n + 16 \<le> bsz c \<longrightarrow> load_bytes n (um s') (k + 16) = load_bytes n (um s) (k + 16)"
proof -
  obtain b where b: "malloc_bucket req = Some b" "b < 9" "unat req + 16 \<le> bsz b" by (rule malloc_bucket_fits[OF req])
  have nz: "req \<noteq> 0" "\<not> MALLOC_MAX < req" using req by (auto simp: MALLOC_MAX_def word_less_nat_alt word_le_nat_alt)
  define s1 where "s1 = (if free_lists s ! b = 0 then malloc_add_page G b s else s)"
  have m: "malloc G req s = (if free_lists s1 ! b = 0 then (0, s1)
    else (free_lists s1 ! b + 16, put_magic (free_lists s1 ! b) (set_list b (hdr_next (um s1) (free_lists s1 ! b)) s1)))"
    using nz b(1) by (simp add: malloc_def s1_def Let_def)
  have empty: "free_lists s ! b = 0 \<longleftrightarrow> F b = []" using um_invD(2)[OF inv b(2)] by (cases "F b") auto
  have pay: "unat (k + 16) = unat k + 16" "unat k + bsz c \<le> unat (ubrk s)" "valid_block pg c k" if "(k, c) \<in> live" for k c
  proof -
    show v: "valid_block pg c k" using um_invD(5)[OF inv that] by (simp add: block_ok_def)
    note r = block_range[OF um_invD(1)[OF inv] v]
    show "unat (k + 16) = unat k + 16" using r(4,6) by (subst unat_add_small) simp_all
    show "unat k + bsz c \<le> unat (ubrk s)" by (rule r(3))
  qed
  show thesis
  proof (cases "F b = [] \<and> \<not> G (ubrk s + 4096)")
    case True
    then have "s1 = s" using empty by (simp add: s1_def malloc_add_page_eq[OF um_invD(1)[OF inv] b(2)])
    then show thesis using none m b(1) True empty by simp
  next
    case False
    obtain pg' h hs where p: "um_inv s1 pg' (F(b := h # hs)) live" "pg \<subseteq>\<^sub>m pg'"
      "\<forall>(k, c)\<in>live. \<forall>n. n + 16 \<le> bsz c \<longrightarrow> load_bytes n (um s1) (k + 16) = load_bytes n (um s) (k + 16)"
    proof (cases "F b")
      case Nil
      then have g: "G (ubrk s + 4096)" "unat (ubrk s + 4096) < 2 ^ 62" using False G by auto
      obtain pg' h hs where q: "um_inv (malloc_add_page G b s) pg' (F(b := h # hs)) live" "pg \<subseteq>\<^sub>m pg'"
        "only_changes (ubrk s) 4096 (um s) (um (malloc_add_page G b s))"
        using add_page_inv[of s pg F live b G] inv b(2) g Nil by metis
      have "load_bytes n (um (malloc_add_page G b s)) (k + 16) = load_bytes n (um s) (k + 16)" if "(k, c) \<in> live" "n + 16 \<le> bsz c" for k c n
        using pay[OF that(1)] that(2) unat_bound[of "ubrk s"] by (intro only_changes_load[OF q(3)]) simp_all
      moreover have "s1 = malloc_add_page G b s" using Nil empty by (simp add: s1_def)
      ultimately show thesis using q(1,2) by (intro that[of pg' h hs]) auto
    next
      case (Cons h hs)
      then have "F(b := h # hs) = F" by (simp add: fun_upd_idem)
      moreover have "s1 = s" using Cons empty by (simp add: s1_def)
      ultimately show thesis using inv by (intro that[of pg h hs]) auto
    qed
    let ?s' = "put_magic h (set_list b (hdr_next (um s1) h) s1)"
    note pb = pop_block_inv[OF p(1) b(2) fun_upd_same refl]
    have "load_bytes n (um ?s') (k + 16) = load_bytes n (um s) (k + 16)" if "(k, c) \<in> live" "n + 16 \<le> bsz c" for k c n
    proof -
      have v: "valid_block pg' c k" using pay(3)[OF that(1)] p(2) by (rule valid_block_mono)
      have "k \<noteq> h" using pb(5,6) that(1) v by (auto simp: valid_block_def)
      then have "unat h + bsz b \<le> unat k \<or> unat k + bsz c \<le> unat h" using valid_disjoint[OF pb(6) v] by auto
      then have "unat (k + 16) + n \<le> unat h \<or> unat h + 16 \<le> unat (k + 16)"
        using pay(1)[OF that(1)] that(2) bsz_facts[OF b(2)] by auto
      then have "load_bytes n (um ?s') (k + 16) = load_bytes n (um s1) (k + 16)"
        using pay(1,2)[OF that(1)] that(2) unat_bound[of "ubrk s"] by (intro only_changes_load[OF pb(2)]) simp_all
      then show ?thesis using p(3) that by auto
    qed
    then show thesis using some[OF _ pb(1,5) b(3) pb(6) p(2)] m pb(3,4) by auto
  qed
qed

section \<open>Programs that use the heap\<close>

text \<open>
  The abstract heap maps the pointers that a program holds to the bytes it has there. A step allocates more than 16 bytes,
  allocates a large area, frees a block or stores a byte into one.
\<close>

type_synonym aheap = "u64 \<rightharpoonup> u8 list"

inductive ustep :: "(u64 \<Rightarrow> bool) \<Rightarrow> uheap \<times> aheap \<Rightarrow> uheap \<times> aheap \<Rightarrow> bool" for G where
  alloc: "16 < req \<Longrightarrow> req \<le> 4080 \<Longrightarrow> malloc G req s = (p, s') \<Longrightarrow>
     ustep G (s, A) (s', if p = 0 then A else A(p \<mapsto> load_bytes (unat req) (um s') p))"
| large: "4096 < req \<Longrightarrow> req < 2 ^ 61 \<Longrightarrow> malloc G req s = (p, s') \<Longrightarrow> ustep G (s, A) (s', A)"
| release: "p \<in> dom A \<Longrightarrow> ustep G (s, A) (free p s, A(p := None))"
| store: "A p = Some bs \<Longrightarrow> i < length bs \<Longrightarrow>
     ustep G (s, A) (s\<lparr>um := (um s)(p + of_nat i := v)\<rparr>, A(p \<mapsto> bs[i := v]))"

inductive_cases ustepE: "ustep G (s, A) (s', A')"

definition urel :: "uheap \<Rightarrow> aheap \<Rightarrow> (nat \<rightharpoonup> nat) \<Rightarrow> (nat \<Rightarrow> u64 list) \<Rightarrow> (u64 \<times> nat) set \<Rightarrow> bool" where
  "urel s A pg F live \<longleftrightarrow> um_inv s pg F live \<and> dom A = (\<lambda>(h, b). h + 16) ` live \<and>
     (\<forall>(h, b)\<in>live. \<forall>bs. A (h + 16) = Some bs \<longrightarrow> length bs + 16 \<le> bsz b \<and> load_bytes (length bs) (um s) (h + 16) = bs)"

lemma live_unique: "um_inv s pg F live \<Longrightarrow> (h, b) \<in> live \<Longrightarrow> (h, c) \<in> live \<Longrightarrow> b = c"
  using um_invD(5)[of s pg F live h b] um_invD(5)[of s pg F live h c] by (simp add: block_ok_def)

lemma urelI:
  assumes "um_inv s pg F live" "dom A = (\<lambda>(h, b). h + 16) ` live"
    and "\<And>h b bs. (h, b) \<in> live \<Longrightarrow> A (h + 16) = Some bs \<Longrightarrow> length bs + 16 \<le> bsz b \<and> load_bytes (length bs) (um s) (h + 16) = bs"
  shows "urel s A pg F live"
  unfolding urel_def using assms by blast

lemma urelD: "urel s A pg F live \<Longrightarrow> (h, b) \<in> live \<Longrightarrow> A (h + 16) = Some bs \<Longrightarrow> length bs + 16 \<le> bsz b \<and> load_bytes (length bs) (um s) (h + 16) = bs"
  unfolding urel_def by blast

lemma urel_block:
  assumes "urel s A pg F live" "A p = Some bs"
  obtains h b where "p = h + 16" "(h, b) \<in> live" "length bs + 16 \<le> bsz b" "load_bytes (length bs) (um s) p = bs" "valid_block pg b h"
    "unat p = unat h + 16" "unat h + bsz b \<le> unat (ubrk s)" "unat (ustart s) \<le> unat h" "unat h + bsz b \<le> 2 ^ 62"
proof -
  have "p \<in> dom A" using assms(2) by auto
  then obtain h b where h: "p = h + 16" "(h, b) \<in> live" using assms(1) by (auto simp: urel_def)
  have inv: "um_inv s pg F live" using assms(1) by (simp add: urel_def)
  have v: "valid_block pg b h" using um_invD(5)[OF inv h(2)] by (simp add: block_ok_def)
  note r = block_range[OF um_invD(1)[OF inv] v]
  have "unat (h + 16) = unat h + 16" using r(4,6) by (subst unat_add_small) simp_all
  then show ?thesis using that h r v assms by (auto simp: urel_def)
qed

text \<open>The contents of the other blocks stay when one block changes.\<close>

lemma payload_other:
  assumes inv: "um_inv s pg F live" and l: "(h, b) \<in> live" "(k, c) \<in> live" "h \<noteq> k" and ch: "only_changes h (bsz b) (um s) m" and n: "n + 16 \<le> bsz c"
  shows "load_bytes n m (k + 16) = load_bytes n (um s) (k + 16)"
proof -
  have v: "valid_block pg b h" "valid_block pg c k" using um_invD(5)[OF inv] l by (auto simp: block_ok_def)
  note r = block_range[OF um_invD(1)[OF inv] v(2)]
  have "unat (k + 16) = unat k + 16" using r(4,6) by (subst unat_add_small) simp_all
  then show ?thesis using valid_disjoint[OF v l(3)] n r(4) by (intro only_changes_load[OF ch]) auto
qed

lemma urel_release:
  assumes "urel s A pg F live" "p \<in> dom A"
  shows "\<exists>pg F live. urel (free p s) (A(p := None)) pg F live"
proof -
  obtain h b where h: "p = h + 16" "(h, b) \<in> live" using assms by (auto simp: urel_def)
  have inv: "um_inv s pg F live" using assms(1) by (simp add: urel_def)
  note f = free_inv[OF inv h(2)] and u = live_unique[OF inv h(2)]
  have "valid_block pg b h" using um_invD(5)[OF inv h(2)] by (simp add: block_ok_def)
  from block_range(6)[OF um_invD(1)[OF inv] this] have ch: "only_changes h (bsz b) (um s) (um (free (h + 16) s))"
    using f(2) only_changes_mono by blast
  have "urel (free p s) (A(p := None)) pg (F(b := h # F b)) (live - {(h, b)})"
  proof (rule urelI)
    show "um_inv (free p s) pg (F(b := h # F b)) (live - {(h, b)})" using f(1) by (simp add: h(1))
    show "dom (A(p := None)) = (\<lambda>(h, b). h + 16) ` (live - {(h, b)})" using assms(1) u by (auto simp: urel_def h(1))
    fix k c bs assume a: "(k, c) \<in> live - {(h, b)}" "(A(p := None)) (k + 16) = Some bs"
    then have k: "(k, c) \<in> live" "A (k + 16) = Some bs" "h \<noteq> k" by (auto simp: h(1) split: if_splits)
    from urelD[OF assms(1) k(1,2)] payload_other[OF inv h(2) k(1,3) ch]
    show "length bs + 16 \<le> bsz c \<and> load_bytes (length bs) (um (free p s)) (k + 16) = bs" by (simp add: h(1))
  qed
  then show ?thesis by blast
qed

lemma urel_store:
  assumes "urel s A pg F live" "A p = Some bs" "i < length bs"
  shows "urel (s\<lparr>um := (um s)(p + of_nat i := v)\<rparr>) (A(p \<mapsto> bs[i := v])) pg F live"
proof -
  have inv: "um_inv s pg F live" using assms(1) by (simp add: urel_def)
  obtain h b where h: "p = h + 16" "(h, b) \<in> live" "length bs + 16 \<le> bsz b" "load_bytes (length bs) (um s) p = bs"
    "unat p = unat h + 16" "unat h + bsz b \<le> 2 ^ 62" by (rule urel_block[OF assms(1,2)]) (rule that)
  let ?m = "(um s)(p + of_nat i := v)"
  have pe: "p + of_nat i = h + of_nat (i + 16)" by (simp add: h(1))
  have i: "um_inv (s\<lparr>um := ?m\<rparr>) pg F live"
    unfolding pe using assms(3) h(3) by (intro payload_inv[OF inv h(2)]) simp_all
  have a: "unat (p + of_nat j) = unat p + j" if "j < length bs" for j
    using that h(3,5,6) by (intro unat_range[of p "length bs"]) simp_all
  have "unat h \<le> unat (p + of_nat i)" "unat (p + of_nat i) < unat h + bsz b" unfolding a[OF assms(3)] using h(3,5) assms(3) by linarith+
  then have ch: "only_changes h (bsz b) (um s) ?m" unfolding only_changes_def by auto
  have "load_bytes (length bs) ?m p = bs[i := v]"
  proof (rule nth_equalityI)
    fix j assume "j < length (load_bytes (length bs) ?m p)"
    then have j: "j < length bs" by simp
    have b: "um s (p + of_nat j) = bs ! j" using j arg_cong[OF h(4), of "\<lambda>xs. xs ! j"] by (simp add: load_bytes_def)
    have "j = i" if "p + of_nat j = p + of_nat i" using arg_cong[OF that, of unat] unfolding a[OF j] a[OF assms(3)] by simp
    then show "load_bytes (length bs) ?m p ! j = bs[i := v] ! j"
      using j b by (cases "j = i") (auto simp: load_bytes_def simp del: add_left_cancel)
  qed simp
  moreover have "dom (A(p \<mapsto> bs[i := v])) = dom A" using assms(2) by auto
  ultimately have m: "load_bytes (length bs) ?m p = bs[i := v]" "dom (A(p \<mapsto> bs[i := v])) = dom A" by simp_all
  show ?thesis
  proof (rule urelI[OF i])
    show "dom (A(p \<mapsto> bs[i := v])) = (\<lambda>(h, b). h + 16) ` live" unfolding m(2) using assms(1) by (simp add: urel_def)
    fix k c cs assume k: "(k, c) \<in> live" "(A(p \<mapsto> bs[i := v])) (k + 16) = Some cs"
    show "length cs + 16 \<le> bsz c \<and> load_bytes (length cs) (um (s\<lparr>um := ?m\<rparr>)) (k + 16) = cs"
    proof (cases "h = k")
      case True
      then show ?thesis using k m(1) h(1,3) live_unique[OF inv h(2), of c] by auto
    next
      case False
      then have "A (k + 16) = Some cs" using k(2) by (auto simp: h(1) split: if_splits)
      then show ?thesis using urelD[OF assms(1) k(1)] payload_other[OF inv h(2) k(1) False ch] by simp
    qed
  qed
qed

lemma urel_alloc:
  assumes "urel s A pg F live" "16 < req" "req \<le> 4080" "malloc G req s = (p, s')" "\<forall>a. G a \<longrightarrow> unat a < 2 ^ 62"
  shows "(\<exists>pg F live. urel s' (if p = 0 then A else A(p \<mapsto> load_bytes (unat req) (um s') p)) pg F live) \<and> p \<notin> dom A"
proof -
  have inv: "um_inv s pg F live" using assms(1) by (simp add: urel_def)
  have z: "0 \<notin> dom A" using urel_block[OF assms(1)] by fastforce
  show ?thesis
  proof (cases rule: malloc_live[OF inv assms(2,3,5), case_names none some])
    case (none b)
    then show ?thesis using assms(1,4) z by auto
  next
    case (some h b s1 pg' F')
    have e: "p = h + 16" "s' = s1" using some(1) assms(4) by simp_all
    have n: "p \<notin> dom A"
    proof
      assume "p \<in> dom A"
      then obtain k c where k: "p = k + 16" "(k, c) \<in> live" using assms(1) by (auto simp: urel_def)
      then have "h = k" using e(1) by simp
      then show False using live_unique[OF some(2), of h b c] k(2) some(3) by simp
    qed
    have "unat (h + 16) = unat h + 16" using block_range(4,6)[OF um_invD(1)[OF some(2)] some(5)] by (subst unat_add_small) simp_all
    then have "p \<noteq> 0" using e(1) by auto
    moreover have "urel s1 (A(p \<mapsto> load_bytes (unat req) (um s1) p)) pg' F' (insert (h, b) live)"
    proof (rule urelI)
      show "um_inv s1 pg' F' (insert (h, b) live)" by (rule some(2))
      show "dom (A(p \<mapsto> load_bytes (unat req) (um s1) p)) = (\<lambda>(h, b). h + 16) ` insert (h, b) live"
        using assms(1) e(1) by (auto simp: urel_def)
      fix k c bs assume k: "(k, c) \<in> insert (h, b) live" "(A(p \<mapsto> load_bytes (unat req) (um s1) p)) (k + 16) = Some bs"
      show "length bs + 16 \<le> bsz c \<and> load_bytes (length bs) (um s1) (k + 16) = bs"
      proof (cases "k = h")
        case True
        then show ?thesis using k e(1) some(4) live_unique[OF some(2), of h b c] by auto
      next
        case False
        then have l: "(k, c) \<in> live" "A (k + 16) = Some bs" using k e(1) by (auto split: if_splits)
        from urelD[OF assms(1) l] show ?thesis using some(7) l(1) by auto
      qed
    qed
    ultimately show ?thesis using n e(2) by auto
  qed
qed

lemma urel_large:
  assumes "urel s A pg F live" "4096 < req" "req < 2 ^ 61" "malloc G req s = (p, s')" "\<forall>a. G a \<longrightarrow> unat a < 2 ^ 62"
  shows "urel s' A pg F live"
proof -
  have inv: "um_inv s pg F live" using assms(1) by (simp add: urel_def)
  have u: "unat (ubrk s) < 2 ^ 62" "page_aligned (ubrk s)" using um_invD(1)[OF inv] by (auto simp: break_ok_def)
  let ?al = "(req + 0xFFF) AND NOT 0xFFF"
  have r: "4096 < unat req" "unat req < 2 ^ 61" using assms(2,3) by (simp_all add: word_less_nat_alt)
  have "unat (req + 0xFFF) = unat req + 4095" using r by (subst unat_add_small) simp_all
  then have al: "unat ?al = (unat req + 4095) div 4096 * 4096" by (simp only: unat_align4096)
  then have b: "unat ?al < 2 ^ 62" "0 < unat ?al" using r by (auto intro: order.strict_trans1)
  have n: "unat (ubrk s + ?al) = unat (ubrk s) + unat ?al" using u b by (intro unat_add_small) simp
  have m: "ubrk s + ?al \<noteq> - 1" "ubrk s \<noteq> - 1" using n u(1) b(1) by (intro not_minus_one; simp)+
  have "?al \<noteq> 0" "ubrk s + ?al \<noteq> 0" using b(2) n by auto
  then have "s' = s \<or> G (ubrk s + ?al) \<and> s' = s\<lparr>ubrk := ubrk s + ?al\<rparr>"
    using assms(2,4) by (auto simp: malloc_def MALLOC_MAX_def sbrk_def user_brk_def Let_def split: if_splits)
  then show ?thesis
  proof
    assume s': "G (ubrk s + ?al) \<and> s' = s\<lparr>ubrk := ubrk s + ?al\<rparr>"
    have "unat (ubrk s + ?al) mod 4096 = 0" using u(2) unfolding n al by (auto simp: page_aligned_def)
    then have "um_inv s' pg F live"
      using s' assms(5) n by (auto simp: page_aligned_def intro!: um_inv_grow[OF inv])
    moreover have "um s' = um s" using s' by simp
    ultimately show ?thesis using assms(1) by (simp add: urel_def)
  qed (use assms(1) in simp)
qed

definition fresh_heap :: "memory \<Rightarrow> u64 \<Rightarrow> uheap" where
  "fresh_heap m start = \<lparr>um = m, ubrk = start, ustart = start, free_lists = replicate 9 0\<rparr>"

lemma fresh_rel: "page_aligned start \<Longrightarrow> 0 < start \<Longrightarrow> unat start < 2 ^ 62 \<Longrightarrow> urel (fresh_heap m start) Map.empty Map.empty (\<lambda>b. []) {}"
  by (simp add: urel_def um_inv_def break_ok_def fresh_heap_def)

lemma ustep_rel:
  assumes "ustep G (s, A) (s', A')" "\<exists>pg F live. urel s A pg F live" "\<forall>a. G a \<longrightarrow> unat a < 2 ^ 62"
  shows "\<exists>pg F live. urel s' A' pg F live"
proof -
  obtain pg F live where R: "urel s A pg F live" using assms(2) by blast
  from assms(1) show ?thesis
  proof (rule ustepE, goal_cases)
    case 1
    then show ?case using urel_alloc[OF R _ _ _ assms(3)] by blast
  next
    case 2
    then show ?case using urel_large[OF R _ _ _ assms(3)] by fastforce
  next
    case 3
    then show ?case using urel_release[OF R] by blast
  next
    case 4
    then show ?case using urel_store[OF R] by blast
  qed
qed

lemma ustep_reachable:
  "(ustep G)\<^sup>*\<^sup>* x y \<Longrightarrow> \<exists>pg F live. urel (fst x) (snd x) pg F live \<Longrightarrow> \<forall>a. G a \<longrightarrow> unat a < 2 ^ 62 \<Longrightarrow> \<exists>pg F live. urel (fst y) (snd y) pg F live"
proof (induction rule: rtranclp_induct)
  case (step y z)
  then show ?case using ustep_rel[of G "fst y" "snd y" "fst z" "snd z"] by simp
qed simp

section \<open>Properties\<close>


lemma push_blocks_head: "b < length (free_lists s) \<Longrightarrow> free_lists (push_blocks (Suc n) a b s) ! b = a + of_nat n * of_nat (bsz b)"
proof -
  have "length (free_lists (push_blocks n a b s)) = length (free_lists s)" for n by (induction n) (simp_all add: push_block_def)
  then show "b < length (free_lists s) \<Longrightarrow> ?thesis" by (simp add: push_block_def)
qed

text \<open>
  Requests of at most 16 bytes get memory that is not theirs: the blocks of their bucket are as large as the header.
  The first such allocation of a process returns the address where the heap ends, and the second one the address of
  the header of the first block.
\<close>

theorem malloc_small_outside:
  assumes "page_aligned start" "0 < start" "unat start < 2 ^ 62" "G (start + 4096)" "0 < r1" "r1 \<le> 16" "0 < r2" "r2 \<le> 16"
    and "malloc G r1 (fresh_heap m start) = (p1, s1)" "malloc G r2 s1 = (p2, s2)"
  shows "p1 = start + 4096 \<and> ubrk s1 = start + 4096 \<and> p2 = p1 - 16"
proof -
  let ?s = "fresh_heap m start" and ?t = "push_blocks 256 start 0 ((fresh_heap m start)\<lparr>ubrk := start + 4096\<rparr>)"
  have bo: "break_ok ?s Map.empty" using fresh_rel[OF assms(1-3), of m] by (simp add: urel_def um_inv_def)
  have z: "bsz 0 = 16" by (simp add: bucket_sz_def)
  have f: "free_lists ?s ! 0 = 0" "length (free_lists ?s) = 9" by (simp_all add: fresh_heap_def)
  have t: "malloc_add_page G 0 ?s = ?t" using malloc_add_page_eq[OF bo, of 0 G] assms(4) by (simp add: z fresh_heap_def)
  have s256: "(256 :: nat) = Suc 255" "(255 :: nat) = Suc 254" by simp_all
  have h: "free_lists ?t ! 0 = start + 4080"
    unfolding s256(1) by (subst push_blocks_head) (simp_all add: z f(2))
  have u: "unat (start + 4080) = unat start + 4080" using assms(3) by (subst unat_add_small) simp_all
  then have nz: "start + 4080 \<noteq> 0" and r: "unat (start + 4080) + 16 \<le> 2 ^ 64" using assms(3) by auto
  have "?t = push_block (start + 4080) 0 (push_blocks 255 start 0 (?s\<lparr>ubrk := start + 4096\<rparr>))"
    unfolding s256(1) push_blocks.simps by (simp add: z)
  then have nx: "hdr_next (um ?t) (start + 4080) = free_lists (push_blocks 255 start 0 (?s\<lparr>ubrk := start + 4096\<rparr>)) ! 0"
    by (simp add: push_block_def put_reads[OF r])
  have h2: "hdr_next (um ?t) (start + 4080) = start + 4064"
    unfolding nx s256(2) by (subst push_blocks_head) (simp_all add: z f(2))
  have bk: "malloc G req s = (let s1 = (if free_lists s ! 0 = 0 then malloc_add_page G 0 s else s) in
     if free_lists s1 ! 0 = 0 then (0, s1)
     else let h = free_lists s1 ! 0 in (h + 16, put_magic h (set_list 0 (hdr_next (um s1) h) s1)))" if "0 < req" "req \<le> 16" for req s
  proof -
    have "req \<noteq> 0" "\<not> 4096 < req" using that by (auto simp: word_less_nat_alt word_le_nat_alt)
    then show ?thesis using that(2) by (simp add: malloc_def MALLOC_MAX_def malloc_bucket_def leD)
  qed
  have fs: "ubrk (push_blocks n a b s) = ubrk s" "length (free_lists (push_blocks n a b s)) = length (free_lists s)" for n a b s
    by (induction n) (simp_all add: push_block_def)
  have e1: "p1 = start + 4096" "s1 = put_magic (start + 4080) (set_list 0 (start + 4064) ?t)"
    using assms(9) nz unfolding bk[OF assms(5,6)] Let_def f(1) t h h2 by (auto simp: h h2)
  have "unat (start + 4064) = unat start + 4064" using assms(3) by (subst unat_add_small) simp_all
  then have "start + 4064 \<noteq> 0" by auto
  moreover have "free_lists s1 ! 0 = start + 4064" using e1(2) fs(2)[of 256 start 0] f(2) by simp
  ultimately have "p2 = start + 4064 + 16" using assms(10) unfolding bk[OF assms(7,8)] by (simp add: Let_def)
  moreover have "ubrk s1 = start + 4096" unfolding e1(2) by (simp add: fs(1))
  ultimately show ?thesis using e1(1) by simp
qed

text \<open>Requests of 4081 to 4096 bytes are refused although the larger ones are served.\<close>

lemma malloc_gap: "4080 < req \<Longrightarrow> req \<le> 4096 \<Longrightarrow> malloc G req s = (0, s)"
proof -
  assume r: "4080 < req" "req \<le> 4096"
  have u: "unat (req + 16) = unat req + 16" using r(2) by (subst unat_add_small) (simp_all add: word_le_nat_alt)
  have "\<not> of_nat (bsz i) \<ge> req + 16" if "i < 9" for i
  proof -
    have "unat (of_nat (bsz i) :: u64) = bsz i" "bsz i \<le> 4096" using bsz_facts[OF that] by (auto intro: unat_of_nat_small)
    then show ?thesis using u r(1) by (simp add: word_le_nat_alt word_less_nat_alt)
  qed
  then have "find (\<lambda>i. of_nat (bsz i) \<ge> req + 16) [0..<9] = None" by (simp add: find_upt_None)
  moreover have "\<not> req \<le> 16" "req \<noteq> 0" "\<not> 4096 < req" using r by (auto simp: word_less_nat_alt word_le_nat_alt)
  ultimately show ?thesis by (simp add: malloc_def malloc_bucket_def MALLOC_MAX_def MALLOC_BUCKETS_def leD)
qed

text \<open>A request close to the size of the address space lowers the break and returns the old one.\<close>

lemma malloc_huge_shrinks:
  "malloc (\<lambda>a. True) (- 8192) ((fresh_heap m 0x10000000)\<lparr>ubrk := 0x10004000\<rparr>) = (0x10004000, (fresh_heap m 0x10000000)\<lparr>ubrk := 0x10002000\<rparr>)"
  by (simp add: malloc_def MALLOC_MAX_def sbrk_def user_brk_def fresh_heap_def Let_def)

text \<open>A process that allocates 100 bytes.\<close>

definition grant_ex :: "u64 \<Rightarrow> bool" where "grant_ex a \<longleftrightarrow> a \<le> 0x10002000"


theorem malloc_small_outside_witness:
  "\<exists>p1 s1 p2 s2. malloc grant_ex 8 (fresh_heap (\<lambda>_. 0) 0x10000000) = (p1, s1) \<and> malloc grant_ex 16 s1 = (p2, s2) \<and>
     p1 = 0x10001000 \<and> ubrk s1 = 0x10001000 \<and> p2 = 0x10000FF0"
proof -
  obtain p1 s1 where a: "malloc grant_ex 8 (fresh_heap (\<lambda>_. 0) 0x10000000) = (p1, s1)" by (rule prod.exhaust)
  obtain p2 s2 where b: "malloc grant_ex 16 s1 = (p2, s2)" by (rule prod.exhaust)
  have "p1 = 0x10000000 + 4096 \<and> ubrk s1 = 0x10000000 + 4096 \<and> p2 = p1 - 16"
    by (rule malloc_small_outside[OF _ _ _ _ _ _ _ _ a b]) (simp_all add: page_aligned_def grant_ex_def)
  then show ?thesis using a b by simp
qed

end
