(* ===== verification/Spec2Isabelle.thy ===== *)
theory Spec2Isabelle
  imports MkfsProps Boot Programs Shell Umalloc
begin

text \<open>
  A verification library for the SwiftBSD kernel, an x86-64 kernel in C, its user programs and its image builder.

  \<^bold>\<open>The program.\<close> The boot code enters \<open>kmain\<close> (\<open>src/kernel/kmain.c\<close>), which sets up interrupts
  (\<open>arch/x86_64/idt.c\<close>, \<open>tss.c\<close>), the page allocator (\<open>mm/pmm.c\<close>), the kernel heap (\<open>mm/kheap.c\<close>), the process
  table (\<open>sched/sched.c\<close>), paging (\<open>arch/x86_64/vmm.c\<close>), the PCI bus (\<open>hal/pci.c\<close>), the AHCI disk driver
  (\<open>hal/ahci.c\<close>), the file layer (\<open>fs/vfs.c\<close>) and the file system SwiftFS (\<open>fs/swiftfs2.c\<close>), and starts the shell
  as process 1. Processes enter the kernel by system calls (\<open>user/syscall_handler.c\<close>), page faults and timer
  interrupts.

  \<^bold>\<open>The theories.\<close> Each component is one group of definitions with the names of the source; its state is a
  record with one field for each global variable or structure member, machine integers are words of their
  width, byte-addressed memory is a function from 64-bit addresses to bytes, and null pointers are 0 or
  \<^const>\<open>None\<close>.
  \<^item> \<open>Prelude\<close>: word and memory types, little-endian encodings, pages of memory, lists, generic lemmas and the
    fact collections \<open>frame_simps\<close> and \<open>inv_intros\<close>.
  \<^item> \<open>Bitmap\<close>, \<open>Allocator\<close>, \<open>Fifo\<close>, \<open>RoundRobin\<close>: the interfaces, as locales, of allocation bitmaps, allocators, byte
    queues and cyclic schedulers, with the lemmas their clients use; they are interpreted on the page
    allocator, the heap, the block allocator, the pipe and keyboard rings and the scheduler.
  \<^item> \<open>KernelLib\<close>: the memory and string functions, which end on every string and agree with operations on lists of
    bytes, and the second walk over the memory map (\<open>mm/pmem.c\<close>), which agrees with that of \<open>pmm.c\<close>.
  \<^item> \<open>Pmm\<close>: the page allocator; the scan of the multiboot2 memory map is a \<open>partial_function\<close>, because a block
    without an end tag makes it run for ever, and is proved to end on every block with one.
  \<^item> \<open>Kheap\<close>: the heap as the list of its blocks, with wrap-around in the size arithmetic.
  \<^item> \<open>Pipe\<close>, \<open>Vfs\<close>: pipes and the descriptor table. A call that waits consumes a list with one entry for each
    yield, saying what the other processes do meanwhile; a call still waiting at its end \<open>Blocks\<close>.
  \<^item> \<open>Vmm\<close>, \<open>VmmMap\<close>, \<open>VmmProps\<close>: four-level page tables in physical memory; \<open>node\<close> and \<open>translate\<close> read them as the
    processor does, \<open>vm_inv\<close> says that they form a tree of pages in use, and mapping, unmapping and splitting
    of large pages are shown to update the translation of one page.
  \<^item> \<open>Process\<close>, \<open>ProcessProps\<close>: the process table, \<open>fork\<close>, \<open>exit\<close>, \<open>wait\<close> and the scheduler; \<open>kstep\<close> is one
    operation on the table.
  \<^item> \<open>Vma\<close>: the virtual memory areas of a process; \<open>vma_attr\<close> is what an address sees of them.
  \<^item> \<open>Fault\<close>, \<open>FaultProps\<close>: the page fault handler, and kernel accesses through the page tables.
  \<^item> \<open>Elf\<close>: the program loader (\<open>elf.c\<close>).
  \<^item> \<open>Syscall\<close>, \<open>SyscallProps\<close>, \<open>MemoryProps\<close>: all system calls, composed from the components above;
    \<open>kernel_inv\<close> is the invariant of the whole kernel, \<open>kernel_step\<close> a system call, page fault or timer interrupt.
  \<^item> \<open>Console\<close>, \<open>Keyboard\<close>: the formats and log lines as the bytes they send, and the keyboard driver, whose ring holds
    what was typed.
  \<^item> \<open>Interrupts\<close>: gates, system call registers, interrupt controllers, timer and task state segment as the
    processor and the chips read them, the dispatch of interrupts and the register dumps.
  \<^item> \<open>Pci\<close>: the enumeration of the devices over a configuration space that is a parameter; it ends on every tree of
    buses and finds every function.
  \<^item> \<open>Ahci\<close>, \<open>AhciEmu\<close>, \<open>AhciInit\<close>: the disk driver over a controller that is a parameter with the laws of an AHCI
    controller as the locale \<open>ahci_controller\<close>; an executable controller satisfies them. The driver is shown to
    satisfy the locale \<open>block_device\<close> that the file system relies on, and its start to give each port pages of its own.
  \<^item> \<open>SwiftfsFormat\<close>, \<open>SwiftfsCache\<close>, \<open>SwiftfsAlloc\<close>, \<open>SwiftfsInode\<close>, \<open>SwiftfsDir\<close>, \<open>SwiftfsFile\<close>, \<open>SwiftfsData\<close>,
    \<open>SwiftfsMount\<close>: the file system, from the on-disk formats and the block cache to files, directories and
    mounting, over any block device; \<open>SwiftfsExample\<close> is a small file system on the emulated drive and
    \<open>SwiftfsProps\<close> holds the properties.
  \<^item> \<open>Mkfs\<close>, \<open>MkfsProps\<close>: the image builder (\<open>tools/mkfs.swiftfs2.c\<close>); the file system mounts what it builds.
  \<^item> \<open>Boot\<close>: \<open>kmain\<close>, from the devices to the jump to process 1, at which \<open>kernel_inv\<close> holds, and the loader of flat
    programs (\<open>user/user.c\<close>).
  \<^item> \<open>Umalloc\<close>: the user allocator (\<open>src/userland/malloc.h\<close>) with its free lists as linked headers in memory; for
    requests of more than 16 bytes it implements a heap of independent arrays.
  \<^item> \<open>Shell\<close>, \<open>Programs\<close>: the shell, with line editing, history and path normalisation, and \<open>ls\<close>, \<open>cat\<close> and \<open>echo\<close> over a
    record of system calls, the locale \<open>file_reader\<close> being what they rely on.

  \<^bold>\<open>Loops and bounds.\<close> Loops whose end depends on outside data are \<open>partial_function (option)\<close> and their end is
  proved under the stated conditions; loops with a counter are primitive recursions or functions with a
  measure. The 65536 attempts of \<open>pid_alloc\<close> and the 64 slots of the tables are the constants of the source;
  \<open>pid_alloc\<close> is shown to need at most 65 attempts.

  \<^bold>\<open>Not modelled.\<close> Boot code, interrupt entry and context switch in assembly; the programming of the serial line and
  the wait for its transmitter; translation caches, and so \<open>invlpg\<close>; interrupts inside kernel code other than at
  the yields; the module loader (\<open>modules/module_loader.c\<close>), which only logs and calls a module written in Rust; the
  system call wrappers of \<open>src/userland/syscall.h\<close>, which only load registers.
\<close>

end
